(* ===== verification/Vibe_Prelude.thy ===== *)
theory Vibe_Prelude
  imports Main "HOL-Library.Word" "HOL-Library.Monad_Syntax"
begin

unbundle bit_operations_syntax

text \<open>
  Shared material of the VibeRTOS development: the machine-integer types the C sources use,
  the two compiler builtins the kernel and the TLSF heap call (\<^verbatim>\<open>__builtin_clz\<close> and
  \<^verbatim>\<open>__builtin_ctz\<close>), the theorem collections the component theories extend, and the generic
  lemmas on words, bit masks, lists and ring indices that their proofs share.
\<close>

section \<open>Types and collections\<close>

type_synonym u8 = "8 word"
type_synonym u32 = "32 word"
type_synonym u64 = "64 word"

named_theorems list_ops \<open>definitions of the intrusive list operations\<close>
named_theorems kernel_ops \<open>definitions of the kernel operations below the scheduler\<close>
named_theorems frame_simps \<open>fields an operation leaves alone\<close>

section \<open>Compiler builtins\<close>

text \<open>
  \<^verbatim>\<open>__builtin_clz\<close> counts the leading zero bits of an unsigned int and
  \<^verbatim>\<open>__builtin_ctz\<close> the trailing ones; both are undefined at 0, where the model returns the
  width and every caller of the sources has checked for 0 before.
\<close>

primrec clz_upto :: "nat \<Rightarrow> u32 \<Rightarrow> nat" where
  "clz_upto 0 w = 0"
| "clz_upto (Suc n) w = (if bit w n then 0 else Suc (clz_upto n w))"

definition builtin_clz :: "u32 \<Rightarrow> nat" where
  "builtin_clz w = clz_upto 32 w"

primrec ctz_from :: "nat \<Rightarrow> nat \<Rightarrow> u32 \<Rightarrow> nat" where
  "ctz_from 0 i w = i"
| "ctz_from (Suc n) i w = (if bit w i then i else ctz_from n (Suc i) w)"

definition builtin_ctz :: "u32 \<Rightarrow> nat" where
  "builtin_ctz w = ctz_from 32 0 w"

section \<open>Words and bit masks\<close>

lemma word_nonzero_bit: "(w::u32) \<noteq> 0 \<longleftrightarrow> (\<exists>i<32. bit w i)"
  by (auto simp: bit_eq_iff)

lemma u32_bit_bound: "bit (w::u32) i \<Longrightarrow> i < 32"
  using bit_imp_le_length [of w i] by simp

lemma clz_upto_le: "clz_upto n w \<le> n"
  by (induction n) auto

lemma clz_upto_top:
  "\<exists>i<n. bit w i \<Longrightarrow>
     clz_upto n w < n \<and> bit w (n - 1 - clz_upto n w) \<and> (\<forall>j. n - 1 - clz_upto n w < j \<and> j < n \<longrightarrow> \<not> bit w j)"
proof (induction n)
  case 0
  then show ?case by simp
next
  case (Suc n)
  show ?case
  proof (cases "bit w n")
    case True
    then show ?thesis by (auto simp: less_Suc_eq)
  next
    case False
    with Suc.prems have "\<exists>i<n. bit w i" using less_Suc_eq by auto
    with Suc.IH False show ?thesis by (auto simp: less_Suc_eq)
  qed
qed

lemma builtin_clz_top:
  assumes "w \<noteq> 0"
  shows "builtin_clz w < 32" "bit w (31 - builtin_clz w)" "\<And>j. bit w j \<Longrightarrow> j \<le> 31 - builtin_clz w"
proof -
  from assms have "\<exists>i<32. bit w i" by (simp add: word_nonzero_bit)
  note top = clz_upto_top [OF this, folded builtin_clz_def]
  show "builtin_clz w < 32" "bit w (31 - builtin_clz w)" using top by auto
  show "j \<le> 31 - builtin_clz w" if "bit w j" for j
    using top that u32_bit_bound [OF that] by (force simp: not_le [symmetric])
qed

lemma ctz_from_low:
  "\<exists>j. i \<le> j \<and> j < i + n \<and> bit w j \<Longrightarrow>
     i \<le> ctz_from n i w \<and> ctz_from n i w < i + n \<and> bit w (ctz_from n i w) \<and>
     (\<forall>j. i \<le> j \<and> bit w j \<longrightarrow> ctz_from n i w \<le> j)"
proof (induction n arbitrary: i)
  case 0
  then show ?case by auto
next
  case (Suc n)
  show ?case
  proof (cases "bit w i")
    case True
    then show ?thesis by simp
  next
    case False
    with Suc.prems have "\<exists>j. Suc i \<le> j \<and> j < Suc i + n \<and> bit w j"
      by (metis Suc_leI add_Suc_right add_Suc le_neq_implies_less)
    from Suc.IH [OF this] have IH: "Suc i \<le> ctz_from n (Suc i) w" "ctz_from n (Suc i) w < Suc i + n"
        "bit w (ctz_from n (Suc i) w)" "\<And>j. Suc i \<le> j \<Longrightarrow> bit w j \<Longrightarrow> ctz_from n (Suc i) w \<le> j"
      by auto
    have "ctz_from n (Suc i) w \<le> j" if "i \<le> j" "bit w j" for j
      using that False by (intro IH(4)) (auto simp: Suc_le_eq le_less)
    with IH False show ?thesis by auto
  qed
qed

lemma builtin_ctz_low:
  assumes "w \<noteq> 0"
  shows "builtin_ctz w < 32" "bit w (builtin_ctz w)" "\<And>j. bit w j \<Longrightarrow> builtin_ctz w \<le> j"
proof -
  from assms have "\<exists>j. 0 \<le> j \<and> j < 0 + 32 \<and> bit w j" by (auto simp: word_nonzero_bit)
  note low = ctz_from_low [OF this, folded builtin_ctz_def]
  show "builtin_ctz w < 32" "bit w (builtin_ctz w)" using low by auto
  show "builtin_ctz w \<le> j" if "bit w j" for j using low that by auto
qed

text \<open>\<^verbatim>\<open>BIT(n)\<close> of \<^verbatim>\<open>include/vibe/sys/util.h\<close>, at the width of an ARM \<^verbatim>\<open>unsigned long\<close>.\<close>

definition BIT :: "nat \<Rightarrow> u32" where
  "BIT n = push_bit n 1"

lemma bit_BIT [simp]: "bit (BIT p) i \<longleftrightarrow> i = p \<and> p < 32"
  by (auto simp: BIT_def bit_exp_iff)

lemma bit_set_mask [simp]: "p < 32 \<Longrightarrow> bit (w OR BIT p) i \<longleftrightarrow> bit w i \<or> i = p"
  by (auto simp: bit_or_iff)

lemma bit_clear_mask [simp]: "p < 32 \<Longrightarrow> bit (w AND NOT (BIT p)) i \<longleftrightarrow> bit w i \<and> i \<noteq> p"
  by (auto simp: bit_and_iff bit_not_iff dest: bit_imp_le_length)

section \<open>Arithmetic on 32-bit counters\<close>

lemma u32_bound: "unat (w :: u32) < 2 ^ 32"
  using unsigned_less [of w] by simp

lemma unat_plus_u32: "unat a + unat b < 2 ^ 32 \<Longrightarrow> unat (a + b :: u32) = unat a + unat b"
  using unat_add_lem [of a b] by simp

lemma unat_inc_u32: "unat a + 1 < 2 ^ 32 \<Longrightarrow> unat (a + 1 :: u32) = unat a + 1"
  using unat_plus_u32 [of a 1] by simp

lemma unat_minus_u32: "b \<le> a \<Longrightarrow> unat (a - b :: u32) = unat a - unat b"
  by (rule unat_sub)

lemma unat_dec_u32: "a > 0 \<Longrightarrow> unat (a - 1 :: u32) = unat a - 1"
  using unat_minus_one [of a] by auto

lemma unat_times_u32: "unat a * unat b < 2 ^ 32 \<Longrightarrow> unat (a * b :: u32) = unat a * unat b"
  using unat_mult_lem [of a b] by simp

lemma unat_of_nat_u32: "n < 2 ^ 32 \<Longrightarrow> unat (of_nat n :: u32) = n"
  by (simp add: unat_of_nat take_bit_nat_eq_self)

section \<open>Ring buffers\<close>

text \<open>
  The content of a ring of \<open>size\<close> slots with \<open>used\<close> of them filled from slot \<open>head\<close> on: shared
  by the message queue, the pipe, the byte ring and the RTT channels.
\<close>

definition ring_content :: "(nat \<Rightarrow> 'a) \<Rightarrow> nat \<Rightarrow> nat \<Rightarrow> nat \<Rightarrow> 'a list" where
  "ring_content buf sz head used = map (\<lambda>i. buf ((head + i) mod sz)) [0..<used]"

lemma length_ring_content [simp]: "length (ring_content buf sz head used) = used"
  by (simp add: ring_content_def)

lemma ring_content_0 [simp]: "ring_content buf sz head 0 = []"
  by (simp add: ring_content_def)

lemma ring_slots_distinct:
  assumes "i < j" "j < sz"
  shows "(h + i) mod sz \<noteq> (h + j) mod (sz::nat)"
proof
  assume "(h + i) mod sz = (h + j) mod sz"
  then have "sz dvd (h + j) - (h + i)" using assms by (metis mod_eq_dvd_iff_nat add_le_cancel_left less_imp_le)
  with assms show False by (auto dest: dvd_imp_le)
qed

lemma ring_push:
  assumes "used < sz"
  shows "ring_content (buf((head + used) mod sz := x)) sz head (Suc used) = ring_content buf sz head used @ [x]"
proof -
  have old: "(buf((head + used) mod sz := x)) ((head + i) mod sz) = buf ((head + i) mod sz)" if "i < used" for i
    by (rule fun_upd_other) (rule ring_slots_distinct [OF that assms])
  have "map (\<lambda>i. (buf((head + used) mod sz := x)) ((head + i) mod sz)) [0..<used] =
      map (\<lambda>i. buf ((head + i) mod sz)) [0..<used]"
    by (rule map_cong [OF refl], rule old) (simp only: set_upt atLeastLessThan_iff)
  then show ?thesis by (simp only: ring_content_def upt_Suc_append map_append list.map fun_upd_same le0)
qed

lemma ring_pop:
  assumes "head < sz"
  shows "ring_content buf sz head (Suc used) = buf head # ring_content buf sz (Suc head mod sz) used"
proof -
  have "[0..<Suc used] = 0 # map Suc [0..<used]"
    using upt_conv_Cons [of 0 "Suc used"] by (simp only: map_Suc_upt zero_less_Suc)
  moreover have "(Suc head mod sz + i) mod sz = (head + Suc i) mod sz" for i
    by (simp only: mod_add_left_eq add_Suc add_Suc_right)
  ultimately show ?thesis using assms by (simp add: ring_content_def comp_def del: upt_Suc)
qed

lemma ring_content_cong:
  "(\<And>i. i < used \<Longrightarrow> buf' ((head + i) mod sz) = buf ((head + i) mod sz)) \<Longrightarrow>
   ring_content buf' sz head used = ring_content buf sz head used"
  by (simp add: ring_content_def)

section \<open>Clearing the low bits of an address\<close>

lemma unat_clear_low3: "unat (w AND NOT (mask 3) :: u32) = unat w div 8 * 8"
proof -
  have "w AND NOT (mask 3) = push_bit 3 (drop_bit 3 w)"
    by (rule bit_word_eqI) (auto simp: bit_and_iff bit_not_iff bit_mask_iff bit_push_bit_iff bit_drop_bit_eq not_less)
  also have "\<dots> = drop_bit 3 w * 8" by (simp add: push_bit_eq_mult)
  finally have eq: "w AND NOT (mask 3) = drop_bit 3 w * 8" .
  have d: "unat (drop_bit 3 w) = unat w div 8" by (simp add: drop_bit_eq_div unat_div)
  have "unat (drop_bit 3 w * 8) = unat (drop_bit 3 w) * unat (8 :: u32)"
    by (rule unat_times_u32) (use u32_bound [of w] in \<open>simp add: d\<close>)
  then show ?thesis by (simp only: eq d) simp
qed

lemma unat_clear_7: "unat (w AND NOT 7 :: u32) = unat w div 8 * 8"
  using unat_clear_low3 [of w] by (simp add: mask_eq_exp_minus_1)

lemma and_7_mod: "b AND 7 = (0 :: u32) \<Longrightarrow> unat b mod 8 = 0"
proof -
  assume "b AND 7 = (0 :: u32)"
  moreover have "b AND 7 = take_bit 3 b" by (simp add: take_bit_eq_mask mask_eq_exp_minus_1)
  ultimately have "unat (take_bit 3 b) = 0" by simp
  then show ?thesis by (simp add: unsigned_take_bit_eq take_bit_eq_mod unat_mod)
qed

end
