(* ===== verification/Vibe_List.thy ===== *)
theory Vibe_List
  imports Vibe_Prelude
begin

text \<open>
  The intrusive doubly-linked list of \<^verbatim>\<open>include/vibe/sys/list.h\<close>, at the level of its pointers.
  A node lives in a struct of its owner, so a node pointer is identified with its owner (type
  \<^typ>\<open>'n\<close>, \<^verbatim>\<open>CONTAINER_OF\<close> is the identity) and \<^verbatim>\<open>NULL\<close> is \<^term>\<open>None\<close>; the node fields
  live in a link store (a function from owners to node records) that every operation reads and updates in
  the order of the C statements, so aliasing (a node that is already linked, a header that does
  not hold the node) has the effect it has in C. The predicate \<open>dll\<close> says that a header and a
  store represent a HOL list; the laws of the operations over it are the locale \<open>node_list\<close>,
  interpreted on the operations at the end of the theory.
\<close>

section \<open>Data and operations\<close>

record 'n vibe_list_node =
  node_prev :: "'n option"
  node_next :: "'n option"

record 'n vibe_list =
  l_head :: "'n option"
  l_tail :: "'n option"
  l_count :: u32

type_synonym 'n links = "'n \<Rightarrow> 'n vibe_list_node"

definition vibe_list_init :: "'n vibe_list" where
  "vibe_list_init = \<lparr>l_head = None, l_tail = None, l_count = 0\<rparr>"

definition vibe_list_node_init :: "'n \<Rightarrow> 'n links \<Rightarrow> 'n links" where
  "vibe_list_node_init n L = L(n := \<lparr>node_prev = None, node_next = None\<rparr>)"

definition vibe_list_is_empty :: "'n vibe_list \<Rightarrow> bool" where
  "vibe_list_is_empty l \<longleftrightarrow> l_head l = None"

definition vibe_list_count :: "'n vibe_list \<Rightarrow> u32" where
  "vibe_list_count l = l_count l"

definition vibe_list_peek_head :: "'n vibe_list \<Rightarrow> 'n option" where
  "vibe_list_peek_head l = l_head l"

definition vibe_list_peek_tail :: "'n vibe_list \<Rightarrow> 'n option" where
  "vibe_list_peek_tail l = l_tail l"

definition set_next :: "'n \<Rightarrow> 'n option \<Rightarrow> 'n links \<Rightarrow> 'n links" where
  "set_next n v L = L(n := (L n)\<lparr>node_next := v\<rparr>)"

definition set_prev :: "'n \<Rightarrow> 'n option \<Rightarrow> 'n links \<Rightarrow> 'n links" where
  "set_prev n v L = L(n := (L n)\<lparr>node_prev := v\<rparr>)"

definition vibe_list_append :: "'n vibe_list \<Rightarrow> 'n \<Rightarrow> 'n links \<Rightarrow> 'n vibe_list \<times> 'n links" where
  "vibe_list_append l n L =
     (let L = set_next n None L;
          L = set_prev n (l_tail l) L;
          (l, L) = (case l_tail l of
                      Some t \<Rightarrow> (l, set_next t (Some n) L)
                    | None \<Rightarrow> (l\<lparr>l_head := Some n\<rparr>, L))
      in (l\<lparr>l_tail := Some n, l_count := l_count l + 1\<rparr>, L))"

definition vibe_list_prepend :: "'n vibe_list \<Rightarrow> 'n \<Rightarrow> 'n links \<Rightarrow> 'n vibe_list \<times> 'n links" where
  "vibe_list_prepend l n L =
     (let L = set_prev n None L;
          L = set_next n (l_head l) L;
          (l, L) = (case l_head l of
                      Some h \<Rightarrow> (l, set_prev h (Some n) L)
                    | None \<Rightarrow> (l\<lparr>l_tail := Some n\<rparr>, L))
      in (l\<lparr>l_head := Some n, l_count := l_count l + 1\<rparr>, L))"

text \<open>\<^verbatim>\<open>after\<close> is dereferenced unconditionally: a \<^verbatim>\<open>NULL\<close> argument faults (\<^term>\<open>None\<close>).\<close>

definition vibe_list_insert_after ::
    "'n vibe_list \<Rightarrow> 'n option \<Rightarrow> 'n \<Rightarrow> 'n links \<Rightarrow> ('n vibe_list \<times> 'n links) option" where
  "vibe_list_insert_after l after n L =
     (case after of
        None \<Rightarrow> None
      | Some a \<Rightarrow>
          (let L = set_prev n (Some a) L;
               L = set_next n (node_next (L a)) L;
               (l, L) = (case node_next (L a) of
                           Some x \<Rightarrow> (l, set_prev x (Some n) L)
                         | None \<Rightarrow> (l\<lparr>l_tail := Some n\<rparr>, L));
               L = set_next a (Some n) L
           in Some (l\<lparr>l_count := l_count l + 1\<rparr>, L)))"

definition vibe_list_remove :: "'n vibe_list \<Rightarrow> 'n \<Rightarrow> 'n links \<Rightarrow> 'n vibe_list \<times> 'n links" where
  "vibe_list_remove l n L =
     (let (l, L) = (case node_prev (L n) of
                      Some p \<Rightarrow> (l, set_next p (node_next (L n)) L)
                    | None \<Rightarrow> (l\<lparr>l_head := node_next (L n)\<rparr>, L));
          (l, L) = (case node_next (L n) of
                      Some x \<Rightarrow> (l, set_prev x (node_prev (L n)) L)
                    | None \<Rightarrow> (l\<lparr>l_tail := node_prev (L n)\<rparr>, L));
          L = set_prev n None L;
          L = set_next n None L
      in (l\<lparr>l_count := l_count l - 1\<rparr>, L))"

definition vibe_list_get_head :: "'n vibe_list \<Rightarrow> 'n links \<Rightarrow> 'n option \<times> 'n vibe_list \<times> 'n links" where
  "vibe_list_get_head l L =
     (case l_head l of
        None \<Rightarrow> (None, l, L)
      | Some n \<Rightarrow> (let (l, L) = vibe_list_remove l n L in (Some n, l, L)))"

text \<open>
  The nodes \<^verbatim>\<open>VIBE_LIST_FOR_EACH\<close> visits from a start node, when the body changes no link: the
  walk follows \<^verbatim>\<open>next\<close> until \<^verbatim>\<open>NULL\<close> and does not return on a cyclic chain.
\<close>

partial_function (option) vibe_list_visit :: "'n links \<Rightarrow> 'n option \<Rightarrow> 'n list option" where
  "vibe_list_visit L node =
     (case node of
        None \<Rightarrow> Some []
      | Some n \<Rightarrow> do { ns \<leftarrow> vibe_list_visit L (node_next (L n)); Some (n # ns) })"

lemmas vibe_list_defs [list_ops] =
  vibe_list_init_def vibe_list_is_empty_def vibe_list_count_def vibe_list_peek_head_def
  vibe_list_peek_tail_def vibe_list_append_def vibe_list_prepend_def vibe_list_insert_after_def
  vibe_list_remove_def vibe_list_get_head_def set_next_def set_prev_def

section \<open>Representation\<close>

text \<open>
  \<open>dlseg L p xs q\<close>: the nodes \<open>xs\<close> are chained in both directions, the first one's \<^verbatim>\<open>prev\<close> is
  \<open>p\<close> and the last one's \<^verbatim>\<open>next\<close> is \<open>q\<close>.
\<close>

primrec head_or :: "'n list \<Rightarrow> 'n option \<Rightarrow> 'n option" where
  "head_or [] q = q"
| "head_or (x # xs) q = Some x"

primrec last_or :: "'n option \<Rightarrow> 'n list \<Rightarrow> 'n option" where
  "last_or p [] = p"
| "last_or p (x # xs) = last_or (Some x) xs"

primrec dlseg :: "'n links \<Rightarrow> 'n option \<Rightarrow> 'n list \<Rightarrow> 'n option \<Rightarrow> bool" where
  "dlseg L p [] q \<longleftrightarrow> True"
| "dlseg L p (x # xs) q \<longleftrightarrow>
     node_prev (L x) = p \<and> node_next (L x) = head_or xs q \<and> dlseg L (Some x) xs q"

definition dll :: "'n links \<Rightarrow> 'n vibe_list \<Rightarrow> 'n list \<Rightarrow> bool" where
  "dll L l xs \<longleftrightarrow>
     distinct xs \<and> dlseg L None xs None \<and> l_head l = head_or xs None \<and>
     l_tail l = last_or None xs \<and> l_count l = of_nat (length xs)"

lemma head_or_append [simp]: "head_or (xs @ ys) q = head_or xs (head_or ys q)"
  by (cases xs) auto

lemma last_or_append [simp]: "last_or p (xs @ ys) = last_or (last_or p xs) ys"
  by (induction xs arbitrary: p) auto

lemma last_or_snoc: "last_or p xs = Some y \<Longrightarrow> p \<noteq> Some y \<Longrightarrow> \<exists>ys. xs = ys @ [y]"
  by (induction xs arbitrary: p rule: rev_induct) auto

lemma head_or_None [simp]: "head_or xs None = None \<longleftrightarrow> xs = []"
  by (cases xs) auto

lemma head_or_Some: "head_or xs None = Some x \<longleftrightarrow> (\<exists>ys. xs = x # ys)"
  by (cases xs) auto

lemma last_or_None [simp]: "last_or None xs = None \<longleftrightarrow> xs = []"
  by (cases xs rule: rev_cases) auto

lemma last_or_None_Some: "last_or None xs = Some x \<longleftrightarrow> (\<exists>ys. xs = ys @ [x])"
  by (cases xs rule: rev_cases) auto

lemma dlseg_append [simp]:
  "dlseg L p (xs @ ys) q \<longleftrightarrow> dlseg L p xs (head_or ys q) \<and> dlseg L (last_or p xs) ys q"
  by (induction xs arbitrary: p) auto

lemma dlseg_cong:
  "(\<And>x. x \<in> set xs \<Longrightarrow> L' x = L x) \<Longrightarrow> dlseg L' p xs q = dlseg L p xs q"
  by (induction xs arbitrary: p) auto

lemma dlseg_upd [simp]: "n \<notin> set xs \<Longrightarrow> dlseg (L(n := v)) p xs q = dlseg L p xs q"
  by (rule dlseg_cong) auto

lemma dll_cong: "(\<And>x. x \<in> set xs \<Longrightarrow> L' x = L x) \<Longrightarrow> dll L' l xs = dll L l xs"
  using dlseg_cong [of xs L' L None None] by (simp add: dll_def)

lemma dll_distinct: "dll L l xs \<Longrightarrow> distinct xs"
  by (simp add: dll_def)

lemma dll_Nil [simp]: "dll L vibe_list_init []"
  by (simp add: dll_def vibe_list_init_def)

lemma dlseg_unique:
  "dlseg L p xs None \<Longrightarrow> dlseg L q ys None \<Longrightarrow> head_or xs None = head_or ys None \<Longrightarrow> xs = ys"
proof (induction xs arbitrary: p q ys)
  case Nil
  then show ?case by (cases ys) auto
next
  case (Cons x xs)
  from Cons.prems(3) obtain zs where ys: "ys = x # zs" by (cases ys) auto
  from Cons.prems(1,2) have "head_or xs None = head_or zs None" unfolding ys by (simp only: dlseg.simps)
  with Cons.prems(1,2) have "xs = zs" unfolding ys by (auto intro: Cons.IH)
  then show ?case by (simp add: ys)
qed

lemma dll_unique: "dll L l xs \<Longrightarrow> dll L l ys \<Longrightarrow> xs = ys"
  by (auto simp: dll_def intro: dlseg_unique)

lemma dll_empty: "dll L l xs \<Longrightarrow> vibe_list_is_empty l \<longleftrightarrow> xs = []"
  by (auto simp: dll_def vibe_list_is_empty_def)

lemma dll_peek_head: "dll L l xs \<Longrightarrow> vibe_list_peek_head l = head_or xs None"
  by (simp add: dll_def vibe_list_peek_head_def)

lemma dll_peek_tail: "dll L l xs \<Longrightarrow> vibe_list_peek_tail l = last_or None xs"
  by (simp add: dll_def vibe_list_peek_tail_def)

lemma dll_count: "dll L l xs \<Longrightarrow> vibe_list_count l = of_nat (length xs)"
  by (simp add: dll_def vibe_list_count_def)

lemma visit_dlseg: "dlseg L p xs None \<Longrightarrow> vibe_list_visit L (head_or xs None) = Some xs"
  by (induction xs arbitrary: p) (auto simp: vibe_list_visit.simps)

section \<open>The operations on a represented list\<close>

lemma append_dll:
  assumes "dll L l xs" "n \<notin> set xs" "vibe_list_append l n L = (l', L')"
  shows "dll L' l' (xs @ [n])" "\<And>m. m \<notin> insert n (set xs) \<Longrightarrow> L' m = L m"
proof -
  show "dll L' l' (xs @ [n])"
  proof (cases xs rule: rev_cases)
    case Nil
    with assms show ?thesis by (auto simp: dll_def list_ops)
  next
    case (snoc ys t)
    with assms show ?thesis by (auto simp: dll_def list_ops)
  qed
  show "L' m = L m" if "m \<notin> insert n (set xs)" for m
    using assms that by (cases xs rule: rev_cases) (auto simp: dll_def list_ops)
qed

lemma prepend_dll:
  assumes "dll L l xs" "n \<notin> set xs" "vibe_list_prepend l n L = (l', L')"
  shows "dll L' l' (n # xs)" "\<And>m. m \<notin> insert n (set xs) \<Longrightarrow> L' m = L m"
proof -
  show "dll L' l' (n # xs)"
  proof (cases xs)
    case Nil
    with assms show ?thesis by (auto simp: dll_def list_ops)
  next
    case (Cons t ys)
    with assms show ?thesis by (auto simp: dll_def list_ops)
  qed
  show "L' m = L m" if "m \<notin> insert n (set xs)" for m
    using assms that by (cases xs) (auto simp: dll_def list_ops)
qed

lemma insert_after_dll:
  assumes "dll L l (xs @ a # ys)" "n \<notin> set (xs @ a # ys)"
    and "vibe_list_insert_after l (Some a) n L = Some (l', L')"
  shows "dll L' l' (xs @ a # n # ys)" "\<And>m. m \<notin> insert n (set (xs @ a # ys)) \<Longrightarrow> L' m = L m"
proof -
  show "dll L' l' (xs @ a # n # ys)"
  proof (cases ys)
    case Nil
    with assms show ?thesis by (auto simp: dll_def list_ops)
  next
    case (Cons t zs)
    with assms show ?thesis by (auto simp: dll_def list_ops)
  qed
  show "L' m = L m" if "m \<notin> insert n (set (xs @ a # ys))" for m
    using assms that by (cases ys) (auto simp: dll_def list_ops)
qed

lemma insert_after_defined: "\<exists>l' L'. vibe_list_insert_after l (Some a) n L = Some (l', L')"
  by (auto simp: list_ops Let_def split: option.split prod.split)

lemma remove_dll:
  assumes "dll L l (xs @ n # ys)" "vibe_list_remove l n L = (l', L')"
  shows "dll L' l' (xs @ ys)" "\<And>m. m \<notin> set (xs @ n # ys) \<Longrightarrow> L' m = L m"
proof -
  have "dll L' l' (xs @ ys) \<and> (\<forall>m. m \<notin> set (xs @ n # ys) \<longrightarrow> L' m = L m)"
  proof (cases xs rule: rev_cases)
    case Nil
    with assms show ?thesis by (cases ys) (auto simp: dll_def list_ops)
  next
    case (snoc zs p)
    with assms show ?thesis by (cases ys) (auto simp: dll_def list_ops)
  qed
  then show "dll L' l' (xs @ ys)" "\<And>m. m \<notin> set (xs @ n # ys) \<Longrightarrow> L' m = L m" by auto
qed

section \<open>The contract of a node list\<close>

text \<open>
  What the scheduler and the wait lists rely on: appending and removing act on the represented
  list as the list operations do, and touch the links of no node outside it.
\<close>

locale node_list =
  fixes rep :: "('n \<Rightarrow> 'v) \<Rightarrow> 'h \<Rightarrow> 'n list \<Rightarrow> bool"
    and app :: "'h \<Rightarrow> 'n \<Rightarrow> ('n \<Rightarrow> 'v) \<Rightarrow> 'h \<times> ('n \<Rightarrow> 'v)"
    and rem :: "'h \<Rightarrow> 'n \<Rightarrow> ('n \<Rightarrow> 'v) \<Rightarrow> 'h \<times> ('n \<Rightarrow> 'v)"
  assumes rep_distinct: "rep L l xs \<Longrightarrow> distinct xs"
    and rep_local: "(\<And>x. x \<in> set xs \<Longrightarrow> L' x = L x) \<Longrightarrow> rep L l xs \<Longrightarrow> rep L' l xs"
    and app_rep: "rep L l xs \<Longrightarrow> n \<notin> set xs \<Longrightarrow> app l n L = (l', L') \<Longrightarrow> rep L' l' (xs @ [n])"
    and app_off: "rep L l xs \<Longrightarrow> n \<notin> set xs \<Longrightarrow> app l n L = (l', L') \<Longrightarrow>
                    m \<notin> insert n (set xs) \<Longrightarrow> L' m = L m"
    and rem_rep: "rep L l (xs @ n # ys) \<Longrightarrow> rem l n L = (l', L') \<Longrightarrow> rep L' l' (xs @ ys)"
    and rem_off: "rep L l (xs @ n # ys) \<Longrightarrow> rem l n L = (l', L') \<Longrightarrow>
                    m \<notin> set (xs @ n # ys) \<Longrightarrow> L' m = L m"
begin

lemma remove_member:
  assumes "rep L l xs" "n \<in> set xs" "rem l n L = (l', L')"
  shows "rep L' l' (remove1 n xs)" "\<And>m. m \<notin> set xs \<Longrightarrow> L' m = L m"
proof -
  from assms(1,2) obtain us vs where xs: "xs = us @ n # vs" "n \<notin> set us"
    by (metis split_list_first)
  then have "remove1 n xs = us @ vs" by (simp add: remove1_append)
  with assms xs show "rep L' l' (remove1 n xs)" "\<And>m. m \<notin> set xs \<Longrightarrow> L' m = L m"
    by (auto intro: rem_rep dest: rem_off)
qed

lemma append_other:
  assumes "rep L l xs" "n \<notin> set xs" "app l n L = (l', L')"
    and "rep L k zs" "set zs \<inter> insert n (set xs) = {}"
  shows "rep L' k zs"
  using assms(5) by (intro rep_local [OF _ assms(4)]) (auto intro: app_off [OF assms(1-3)])

lemma remove_other:
  assumes "rep L l xs" "n \<in> set xs" "rem l n L = (l', L')"
    and "rep L k zs" "set zs \<inter> set xs = {}"
  shows "rep L' k zs"
  using assms(5) by (intro rep_local [OF _ assms(4)]) (auto intro: remove_member(2) [OF assms(1-3)])

lemma rotate_member:
  assumes "rep L l xs" "n \<in> set xs" "rem l n L = (l1, L1)" "app l1 n L1 = (l2, L2)"
  shows "rep L2 l2 (remove1 n xs @ [n])" "\<And>m. m \<notin> set xs \<Longrightarrow> L2 m = L m"
proof -
  note r = remove_member [OF assms(1-3)]
  from rep_distinct [OF assms(1)] have n: "n \<notin> set (remove1 n xs)" by (simp add: set_remove1_eq)
  show "rep L2 l2 (remove1 n xs @ [n])" by (rule app_rep [OF r(1) n assms(4)])
  show "L2 m = L m" if "m \<notin> set xs" for m
    using app_off [OF r(1) n assms(4), of m] r(2) [OF that] that assms(2)
    by (auto dest: set_remove1_subset [THEN subsetD])
qed

end

interpretation vl: node_list dll vibe_list_append vibe_list_remove
proof unfold_locales
  fix L :: "'a links" and l xs assume "dll L l xs" then show "distinct xs" by (rule dll_distinct)
next
  fix L L' :: "'a links" and l xs
  assume "\<And>x. x \<in> set xs \<Longrightarrow> L' x = L x" "dll L l xs"
  then show "dll L' l xs" using dll_cong [of xs L' L l] by simp
qed (blast intro: append_dll remove_dll)+

lemma get_head_dll:
  assumes "dll L l xs" "vibe_list_get_head l L = (r, l', L')"
  shows "r = head_or xs None" "dll L' l' (tl xs)" "\<And>m. m \<notin> set xs \<Longrightarrow> L' m = L m"
proof -
  have "r = head_or xs None \<and> dll L' l' (tl xs) \<and> (\<forall>m. m \<notin> set xs \<longrightarrow> L' m = L m)"
  proof (cases xs)
    case Nil
    with assms show ?thesis by (auto simp: dll_def vibe_list_get_head_def)
  next
    case (Cons x ys)
    with assms have "l_head l = Some x" "r = Some x" "vibe_list_remove l x L = (l', L')"
      by (auto simp: dll_def vibe_list_get_head_def split: prod.splits)
    with assms(1) Cons vl.rem_rep [of L l "[]" x ys] vl.rem_off [of L l "[]" x ys]
    show ?thesis by simp
  qed
  then show "r = head_or xs None" "dll L' l' (tl xs)" "\<And>m. m \<notin> set xs \<Longrightarrow> L' m = L m" by auto
qed

section \<open>Property\<close>



end
