(* ===== verification/Vibe_Kernel.thy ===== *)
theory Vibe_Kernel
  imports Vibe_List
begin

text \<open>
  The data the kernel sources share: error codes and tick arithmetic (\<^verbatim>\<open>include/vibe/types.h\<close>),
  the thread control block (\<^verbatim>\<open>include/vibe/thread.h\<close>), the static variables of
  \<^verbatim>\<open>kernel/sched.c\<close>, \<^verbatim>\<open>kernel/thread.c\<close> and \<^verbatim>\<open>kernel/init.c\<close> as one record, and the part of the
  Cortex-M port (\<^verbatim>\<open>arch/arm/cortex_m/core/irq.c\<close>) that the kernel calls. A thread pointer is a
  \<open>tid\<close> and \<^verbatim>\<open>NULL\<close> is \<^term>\<open>None\<close>. The three list nodes embedded in a TCB are kept beside it, as
  three link stores indexed by the thread. Build options are an argument (\<open>kconfig\<close>).
\<close>

section \<open>Error codes and ticks\<close>

type_synonym vibe_tick_t = u32
type_synonym tid = nat

datatype vibe_err_t =
    VIBE_OK | VIBE_ETIMEOUT | VIBE_ENOMEM | VIBE_EINVAL | VIBE_EBUSY | VIBE_EAGAIN
  | VIBE_ENOSYS | VIBE_ENODEV | VIBE_EPERM | VIBE_EDEADLK | VIBE_EOVERFLOW

fun err_code :: "vibe_err_t \<Rightarrow> int" where
  "err_code VIBE_OK = 0"
| "err_code VIBE_ETIMEOUT = -1"
| "err_code VIBE_ENOMEM = -2"
| "err_code VIBE_EINVAL = -3"
| "err_code VIBE_EBUSY = -4"
| "err_code VIBE_EAGAIN = -5"
| "err_code VIBE_ENOSYS = -6"
| "err_code VIBE_ENODEV = -7"
| "err_code VIBE_EPERM = -8"
| "err_code VIBE_EDEADLK = -9"
| "err_code VIBE_EOVERFLOW = -10"

definition VIBE_WAIT_FOREVER :: vibe_tick_t where
  "VIBE_WAIT_FOREVER = 0xFFFFFFFF"

definition VIBE_NO_WAIT :: vibe_tick_t where
  "VIBE_NO_WAIT = 0"

text \<open>
  Build-time configuration: the Kconfig options the modelled code tests, and the link-time address
  of the thread exit trampoline.
\<close>

record kconfig =
  CONFIG_SYS_CLOCK_HZ :: u32
  CONFIG_TIMESLICE_MS :: u32
  CONFIG_TRACE :: bool
  CONFIG_STACK_CANARY :: bool
  CONFIG_TLS :: bool
  CONFIG_HEAP_MEM :: bool
  CONFIG_TICKLESS_IDLE :: bool
  addr_vibe_thread_exit :: u32

text \<open>The conversions widen to 64 bits before multiplying and truncate the quotient.\<close>

definition VIBE_MS_TO_TICKS :: "kconfig \<Rightarrow> u32 \<Rightarrow> vibe_tick_t" where
  "VIBE_MS_TO_TICKS cfg ms = ucast ((ucast ms * ucast (CONFIG_SYS_CLOCK_HZ cfg) :: u64) div 1000)"

definition VIBE_TICKS_TO_MS :: "kconfig \<Rightarrow> vibe_tick_t \<Rightarrow> u32" where
  "VIBE_TICKS_TO_MS cfg t = ucast ((ucast t * 1000 :: u64) div ucast (CONFIG_SYS_CLOCK_HZ cfg))"

section \<open>Threads\<close>

datatype vibe_thread_state_t =
    VIBE_THREAD_READY | VIBE_THREAD_RUNNING | VIBE_THREAD_SUSPENDED
  | VIBE_THREAD_SLEEPING | VIBE_THREAD_WAITING | VIBE_THREAD_DEAD

datatype vibe_sched_mode_t = VIBE_SCHED_LOW_POWER | VIBE_SCHED_MID | VIBE_SCHED_PERFORMANCE

definition VIBE_PRIO_MIN :: u8 where "VIBE_PRIO_MIN = 0"

definition VIBE_PRIO_MAX :: u8 where "VIBE_PRIO_MAX = 31"

text \<open>\<^verbatim>\<open>char name[32]\<close> is the string up to its terminating NUL.\<close>

record vibe_thread_t =
  th_id :: u32
  th_name :: string
  th_state :: vibe_thread_state_t
  th_priority :: u8
  th_base_priority :: u8
  th_entry :: u32
  th_arg :: u32
  th_stack_ptr :: u32
  th_stack_base :: u32
  th_stack_size :: u32
  th_timeout :: vibe_tick_t
  th_tls :: u32
  th_cpu_id :: u8
  th_is_static :: bool
  th_switch_in_count :: u32
  th_last_switch_in :: vibe_tick_t
  th_total_runtime :: vibe_tick_t

text \<open>All fields zero, as \<^verbatim>\<open>memset(thread, 0, sizeof *thread)\<close> leaves them.\<close>

definition zero_thread :: vibe_thread_t where
  "zero_thread =
     \<lparr>th_id = 0, th_name = [], th_state = VIBE_THREAD_READY, th_priority = 0, th_base_priority = 0,
      th_entry = 0, th_arg = 0, th_stack_ptr = 0, th_stack_base = 0, th_stack_size = 0,
      th_timeout = 0, th_tls = 0, th_cpu_id = 0, th_is_static = False, th_switch_in_count = 0,
      th_last_switch_in = 0, th_total_runtime = 0\<rparr>"

section \<open>Kernel state\<close>

record kstate =
  g_tcb :: "tid \<Rightarrow> vibe_thread_t"
  sched_nodes :: "tid links"
  wait_nodes :: "tid links"
  sleep_nodes :: "tid links"
  g_run_queues :: "nat \<Rightarrow> tid vibe_list"
  g_ready_mask :: u32
  g_sleep_list :: "tid vibe_list"
  g_current_thread :: "tid option"
  g_idle_thread :: "tid option"
  g_sched_lock_count :: int
  g_sched_mode :: vibe_sched_mode_t
  slice_left :: u32
  g_tick_count :: vibe_tick_t
  g_next_thread_id :: u32
  PRIMASK :: u32
  IPSR :: u32
  g_arch_next :: "tid option"
  pendsv_pending :: bool
  mem32 :: "u32 \<Rightarrow> u32"

text \<open>Program start: zeroed \<^verbatim>\<open>.bss\<close> and the initialisers of the static variables.\<close>

definition boot_state :: "kconfig \<Rightarrow> kstate" where
  "boot_state cfg =
     \<lparr>g_tcb = (\<lambda>_. zero_thread),
      sched_nodes = (\<lambda>_. \<lparr>node_prev = None, node_next = None\<rparr>),
      wait_nodes = (\<lambda>_. \<lparr>node_prev = None, node_next = None\<rparr>),
      sleep_nodes = (\<lambda>_. \<lparr>node_prev = None, node_next = None\<rparr>),
      g_run_queues = (\<lambda>_. vibe_list_init), g_ready_mask = 0, g_sleep_list = vibe_list_init,
      g_current_thread = None, g_idle_thread = None, g_sched_lock_count = 0,
      g_sched_mode = VIBE_SCHED_MID, slice_left = VIBE_MS_TO_TICKS cfg (CONFIG_TIMESLICE_MS cfg),
      g_tick_count = 0, g_next_thread_id = 1, PRIMASK = 0, IPSR = 0, g_arch_next = None,
      pendsv_pending = False, mem32 = (\<lambda>_. 0)\<rparr>"

definition upd_tcb :: "tid \<Rightarrow> (vibe_thread_t \<Rightarrow> vibe_thread_t) \<Rightarrow> kstate \<Rightarrow> kstate" where
  "upd_tcb t f s = s\<lparr>g_tcb := (g_tcb s)(t := f (g_tcb s t))\<rparr>"

abbreviation tstate :: "kstate \<Rightarrow> tid \<Rightarrow> vibe_thread_state_t" where
  "tstate s t \<equiv> th_state (g_tcb s t)"

abbreviation tprio :: "kstate \<Rightarrow> tid \<Rightarrow> u8" where
  "tprio s t \<equiv> th_priority (g_tcb s t)"

definition vibe_thread_self :: "kstate \<Rightarrow> tid option" where
  "vibe_thread_self s = g_current_thread s"

definition vibe_tick_get :: "kstate \<Rightarrow> vibe_tick_t" where
  "vibe_tick_get s = g_tick_count s"

definition vibe_uptime_ms :: "kconfig \<Rightarrow> kstate \<Rightarrow> u32" where
  "vibe_uptime_ms cfg s = VIBE_TICKS_TO_MS cfg (g_tick_count s)"

section \<open>The Cortex-M port\<close>

definition arch_irq_lock :: "kstate \<Rightarrow> u32 \<times> kstate" where
  "arch_irq_lock s = (PRIMASK s, s\<lparr>PRIMASK := 1\<rparr>)"

definition arch_irq_unlock :: "u32 \<Rightarrow> kstate \<Rightarrow> kstate" where
  "arch_irq_unlock key s = s\<lparr>PRIMASK := key\<rparr>"

definition arch_is_in_isr :: "kstate \<Rightarrow> bool" where
  "arch_is_in_isr s \<longleftrightarrow> IPSR s AND 0x1FF \<noteq> 0"

text \<open>\<^verbatim>\<open>g_arch_next_sp_loc = &to->stack_ptr\<close> is recorded by the thread it points into.\<close>

definition arch_switch_to :: "tid option \<Rightarrow> tid \<Rightarrow> kstate \<Rightarrow> kstate" where
  "arch_switch_to from to s =
     (let (key, s) = arch_irq_lock s;
          s = s\<lparr>g_arch_next := Some to\<rparr>;
          s = s\<lparr>pendsv_pending := True\<rparr>
      in arch_irq_unlock key s)"

text \<open>The hardware hook of tickless idle is an empty stub in the port.\<close>

definition arch_set_next_tick :: "u32 \<Rightarrow> kstate \<Rightarrow> kstate" where
  "arch_set_next_tick ticks_from_now s = s"

definition store32 :: "u32 \<Rightarrow> u32 \<Rightarrow> kstate \<Rightarrow> kstate" where
  "store32 a v s = s\<lparr>mem32 := (mem32 s)(a := v)\<rparr>"

text \<open>\<^verbatim>\<open>for (i = 0; i < 8; i++) sw_frame[i] = 0\<close> from slot \<open>i\<close> on.\<close>

fun zero_words :: "nat \<Rightarrow> u32 \<Rightarrow> kstate \<Rightarrow> kstate" where
  "zero_words 0 a s = s"
| "zero_words (Suc n) a s = zero_words n (a + 4) (store32 a 0 s)"

definition arch_thread_stack_init :: "kconfig \<Rightarrow> tid \<Rightarrow> kstate \<Rightarrow> kstate" where
  "arch_thread_stack_init cfg t s =
     (let th = g_tcb s t;
          stack_top = th_stack_base th + th_stack_size th;
          stack_top = stack_top AND NOT 7;
          frame = stack_top - 32;
          s = store32 frame (th_arg th) s;
          s = store32 (frame + 4) 1 s;
          s = store32 (frame + 8) 2 s;
          s = store32 (frame + 12) 3 s;
          s = store32 (frame + 16) 0xC s;
          s = store32 (frame + 20) (addr_vibe_thread_exit cfg) s;
          s = store32 (frame + 24) (th_entry th) s;
          s = store32 (frame + 28) 0x01000000 s;
          sw_frame = frame - 32;
          s = zero_words 8 sw_frame s
      in upd_tcb t (\<lambda>th. th\<lparr>th_stack_ptr := sw_frame\<rparr>) s)"

lemmas kernel_defs [kernel_ops] =
  upd_tcb_def vibe_thread_self_def vibe_tick_get_def arch_irq_lock_def arch_irq_unlock_def
  arch_switch_to_def arch_set_next_tick_def store32_def

end
