(* ===== verification/Vibe_Sched.thy ===== *)
theory Vibe_Sched
  imports Vibe_Kernel "HOL-Library.Multiset"
begin

text \<open>
  The scheduler of \<^verbatim>\<open>kernel/sched.c\<close>: run queues, the ready mask, the sleep list, rescheduling,
  time slicing and the scheduler lock, then the invariant that ties the pointer structures to
  an abstract scheduler (one HOL list per priority and a sorted sleep list) and the lemmas that every
  operation implements its abstract counterpart.
\<close>

section \<open>Operations\<close>

definition highest_ready_priority :: "kstate \<Rightarrow> int" where
  "highest_ready_priority s =
     (if g_ready_mask s = 0 then -1 else 31 - int (builtin_clz (g_ready_mask s)))"

definition vibe_sched_enqueue :: "tid \<Rightarrow> kstate \<Rightarrow> kstate" where
  "vibe_sched_enqueue t s =
     (let (key, s) = arch_irq_lock s;
          s = upd_tcb t (\<lambda>th. th\<lparr>th_state := VIBE_THREAD_READY\<rparr>) s;
          prio = unat (tprio s t);
          (q, L) = vibe_list_append (g_run_queues s prio) t (sched_nodes s);
          s = s\<lparr>g_run_queues := (g_run_queues s)(prio := q), sched_nodes := L\<rparr>;
          s = s\<lparr>g_ready_mask := g_ready_mask s OR BIT prio\<rparr>
      in arch_irq_unlock key s)"

definition vibe_sched_dequeue :: "tid \<Rightarrow> kstate \<Rightarrow> kstate" where
  "vibe_sched_dequeue t s =
     (let (key, s) = arch_irq_lock s;
          prio = unat (tprio s t);
          (q, L) = vibe_list_remove (g_run_queues s prio) t (sched_nodes s);
          s = s\<lparr>g_run_queues := (g_run_queues s)(prio := q), sched_nodes := L\<rparr>;
          s = (if vibe_list_is_empty (g_run_queues s prio)
               then s\<lparr>g_ready_mask := g_ready_mask s AND NOT (BIT prio)\<rparr> else s)
      in arch_irq_unlock key s)"

definition vibe_sched_next_thread :: "kstate \<Rightarrow> tid option" where
  "vibe_sched_next_thread s =
     (let prio = highest_ready_priority s in
      if prio < 0 then g_idle_thread s
      else case vibe_list_peek_head (g_run_queues s (nat prio)) of
             None \<Rightarrow> g_idle_thread s
           | Some node \<Rightarrow> Some node)"

text \<open>The runtime statistics under \<^verbatim>\<open>CONFIG_TRACE\<close>; the trace hooks themselves are weak no-ops.\<close>

definition trace_switch :: "kconfig \<Rightarrow> tid option \<Rightarrow> tid \<Rightarrow> kstate \<Rightarrow> kstate" where
  "trace_switch cfg prev next s =
     (if CONFIG_TRACE cfg then
        let now = vibe_tick_get s;
            s = (case prev of
                   Some p \<Rightarrow> upd_tcb p (\<lambda>th. th\<lparr>th_total_runtime :=
                               th_total_runtime th + (now - th_last_switch_in th)\<rparr>) s
                 | None \<Rightarrow> s)
        in upd_tcb next (\<lambda>th. th\<lparr>th_switch_in_count := th_switch_in_count th + 1,
                                  th_last_switch_in := now\<rparr>) s
      else s)"

definition vibe_sched_reschedule :: "kconfig \<Rightarrow> kstate \<Rightarrow> kstate" where
  "vibe_sched_reschedule cfg s =
     (let (key, s) = arch_irq_lock s in
      if g_sched_lock_count s > 0 then arch_irq_unlock key s
      else case vibe_sched_next_thread s of
             None \<Rightarrow> arch_irq_unlock key s
           | Some next \<Rightarrow>
               if Some next = g_current_thread s then arch_irq_unlock key s
               else
                 (let prev = g_current_thread s;
                      s = s\<lparr>g_current_thread := Some next\<rparr>;
                      s = upd_tcb next (\<lambda>th. th\<lparr>th_state := VIBE_THREAD_RUNNING\<rparr>) s;
                      s = (case prev of
                             Some p \<Rightarrow> if tstate s p = VIBE_THREAD_RUNNING
                                       then upd_tcb p (\<lambda>th. th\<lparr>th_state := VIBE_THREAD_READY\<rparr>) s
                                       else s
                           | None \<Rightarrow> s);
                      s = trace_switch cfg prev next s;
                      s = arch_switch_to prev next s
                  in arch_irq_unlock key s))"

definition vibe_sched_timeslice_tick :: "kconfig \<Rightarrow> kstate \<Rightarrow> kstate" where
  "vibe_sched_timeslice_tick cfg s =
     (if CONFIG_TIMESLICE_MS cfg > 0 then
        case g_current_thread s of
          None \<Rightarrow> s
        | Some cur \<Rightarrow>
            if tstate s cur \<noteq> VIBE_THREAD_RUNNING then s
            else if slice_left s > 1 then s\<lparr>slice_left := slice_left s - 1\<rparr>
            else
              (let s = s\<lparr>slice_left := VIBE_MS_TO_TICKS cfg (CONFIG_TIMESLICE_MS cfg)\<rparr> in
               if vibe_list_count (g_run_queues s (unat (tprio s cur))) > 1
               then vibe_sched_enqueue cur (vibe_sched_dequeue cur s)
               else s)
      else s)"

text \<open>
  The scan of \<^verbatim>\<open>_vibe_sched_sleep\<close>: the first sleeper whose expiry lies after the new one, from
  \<open>node\<close> on. It does not return on a cyclic sleep list.
\<close>

partial_function (option) sleep_scan :: "vibe_tick_t \<Rightarrow> kstate \<Rightarrow> tid option \<Rightarrow> tid option option" where
  "sleep_scan expiry s node =
     (case node of
        None \<Rightarrow> Some None
      | Some n \<Rightarrow> if expiry < th_timeout (g_tcb s n) then Some (Some n)
                  else sleep_scan expiry s (node_next (sleep_nodes s n)))"

definition vibe_sched_sleep :: "tid \<Rightarrow> vibe_tick_t \<Rightarrow> kstate \<Rightarrow> kstate option" where
  "vibe_sched_sleep t expiry s =
     (let (key, s) = arch_irq_lock s;
          s = upd_tcb t (\<lambda>th. th\<lparr>th_timeout := expiry\<rparr>) s;
          s = upd_tcb t (\<lambda>th. th\<lparr>th_state := VIBE_THREAD_SLEEPING\<rparr>) s
      in do {
           pos \<leftarrow> sleep_scan expiry s (l_head (g_sleep_list s));
           (l, L) \<leftarrow> (case pos of
                        None \<Rightarrow> Some (vibe_list_append (g_sleep_list s) t (sleep_nodes s))
                      | Some node \<Rightarrow>
                          (case node_prev (sleep_nodes s node) of
                             Some p \<Rightarrow> vibe_list_insert_after (g_sleep_list s) (Some p) t (sleep_nodes s)
                           | None \<Rightarrow> Some (vibe_list_prepend (g_sleep_list s) t (sleep_nodes s))));
           Some (arch_irq_unlock key (s\<lparr>g_sleep_list := l, sleep_nodes := L\<rparr>))
         })"

text \<open>\<^verbatim>\<open>VIBE_LIST_FOR_EACH_SAFE\<close> reads the successor before the body unlinks the node.\<close>

partial_function (option) wake_loop :: "vibe_tick_t \<Rightarrow> tid option \<Rightarrow> kstate \<Rightarrow> kstate option" where
  "wake_loop current_tick node s =
     (case node of
        None \<Rightarrow> Some s
      | Some n \<Rightarrow>
          (let tmp = node_next (sleep_nodes s n) in
           if th_timeout (g_tcb s n) \<le> current_tick then
             (let (l, L) = vibe_list_remove (g_sleep_list s) n (sleep_nodes s);
                  s = s\<lparr>g_sleep_list := l, sleep_nodes := L\<rparr>;
                  s = vibe_sched_enqueue n s
              in wake_loop current_tick tmp s)
           else Some s))"

definition vibe_sched_wake_expired :: "vibe_tick_t \<Rightarrow> kstate \<Rightarrow> kstate option" where
  "vibe_sched_wake_expired current_tick s = wake_loop current_tick (l_head (g_sleep_list s)) s"

definition vibe_sched_next_wakeup :: "kstate \<Rightarrow> vibe_tick_t" where
  "vibe_sched_next_wakeup s =
     (case vibe_list_peek_head (g_sleep_list s) of
        None \<Rightarrow> VIBE_WAIT_FOREVER
      | Some t \<Rightarrow> th_timeout (g_tcb s t))"

definition vibe_sched_lock :: "kstate \<Rightarrow> kstate" where
  "vibe_sched_lock s =
     (let (key, s) = arch_irq_lock s;
          s = s\<lparr>g_sched_lock_count := g_sched_lock_count s + 1\<rparr>
      in arch_irq_unlock key s)"

definition vibe_sched_unlock :: "kconfig \<Rightarrow> kstate \<Rightarrow> kstate" where
  "vibe_sched_unlock cfg s =
     (let (key, s) = arch_irq_lock s;
          s = (if g_sched_lock_count s > 0
               then s\<lparr>g_sched_lock_count := g_sched_lock_count s - 1\<rparr> else s);
          s = arch_irq_unlock key s
      in if g_sched_lock_count s = 0 then vibe_sched_reschedule cfg s else s)"

definition vibe_sched_lock_count :: "kstate \<Rightarrow> int" where
  "vibe_sched_lock_count s = g_sched_lock_count s"

definition vibe_sched_set_mode :: "vibe_sched_mode_t \<Rightarrow> kstate \<Rightarrow> kstate" where
  "vibe_sched_set_mode mode s = s\<lparr>g_sched_mode := mode\<rparr>"

definition vibe_sched_get_mode :: "kstate \<Rightarrow> vibe_sched_mode_t" where
  "vibe_sched_get_mode s = g_sched_mode s"

text \<open>
  \<^verbatim>\<open>vibe_sched_start\<close> never returns: the result is the state in which the first context switch is
  pending, \<^term>\<open>None\<close> the branch that prints the fatal message and spins.
\<close>

definition vibe_sched_start :: "kconfig \<Rightarrow> kstate \<Rightarrow> kstate option" where
  "vibe_sched_start cfg s =
     (let s = s\<lparr>g_current_thread := vibe_sched_next_thread s\<rparr>;
          s = (if g_current_thread s = None then s\<lparr>g_current_thread := g_idle_thread s\<rparr> else s)
      in case g_current_thread s of
           None \<Rightarrow> None
         | Some c \<Rightarrow>
             (let s = upd_tcb c (\<lambda>th. th\<lparr>th_state := VIBE_THREAD_RUNNING\<rparr>) s;
                  s = (if CONFIG_TRACE cfg
                       then upd_tcb c (\<lambda>th. th\<lparr>th_switch_in_count := th_switch_in_count th + 1,
                                                 th_last_switch_in := vibe_tick_get s\<rparr>) s
                       else s)
              in Some (arch_switch_to None c s)))"

section \<open>Frames\<close>

lemma enqueue_frame [frame_simps]:
  "sleep_nodes (vibe_sched_enqueue t s) = sleep_nodes s"
  "wait_nodes (vibe_sched_enqueue t s) = wait_nodes s"
  "g_sleep_list (vibe_sched_enqueue t s) = g_sleep_list s"
  "g_current_thread (vibe_sched_enqueue t s) = g_current_thread s"
  "g_idle_thread (vibe_sched_enqueue t s) = g_idle_thread s"
  "g_sched_lock_count (vibe_sched_enqueue t s) = g_sched_lock_count s"
  "g_sched_mode (vibe_sched_enqueue t s) = g_sched_mode s"
  "slice_left (vibe_sched_enqueue t s) = slice_left s"
  "g_tick_count (vibe_sched_enqueue t s) = g_tick_count s"
  "g_next_thread_id (vibe_sched_enqueue t s) = g_next_thread_id s"
  "PRIMASK (vibe_sched_enqueue t s) = PRIMASK s"
  "IPSR (vibe_sched_enqueue t s) = IPSR s"
  "g_arch_next (vibe_sched_enqueue t s) = g_arch_next s"
  "pendsv_pending (vibe_sched_enqueue t s) = pendsv_pending s"
  "mem32 (vibe_sched_enqueue t s) = mem32 s"
  by (simp_all add: vibe_sched_enqueue_def kernel_ops Let_def split: prod.split)

lemma enqueue_tcb [frame_simps]:
  "g_tcb (vibe_sched_enqueue t s) = (g_tcb s)(t := (g_tcb s t)\<lparr>th_state := VIBE_THREAD_READY\<rparr>)"
  by (simp add: vibe_sched_enqueue_def kernel_ops Let_def split: prod.split)

lemma dequeue_frame [frame_simps]:
  "sleep_nodes (vibe_sched_dequeue t s) = sleep_nodes s"
  "wait_nodes (vibe_sched_dequeue t s) = wait_nodes s"
  "g_sleep_list (vibe_sched_dequeue t s) = g_sleep_list s"
  "g_current_thread (vibe_sched_dequeue t s) = g_current_thread s"
  "g_idle_thread (vibe_sched_dequeue t s) = g_idle_thread s"
  "g_sched_lock_count (vibe_sched_dequeue t s) = g_sched_lock_count s"
  "g_sched_mode (vibe_sched_dequeue t s) = g_sched_mode s"
  "slice_left (vibe_sched_dequeue t s) = slice_left s"
  "g_tick_count (vibe_sched_dequeue t s) = g_tick_count s"
  "g_next_thread_id (vibe_sched_dequeue t s) = g_next_thread_id s"
  "PRIMASK (vibe_sched_dequeue t s) = PRIMASK s"
  "IPSR (vibe_sched_dequeue t s) = IPSR s"
  "g_arch_next (vibe_sched_dequeue t s) = g_arch_next s"
  "pendsv_pending (vibe_sched_dequeue t s) = pendsv_pending s"
  "mem32 (vibe_sched_dequeue t s) = mem32 s"
  "g_tcb (vibe_sched_dequeue t s) = g_tcb s"
  by (simp_all add: vibe_sched_dequeue_def kernel_ops Let_def split: prod.split)

lemma reschedule_frame [frame_simps]:
  "sched_nodes (vibe_sched_reschedule cfg s) = sched_nodes s"
  "wait_nodes (vibe_sched_reschedule cfg s) = wait_nodes s"
  "sleep_nodes (vibe_sched_reschedule cfg s) = sleep_nodes s"
  "g_run_queues (vibe_sched_reschedule cfg s) = g_run_queues s"
  "g_ready_mask (vibe_sched_reschedule cfg s) = g_ready_mask s"
  "g_sleep_list (vibe_sched_reschedule cfg s) = g_sleep_list s"
  "g_idle_thread (vibe_sched_reschedule cfg s) = g_idle_thread s"
  "g_sched_lock_count (vibe_sched_reschedule cfg s) = g_sched_lock_count s"
  "g_sched_mode (vibe_sched_reschedule cfg s) = g_sched_mode s"
  "slice_left (vibe_sched_reschedule cfg s) = slice_left s"
  "g_tick_count (vibe_sched_reschedule cfg s) = g_tick_count s"
  "g_next_thread_id (vibe_sched_reschedule cfg s) = g_next_thread_id s"
  "PRIMASK (vibe_sched_reschedule cfg s) = PRIMASK s"
  "IPSR (vibe_sched_reschedule cfg s) = IPSR s"
  "mem32 (vibe_sched_reschedule cfg s) = mem32 s"
  by (simp_all add: vibe_sched_reschedule_def trace_switch_def kernel_ops Let_def split: option.split)

lemma next_thread_cong:
  "g_ready_mask s' = g_ready_mask s \<Longrightarrow> g_run_queues s' = g_run_queues s \<Longrightarrow>
   g_idle_thread s' = g_idle_thread s \<Longrightarrow> vibe_sched_next_thread s' = vibe_sched_next_thread s"
  by (simp add: vibe_sched_next_thread_def highest_ready_priority_def Let_def cong: option.case_cong)

lemma next_thread_primask [simp]: "vibe_sched_next_thread (s\<lparr>PRIMASK := k\<rparr>) = vibe_sched_next_thread s"
  by (rule next_thread_cong) auto

lemma primask_restore [simp]: "s\<lparr>PRIMASK := PRIMASK s\<rparr> = s"
  by (cases s) simp

text \<open>A reschedule switches exactly when the scheduler is unlocked and the best thread is another one.\<close>

definition switches :: "kstate \<Rightarrow> bool" where
  "switches s \<longleftrightarrow>
     g_sched_lock_count s \<le> 0 \<and> vibe_sched_next_thread s \<noteq> None \<and>
     vibe_sched_next_thread s \<noteq> g_current_thread s"

lemma reschedule_idle: "\<not> switches s \<Longrightarrow> vibe_sched_reschedule cfg s = s"
  by (auto simp: switches_def vibe_sched_reschedule_def kernel_ops Let_def split: option.split)

lemma reschedule_current:
  "g_current_thread (vibe_sched_reschedule cfg s) =
     (if switches s then vibe_sched_next_thread s else g_current_thread s)"
  by (auto simp: switches_def vibe_sched_reschedule_def trace_switch_def kernel_ops Let_def
      split: option.split)

lemma reschedule_pends:
  "switches s \<Longrightarrow> pendsv_pending (vibe_sched_reschedule cfg s) \<and>
     g_arch_next (vibe_sched_reschedule cfg s) = vibe_sched_next_thread s"
  by (auto simp: switches_def vibe_sched_reschedule_def trace_switch_def kernel_ops Let_def
      split: option.split)

lemma reschedule_tstate:
  "tstate (vibe_sched_reschedule cfg s) t =
     (if switches s then
        if vibe_sched_next_thread s = Some t then VIBE_THREAD_RUNNING
        else if g_current_thread s = Some t \<and> tstate s t = VIBE_THREAD_RUNNING then VIBE_THREAD_READY
        else tstate s t
      else tstate s t)"
  by (auto simp: switches_def vibe_sched_reschedule_def trace_switch_def kernel_ops Let_def
      split: option.split)

lemma reschedule_tcb [frame_simps]:
  "th_id (g_tcb (vibe_sched_reschedule cfg s) t) = th_id (g_tcb s t)"
  "th_priority (g_tcb (vibe_sched_reschedule cfg s) t) = th_priority (g_tcb s t)"
  "th_base_priority (g_tcb (vibe_sched_reschedule cfg s) t) = th_base_priority (g_tcb s t)"
  "th_timeout (g_tcb (vibe_sched_reschedule cfg s) t) = th_timeout (g_tcb s t)"
  by (auto simp: vibe_sched_reschedule_def trace_switch_def kernel_ops Let_def split: option.split)

section \<open>The abstract scheduler\<close>

text \<open>
  \<open>queues_rep s Q\<close>: for each of the 32 priorities \<open>p\<close> the run queue is the list \<open>Q p\<close>, its
  threads have that priority and are ready or running, and the ready mask marks the non-empty ones.
  \<open>sleep_rep s Z\<close>: the sleep list is \<open>Z\<close>, ascending in the expiry tick, all sleeping.
\<close>

definition queues_rep :: "kstate \<Rightarrow> (nat \<Rightarrow> tid list) \<Rightarrow> bool" where
  "queues_rep s Q \<longleftrightarrow>
     (\<forall>p<32. dll (sched_nodes s) (g_run_queues s p) (Q p)) \<and>
     (\<forall>p<32. \<forall>t\<in>set (Q p). unat (tprio s t) = p \<and> tstate s t \<in> {VIBE_THREAD_READY, VIBE_THREAD_RUNNING}) \<and>
     (\<forall>p<32. bit (g_ready_mask s) p \<longleftrightarrow> Q p \<noteq> [])"

definition sleep_rep :: "kstate \<Rightarrow> tid list \<Rightarrow> bool" where
  "sleep_rep s Z \<longleftrightarrow>
     dll (sleep_nodes s) (g_sleep_list s) Z \<and>
     sorted (map (\<lambda>t. th_timeout (g_tcb s t)) Z) \<and>
     (\<forall>t\<in>set Z. tstate s t = VIBE_THREAD_SLEEPING)"

text \<open>
  The invariant of the scheduler: every thread that was created (its id is not 0) and is ready or
  running is in its run queue, every created sleeper is on the sleep list, priorities index the
  run-queue array within bounds, and the registered idle thread is always schedulable.
\<close>

definition sched_inv :: "kstate \<Rightarrow> (nat \<Rightarrow> tid list) \<Rightarrow> tid list \<Rightarrow> bool" where
  "sched_inv s Q Z \<longleftrightarrow>
     queues_rep s Q \<and> sleep_rep s Z \<and>
     (\<forall>t. th_priority (g_tcb s t) \<le> VIBE_PRIO_MAX) \<and>
     (\<forall>t. th_id (g_tcb s t) \<noteq> 0 \<longrightarrow> tstate s t \<in> {VIBE_THREAD_READY, VIBE_THREAD_RUNNING} \<longrightarrow>
          t \<in> set (Q (unat (tprio s t)))) \<and>
     (\<forall>t. th_id (g_tcb s t) \<noteq> 0 \<longrightarrow> tstate s t = VIBE_THREAD_SLEEPING \<longrightarrow> t \<in> set Z) \<and>
     (\<forall>i. g_idle_thread s = Some i \<longrightarrow> i \<in> set (Q (unat (tprio s i))))"

lemma prio_bound: "p \<le> VIBE_PRIO_MAX \<Longrightarrow> unat p < 32"
  by (simp add: VIBE_PRIO_MAX_def word_le_nat_alt)

lemma queues_repD:
  assumes "queues_rep s Q" "p < 32"
  shows "dll (sched_nodes s) (g_run_queues s p) (Q p)"
    and "t \<in> set (Q p) \<Longrightarrow> unat (tprio s t) = p"
    and "t \<in> set (Q p) \<Longrightarrow> tstate s t = VIBE_THREAD_READY \<or> tstate s t = VIBE_THREAD_RUNNING"
    and "bit (g_ready_mask s) p \<longleftrightarrow> Q p \<noteq> []"
  using assms by (auto simp: queues_rep_def)

lemma queues_disjoint:
  "queues_rep s Q \<Longrightarrow> p < 32 \<Longrightarrow> q < 32 \<Longrightarrow> p \<noteq> q \<Longrightarrow> set (Q p) \<inter> set (Q q) = {}"
  by (auto dest: queues_repD(2))

lemma queues_rep_cong:
  assumes "queues_rep s Q" "sched_nodes s' = sched_nodes s" "g_run_queues s' = g_run_queues s"
    and "g_ready_mask s' = g_ready_mask s"
    and "\<And>p t. p < 32 \<Longrightarrow> t \<in> set (Q p) \<Longrightarrow> tprio s' t = tprio s t \<and>
           (tstate s' t = VIBE_THREAD_READY \<or> tstate s' t = VIBE_THREAD_RUNNING)"
  shows "queues_rep s' Q"
  using assms by (simp add: queues_rep_def)

lemma sleep_rep_cong:
  assumes "sleep_rep s Z" "sleep_nodes s' = sleep_nodes s" "g_sleep_list s' = g_sleep_list s"
    and "\<And>t. t \<in> set Z \<Longrightarrow> th_timeout (g_tcb s' t) = th_timeout (g_tcb s t) \<and>
           tstate s' t = VIBE_THREAD_SLEEPING"
  shows "sleep_rep s' Z"
proof -
  have eq: "map (\<lambda>t. th_timeout (g_tcb s' t)) Z = map (\<lambda>t. th_timeout (g_tcb s t)) Z"
    using assms(4) by (intro map_cong) auto
  from assms show ?thesis unfolding sleep_rep_def eq by auto
qed

lemma enqueue_rep:
  assumes "queues_rep s Q" "unat (tprio s t) = p" "p < 32" "t \<notin> set (Q p)"
  shows "queues_rep (vibe_sched_enqueue t s) (Q(p := Q p @ [t]))"
proof -
  obtain q L where app: "vibe_list_append (g_run_queues s p) t (sched_nodes s) = (q, L)" by force
  let ?s = "vibe_sched_enqueue t s"
  have s': "g_run_queues ?s = (g_run_queues s)(p := q)" "sched_nodes ?s = L"
      "g_ready_mask ?s = g_ready_mask s OR BIT p"
    using app assms(2) by (auto simp: vibe_sched_enqueue_def kernel_ops)
  note rep = queues_repD [OF assms(1)]
  have other: "dll L (g_run_queues s r) (Q r)" if "r < 32" "r \<noteq> p" for r
    using vl.append_other [OF rep(1) [OF assms(3)] assms(4) app rep(1) [OF that(1)]]
      queues_disjoint [OF assms(1,3) that(1)] that assms(2) rep(2) [OF that(1)] by auto
  show ?thesis
    unfolding queues_rep_def s' frame_simps
    using other vl.app_rep [OF rep(1) [OF assms(3)] assms(4) app] rep assms(2,3)
    by (auto simp: fun_upd_def)
qed

lemma dequeue_rep:
  assumes "queues_rep s Q" "unat (tprio s t) = p" "p < 32" "t \<in> set (Q p)"
  shows "queues_rep (vibe_sched_dequeue t s) (Q(p := remove1 t (Q p)))"
proof -
  obtain q L where rem: "vibe_list_remove (g_run_queues s p) t (sched_nodes s) = (q, L)" by force
  let ?s = "vibe_sched_dequeue t s"
  note rep = queues_repD [OF assms(1)]
  note m = vl.remove_member [OF rep(1) [OF assms(3)] assms(4) rem]
  have s': "g_run_queues ?s = (g_run_queues s)(p := q)" "sched_nodes ?s = L"
      "g_ready_mask ?s = (if remove1 t (Q p) = [] then g_ready_mask s AND NOT (BIT p) else g_ready_mask s)"
    using rem assms(2) dll_empty [OF m(1)] by (auto simp: vibe_sched_dequeue_def kernel_ops)
  have other: "dll L (g_run_queues s r) (Q r)" if "r < 32" "r \<noteq> p" for r
    using vl.remove_other [OF rep(1) [OF assms(3)] assms(4) rem rep(1) [OF that(1)]]
      queues_disjoint [OF assms(1) that(1) assms(3) that(2)] by auto
  show ?thesis
    unfolding queues_rep_def s' frame_simps
    using other m(1) rep assms(2,3,4)
    by (auto simp: fun_upd_def set_remove1_eq [OF dll_distinct [OF rep(1) [OF assms(3)]]])
qed

text \<open>The selected thread is the head of the highest non-empty queue; without one, the idle thread.\<close>

lemma highest_ready:
  assumes "queues_rep s Q"
  shows "highest_ready_priority s = -1 \<longleftrightarrow> (\<forall>p<32. Q p = [])"
    and "\<exists>p<32. Q p \<noteq> [] \<Longrightarrow> \<exists>p<32. highest_ready_priority s = int p \<and> Q p \<noteq> [] \<and>
           (\<forall>q<32. p < q \<longrightarrow> Q q = [])"
proof -
  note mask = queues_repD(4) [OF assms]
  have zero: "g_ready_mask s = 0 \<longleftrightarrow> (\<forall>p<32. Q p = [])"
    using word_nonzero_bit [of "g_ready_mask s"] mask by auto
  have top: "\<exists>p<32. highest_ready_priority s = int p \<and> Q p \<noteq> [] \<and> (\<forall>q<32. p < q \<longrightarrow> Q q = [])"
    if "g_ready_mask s \<noteq> 0"
  proof -
    note b = builtin_clz_top [OF that]
    have "highest_ready_priority s = int (31 - builtin_clz (g_ready_mask s))"
      using that b(1) by (simp add: highest_ready_priority_def of_nat_diff)
    moreover have "Q (31 - builtin_clz (g_ready_mask s)) \<noteq> []" using b(2) mask by auto
    moreover have "\<forall>q<32. 31 - builtin_clz (g_ready_mask s) < q \<longrightarrow> Q q = []"
      using b(3) mask by (metis not_le)
    ultimately show ?thesis by (intro exI [of _ "31 - builtin_clz (g_ready_mask s)"]) auto
  qed
  show "\<exists>p<32. Q p \<noteq> [] \<Longrightarrow> \<exists>p<32. highest_ready_priority s = int p \<and> Q p \<noteq> [] \<and>
           (\<forall>q<32. p < q \<longrightarrow> Q q = [])"
    using top zero by auto
  show "highest_ready_priority s = -1 \<longleftrightarrow> (\<forall>p<32. Q p = [])"
  proof (cases "g_ready_mask s = 0")
    case True
    then show ?thesis using zero by (simp add: highest_ready_priority_def)
  next
    case False
    then show ?thesis using top zero by fastforce
  qed
qed

lemma next_thread_rep:
  assumes "queues_rep s Q"
  shows "(\<forall>p<32. Q p = []) \<Longrightarrow> vibe_sched_next_thread s = g_idle_thread s"
    and "p < 32 \<Longrightarrow> Q p \<noteq> [] \<Longrightarrow> (\<forall>q<32. p < q \<longrightarrow> Q q = []) \<Longrightarrow>
           vibe_sched_next_thread s = Some (hd (Q p))"
proof -
  show "vibe_sched_next_thread s = g_idle_thread s" if "\<forall>p<32. Q p = []"
    using that highest_ready(1) [OF assms] by (simp add: vibe_sched_next_thread_def)
  assume p: "p < 32" "Q p \<noteq> []" "\<forall>q<32. p < q \<longrightarrow> Q q = []"
  with highest_ready(2) [OF assms] obtain r where
    r: "r < 32" "highest_ready_priority s = int r" "Q r \<noteq> []" "\<forall>q<32. r < q \<longrightarrow> Q q = []" by blast
  with p have "r = p" by (metis nat_neq_iff)
  with r p dll_peek_head [OF queues_repD(1) [OF assms p(1)]]
  show "vibe_sched_next_thread s = Some (hd (Q p))"
    by (cases "Q p") (auto simp: vibe_sched_next_thread_def)
qed

lemma next_thread_queued:
  assumes "queues_rep s Q" "\<exists>p<32. Q p \<noteq> []"
  obtains p n where "p < 32" "vibe_sched_next_thread s = Some n" "n \<in> set (Q p)" "n = hd (Q p)"
    "\<And>q. q < 32 \<Longrightarrow> p < q \<Longrightarrow> Q q = []"
  using highest_ready(2) [OF assms] next_thread_rep(2) [OF assms(1)] hd_in_set by metis

section \<open>The invariant under the operations\<close>

lemma sched_invD:
  assumes "sched_inv s Q Z"
  shows "queues_rep s Q" "sleep_rep s Z" "unat (tprio s t) < 32"
    "th_id (g_tcb s t) \<noteq> 0 \<Longrightarrow> tstate s t = VIBE_THREAD_READY \<or> tstate s t = VIBE_THREAD_RUNNING \<Longrightarrow>
       t \<in> set (Q (unat (tprio s t)))"
    "g_idle_thread s = Some i \<Longrightarrow> i \<in> set (Q (unat (tprio s i)))"
    "t \<in> set Z \<Longrightarrow> tstate s t = VIBE_THREAD_SLEEPING"
    "th_id (g_tcb s t) \<noteq> 0 \<Longrightarrow> tstate s t = VIBE_THREAD_SLEEPING \<Longrightarrow> t \<in> set Z"
  using assms prio_bound [of "tprio s t"] by (auto simp: sched_inv_def sleep_rep_def)

lemma sched_inv_not_queued:
  "sched_inv s Q Z \<Longrightarrow> p < 32 \<Longrightarrow> tstate s t \<noteq> VIBE_THREAD_READY \<Longrightarrow> tstate s t \<noteq> VIBE_THREAD_RUNNING \<Longrightarrow>
   t \<notin> set (Q p)"
  using sched_invD(1) queues_repD(3) by blast

lemma enqueue_inv:
  assumes inv: "sched_inv s Q Z" and p: "p = unat (tprio s t)" and t: "t \<notin> set (Q p)" "t \<notin> set Z"
  shows "sched_inv (vibe_sched_enqueue t s) (Q(p := Q p @ [t])) Z"
proof -
  note d = sched_invD [OF inv]
  have "queues_rep (vibe_sched_enqueue t s) (Q(p := Q p @ [t]))"
    using enqueue_rep [OF d(1), of t p] d(3) p t by simp
  moreover have "sleep_rep (vibe_sched_enqueue t s) Z"
    using t d(6) by (intro sleep_rep_cong [OF d(2)]) (auto simp: frame_simps)
  ultimately show ?thesis using inv p by (auto simp: sched_inv_def frame_simps)
qed

text \<open>A thread leaves its run queue for a state in which it is not schedulable.\<close>

definition off_cpu :: "vibe_thread_state_t \<Rightarrow> bool" where
  "off_cpu st \<longleftrightarrow> st \<notin> {VIBE_THREAD_READY, VIBE_THREAD_RUNNING, VIBE_THREAD_SLEEPING}"

lemma dequeue_block_inv:
  assumes inv: "sched_inv s Q Z" and p: "p = unat (tprio s t)" and t: "t \<in> set (Q p)"
    and idle: "g_idle_thread s \<noteq> Some t" and off: "off_cpu (th_state (f (g_tcb s t)))"
    and f: "th_priority (f (g_tcb s t)) = th_priority (g_tcb s t)"
  shows "sched_inv (upd_tcb t f (vibe_sched_dequeue t s)) (Q(p := remove1 t (Q p))) Z"
proof -
  note d = sched_invD [OF inv]
  let ?s = "vibe_sched_dequeue t s" and ?Q = "Q(p := remove1 t (Q p))"
  have dist: "distinct (Q p)" using queues_repD(1) [OF d(1), of p] d(3) p by (auto dest: dll_distinct)
  have tQ: "t \<notin> set (?Q r)" if "r < 32" for r
    using that dist queues_repD(2) [OF d(1) that, of t] p by (auto simp: set_remove1_eq)
  have q: "queues_rep ?s ?Q" using dequeue_rep [OF d(1), of t p] d(3) p t by simp
  have tZ: "t \<notin> set Z"
    using d(6) [of t] queues_repD(3) [OF d(1), of p t] d(3) p t by auto
  have "queues_rep (upd_tcb t f ?s) ?Q"
    using tQ queues_repD(3) [OF q] by (intro queues_rep_cong [OF q]) (auto simp: upd_tcb_def)
  moreover have "sleep_rep (upd_tcb t f ?s) Z"
    using tZ d(6) by (intro sleep_rep_cong [OF d(2)]) (auto simp: upd_tcb_def frame_simps)
  ultimately show ?thesis
    using inv p idle off f dist by (auto simp: sched_inv_def frame_simps upd_tcb_def off_cpu_def set_remove1_eq)
qed

lemma rotate_inv:
  assumes inv: "sched_inv s Q Z" and p: "p = unat (tprio s t)" and t: "t \<in> set (Q p)"
  shows "sched_inv (vibe_sched_enqueue t (vibe_sched_dequeue t s)) (Q(p := remove1 t (Q p) @ [t])) Z"
proof -
  note d = sched_invD [OF inv]
  let ?s = "vibe_sched_dequeue t s" and ?Q = "Q(p := remove1 t (Q p))"
  have dist: "distinct (Q p)" using queues_repD(1) [OF d(1), of p] d(3) p by (auto dest: dll_distinct)
  have tZ: "t \<notin> set Z" using d(6) [of t] queues_repD(3) [OF d(1), of p t] d(3) p t by auto
  have q: "queues_rep ?s ?Q" using dequeue_rep [OF d(1), of t p] d(3) p t by simp
  then have "queues_rep (vibe_sched_enqueue t ?s) (?Q(p := ?Q p @ [t]))"
    using dist d(3) p by (intro enqueue_rep) (auto simp: frame_simps set_remove1_eq)
  moreover have "sleep_rep (vibe_sched_enqueue t ?s) Z"
    using tZ d(6) by (intro sleep_rep_cong [OF d(2)]) (auto simp: frame_simps)
  ultimately show ?thesis
    using inv p dist t by (auto simp: sched_inv_def frame_simps set_remove1_eq)
qed

lemma reschedule_inv:
  assumes inv: "sched_inv s Q Z"
  shows "sched_inv (vibe_sched_reschedule cfg s) Q Z"
proof (cases "switches s")
  case False
  with inv show ?thesis by (simp add: reschedule_idle)
next
  case True
  note d = sched_invD [OF inv]
  obtain n where n: "vibe_sched_next_thread s = Some n" using True by (auto simp: switches_def)
  have nq: "n \<in> set (Q (unat (tprio s n)))"
  proof (cases "\<exists>p<32. Q p \<noteq> []")
    case True
    from next_thread_queued [OF d(1) True] n queues_repD(2) [OF d(1)] show ?thesis by (metis option.inject)
  next
    case False
    with next_thread_rep(1) [OF d(1)] n d(5) show ?thesis by auto
  qed
  let ?s = "vibe_sched_reschedule cfg s"
  have st: "tstate ?s t = (if t = n then VIBE_THREAD_RUNNING
      else if g_current_thread s = Some t \<and> tstate s t = VIBE_THREAD_RUNNING then VIBE_THREAD_READY
      else tstate s t)" for t
    using True n by (auto simp: reschedule_tstate)
  have "queues_rep ?s Q"
    using queues_repD(3) [OF d(1)] by (intro queues_rep_cong [OF d(1)]) (auto simp: frame_simps st)
  moreover have "sleep_rep ?s Z"
    using d(6) queues_repD(3) [OF d(1) d(3) nq]
    by (intro sleep_rep_cong [OF d(2)]) (auto simp: frame_simps st)
  ultimately show ?thesis using inv nq by (auto simp: sched_inv_def frame_simps st)
qed

section \<open>The sleep list\<close>

lemma sleep_scan_rep:
  "dlseg (sleep_nodes s) q Z None \<Longrightarrow>
   sleep_scan e s (head_or Z None) =
     Some (head_or (dropWhile (\<lambda>t. th_timeout (g_tcb s t) \<le> e) Z) None)"
  by (induction Z arbitrary: q) (auto simp: sleep_scan.simps)

lemma dlseg_prev: "dlseg L p (us @ n # vs) q \<Longrightarrow> node_prev (L n) = last_or p us"
  by simp

text \<open>Where a new sleeper goes: after every sleeper that expires no later.\<close>

definition sleep_insert :: "kstate \<Rightarrow> vibe_tick_t \<Rightarrow> tid \<Rightarrow> tid list \<Rightarrow> tid list" where
  "sleep_insert s e t Z =
     takeWhile (\<lambda>u. th_timeout (g_tcb s u) \<le> e) Z @ t # dropWhile (\<lambda>u. th_timeout (g_tcb s u) \<le> e) Z"

lemma set_sleep_insert [simp]: "set (sleep_insert s e t Z) = insert t (set Z)"
  unfolding sleep_insert_def
  by (metis (no_types, lifting) Un_insert_right list.simps(15) set_append takeWhile_dropWhile_id)

lemma sleep_insert_dll:
  assumes rep: "dll (sleep_nodes s) (g_sleep_list s) Z" and t: "t \<notin> set Z"
    and pos: "pos = head_or (dropWhile (\<lambda>u. th_timeout (g_tcb s u) \<le> e) Z) None"
  shows "\<exists>l L. (case pos of
              None \<Rightarrow> Some (vibe_list_append (g_sleep_list s) t (sleep_nodes s))
            | Some node \<Rightarrow>
                (case node_prev (sleep_nodes s node) of
                   Some a \<Rightarrow> vibe_list_insert_after (g_sleep_list s) (Some a) t (sleep_nodes s)
                 | None \<Rightarrow> Some (vibe_list_prepend (g_sleep_list s) t (sleep_nodes s)))) = Some (l, L) \<and>
           dll L l (sleep_insert s e t Z)"
proof (cases "dropWhile (\<lambda>u. th_timeout (g_tcb s u) \<le> e) Z")
  case Nil
  obtain l L where a: "vibe_list_append (g_sleep_list s) t (sleep_nodes s) = (l, L)" by force
  have "takeWhile (\<lambda>u. th_timeout (g_tcb s u) \<le> e) Z = Z"
    using Nil by (metis append_Nil2 takeWhile_dropWhile_id)
  then have "sleep_insert s e t Z = Z @ [t]" by (simp only: sleep_insert_def Nil)
  moreover have "pos = None" using pos by (simp only: Nil head_or.simps)
  ultimately show ?thesis using vl.app_rep [OF rep t a] a by simp
next
  case (Cons n vs)
  let ?us = "takeWhile (\<lambda>u. th_timeout (g_tcb s u) \<le> e) Z"
  have Z: "Z = ?us @ n # vs" using Cons by (metis takeWhile_dropWhile_id)
  have prev: "node_prev (sleep_nodes s n) = last_or None ?us"
    using rep Z dlseg_prev [of "sleep_nodes s" None ?us n vs None] by (simp add: dll_def)
  show ?thesis
  proof (cases ?us rule: rev_cases)
    case Nil
    obtain l L where a: "vibe_list_prepend (g_sleep_list s) t (sleep_nodes s) = (l, L)" by force
    from Nil Z have "Z = n # vs" by simp
    with prepend_dll(1) [OF rep t a] Nil Cons pos prev a show ?thesis by (simp add: sleep_insert_def)
  next
    case (snoc ws a)
    obtain l L where i: "vibe_list_insert_after (g_sleep_list s) (Some a) t (sleep_nodes s) = Some (l, L)"
      using insert_after_defined [of "g_sleep_list s" a t "sleep_nodes s"] by auto
    have "dll (sleep_nodes s) (g_sleep_list s) (ws @ a # n # vs)" "t \<notin> set (ws @ a # n # vs)"
      using rep t Z snoc by simp_all
    from insert_after_dll(1) [OF this i] snoc Cons pos prev i show ?thesis
      by (simp add: sleep_insert_def)
  qed
qed

lemma set_dropWhileD: "x \<in> set (dropWhile P xs) \<Longrightarrow> x \<in> set xs"
  by (metis Un_iff set_append takeWhile_dropWhile_id)

lemma sleep_insert_sorted:
  assumes "sorted (map f Z)"
  shows "sorted (map f (takeWhile (\<lambda>u. f u \<le> e) Z) @ e # map f (dropWhile (\<lambda>u. f u \<le> e) Z))"
  using assms
proof (induction Z)
  case Nil
  then show ?case by simp
next
  case (Cons z Z)
  then show ?case
    by (auto simp: sorted_append dest: set_takeWhileD set_dropWhileD intro: order_trans less_imp_le)
qed

lemma sched_sleep_inv:
  assumes inv: "sched_inv s Q Z" and st: "off_cpu (tstate s t)" and idle: "g_idle_thread s \<noteq> Some t"
  shows "\<exists>s'. vibe_sched_sleep t e s = Some s' \<and> sched_inv s' Q (sleep_insert s e t Z) \<and>
           g_tcb s' = (g_tcb s)(t := (g_tcb s t)\<lparr>th_timeout := e, th_state := VIBE_THREAD_SLEEPING\<rparr>) \<and>
           g_current_thread s' = g_current_thread s \<and> PRIMASK s' = PRIMASK s \<and>
           g_idle_thread s' = g_idle_thread s \<and> g_sched_lock_count s' = g_sched_lock_count s"
proof -
  note d = sched_invD [OF inv]
  let ?s = "upd_tcb t (\<lambda>th. th\<lparr>th_state := VIBE_THREAD_SLEEPING\<rparr>)
              (upd_tcb t (\<lambda>th. th\<lparr>th_timeout := e\<rparr>) (s\<lparr>PRIMASK := 1\<rparr>))"
  have t: "t \<notin> set Z" using d(6) [of t] st by (auto simp: off_cpu_def)
  have tmo: "\<forall>u\<in>set Z. th_timeout (g_tcb ?s u) = th_timeout (g_tcb s u)"
    using t by (auto simp: upd_tcb_def)
  have ins: "sleep_insert ?s e t Z = sleep_insert s e t Z"
    using tmo unfolding sleep_insert_def
    by (metis (no_types, lifting) dropWhile_cong takeWhile_cong)
  have rep: "dll (sleep_nodes ?s) (g_sleep_list ?s) Z"
    using d(2) by (simp add: sleep_rep_def upd_tcb_def)
  then obtain l L where
    "(case head_or (dropWhile (\<lambda>u. th_timeout (g_tcb ?s u) \<le> e) Z) None of
              None \<Rightarrow> Some (vibe_list_append (g_sleep_list ?s) t (sleep_nodes ?s))
            | Some node \<Rightarrow>
                (case node_prev (sleep_nodes ?s node) of
                   Some a \<Rightarrow> vibe_list_insert_after (g_sleep_list ?s) (Some a) t (sleep_nodes ?s)
                 | None \<Rightarrow> Some (vibe_list_prepend (g_sleep_list ?s) t (sleep_nodes ?s)))) = Some (l, L)"
    and dl: "dll L l (sleep_insert s e t Z)"
    using sleep_insert_dll [OF rep t refl] ins by metis
  moreover have "sleep_scan e ?s (l_head (g_sleep_list ?s)) =
      Some (head_or (dropWhile (\<lambda>u. th_timeout (g_tcb ?s u) \<le> e) Z) None)"
    using rep sleep_scan_rep [of ?s None Z e] by (simp add: dll_def)
  ultimately have run: "vibe_sched_sleep t e s =
      Some (?s\<lparr>g_sleep_list := l, sleep_nodes := L, PRIMASK := PRIMASK s\<rparr>)" (is "_ = Some ?r")
    by (simp add: vibe_sched_sleep_def arch_irq_lock_def arch_irq_unlock_def)
  have tcb: "g_tcb ?r = (g_tcb s)(t := (g_tcb s t)\<lparr>th_timeout := e, th_state := VIBE_THREAD_SLEEPING\<rparr>)"
    by (auto simp: upd_tcb_def)
  have "queues_rep ?r Q"
    using queues_repD(3) [OF d(1)] st
    by (intro queues_rep_cong [OF d(1)]) (auto simp: upd_tcb_def off_cpu_def)
  moreover have "sleep_rep ?r (sleep_insert s e t Z)"
  proof -
    have map: "map (\<lambda>u. th_timeout (g_tcb ?r u)) (sleep_insert s e t Z) =
        map (\<lambda>u. th_timeout (g_tcb s u)) (takeWhile (\<lambda>u. th_timeout (g_tcb s u) \<le> e) Z) @ e #
        map (\<lambda>u. th_timeout (g_tcb s u)) (dropWhile (\<lambda>u. th_timeout (g_tcb s u) \<le> e) Z)"
      using t unfolding tcb sleep_insert_def by (auto dest: set_takeWhileD set_dropWhileD)
    from d(2) have "sorted (map (\<lambda>u. th_timeout (g_tcb s u)) Z)" by (simp add: sleep_rep_def)
    from sleep_insert_sorted [OF this] have "sorted (map (\<lambda>u. th_timeout (g_tcb ?r u)) (sleep_insert s e t Z))"
      unfolding map .
    moreover have "\<forall>u\<in>set (sleep_insert s e t Z). tstate ?r u = VIBE_THREAD_SLEEPING"
      using d(6) unfolding tcb by simp
    ultimately show ?thesis unfolding sleep_rep_def using dl by simp
  qed
  ultimately have "sched_inv ?r Q (sleep_insert s e t Z)"
    using inv by (auto simp: sched_inv_def upd_tcb_def)
  with run tcb show ?thesis by (auto simp: upd_tcb_def)
qed

text \<open>One turn of the wake-up loop: the head of the sleep list moves to the tail of its run queue.\<close>

definition wake_one :: "tid \<Rightarrow> kstate \<Rightarrow> kstate" where
  "wake_one n s =
     (let (l, L) = vibe_list_remove (g_sleep_list s) n (sleep_nodes s)
      in vibe_sched_enqueue n (s\<lparr>g_sleep_list := l, sleep_nodes := L\<rparr>))"

lemma wake_loop_step:
  "wake_loop now (Some n) s =
     (if th_timeout (g_tcb s n) \<le> now
      then wake_loop now (node_next (sleep_nodes s n)) (wake_one n s) else Some s)"
  by (simp add: wake_loop.simps [of now "Some n"] wake_one_def Let_def split: prod.split)

lemma wake_one_tcb [frame_simps]:
  "g_tcb (wake_one n s) = (g_tcb s)(n := (g_tcb s n)\<lparr>th_state := VIBE_THREAD_READY\<rparr>)"
  "g_current_thread (wake_one n s) = g_current_thread s"
  "g_idle_thread (wake_one n s) = g_idle_thread s"
  "PRIMASK (wake_one n s) = PRIMASK s"
  "g_tick_count (wake_one n s) = g_tick_count s"
  "wait_nodes (wake_one n s) = wait_nodes s"
  "g_sched_lock_count (wake_one n s) = g_sched_lock_count s"
  by (simp_all add: wake_one_def frame_simps split: prod.split)

lemma wake_one_inv:
  assumes inv: "sched_inv s Q (n # Z)" and p: "p = unat (tprio s n)"
  shows "sched_inv (wake_one n s) (Q(p := Q p @ [n])) Z"
proof -
  note d = sched_invD [OF inv]
  obtain l L where rem: "vibe_list_remove (g_sleep_list s) n (sleep_nodes s) = (l, L)" by force
  let ?s = "s\<lparr>g_sleep_list := l, sleep_nodes := L\<rparr>"
  have sl: "dll (sleep_nodes s) (g_sleep_list s) ([] @ n # Z)" using d(2) by (simp add: sleep_rep_def)
  then have nZ: "n \<notin> set Z" by (auto dest: dll_distinct)
  have nQ: "n \<notin> set (Q p)" using d(3) d(6) [of n] queues_repD(3) [OF d(1), of p n] p by auto
  have "queues_rep ?s Q"
    using queues_repD(3) [OF d(1)] by (intro queues_rep_cong [OF d(1)]) auto
  then have q: "queues_rep (vibe_sched_enqueue n ?s) (Q(p := Q p @ [n]))"
    using nQ p d(3) by (intro enqueue_rep) auto
  have "sleep_rep ?s Z" using vl.rem_rep [OF sl rem] d(2) by (simp add: sleep_rep_def)
  then have "sleep_rep (vibe_sched_enqueue n ?s) Z"
    using nZ d(6) by (auto simp: frame_simps intro!: sleep_rep_cong [where s = ?s])
  with q have "sched_inv (vibe_sched_enqueue n ?s) (Q(p := Q p @ [n])) Z"
    using inv p by (auto simp: sched_inv_def frame_simps)
  then show ?thesis by (simp add: wake_one_def rem)
qed

text \<open>The run queues after waking the threads \<open>W\<close> in order.\<close>

definition woken :: "kstate \<Rightarrow> tid list \<Rightarrow> (nat \<Rightarrow> tid list) \<Rightarrow> nat \<Rightarrow> tid list" where
  "woken s W Q p = Q p @ filter (\<lambda>t. unat (tprio s t) = p) W"

lemma woken_Cons:
  "woken s (n # W) Q = woken s W (Q(unat (tprio s n) := Q (unat (tprio s n)) @ [n]))"
  by (auto simp: woken_def fun_eq_iff)

lemma woken_cong: "(\<And>t. tprio s' t = tprio s t) \<Longrightarrow> woken s' W Q = woken s W Q"
  by (simp add: woken_def fun_eq_iff)

lemma wake_loop_inv:
  assumes "sched_inv s Q Z"
  shows "\<exists>s'. wake_loop now (head_or Z None) s = Some s' \<and>
    sched_inv s' (woken s (takeWhile (\<lambda>t. th_timeout (g_tcb s t) \<le> now) Z) Q)
      (dropWhile (\<lambda>t. th_timeout (g_tcb s t) \<le> now) Z) \<and>
    (\<forall>t. g_tcb s' t = (if t \<in> set (takeWhile (\<lambda>t. th_timeout (g_tcb s t) \<le> now) Z)
       then (g_tcb s t)\<lparr>th_state := VIBE_THREAD_READY\<rparr> else g_tcb s t)) \<and>
    g_current_thread s' = g_current_thread s \<and> g_idle_thread s' = g_idle_thread s \<and>
    PRIMASK s' = PRIMASK s \<and> g_tick_count s' = g_tick_count s \<and>
    g_sched_lock_count s' = g_sched_lock_count s"
  using assms
proof (induction Z arbitrary: s Q)
  case Nil
  then show ?case by (simp add: wake_loop.simps woken_def)
next
  case (Cons n Z)
  note d = sched_invD [OF Cons.prems]
  have nxt: "node_next (sleep_nodes s n) = head_or Z None" and nZ: "n \<notin> set Z"
    using d(2) by (auto simp: sleep_rep_def dll_def)
  show ?case
  proof (cases "th_timeout (g_tcb s n) \<le> now")
    case False
    with Cons.prems show ?thesis by (simp add: wake_loop_step woken_def)
  next
    case True
    let ?s = "wake_one n s"
    have tmo: "th_timeout (g_tcb ?s t) = th_timeout (g_tcb s t)" "tprio ?s t = tprio s t" for t
      by (auto simp: frame_simps)
    note IH = Cons.IH [OF wake_one_inv [OF Cons.prems refl], unfolded tmo woken_cong [OF tmo(2)]]
    have "n \<notin> set (takeWhile (\<lambda>t. th_timeout (g_tcb s t) \<le> now) Z)"
      using nZ by (blast dest: set_takeWhileD)
    with IH True nxt show ?thesis
      by (auto simp: wake_loop_step woken_Cons frame_simps)
  qed
qed

lemma takeWhile_sorted_filter:
  "sorted (map f Z) \<Longrightarrow> takeWhile (\<lambda>t. f t \<le> e) Z = filter (\<lambda>t. f t \<le> e) Z"
  by (induction Z) (auto intro!: filter_False [symmetric] intro: order_trans)

lemma dropWhile_sorted_filter:
  "sorted (map f Z) \<Longrightarrow> dropWhile (\<lambda>t. f t \<le> e) Z = filter (\<lambda>t. \<not> f t \<le> e) Z"
  by (induction Z) (auto intro!: filter_True [symmetric])

text \<open>The early exit of the loop loses nothing: exactly the expired sleepers are woken.\<close>

lemma wake_expired_inv:
  assumes inv: "sched_inv s Q Z"
  shows "\<exists>s'. vibe_sched_wake_expired now s = Some s' \<and>
    sched_inv s' (woken s (filter (\<lambda>t. th_timeout (g_tcb s t) \<le> now) Z) Q)
      (filter (\<lambda>t. \<not> th_timeout (g_tcb s t) \<le> now) Z) \<and>
    (\<forall>t. g_tcb s' t = (if t \<in> set Z \<and> th_timeout (g_tcb s t) \<le> now
       then (g_tcb s t)\<lparr>th_state := VIBE_THREAD_READY\<rparr> else g_tcb s t)) \<and>
    g_current_thread s' = g_current_thread s \<and> g_idle_thread s' = g_idle_thread s \<and>
    PRIMASK s' = PRIMASK s \<and> g_tick_count s' = g_tick_count s \<and>
    g_sched_lock_count s' = g_sched_lock_count s"
proof -
  have srt: "sorted (map (\<lambda>t. th_timeout (g_tcb s t)) Z)" and hd: "l_head (g_sleep_list s) = head_or Z None"
    using sched_invD(2) [OF inv] by (auto simp: sleep_rep_def dll_def)
  show ?thesis
    using wake_loop_inv [OF inv, of now]
    unfolding vibe_sched_wake_expired_def hd takeWhile_sorted_filter [OF srt] dropWhile_sorted_filter [OF srt]
    by simp
qed

section \<open>Time slicing, the scheduler lock and the start\<close>

text \<open>Whether the tick ends the slice of the running thread and another thread shares its priority.\<close>

definition rotates :: "kconfig \<Rightarrow> kstate \<Rightarrow> tid \<Rightarrow> bool" where
  "rotates cfg s cur \<longleftrightarrow>
     CONFIG_TIMESLICE_MS cfg > 0 \<and> g_current_thread s = Some cur \<and> tstate s cur = VIBE_THREAD_RUNNING \<and>
     slice_left s \<le> 1 \<and> vibe_list_count (g_run_queues s (unat (tprio s cur))) > 1"

lemma timeslice_rotate:
  "rotates cfg s cur \<Longrightarrow> vibe_sched_timeslice_tick cfg s =
     vibe_sched_enqueue cur (vibe_sched_dequeue cur
       (s\<lparr>slice_left := VIBE_MS_TO_TICKS cfg (CONFIG_TIMESLICE_MS cfg)\<rparr>))"
  by (simp add: rotates_def vibe_sched_timeslice_tick_def not_less [symmetric])

lemma slice_left_self: "\<exists>k. s = s\<lparr>slice_left := k\<rparr>"
  by (rule exI [of _ "slice_left s"]) simp

lemma timeslice_keep:
  assumes "\<And>cur. \<not> rotates cfg s cur"
  shows "\<exists>k. vibe_sched_timeslice_tick cfg s = s\<lparr>slice_left := k\<rparr>"
proof (cases "g_current_thread s")
  case None
  with slice_left_self [of s] show ?thesis by (simp add: vibe_sched_timeslice_tick_def)
next
  case (Some c)
  with assms [of c] slice_left_self [of s] show ?thesis
    by (auto simp: rotates_def vibe_sched_timeslice_tick_def Let_def not_less)
qed

lemma slice_left_inv: "sched_inv (s\<lparr>slice_left := k\<rparr>) Q Z \<longleftrightarrow> sched_inv s Q Z"
  by (simp add: sched_inv_def queues_rep_def sleep_rep_def)

lemma timeslice_inv:
  assumes inv: "sched_inv s Q Z" and created: "\<And>c. g_current_thread s = Some c \<Longrightarrow> th_id (g_tcb s c) \<noteq> 0"
  shows "\<exists>Q'. sched_inv (vibe_sched_timeslice_tick cfg s) Q' Z \<and> (\<forall>p. mset (Q' p) = mset (Q p))"
proof (cases "\<exists>cur. rotates cfg s cur")
  case True
  then obtain cur where rotate: "rotates cfg s cur" by blast
  let ?s = "s\<lparr>slice_left := VIBE_MS_TO_TICKS cfg (CONFIG_TIMESLICE_MS cfg)\<rparr>" and ?p = "unat (tprio s cur)"
  have c: "cur \<in> set (Q ?p)"
    using rotate sched_invD(4) [OF inv] created by (auto simp: rotates_def)
  have "sched_inv (vibe_sched_timeslice_tick cfg s) (Q(?p := remove1 cur (Q ?p) @ [cur])) Z"
    using rotate_inv [of ?s Q Z ?p cur] inv c by (simp add: slice_left_inv timeslice_rotate [OF rotate])
  moreover have "mset ((Q(?p := remove1 cur (Q ?p) @ [cur])) p) = mset (Q p)" for p
    using c by simp
  ultimately show ?thesis by blast
next
  case False
  then obtain k where "vibe_sched_timeslice_tick cfg s = s\<lparr>slice_left := k\<rparr>"
    using timeslice_keep by blast
  with inv show ?thesis by (auto simp: slice_left_inv)
qed

end
