(* ===== verification/Vibe_Thread.thy ===== *)
theory Vibe_Thread
  imports Vibe_Sched
begin

text \<open>
  Thread lifecycle (\<^verbatim>\<open>kernel/thread.c\<close>): creation with the initial stack frame and canary,
  deletion, suspend and resume, sleep, yield, restart and priority changes. The dynamic-stack
  functions \<^verbatim>\<open>vibe_heap_alloc\<close> and \<^verbatim>\<open>vibe_heap_free\<close> are arguments, over a heap state
  \<open>'h\<close>, since the build selects one of three allocators. The result \<^term>\<open>None\<close> is a call that does
  not return (a \<^verbatim>\<open>NULL\<close> dereference or an endless loop).
\<close>

section \<open>Operations\<close>

definition STACK_CANARY_VALUE :: u32 where
  "STACK_CANARY_VALUE = 0xDEADBEEF"

record vibe_thread_attr_t =
  at_stack_size :: u32
  at_priority :: u8
  at_name :: "string option"
  at_is_static :: bool
  at_cpu_id :: int

definition thread_stack_setup :: "kconfig \<Rightarrow> tid \<Rightarrow> kstate \<Rightarrow> kstate" where
  "thread_stack_setup cfg t s =
     (let s = (if CONFIG_STACK_CANARY cfg
               then store32 (th_stack_base (g_tcb s t)) STACK_CANARY_VALUE s else s)
      in arch_thread_stack_init cfg t s)"

definition thread_stack_check :: "kconfig \<Rightarrow> tid \<Rightarrow> kstate \<Rightarrow> bool" where
  "thread_stack_check cfg t s \<longleftrightarrow>
     (if CONFIG_STACK_CANARY cfg
      then mem32 s (th_stack_base (g_tcb s t)) = STACK_CANARY_VALUE else True)"

text \<open>The TCB of a new thread, then the part of \<^verbatim>\<open>vibe_thread_create\<close> after the stack buffer is known.\<close>

definition fresh_tcb :: "kconfig \<Rightarrow> u32 \<Rightarrow> u32 \<Rightarrow> vibe_thread_attr_t \<Rightarrow> u32 \<Rightarrow> u32 \<Rightarrow> kstate \<Rightarrow> vibe_thread_t" where
  "fresh_tcb cfg entry arg attr b sz s =
     (let th = zero_thread\<lparr>th_id := g_next_thread_id s, th_entry := entry, th_arg := arg,
                 th_priority := at_priority attr, th_base_priority := at_priority attr,
                 th_stack_base := b, th_stack_size := sz,
                 th_state := VIBE_THREAD_SUSPENDED, th_is_static := at_is_static attr,
                 th_cpu_id := (if at_cpu_id attr < 0 then 0 else word_of_int (at_cpu_id attr)),
                 th_name := (case at_name attr of None \<Rightarrow> [] | Some nm \<Rightarrow> take 31 nm)\<rparr>
      in if CONFIG_TLS cfg then th\<lparr>th_tls := b + sz - 4\<rparr> else th)"

definition thread_create_init ::
    "kconfig \<Rightarrow> tid \<Rightarrow> u32 \<Rightarrow> u32 \<Rightarrow> vibe_thread_attr_t \<Rightarrow> u32 \<Rightarrow> u32 \<Rightarrow> kstate \<Rightarrow> kstate" where
  "thread_create_init cfg t entry arg attr stack_buf stack_size s =
     (let th = fresh_tcb cfg entry arg attr stack_buf stack_size s;
          s = s\<lparr>g_next_thread_id := g_next_thread_id s + 1\<rparr>;
          s = upd_tcb t (\<lambda>_. th) s;
          s = s\<lparr>sched_nodes := vibe_list_node_init t (sched_nodes s),
                wait_nodes := vibe_list_node_init t (wait_nodes s),
                sleep_nodes := vibe_list_node_init t (sleep_nodes s)\<rparr>;
          s = thread_stack_setup cfg t s
      in vibe_sched_enqueue t s)"

definition vibe_thread_create ::
    "kconfig \<Rightarrow> (u32 \<Rightarrow> 'h \<Rightarrow> u32 option \<times> 'h) \<Rightarrow> tid option \<Rightarrow> u32 \<Rightarrow> u32 \<Rightarrow> vibe_thread_attr_t option \<Rightarrow>
     u32 option \<Rightarrow> 'h \<Rightarrow> kstate \<Rightarrow> (vibe_err_t \<times> 'h \<times> kstate) option" where
  "vibe_thread_create cfg heap_alloc thread entry arg attr stack h s =
     (case attr of
        None \<Rightarrow> Some (VIBE_EINVAL, h, s)
      | Some at \<Rightarrow>
          if entry = 0 then Some (VIBE_EINVAL, h, s)
          else if at_priority at > VIBE_PRIO_MAX then Some (VIBE_EINVAL, h, s)
          else
            (let stack_size = (if at_stack_size at > 0 then at_stack_size at else 512);
                 (stack_buf, h) = (case stack of
                                     Some b \<Rightarrow> (Some b, h)
                                   | None \<Rightarrow> if CONFIG_HEAP_MEM cfg then heap_alloc stack_size h
                                             else (None, h))
             in case stack_buf of
                  None \<Rightarrow> Some (VIBE_ENOMEM, h, s)
                | Some b \<Rightarrow>
                    (case thread of
                       None \<Rightarrow> None
                     | Some t \<Rightarrow> Some (VIBE_OK, h, thread_create_init cfg t entry arg at b stack_size s))))"

definition arg_or_self :: "tid option \<Rightarrow> kstate \<Rightarrow> tid option" where
  "arg_or_self thread s = (case thread of None \<Rightarrow> vibe_thread_self s | Some t \<Rightarrow> Some t)"

abbreviation set_state :: "tid \<Rightarrow> vibe_thread_state_t \<Rightarrow> kstate \<Rightarrow> kstate" where
  "set_state t st \<equiv> upd_tcb t (\<lambda>th. th\<lparr>th_state := st\<rparr>)"

definition vibe_thread_delete ::
    "kconfig \<Rightarrow> (u32 \<Rightarrow> 'h \<Rightarrow> 'h) \<Rightarrow> tid option \<Rightarrow> 'h \<Rightarrow> kstate \<Rightarrow> (vibe_err_t \<times> 'h \<times> kstate) option" where
  "vibe_thread_delete cfg heap_free thread h s =
     (case arg_or_self thread s of
        None \<Rightarrow> None
      | Some t \<Rightarrow>
          (let (key, s) = arch_irq_lock s;
               s = (if tstate s t = VIBE_THREAD_READY \<or> tstate s t = VIBE_THREAD_RUNNING
                    then vibe_sched_dequeue t s else s);
               s = set_state t VIBE_THREAD_DEAD s;
               (h, s) = (if CONFIG_HEAP_MEM cfg \<and> \<not> th_is_static (g_tcb s t) \<and> th_stack_base (g_tcb s t) \<noteq> 0
                         then (heap_free (th_stack_base (g_tcb s t)) h,
                               upd_tcb t (\<lambda>th. th\<lparr>th_stack_base := 0\<rparr>) s)
                         else (h, s));
               s = arch_irq_unlock key s;
               s = (if vibe_thread_self s = Some t then vibe_sched_reschedule cfg s else s)
           in Some (VIBE_OK, h, s)))"

definition vibe_thread_suspend :: "kconfig \<Rightarrow> tid option \<Rightarrow> kstate \<Rightarrow> (vibe_err_t \<times> kstate) option" where
  "vibe_thread_suspend cfg thread s =
     (case arg_or_self thread s of
        None \<Rightarrow> None
      | Some t \<Rightarrow>
          (let (key, s) = arch_irq_lock s in
           if tstate s t = VIBE_THREAD_DEAD then Some (VIBE_EINVAL, arch_irq_unlock key s)
           else
             (let s = (if tstate s t = VIBE_THREAD_READY \<or> tstate s t = VIBE_THREAD_RUNNING
                       then vibe_sched_dequeue t s else s);
                  s = set_state t VIBE_THREAD_SUSPENDED s;
                  s = arch_irq_unlock key s;
                  s = (if vibe_thread_self s = Some t then vibe_sched_reschedule cfg s else s)
              in Some (VIBE_OK, s))))"

definition vibe_thread_resume :: "kconfig \<Rightarrow> tid option \<Rightarrow> kstate \<Rightarrow> vibe_err_t \<times> kstate" where
  "vibe_thread_resume cfg thread s =
     (case thread of
        None \<Rightarrow> (VIBE_EINVAL, s)
      | Some t \<Rightarrow>
          (let (key, s) = arch_irq_lock s in
           if tstate s t \<noteq> VIBE_THREAD_SUSPENDED then (VIBE_EINVAL, arch_irq_unlock key s)
           else
             (let s = vibe_sched_enqueue t s;
                  s = arch_irq_unlock key s;
                  s = (case vibe_thread_self s of
                         None \<Rightarrow> s
                       | Some self \<Rightarrow> if tprio s t > tprio s self then vibe_sched_reschedule cfg s else s)
              in (VIBE_OK, s))))"

text \<open>\<^verbatim>\<open>vibe_thread_sleep\<close> up to the point where the context switch, if any, is pending.\<close>

definition vibe_thread_sleep :: "kconfig \<Rightarrow> u32 \<Rightarrow> kstate \<Rightarrow> kstate option" where
  "vibe_thread_sleep cfg ms s =
     (case vibe_thread_self s of
        None \<Rightarrow> Some s
      | Some self \<Rightarrow>
          (let now = vibe_tick_get s;
               expiry = now + VIBE_MS_TO_TICKS cfg ms;
               (key, s) = arch_irq_lock s;
               s = vibe_sched_dequeue self s
           in do {
                s \<leftarrow> vibe_sched_sleep self expiry s;
                let s = arch_irq_unlock key s;
                let s = (if CONFIG_TICKLESS_IDLE cfg \<and> vibe_sched_next_wakeup s \<noteq> VIBE_WAIT_FOREVER
                         then arch_set_next_tick (vibe_sched_next_wakeup s) s else s);
                Some (vibe_sched_reschedule cfg s)
              }))"

definition vibe_thread_yield :: "kconfig \<Rightarrow> kstate \<Rightarrow> kstate" where
  "vibe_thread_yield cfg s =
     (case vibe_thread_self s of
        None \<Rightarrow> s
      | Some self \<Rightarrow>
          (let (key, s) = arch_irq_lock s;
               s = vibe_sched_dequeue self s;
               s = vibe_sched_enqueue self s;
               s = arch_irq_unlock key s
           in vibe_sched_reschedule cfg s))"

definition vibe_thread_restart :: "kconfig \<Rightarrow> tid option \<Rightarrow> kstate \<Rightarrow> (vibe_err_t \<times> kstate) option" where
  "vibe_thread_restart cfg thread s =
     (case arg_or_self thread s of
        None \<Rightarrow> None
      | Some t \<Rightarrow>
          (let (key, s) = arch_irq_lock s;
               s = (if tstate s t = VIBE_THREAD_READY then vibe_sched_dequeue t s
                    else if tstate s t = VIBE_THREAD_SLEEPING then
                      (let (l, L) = vibe_list_remove (g_sleep_list s) t (sleep_nodes s)
                       in s\<lparr>g_sleep_list := l, sleep_nodes := L\<rparr>)
                    else s);
               s = upd_tcb t (\<lambda>th. th\<lparr>th_priority := th_base_priority th\<rparr>) s;
               s = set_state t VIBE_THREAD_SUSPENDED s;
               s = upd_tcb t (\<lambda>th. th\<lparr>th_timeout := 0\<rparr>) s;
               s = thread_stack_setup cfg t s;
               s = vibe_sched_enqueue t s
           in Some (VIBE_OK, arch_irq_unlock key s)))"

definition vibe_thread_set_priority ::
    "kconfig \<Rightarrow> tid option \<Rightarrow> u8 \<Rightarrow> kstate \<Rightarrow> (vibe_err_t \<times> kstate) option" where
  "vibe_thread_set_priority cfg thread priority s =
     (if priority > VIBE_PRIO_MAX then Some (VIBE_EINVAL, s)
      else case arg_or_self thread s of
             None \<Rightarrow> None
           | Some t \<Rightarrow>
               (let (key, s) = arch_irq_lock s;
                    was_ready = (tstate s t = VIBE_THREAD_READY);
                    s = (if was_ready then vibe_sched_dequeue t s else s);
                    s = upd_tcb t (\<lambda>th. th\<lparr>th_priority := priority, th_base_priority := priority\<rparr>) s;
                    s = (if was_ready then vibe_sched_enqueue t s else s);
                    s = arch_irq_unlock key s
                in Some (VIBE_OK, vibe_sched_reschedule cfg s)))"

definition vibe_thread_is_in_isr :: "kstate \<Rightarrow> bool" where
  "vibe_thread_is_in_isr s = arch_is_in_isr s"

definition vibe_thread_get_state :: "tid option \<Rightarrow> kstate \<Rightarrow> vibe_thread_state_t" where
  "vibe_thread_get_state thread s =
     (case thread of Some t \<Rightarrow> tstate s t | None \<Rightarrow> VIBE_THREAD_DEAD)"

definition vibe_thread_get_name :: "tid option \<Rightarrow> kstate \<Rightarrow> string" where
  "vibe_thread_get_name thread s =
     (case thread of Some t \<Rightarrow> th_name (g_tcb s t) | None \<Rightarrow> ''(null)'')"

text \<open>A clobbered canary stops the system.\<close>

definition vibe_thread_check_canary :: "kconfig \<Rightarrow> tid \<Rightarrow> kstate \<Rightarrow> kstate option" where
  "vibe_thread_check_canary cfg t s = (if thread_stack_check cfg t s then Some s else None)"

text \<open>
  The exit trampoline deletes the calling thread and then idles for ever; the result is the state
  in which it starts to idle.
\<close>

definition vibe_thread_exit ::
    "kconfig \<Rightarrow> (u32 \<Rightarrow> 'h \<Rightarrow> 'h) \<Rightarrow> 'h \<Rightarrow> kstate \<Rightarrow> (vibe_err_t \<times> 'h \<times> kstate) option" where
  "vibe_thread_exit cfg heap_free h s = vibe_thread_delete cfg heap_free (vibe_thread_self s) h s"

section \<open>Scheduling fields\<close>

text \<open>The invariant reads only the scheduler's lists and four fields of each TCB.\<close>

lemma sched_inv_cong:
  assumes inv: "sched_inv s Q Z"
    and "sched_nodes s' = sched_nodes s" "g_run_queues s' = g_run_queues s" "g_ready_mask s' = g_ready_mask s"
    and "sleep_nodes s' = sleep_nodes s" "g_sleep_list s' = g_sleep_list s" "g_idle_thread s' = g_idle_thread s"
    and tcb: "\<And>t. th_id (g_tcb s' t) = th_id (g_tcb s t)" "\<And>t. tstate s' t = tstate s t"
      "\<And>t. tprio s' t = tprio s t" "\<And>t. th_timeout (g_tcb s' t) = th_timeout (g_tcb s t)"
  shows "sched_inv s' Q Z"
  using assms unfolding sched_inv_def queues_rep_def sleep_rep_def by simp

lemma sched_inv_primask [simp]: "sched_inv (s\<lparr>PRIMASK := k\<rparr>) Q Z \<longleftrightarrow> sched_inv s Q Z"
  by (simp add: sched_inv_def queues_rep_def sleep_rep_def)

lemma sched_inv_tick [simp]: "sched_inv (s\<lparr>g_tick_count := k\<rparr>) Q Z \<longleftrightarrow> sched_inv s Q Z"
  by (simp add: sched_inv_def queues_rep_def sleep_rep_def)

lemma sched_inv_lock [simp]: "sched_inv (s\<lparr>g_sched_lock_count := k\<rparr>) Q Z \<longleftrightarrow> sched_inv s Q Z"
  by (simp add: sched_inv_def queues_rep_def sleep_rep_def)

lemma upd_free_inv:
  assumes inv: "sched_inv s Q Z" and Q: "\<And>p. p < 32 \<Longrightarrow> t \<notin> set (Q p)" and Z: "t \<notin> set Z"
    and off: "off_cpu (th_state (f (g_tcb s t)))" and prio: "th_priority (f (g_tcb s t)) \<le> VIBE_PRIO_MAX"
  shows "sched_inv (upd_tcb t f s) Q Z"
proof -
  note d = sched_invD [OF inv]
  have "g_idle_thread s \<noteq> Some t" using d(5) Q d(3) by blast
  moreover have "queues_rep (upd_tcb t f s) Q"
    using Q queues_repD(3) [OF d(1)] by (intro queues_rep_cong [OF d(1)]) (auto simp: upd_tcb_def)
  moreover have "sleep_rep (upd_tcb t f s) Z"
    using Z d(6) by (intro sleep_rep_cong [OF d(2)]) (auto simp: upd_tcb_def)
  ultimately show ?thesis using inv off prio by (auto simp: sched_inv_def upd_tcb_def off_cpu_def)
qed

lemma off_cpu_free:
  "sched_inv s Q Z \<Longrightarrow> off_cpu (tstate s t) \<Longrightarrow> p < 32 \<Longrightarrow> t \<notin> set (Q p)"
  "sched_inv s Q Z \<Longrightarrow> off_cpu (tstate s t) \<Longrightarrow> t \<notin> set Z"
  using sched_inv_not_queued sched_invD(6) by (auto simp: off_cpu_def)

text \<open>
  Deletion and suspension: a created thread that is not asleep leaves the run queue it is in, if any.
\<close>

lemma retire_inv:
  assumes inv: "sched_inv s Q Z" and created: "th_id (g_tcb s t) \<noteq> 0" and idle: "g_idle_thread s \<noteq> Some t"
    and awake: "tstate s t \<noteq> VIBE_THREAD_SLEEPING" and off: "off_cpu (th_state (f (g_tcb s t)))"
    and prio: "th_priority (f (g_tcb s t)) = tprio s t" and p: "p = unat (tprio s t)"
  shows "sched_inv (upd_tcb t f (if tstate s t = VIBE_THREAD_READY \<or> tstate s t = VIBE_THREAD_RUNNING
                                 then vibe_sched_dequeue t s else s)) (Q(p := remove1 t (Q p))) Z"
proof (cases "tstate s t = VIBE_THREAD_READY \<or> tstate s t = VIBE_THREAD_RUNNING")
  case True
  with sched_invD(4) [OF inv created] p have "t \<in> set (Q p)" by simp
  with True show ?thesis using dequeue_block_inv [where f = f, OF inv p _ idle off prio] by simp
next
  case False
  with awake have "off_cpu (tstate s t)" by (simp add: off_cpu_def)
  note free = off_cpu_free [OF inv this]
  have "p < 32" using sched_invD(3) [OF inv] p by simp
  then have "Q(p := remove1 t (Q p)) = Q" using free(1) by (simp add: remove1_idem)
  moreover have "tprio s t \<le> VIBE_PRIO_MAX" using inv by (simp add: sched_inv_def)
  ultimately show ?thesis using False upd_free_inv [where f = f, OF inv free off] prio by simp
qed

primrec zero_mem :: "nat \<Rightarrow> u32 \<Rightarrow> (u32 \<Rightarrow> u32) \<Rightarrow> u32 \<Rightarrow> u32" where
  "zero_mem 0 a m = m"
| "zero_mem (Suc n) a m = zero_mem n (a + 4) (m(a := 0))"

lemma zero_words_mem: "zero_words n a s = s\<lparr>mem32 := zero_mem n a (mem32 s)\<rparr>"
  by (induction n arbitrary: a s) (simp_all add: store32_def)

lemma stack_setup_frame:
  "\<exists>m sp. thread_stack_setup cfg t s = upd_tcb t (\<lambda>th. th\<lparr>th_stack_ptr := sp\<rparr>) (s\<lparr>mem32 := m\<rparr>)"
  unfolding thread_stack_setup_def arch_thread_stack_init_def Let_def store32_def zero_words_mem
  by (auto simp: upd_tcb_def)

lemma stack_setup_inv: "sched_inv (thread_stack_setup cfg t s) Q Z \<longleftrightarrow> sched_inv s Q Z"
proof -
  obtain m sp where eq: "thread_stack_setup cfg t s =
      upd_tcb t (\<lambda>th. th\<lparr>th_stack_ptr := sp\<rparr>) (s\<lparr>mem32 := m\<rparr>)"
    using stack_setup_frame by blast
  show ?thesis unfolding eq by (rule iffI; erule sched_inv_cong) (simp_all add: upd_tcb_def)
qed

section \<open>The kernel invariant\<close>

text \<open>
  \<open>live_inv\<close>: the scheduler invariant, only created threads are queued or asleep, and base
  priorities are in range.
  \<open>current_ok\<close>: the thread on the CPU is a created, schedulable thread.
  \<open>kernel_inv\<close> adds that an idle thread is registered; it is what every operation keeps.
\<close>

definition live_inv :: "kstate \<Rightarrow> (nat \<Rightarrow> tid list) \<Rightarrow> tid list \<Rightarrow> bool" where
  "live_inv s Q Z \<longleftrightarrow>
     sched_inv s Q Z \<and> (\<forall>p<32. \<forall>t\<in>set (Q p). th_id (g_tcb s t) \<noteq> 0) \<and> (\<forall>t\<in>set Z. th_id (g_tcb s t) \<noteq> 0) \<and>
     (\<forall>t. th_base_priority (g_tcb s t) \<le> VIBE_PRIO_MAX)"

definition current_ok :: "kstate \<Rightarrow> bool" where
  "current_ok s \<longleftrightarrow>
     (\<forall>c. g_current_thread s = Some c \<longrightarrow>
        th_id (g_tcb s c) \<noteq> 0 \<and> tstate s c \<in> {VIBE_THREAD_READY, VIBE_THREAD_RUNNING})"

definition kernel_inv :: "kstate \<Rightarrow> bool" where
  "kernel_inv s \<longleftrightarrow>
     (\<exists>Q Z. live_inv s Q Z) \<and> current_ok s \<and> g_idle_thread s \<noteq> None \<and> 0 \<le> g_sched_lock_count s"

lemma live_invD:
  assumes "live_inv s Q Z"
  shows "sched_inv s Q Z" "p < 32 \<Longrightarrow> t \<in> set (Q p) \<Longrightarrow> th_id (g_tcb s t) \<noteq> 0"
    "t \<in> set Z \<Longrightarrow> th_id (g_tcb s t) \<noteq> 0" "th_base_priority (g_tcb s t) \<le> VIBE_PRIO_MAX"
  using assms by (auto simp: live_inv_def)

lemma live_invI:
  assumes "sched_inv s' Q' Z'"
    and "\<And>p t. p < 32 \<Longrightarrow> t \<in> set (Q' p) \<Longrightarrow> th_id (g_tcb s' t) \<noteq> 0"
    and "\<And>t. t \<in> set Z' \<Longrightarrow> th_id (g_tcb s' t) \<noteq> 0"
    and "\<And>t. th_base_priority (g_tcb s' t) \<le> VIBE_PRIO_MAX"
  shows "live_inv s' Q' Z'"
  using assms by (simp add: live_inv_def)

lemma live_inv_simps [simp]:
  "live_inv (s\<lparr>PRIMASK := k\<rparr>) Q Z \<longleftrightarrow> live_inv s Q Z"
  "live_inv (s\<lparr>g_tick_count := n\<rparr>) Q Z \<longleftrightarrow> live_inv s Q Z"
  "live_inv (s\<lparr>g_sched_lock_count := c\<rparr>) Q Z \<longleftrightarrow> live_inv s Q Z"
  by (simp_all add: live_inv_def)

lemma current_ok_simps [simp]:
  "current_ok (s\<lparr>PRIMASK := k\<rparr>) \<longleftrightarrow> current_ok s"
  "current_ok (s\<lparr>g_tick_count := n\<rparr>) \<longleftrightarrow> current_ok s"
  "current_ok (s\<lparr>g_sched_lock_count := c\<rparr>) \<longleftrightarrow> current_ok s"
  by (simp_all add: current_ok_def)

lemma reschedule_live: "live_inv s Q Z \<Longrightarrow> live_inv (vibe_sched_reschedule cfg s) Q Z"
  by (auto simp: live_inv_def frame_simps intro: reschedule_inv)

text \<open>An unlocked reschedule leaves the head of the highest non-empty queue on the CPU.\<close>

lemma reschedule_best:
  assumes inv: "live_inv s Q Z" and idle: "g_idle_thread s \<noteq> None" and lock: "g_sched_lock_count s \<le> 0"
  shows "\<exists>p<32. \<exists>c. Q p \<noteq> [] \<and> c = hd (Q p) \<and> (\<forall>q<32. p < q \<longrightarrow> Q q = []) \<and>
    g_current_thread (vibe_sched_reschedule cfg s) = Some c \<and>
    th_id (g_tcb s c) \<noteq> 0 \<and>
    tstate (vibe_sched_reschedule cfg s) c \<in> {VIBE_THREAD_READY, VIBE_THREAD_RUNNING}"
proof -
  note l = live_invD [OF inv] and d = sched_invD [OF live_invD(1) [OF inv]]
  obtain i where "g_idle_thread s = Some i" using idle by auto
  with d(5) d(3) have "\<exists>p<32. Q p \<noteq> []" by (metis empty_iff list.set(1))
  then obtain p n where n: "p < 32" "vibe_sched_next_thread s = Some n" "n \<in> set (Q p)" "n = hd (Q p)"
      "\<And>q. q < 32 \<Longrightarrow> p < q \<Longrightarrow> Q q = []"
    using next_thread_queued [OF d(1)] by metis
  have "g_current_thread (vibe_sched_reschedule cfg s) = Some n"
    using n lock by (simp add: reschedule_current switches_def)
  moreover have "tstate (vibe_sched_reschedule cfg s) n \<in> {VIBE_THREAD_READY, VIBE_THREAD_RUNNING}"
    using queues_repD(3) [OF d(1) n(1,3)] by (auto simp: reschedule_tstate)
  ultimately show ?thesis using n l(2) [OF n(1,3)] by (intro exI [of _ p]) auto
qed

lemma reschedule_current_ok:
  assumes "live_inv s Q Z" "g_idle_thread s \<noteq> None" "g_sched_lock_count s \<le> 0"
  shows "current_ok (vibe_sched_reschedule cfg s)"
  using reschedule_best [OF assms, of cfg] assms(2) by (auto simp: current_ok_def frame_simps)

lemma reschedule_kernel_inv:
  assumes inv: "live_inv s Q Z" and idle: "g_idle_thread s \<noteq> None" and lock: "0 \<le> g_sched_lock_count s"
    and ok: "g_sched_lock_count s = 0 \<or> current_ok s"
  shows "kernel_inv (vibe_sched_reschedule cfg s)"
proof -
  have "current_ok (vibe_sched_reschedule cfg s)"
  proof (cases "switches s")
    case True
    with reschedule_current_ok [OF inv idle] show ?thesis by (simp add: switches_def)
  next
    case False
    with ok reschedule_current_ok [OF inv idle, of cfg] show ?thesis by (auto simp: reschedule_idle)
  qed
  with reschedule_live [OF inv, of cfg] idle lock show ?thesis by (auto simp: kernel_inv_def frame_simps)
qed

lemma reschedule_leaves:
  assumes inv: "live_inv s Q Z" and idle: "g_idle_thread s \<noteq> None" and lock: "g_sched_lock_count s \<le> 0"
    and c: "tstate s c \<noteq> VIBE_THREAD_READY" "tstate s c \<noteq> VIBE_THREAD_RUNNING"
  shows "g_current_thread (vibe_sched_reschedule cfg s) \<noteq> Some c"
    "tstate (vibe_sched_reschedule cfg s) c = tstate s c"
proof -
  obtain p n where p: "p < 32" "Q p \<noteq> []" "g_current_thread (vibe_sched_reschedule cfg s) = Some (hd (Q p))"
    using reschedule_best [OF inv idle lock, of cfg] by blast
  have "hd (Q p) \<noteq> c"
    using hd_in_set [OF p(2)] sched_inv_not_queued [OF live_invD(1) [OF inv] p(1) c] by metis
  with p(3) show cur: "g_current_thread (vibe_sched_reschedule cfg s) \<noteq> Some c" by simp
  then show "tstate (vibe_sched_reschedule cfg s) c = tstate s c"
    using c by (auto simp: reschedule_tstate reschedule_current split: if_splits)
qed

lemma kernel_invI:
  "live_inv s Q Z \<Longrightarrow> current_ok s \<Longrightarrow> g_idle_thread s \<noteq> None \<Longrightarrow> 0 \<le> g_sched_lock_count s \<Longrightarrow> kernel_inv s"
  by (auto simp: kernel_inv_def)

lemma kernel_invE:
  assumes "kernel_inv s"
  obtains Q Z where "live_inv s Q Z" "current_ok s" "g_idle_thread s \<noteq> None" "0 \<le> g_sched_lock_count s"
  using assms by (auto simp: kernel_inv_def)

section \<open>Every operation keeps the invariant\<close>

text \<open>Suspension and deletion share a body: retire the thread, then reschedule if it was the caller.\<close>

lemma retire_live:
  assumes "live_inv s Q Z" "th_id (g_tcb s t) \<noteq> 0" "g_idle_thread s \<noteq> Some t"
    "tstate s t \<noteq> VIBE_THREAD_SLEEPING" "off_cpu (th_state (f (g_tcb s t)))"
    "th_priority (f (g_tcb s t)) = tprio s t" "th_id (f (g_tcb s t)) = th_id (g_tcb s t)"
    "th_base_priority (f (g_tcb s t)) = th_base_priority (g_tcb s t)"
  shows "live_inv (upd_tcb t f (if tstate s t = VIBE_THREAD_READY \<or> tstate s t = VIBE_THREAD_RUNNING
            then vibe_sched_dequeue t s else s))
          (Q(unat (tprio s t) := remove1 t (Q (unat (tprio s t))))) Z"
  using retire_inv [where f = f, OF live_invD(1) [OF assms(1)] assms(2-6) refl] live_invD(2,3,4) [OF assms(1)] assms(2,7,8)
  by (intro live_invI) (auto simp: upd_tcb_def frame_simps dest: set_remove1_subset [THEN subsetD] split: if_splits)

lemma retire_kernel_inv:
  assumes inv: "kernel_inv s" and t: "th_id (g_tcb s t) \<noteq> 0" "g_idle_thread s \<noteq> Some t"
      "tstate s t \<noteq> VIBE_THREAD_SLEEPING" "off_cpu (th_state (f (g_tcb s t)))"
      "th_priority (f (g_tcb s t)) = tprio s t" "th_id (f (g_tcb s t)) = th_id (g_tcb s t)"
      "th_base_priority (f (g_tcb s t)) = th_base_priority (g_tcb s t)"
    and lock: "g_current_thread s = Some t \<Longrightarrow> g_sched_lock_count s = 0"
    and s1: "s1 = upd_tcb t f (if tstate s t = VIBE_THREAD_READY \<or> tstate s t = VIBE_THREAD_RUNNING
            then vibe_sched_dequeue t s else s)"
    and s2: "s2 = (if g_current_thread s = Some t then vibe_sched_reschedule cfg s1 else s1)"
  shows "kernel_inv s2" "g_current_thread s2 \<noteq> Some t" "tstate s2 t = th_state (f (g_tcb s t))"
    "PRIMASK s2 = PRIMASK s"
proof -
  obtain Q Z where k: "live_inv s Q Z" "current_ok s" "g_idle_thread s \<noteq> None" "0 \<le> g_sched_lock_count s"
    using inv by (rule kernel_invE)
  have fr: "g_idle_thread s1 = g_idle_thread s" "g_sched_lock_count s1 = g_sched_lock_count s"
      "g_current_thread s1 = g_current_thread s" "\<And>u. u \<noteq> t \<Longrightarrow> g_tcb s1 u = g_tcb s u"
    unfolding s1 by (auto simp: upd_tcb_def frame_simps)
  note live = retire_live [where f = f, OF k(1) t, folded s1]
  have st1: "tstate s1 t = th_state (f (g_tcb s t))" "PRIMASK s1 = PRIMASK s"
    unfolding s1 by (auto simp: upd_tcb_def frame_simps)
  have cur: "g_current_thread s2 \<noteq> Some t"
  proof (cases "g_current_thread s = Some t")
    case True
    with lock k(3,4) fr have "g_idle_thread s1 \<noteq> None" "g_sched_lock_count s1 \<le> 0" by simp_all
    from reschedule_leaves(1) [OF live this, of t cfg] st1(1) t(4) True show ?thesis
      unfolding s2 by (auto simp: off_cpu_def)
  next
    case False
    with fr(3) show ?thesis unfolding s2 by simp
  qed
  then show "g_current_thread s2 \<noteq> Some t" .
  show "tstate s2 t = th_state (f (g_tcb s t))"
  proof -
    have "tstate s1 t \<noteq> VIBE_THREAD_RUNNING" using st1(1) t(4) by (auto simp: off_cpu_def)
    then show ?thesis using cur st1(1) unfolding s2
      by (auto simp: reschedule_tstate reschedule_current split: if_splits)
  qed
  show "PRIMASK s2 = PRIMASK s" using st1(2) unfolding s2 by (auto simp: frame_simps)
  show "kernel_inv s2"
  proof (cases "g_current_thread s = Some t")
    case True
    with lock k(3,4) fr show ?thesis unfolding s2 using reschedule_kernel_inv [OF live, of cfg] by simp
  next
    case False
    with k(2) fr have "current_ok s1" by (auto simp: current_ok_def)
    with False live k(3,4) fr show ?thesis unfolding s2 by (auto intro!: kernel_invI)
  qed
qed

lemma upd_upd: "upd_tcb t g (upd_tcb t f s) = upd_tcb t (\<lambda>th. g (f th)) s"
  by (simp add: upd_tcb_def)

lemma upd_primask: "(upd_tcb t f s)\<lparr>PRIMASK := k\<rparr> = upd_tcb t f (s\<lparr>PRIMASK := k\<rparr>)"
  by (simp add: upd_tcb_def)

lemma dequeue_primask: "(vibe_sched_dequeue t (s\<lparr>PRIMASK := j\<rparr>))\<lparr>PRIMASK := k\<rparr> = vibe_sched_dequeue t (s\<lparr>PRIMASK := k\<rparr>)"
  by (simp add: vibe_sched_dequeue_def kernel_ops Let_def split: prod.split)

lemma enqueue_primask: "(vibe_sched_enqueue t (s\<lparr>PRIMASK := j\<rparr>))\<lparr>PRIMASK := k\<rparr> = vibe_sched_enqueue t (s\<lparr>PRIMASK := k\<rparr>)"
  by (simp add: vibe_sched_enqueue_def kernel_ops Let_def split: prod.split)

lemmas primask_simps = upd_primask dequeue_primask enqueue_primask

abbreviation runnable :: "kstate \<Rightarrow> tid \<Rightarrow> bool" where
  "runnable s t \<equiv> tstate s t = VIBE_THREAD_READY \<or> tstate s t = VIBE_THREAD_RUNNING"

text \<open>The TCB of a deleted thread: dead, and without its stack when the stack came from the heap.\<close>

definition dead_tcb :: "kconfig \<Rightarrow> vibe_thread_t \<Rightarrow> vibe_thread_t" where
  "dead_tcb cfg th =
     (if CONFIG_HEAP_MEM cfg \<and> \<not> th_is_static th \<and> th_stack_base th \<noteq> 0
      then th\<lparr>th_state := VIBE_THREAD_DEAD, th_stack_base := 0\<rparr> else th\<lparr>th_state := VIBE_THREAD_DEAD\<rparr>)"

lemma dead_tcb_simps [simp]:
  "th_state (dead_tcb cfg th) = VIBE_THREAD_DEAD" "th_priority (dead_tcb cfg th) = th_priority th"
  "th_id (dead_tcb cfg th) = th_id th" "th_base_priority (dead_tcb cfg th) = th_base_priority th"
  by (simp_all add: dead_tcb_def)

lemma upd_cong: "f (g_tcb s t) = g (g_tcb s t) \<Longrightarrow> upd_tcb t f s = upd_tcb t g s"
  by (simp add: upd_tcb_def)

lemma upd_fields [simp]:
  "g_tcb (upd_tcb t f s) = (g_tcb s)(t := f (g_tcb s t))"
  "g_current_thread (upd_tcb t f s) = g_current_thread s" "g_idle_thread (upd_tcb t f s) = g_idle_thread s"
  "g_sched_lock_count (upd_tcb t f s) = g_sched_lock_count s" "PRIMASK (upd_tcb t f s) = PRIMASK s"
  by (simp_all add: upd_tcb_def)

lemma delete_run:
  assumes "arg_or_self thread s = Some t"
  shows "\<exists>h'. vibe_thread_delete cfg heap_free thread h s = Some (VIBE_OK, h',
    let s1 = upd_tcb t (dead_tcb cfg) (if runnable s t then vibe_sched_dequeue t s else s)
    in if g_current_thread s = Some t then vibe_sched_reschedule cfg s1 else s1)"
proof -
  let ?d = "if runnable s t then vibe_sched_dequeue t s else s"
  have d: "g_tcb ?d = g_tcb s" "g_current_thread ?d = g_current_thread s" by (simp_all add: frame_simps)
  have 1: "(if runnable (s\<lparr>PRIMASK := 1\<rparr>) t then vibe_sched_dequeue t (s\<lparr>PRIMASK := 1\<rparr>) else s\<lparr>PRIMASK := 1\<rparr>)\<lparr>PRIMASK := PRIMASK s\<rparr>
      = ?d" by (simp add: dequeue_primask)
  have 2: "upd_tcb t (dead_tcb cfg) ?d =
      (if CONFIG_HEAP_MEM cfg \<and> \<not> th_is_static (g_tcb s t) \<and> th_stack_base (g_tcb s t) \<noteq> 0
       then upd_tcb t (\<lambda>th. th\<lparr>th_state := VIBE_THREAD_DEAD, th_stack_base := 0\<rparr>) ?d
       else upd_tcb t (\<lambda>th. th\<lparr>th_state := VIBE_THREAD_DEAD\<rparr>) ?d)"
    by (auto simp: dead_tcb_def frame_simps intro!: upd_cong)
  show ?thesis
    using assms 1 unfolding 2 Let_def vibe_thread_delete_def arch_irq_lock_def arch_irq_unlock_def vibe_thread_self_def
    by (simp add: d upd_upd primask_simps frame_simps)
qed

lemma delete_kernel_inv:
  assumes inv: "kernel_inv s" and t: "arg_or_self thread s = Some t" "th_id (g_tcb s t) \<noteq> 0"
      "g_idle_thread s \<noteq> Some t" "tstate s t \<noteq> VIBE_THREAD_SLEEPING"
    and lock: "g_current_thread s = Some t \<Longrightarrow> g_sched_lock_count s = 0"
  shows "\<exists>h' s'. vibe_thread_delete cfg heap_free thread h s = Some (VIBE_OK, h', s') \<and> kernel_inv s' \<and>
    tstate s' t = VIBE_THREAD_DEAD \<and> PRIMASK s' = PRIMASK s \<and> g_current_thread s' \<noteq> Some t"
proof -
  let ?s1 = "upd_tcb t (dead_tcb cfg) (if runnable s t then vibe_sched_dequeue t s else s)"
  let ?s2 = "if g_current_thread s = Some t then vibe_sched_reschedule cfg ?s1 else ?s1"
  have "kernel_inv ?s2" "g_current_thread ?s2 \<noteq> Some t" "tstate ?s2 t = VIBE_THREAD_DEAD" "PRIMASK ?s2 = PRIMASK s"
    using retire_kernel_inv [where f = "dead_tcb cfg", OF inv t(2-4) _ _ _ _ lock refl refl, of cfg]
    by (simp_all add: off_cpu_def)
  then show ?thesis using delete_run [OF t(1), of cfg heap_free h] by (auto simp: Let_def)
qed

lemma suspend_kernel_inv:
  assumes inv: "kernel_inv s" and t: "arg_or_self thread s = Some t" "th_id (g_tcb s t) \<noteq> 0"
      "g_idle_thread s \<noteq> Some t" "tstate s t \<noteq> VIBE_THREAD_SLEEPING" "tstate s t \<noteq> VIBE_THREAD_DEAD"
    and lock: "g_current_thread s = Some t \<Longrightarrow> g_sched_lock_count s = 0"
  shows "\<exists>s'. vibe_thread_suspend cfg thread s = Some (VIBE_OK, s') \<and> kernel_inv s' \<and>
    tstate s' t = VIBE_THREAD_SUSPENDED \<and> PRIMASK s' = PRIMASK s \<and> g_current_thread s' \<noteq> Some t"
proof -
  let ?s1 = "set_state t VIBE_THREAD_SUSPENDED (if runnable s t then vibe_sched_dequeue t s else s)"
  let ?s2 = "if g_current_thread s = Some t then vibe_sched_reschedule cfg ?s1 else ?s1"
  have "kernel_inv ?s2" "g_current_thread ?s2 \<noteq> Some t" "tstate ?s2 t = VIBE_THREAD_SUSPENDED" "PRIMASK ?s2 = PRIMASK s"
    using retire_kernel_inv [where f = "\<lambda>th. th\<lparr>th_state := VIBE_THREAD_SUSPENDED\<rparr>",
        OF inv t(2-4) _ _ _ _ lock refl refl, of cfg]
    by (simp_all add: off_cpu_def)
  moreover have "vibe_thread_suspend cfg thread s = Some (VIBE_OK, ?s2)"
    using t(1,5) by (simp add: vibe_thread_suspend_def arch_irq_lock_def arch_irq_unlock_def
        vibe_thread_self_def primask_simps frame_simps Let_def)
  ultimately show ?thesis by blast
qed

text \<open>Making a thread ready: resume, wake-ups from a wait list, and restart end this way.\<close>

lemma make_ready_live:
  assumes "live_inv s Q Z" "off_cpu (tstate s t)" "th_id (g_tcb s t) \<noteq> 0"
  shows "live_inv (vibe_sched_enqueue t s) (Q(unat (tprio s t) := Q (unat (tprio s t)) @ [t])) Z"
proof -
  note l = live_invD [OF assms(1)]
  have "t \<notin> set (Q (unat (tprio s t)))" "t \<notin> set Z"
    using off_cpu_free [OF l(1) assms(2)] sched_invD(3) [OF l(1)] by auto
  from enqueue_inv [OF l(1) refl this] l(2-4) assms(3) show ?thesis
    by (intro live_invI) (auto simp: frame_simps split: if_splits)
qed

lemma make_ready_kernel_inv:
  assumes "kernel_inv s" "off_cpu (tstate s t)" "th_id (g_tcb s t) \<noteq> 0"
  shows "kernel_inv (vibe_sched_enqueue t s)"
  using assms(1)
proof (rule kernel_invE)
  fix Q Z
  assume k: "live_inv s Q Z" "current_ok s" "g_idle_thread s \<noteq> None" "0 \<le> g_sched_lock_count s"
  from make_ready_live [OF k(1) assms(2,3)] k(2-4) show ?thesis
    by (intro kernel_invI) (auto simp: current_ok_def frame_simps)
qed

lemma reschedule_keeps: "kernel_inv s \<Longrightarrow> kernel_inv (vibe_sched_reschedule cfg s)"
  by (erule kernel_invE) (auto intro: reschedule_kernel_inv)

lemma resume_kernel_inv:
  assumes "kernel_inv s" "th_id (g_tcb s t) \<noteq> 0" "tstate s t = VIBE_THREAD_SUSPENDED"
  shows "\<exists>s'. vibe_thread_resume cfg (Some t) s = (VIBE_OK, s') \<and> kernel_inv s' \<and> PRIMASK s' = PRIMASK s \<and> runnable s' t"
proof -
  have k: "kernel_inv (vibe_sched_enqueue t s)"
    using assms by (intro make_ready_kernel_inv) (auto simp: off_cpu_def)
  from assms(3) k reschedule_keeps [OF k, of cfg] show ?thesis
    by (auto simp: vibe_thread_resume_def arch_irq_lock_def arch_irq_unlock_def vibe_thread_self_def
        primask_simps frame_simps reschedule_tstate Let_def split: option.split)
qed

lemma rotate_live:
  assumes "live_inv s Q Z" "t \<in> set (Q (unat (tprio s t)))"
  shows "live_inv (vibe_sched_enqueue t (vibe_sched_dequeue t s))
    (Q(unat (tprio s t) := remove1 t (Q (unat (tprio s t))) @ [t])) Z"
proof -
  note l = live_invD [OF assms(1)] and p = sched_invD(3) [OF live_invD(1) [OF assms(1)]]
  show ?thesis
    using rotate_inv [OF l(1) refl assms(2)] l(2-4) l(2) [OF p [of t]] assms(2)
    by (intro live_invI) (auto simp: frame_simps dest: set_remove1_subset [THEN subsetD] split: if_splits)
qed

lemma current_queued:
  assumes "live_inv s Q Z" "current_ok s" "g_current_thread s = Some c"
  shows "c \<in> set (Q (unat (tprio s c)))"
  using assms sched_invD(4) [OF live_invD(1) [OF assms(1)], of c] by (auto simp: current_ok_def)

lemma yield_kernel_inv:
  assumes "kernel_inv s"
  shows "kernel_inv (vibe_thread_yield cfg s)" "PRIMASK (vibe_thread_yield cfg s) = PRIMASK s"
proof -
  obtain Q Z where k: "live_inv s Q Z" "current_ok s" "g_idle_thread s \<noteq> None" "0 \<le> g_sched_lock_count s"
    using assms by (rule kernel_invE)
  have eq: "vibe_thread_yield cfg s = (case g_current_thread s of None \<Rightarrow> s
      | Some c \<Rightarrow> vibe_sched_reschedule cfg (vibe_sched_enqueue c (vibe_sched_dequeue c s)))"
    by (auto simp: vibe_thread_yield_def vibe_thread_self_def arch_irq_lock_def arch_irq_unlock_def
        vibe_sched_enqueue_def vibe_sched_dequeue_def Let_def upd_tcb_def split: option.split prod.split)
  show "PRIMASK (vibe_thread_yield cfg s) = PRIMASK s" by (simp add: eq frame_simps split: option.split)
  show "kernel_inv (vibe_thread_yield cfg s)"
  proof (cases "g_current_thread s")
    case None
    with assms show ?thesis by (simp add: eq)
  next
    case (Some c)
    let ?s = "vibe_sched_enqueue c (vibe_sched_dequeue c s)"
    note live = rotate_live [OF k(1) current_queued [OF k(1,2) Some]]
    have "kernel_inv ?s"
      using live k Some by (intro kernel_invI) (auto simp: current_ok_def frame_simps)
    then show ?thesis using Some by (simp add: eq reschedule_keeps)
  qed
qed

text \<open>Taking a thread out of its queue, changing its TCB and queueing it again.\<close>

lemma sched_invI:
  assumes "queues_rep s Q" "sleep_rep s Z" "\<And>t. tprio s t \<le> VIBE_PRIO_MAX"
    and "\<And>t. th_id (g_tcb s t) \<noteq> 0 \<Longrightarrow> runnable s t \<Longrightarrow> t \<in> set (Q (unat (tprio s t)))"
    and "\<And>t. th_id (g_tcb s t) \<noteq> 0 \<Longrightarrow> tstate s t = VIBE_THREAD_SLEEPING \<Longrightarrow> t \<in> set Z"
    and "\<And>i. g_idle_thread s = Some i \<Longrightarrow> i \<in> set (Q (unat (tprio s i)))"
  shows "sched_inv s Q Z"
  using assms by (auto simp: sched_inv_def)

lemma requeue_inv:
  assumes inv: "sched_inv s Q Z" and p: "p = unat (tprio s t)" and t: "t \<in> set (Q p)"
    and prio: "th_priority (f (g_tcb s t)) \<le> VIBE_PRIO_MAX" and p': "p' = unat (th_priority (f (g_tcb s t)))"
  shows "sched_inv (vibe_sched_enqueue t (upd_tcb t f (vibe_sched_dequeue t s)))
           ((Q(p := remove1 t (Q p)))(p' := (Q(p := remove1 t (Q p))) p' @ [t])) Z"
proof -
  note d = sched_invD [OF inv]
  let ?s = "vibe_sched_dequeue t s" and ?Q = "Q(p := remove1 t (Q p))"
  let ?r = "vibe_sched_enqueue t (upd_tcb t f ?s)" and ?Q' = "?Q(p' := ?Q p' @ [t])"
  have p32: "p < 32" "p' < 32" using d(3) p prio_bound [OF prio] p' by auto
  have dist: "distinct (Q p)" using queues_repD(1) [OF d(1) p32(1)] by (auto dest: dll_distinct)
  have tQ: "t \<notin> set (?Q r)" if "r < 32" for r
    using that dist queues_repD(2) [OF d(1) that, of t] p by (auto simp: set_remove1_eq)
  have tZ: "t \<notin> set Z" using d(6) [of t] queues_repD(3) [OF d(1) p32(1) t] by auto
  have q: "queues_rep ?s ?Q" using dequeue_rep [OF d(1), of t p] p32 p t by simp
  have "queues_rep (upd_tcb t f ?s) ?Q"
    using tQ queues_repD(3) [OF q] by (intro queues_rep_cong [OF q]) (auto simp: upd_tcb_def)
  then have q': "queues_rep ?r ?Q'" using tQ [OF p32(2)] p32(2) p' by (intro enqueue_rep) (auto simp: frame_simps)
  have sl': "sleep_rep ?r Z"
    using tZ d(6) by (intro sleep_rep_cong [OF d(2)]) (auto simp: upd_tcb_def frame_simps)
  have tcb: "g_tcb ?r u = (if u = t then (f (g_tcb s t))\<lparr>th_state := VIBE_THREAD_READY\<rparr> else g_tcb s u)" for u
    by (simp add: frame_simps upd_tcb_def)
  have mem: "u \<in> set (?Q' (unat (tprio ?r u)))"
    if "u = t \<or> u \<in> set (Q (unat (tprio s u)))" for u
    using that dist p' by (auto simp: tcb set_remove1_eq)
  have pr: "tprio ?r u \<le> VIBE_PRIO_MAX" for u using prio inv by (simp add: tcb sched_inv_def)
  show ?thesis
  proof (rule sched_invI [OF q' sl' pr])
    show "u \<in> set (?Q' (unat (tprio ?r u)))" if "th_id (g_tcb ?r u) \<noteq> 0" "runnable ?r u" for u
      by (rule mem) (use that d(4) [of u] in \<open>cases "u = t"; simp add: tcb\<close>)
    show "u \<in> set Z" if "th_id (g_tcb ?r u) \<noteq> 0" "tstate ?r u = VIBE_THREAD_SLEEPING" for u
      using that d(7) [of u] by (cases "u = t"; simp add: tcb)
    show "i \<in> set (?Q' (unat (tprio ?r i)))" if "g_idle_thread ?r = Some i" for i
      by (rule mem) (use that d(5) [of i] in \<open>simp add: frame_simps\<close>)
  qed
qed

lemma requeue_live:
  assumes inv: "live_inv s Q Z" and t: "t \<in> set (Q (unat (tprio s t)))"
    and prio: "th_priority (f (g_tcb s t)) \<le> VIBE_PRIO_MAX" "th_base_priority (f (g_tcb s t)) \<le> VIBE_PRIO_MAX"
    and id: "th_id (f (g_tcb s t)) = th_id (g_tcb s t)"
  shows "\<exists>Q'. live_inv (vibe_sched_enqueue t (upd_tcb t f (vibe_sched_dequeue t s))) Q' Z"
proof -
  note l = live_invD [OF inv] and p = sched_invD(3) [OF live_invD(1) [OF inv]]
  show ?thesis
    by (intro exI live_invI, rule requeue_inv [where f = f, OF l(1) refl t prio(1) refl])
      (use l(2-4) l(2) [OF p [of t]] t prio(2) id in
       \<open>auto simp: frame_simps upd_tcb_def dest: set_remove1_subset [THEN subsetD] split: if_splits\<close>)
qed

text \<open>Taking a sleeper off the sleep list.\<close>

lemma unsleep_inv:
  assumes inv: "sched_inv s Q Z" and t: "t \<in> set Z"
    and rem: "vibe_list_remove (g_sleep_list s) t (sleep_nodes s) = (l, L)"
    and off: "off_cpu (th_state (f (g_tcb s t)))" and prio: "th_priority (f (g_tcb s t)) \<le> VIBE_PRIO_MAX"
  shows "sched_inv (upd_tcb t f (s\<lparr>g_sleep_list := l, sleep_nodes := L\<rparr>)) Q (remove1 t Z)"
proof -
  note d = sched_invD [OF inv]
  let ?r = "upd_tcb t f (s\<lparr>g_sleep_list := l, sleep_nodes := L\<rparr>)"
  have sl: "dll (sleep_nodes s) (g_sleep_list s) Z" "sorted (map (\<lambda>t. th_timeout (g_tcb s t)) Z)"
    using d(2) by (simp_all add: sleep_rep_def)
  have dist: "distinct Z" using sl(1) by (rule dll_distinct)
  have tQ: "t \<notin> set (Q p)" if "p < 32" for p using d(6) [OF t] queues_repD(3) [OF d(1) that, of t] by auto
  have idle: "g_idle_thread s \<noteq> Some t" using d(5) d(3) tQ by blast
  have "queues_rep ?r Q"
    using queues_repD(3) [OF d(1)] tQ by (intro queues_rep_cong [OF d(1)]) (auto simp: upd_tcb_def)
  moreover have "sleep_rep ?r (remove1 t Z)"
  proof -
    have "map (\<lambda>u. th_timeout (g_tcb ?r u)) (remove1 t Z) = map (\<lambda>u. th_timeout (g_tcb s u)) (remove1 t Z)"
      using dist by (auto simp: set_remove1_eq)
    then have "sorted (map (\<lambda>u. th_timeout (g_tcb ?r u)) (remove1 t Z))"
      using sorted_map_remove1 [OF sl(2), of t] by (simp only:)
    moreover have "\<forall>u\<in>set (remove1 t Z). tstate ?r u = VIBE_THREAD_SLEEPING"
      using d(6) dist by (auto simp: set_remove1_eq)
    ultimately show ?thesis
      using vl.remove_member(1) [OF sl(1) t rem] unfolding sleep_rep_def by (simp add: upd_tcb_def)
  qed
  ultimately show ?thesis
    using inv off prio idle dist by (auto simp: sched_inv_def off_cpu_def set_remove1_eq upd_tcb_def)
qed

lemma upd_prio_live:
  assumes inv: "live_inv s Q Z" and t: "\<not> runnable s t" and p: "p \<le> VIBE_PRIO_MAX"
  shows "live_inv (upd_tcb t (\<lambda>th. th\<lparr>th_priority := p, th_base_priority := p\<rparr>) s) Q Z" (is "live_inv ?s Q Z")
proof -
  note l = live_invD [OF inv] and d = sched_invD [OF live_invD(1) [OF inv]]
  have tQ: "t \<notin> set (Q r)" if "r < 32" for r using queues_repD(3) [OF d(1) that] t by blast
  have "queues_rep ?s Q"
    using tQ queues_repD(3) [OF d(1)] by (intro queues_rep_cong [OF d(1)]) (auto simp: upd_tcb_def)
  moreover have "sleep_rep ?s Z"
    using d(6) by (intro sleep_rep_cong [OF d(2)]) (auto simp: upd_tcb_def)
  moreover have "g_idle_thread s \<noteq> Some t" using d(5) d(3) tQ by blast
  ultimately have "sched_inv ?s Q Z" using l(1) t p by (auto simp: sched_inv_def)
  then show ?thesis using l p by (intro live_invI) (auto split: if_splits)
qed

lemma set_priority_kernel_inv:
  assumes inv: "kernel_inv s" and t: "arg_or_self thread s = Some t" "th_id (g_tcb s t) \<noteq> 0"
      "tstate s t \<noteq> VIBE_THREAD_RUNNING" and p: "priority \<le> VIBE_PRIO_MAX"
  shows "\<exists>s'. vibe_thread_set_priority cfg thread priority s = Some (VIBE_OK, s') \<and> kernel_inv s' \<and>
    tprio s' t = priority \<and> th_base_priority (g_tcb s' t) = priority \<and> PRIMASK s' = PRIMASK s"
proof -
  obtain Q Z where k: "live_inv s Q Z" "current_ok s" "g_idle_thread s \<noteq> None" "0 \<le> g_sched_lock_count s"
    using inv by (rule kernel_invE)
  let ?f = "\<lambda>th. th\<lparr>th_priority := priority, th_base_priority := priority\<rparr>"
  let ?s1 = "if tstate s t = VIBE_THREAD_READY then vibe_sched_enqueue t (upd_tcb t ?f (vibe_sched_dequeue t s))
             else upd_tcb t ?f s"
  have run: "vibe_thread_set_priority cfg thread priority s = Some (VIBE_OK, vibe_sched_reschedule cfg ?s1)"
    using t(1) p by (auto simp: vibe_thread_set_priority_def arch_irq_lock_def arch_irq_unlock_def Let_def not_less
        vibe_sched_enqueue_def vibe_sched_dequeue_def upd_tcb_def split: prod.split)
  have "\<exists>Q'. live_inv ?s1 Q' Z"
  proof (cases "tstate s t = VIBE_THREAD_READY")
    case True
    with sched_invD(4) [OF live_invD(1) [OF k(1)] t(2)] have "t \<in> set (Q (unat (tprio s t)))" by simp
    with True requeue_live [OF k(1) this, of ?f] p show ?thesis by simp
  next
    case False
    with t(3) upd_prio_live [OF k(1) _ p, of t] show ?thesis by auto
  qed
  then obtain Q' where live: "live_inv ?s1 Q' Z" by blast
  have "current_ok ?s1" using k(2) by (auto simp: current_ok_def frame_simps)
  moreover have "g_idle_thread ?s1 \<noteq> None" "0 \<le> g_sched_lock_count ?s1" using k(3,4) by (simp_all add: frame_simps)
  ultimately have "kernel_inv (vibe_sched_reschedule cfg ?s1)" using live by (intro reschedule_keeps kernel_invI)
  moreover have "tprio ?s1 t = priority" "th_base_priority (g_tcb ?s1 t) = priority" "PRIMASK ?s1 = PRIMASK s"
    by (simp_all add: frame_simps)
  ultimately show ?thesis using run by (auto simp: frame_simps)
qed

lemma sleep_any_state: "vibe_sched_sleep t e (set_state t st s) = vibe_sched_sleep t e s"
  by (simp add: vibe_sched_sleep_def arch_irq_lock_def upd_tcb_def)

text \<open>A blocking caller with the scheduler unlocked ends on the sleep list and off the CPU.\<close>

lemma sleep_kernel_inv:
  assumes inv: "kernel_inv s" and c: "g_current_thread s = Some c" "g_idle_thread s \<noteq> Some c"
    and lock: "g_sched_lock_count s = 0"
  shows "\<exists>s'. vibe_thread_sleep cfg ms s = Some s' \<and> kernel_inv s' \<and> PRIMASK s' = PRIMASK s \<and>
    tstate s' c = VIBE_THREAD_SLEEPING \<and> th_timeout (g_tcb s' c) = g_tick_count s + VIBE_MS_TO_TICKS cfg ms \<and>
    g_current_thread s' \<noteq> Some c"
proof -
  obtain Q Z where k: "live_inv s Q Z" "current_ok s" "g_idle_thread s \<noteq> None" "0 \<le> g_sched_lock_count s"
    using inv by (rule kernel_invE)
  let ?e = "g_tick_count s + VIBE_MS_TO_TICKS cfg ms" and ?Q = "Q(unat (tprio s c) := remove1 c (Q (unat (tprio s c))))"
  let ?f = "\<lambda>th. th\<lparr>th_state := VIBE_THREAD_SUSPENDED\<rparr>" and ?s0 = "s\<lparr>PRIMASK := 1\<rparr>"
  let ?d = "vibe_sched_dequeue c ?s0" and ?s1 = "upd_tcb c ?f (vibe_sched_dequeue c ?s0)"
  have cr: "th_id (g_tcb s c) \<noteq> 0" "runnable s c" using k(2) c by (auto simp: current_ok_def)
  have l1: "live_inv ?s1 ?Q Z"
    using retire_live [where f = ?f and s = ?s0 and t = c and Q = Q and Z = Z] k(1) c(2) cr
    by (auto simp: off_cpu_def)
  have "off_cpu (tstate ?s1 c)" "g_idle_thread ?s1 \<noteq> Some c" using c by (simp_all add: off_cpu_def frame_simps)
  from sched_sleep_inv [OF live_invD(1) [OF l1] this, of ?e] obtain s2 where
    s2: "vibe_sched_sleep c ?e ?d = Some s2" "sched_inv s2 ?Q (sleep_insert ?s1 ?e c Z)"
      "g_tcb s2 = (g_tcb ?s1)(c := (g_tcb ?s1 c)\<lparr>th_timeout := ?e, th_state := VIBE_THREAD_SLEEPING\<rparr>)"
      "g_current_thread s2 = g_current_thread s" "g_idle_thread s2 = g_idle_thread s"
      "g_sched_lock_count s2 = g_sched_lock_count s"
    by (auto simp: sleep_any_state frame_simps)
  let ?s3 = "s2\<lparr>PRIMASK := PRIMASK s\<rparr>"
  have run: "vibe_thread_sleep cfg ms s = Some (vibe_sched_reschedule cfg ?s3)"
    using s2(1) c(1) by (simp add: vibe_thread_sleep_def vibe_thread_self_def vibe_tick_get_def
        arch_irq_lock_def arch_irq_unlock_def arch_set_next_tick_def Let_def)
  have "live_inv s2 ?Q (sleep_insert ?s1 ?e c Z)"
  proof -
    have ids: "th_id (g_tcb s2 u) = th_id (g_tcb s u)"
        "th_base_priority (g_tcb s2 u) = th_base_priority (g_tcb s u)" for u
      by (simp_all add: s2(3) frame_simps)
    from s2(2) live_invD(2-4) [OF k(1)] cr(1) show ?thesis
      by (intro live_invI) (auto simp: ids dest: set_remove1_subset [THEN subsetD] split: if_splits)
  qed
  then have live: "live_inv ?s3 ?Q (sleep_insert ?s1 ?e c Z)" by simp
  have "kernel_inv (vibe_sched_reschedule cfg ?s3)"
    using k(3,4) s2(5,6) lock by (intro reschedule_kernel_inv [OF live]) auto
  moreover have "tstate ?s3 c = VIBE_THREAD_SLEEPING" "th_timeout (g_tcb ?s3 c) = ?e" by (simp_all add: s2(3))
  moreover note reschedule_leaves [OF live, of c cfg]
  ultimately show ?thesis using run k(3) s2(5,6) lock by (auto simp: frame_simps)
qed

lemma free_live:
  assumes inv: "live_inv s Q Z" and t: "\<And>p. p < 32 \<Longrightarrow> t \<notin> set (Q p)" "t \<notin> set Z"
    and f: "off_cpu (th_state (f (g_tcb s t)))" "th_priority (f (g_tcb s t)) \<le> VIBE_PRIO_MAX"
      "th_base_priority (f (g_tcb s t)) \<le> VIBE_PRIO_MAX"
  shows "live_inv (upd_tcb t f s) Q Z"
  using upd_free_inv [where f = f, OF live_invD(1) [OF inv] t f(1,2)] live_invD(2-4) [OF inv] t f(3)
  by (intro live_invI) (auto split: if_splits)

lemma unsleep_live:
  assumes inv: "live_inv s Q Z" and t: "t \<in> set Z"
    and rem: "vibe_list_remove (g_sleep_list s) t (sleep_nodes s) = (l, L)"
    and f: "off_cpu (th_state (f (g_tcb s t)))" "th_priority (f (g_tcb s t)) \<le> VIBE_PRIO_MAX"
      "th_base_priority (f (g_tcb s t)) \<le> VIBE_PRIO_MAX" "th_id (f (g_tcb s t)) = th_id (g_tcb s t)"
  shows "live_inv (upd_tcb t f (s\<lparr>g_sleep_list := l, sleep_nodes := L\<rparr>)) Q (remove1 t Z)"
  using unsleep_inv [where f = f, OF live_invD(1) [OF inv] t rem f(1,2)] live_invD(2-4) [OF inv] t f(3,4)
  by (intro live_invI) (auto dest: set_remove1_subset [THEN subsetD] split: if_splits)

lemma live_inv_mem: "live_inv (s\<lparr>mem32 := m\<rparr>) Q Z \<longleftrightarrow> live_inv s Q Z"
  by (simp add: live_inv_def sched_inv_def queues_rep_def sleep_rep_def)

text \<open>The TCB \<^verbatim>\<open>vibe_thread_restart\<close> prepares, and the state in which the thread is queued again.\<close>

definition reset_tcb :: "vibe_thread_t \<Rightarrow> vibe_thread_t" where
  "reset_tcb th = th\<lparr>th_priority := th_base_priority th, th_state := VIBE_THREAD_SUSPENDED, th_timeout := 0\<rparr>"

definition unlinked :: "tid \<Rightarrow> kstate \<Rightarrow> kstate" where
  "unlinked t s =
     (if tstate s t = VIBE_THREAD_READY then vibe_sched_dequeue t s
      else if tstate s t = VIBE_THREAD_SLEEPING then
        (let (l, L) = vibe_list_remove (g_sleep_list s) t (sleep_nodes s)
         in s\<lparr>g_sleep_list := l, sleep_nodes := L\<rparr>)
      else s)"

lemma restart_eq:
  "vibe_thread_restart cfg thread s =
     (case arg_or_self thread s of None \<Rightarrow> None
      | Some t \<Rightarrow> Some (VIBE_OK, (vibe_sched_enqueue t (thread_stack_setup cfg t
            (upd_tcb t reset_tcb (unlinked t (s\<lparr>PRIMASK := 1\<rparr>)))))\<lparr>PRIMASK := PRIMASK s\<rparr>))"
proof -
  have "(\<lambda>th. th\<lparr>th_priority := th_base_priority th, th_state := VIBE_THREAD_SUSPENDED, th_timeout := 0\<rparr>) = reset_tcb"
    by (simp add: reset_tcb_def fun_eq_iff)
  then show ?thesis
    by (simp add: vibe_thread_restart_def unlinked_def arch_irq_lock_def arch_irq_unlock_def Let_def upd_upd
        split: option.split)
qed

lemma unlinked_frame [frame_simps]:
  "g_tcb (unlinked t s) = g_tcb s" "g_current_thread (unlinked t s) = g_current_thread s"
  "g_idle_thread (unlinked t s) = g_idle_thread s" "g_sched_lock_count (unlinked t s) = g_sched_lock_count s"
  by (simp_all add: unlinked_def frame_simps split: prod.split)

lemma upd_mem: "(upd_tcb t f s)\<lparr>mem32 := m\<rparr> = upd_tcb t f (s\<lparr>mem32 := m\<rparr>)"
  by (simp add: upd_tcb_def)

lemma unlinked_mem: "(unlinked t s)\<lparr>mem32 := m\<rparr> = unlinked t (s\<lparr>mem32 := m\<rparr>)"
  by (simp add: unlinked_def vibe_sched_dequeue_def kernel_ops Let_def split: prod.split)

text \<open>Restarting a thread that is not on the CPU.\<close>

lemma restart_live:
  assumes inv: "live_inv s Q Z" and t: "th_id (g_tcb s t) \<noteq> 0" "tstate s t \<noteq> VIBE_THREAD_RUNNING"
  shows "\<exists>Q' Z'. live_inv (vibe_sched_enqueue t (thread_stack_setup cfg t (upd_tcb t reset_tcb (unlinked t s)))) Q' Z'"
proof -
  obtain m sp where ss: "thread_stack_setup cfg t (upd_tcb t reset_tcb (unlinked t s)) =
      upd_tcb t (\<lambda>th. th\<lparr>th_stack_ptr := sp\<rparr>) ((upd_tcb t reset_tcb (unlinked t s))\<lparr>mem32 := m\<rparr>)"
    using stack_setup_frame by blast
  let ?f = "\<lambda>th. (reset_tcb th)\<lparr>th_stack_ptr := sp\<rparr>" and ?s = "s\<lparr>mem32 := m\<rparr>"
  have eq: "thread_stack_setup cfg t (upd_tcb t reset_tcb (unlinked t s)) = upd_tcb t ?f (unlinked t ?s)"
    unfolding ss by (simp only: upd_mem unlinked_mem upd_upd)
  have live: "live_inv ?s Q Z" using inv by (simp add: live_inv_mem)
  note l = live_invD [OF live] and d = sched_invD [OF live_invD(1) [OF live]]
  have base: "th_base_priority (g_tcb s t) \<le> VIBE_PRIO_MAX" using l(4) [of t] by simp
  have f: "off_cpu (th_state (?f th))" "th_priority (?f th) = th_base_priority th" "th_id (?f th) = th_id th"
      "th_base_priority (?f th) = th_base_priority th" for th
    by (simp_all add: reset_tcb_def off_cpu_def)
  show ?thesis
  proof (cases "tstate s t = VIBE_THREAD_READY")
    case True
    with d(4) [of t] t have "t \<in> set (Q (unat (tprio ?s t)))" by simp
    from requeue_live [where f = ?f, OF live this] base True f show ?thesis
      unfolding eq by (auto simp: unlinked_def)
  next
    case nready: False
    have rest: "\<exists>Z'. live_inv (upd_tcb t ?f (unlinked t ?s)) Q Z'"
    proof (cases "tstate s t = VIBE_THREAD_SLEEPING")
      case True
      then have tZ: "t \<in> set Z" using d(7) [of t] t by simp
      obtain ll L where rem: "vibe_list_remove (g_sleep_list ?s) t (sleep_nodes ?s) = (ll, L)" by force
      from unsleep_live [where f = ?f, OF live tZ rem] base f True rem show ?thesis
        by (auto simp: unlinked_def)
    next
      case False
      with nready t have "off_cpu (tstate ?s t)" by (simp add: off_cpu_def)
      from free_live [where f = ?f, OF live off_cpu_free [OF l(1) this]] base f nready False show ?thesis
        by (auto simp: unlinked_def)
    qed
    then obtain Z' where r: "live_inv (upd_tcb t ?f (unlinked t ?s)) Q Z'" by blast
    have "off_cpu (tstate (upd_tcb t ?f (unlinked t ?s)) t)" "th_id (g_tcb (upd_tcb t ?f (unlinked t ?s)) t) \<noteq> 0"
      using t f by (simp_all add: frame_simps)
    from make_ready_live [OF r this] show ?thesis by (auto simp: eq)
  qed
qed

lemma stack_setup_fields [frame_simps]:
  "g_current_thread (thread_stack_setup cfg t s) = g_current_thread s"
  "g_idle_thread (thread_stack_setup cfg t s) = g_idle_thread s"
  "g_sched_lock_count (thread_stack_setup cfg t s) = g_sched_lock_count s"
  "th_id (g_tcb (thread_stack_setup cfg t s) u) = th_id (g_tcb s u)"
  "tstate (thread_stack_setup cfg t s) u = tstate s u"
  "tprio (thread_stack_setup cfg t s) u = tprio s u"
  "th_base_priority (g_tcb (thread_stack_setup cfg t s) u) = th_base_priority (g_tcb s u)"
  using stack_setup_frame [of cfg t s] by auto

lemma restart_kernel_inv:
  assumes inv: "kernel_inv s" and t: "arg_or_self thread s = Some t" "th_id (g_tcb s t) \<noteq> 0"
      "tstate s t \<noteq> VIBE_THREAD_RUNNING"
  shows "\<exists>s'. vibe_thread_restart cfg thread s = Some (VIBE_OK, s') \<and> kernel_inv s' \<and>
    PRIMASK s' = PRIMASK s \<and> tstate s' t = VIBE_THREAD_READY \<and> tprio s' t = th_base_priority (g_tcb s t)"
proof -
  obtain Q Z where k: "live_inv s Q Z" "current_ok s" "g_idle_thread s \<noteq> None" "0 \<le> g_sched_lock_count s"
    using inv by (rule kernel_invE)
  let ?r = "vibe_sched_enqueue t (thread_stack_setup cfg t (upd_tcb t reset_tcb (unlinked t (s\<lparr>PRIMASK := 1\<rparr>))))"
  obtain Q' Z' where "live_inv ?r Q' Z'"
    using restart_live [of "s\<lparr>PRIMASK := 1\<rparr>" Q Z t cfg] k(1) t by auto
  moreover have "current_ok ?r" using k(2) t(2) by (auto simp: current_ok_def frame_simps reset_tcb_def)
  ultimately have "kernel_inv (?r\<lparr>PRIMASK := PRIMASK s\<rparr>)"
    using k(3,4) by (intro kernel_invI) (auto simp: frame_simps)
  then show ?thesis using t(1) by (auto simp: restart_eq frame_simps reset_tcb_def)
qed

text \<open>Creating a thread whose TCB is not in use.\<close>

lemma dll_node_init: "t \<notin> set xs \<Longrightarrow> dll (vibe_list_node_init t L) l xs = dll L l xs"
  by (rule dll_cong) (auto simp: vibe_list_node_init_def)

lemma node_init_live:
  assumes "live_inv s Q Z" "\<And>p. p < 32 \<Longrightarrow> t \<notin> set (Q p)" "t \<notin> set Z"
  shows "live_inv (s\<lparr>sched_nodes := vibe_list_node_init t (sched_nodes s), wait_nodes := W,
                     sleep_nodes := vibe_list_node_init t (sleep_nodes s)\<rparr>) Q Z"
proof -
  have "dll (vibe_list_node_init t (sched_nodes s)) (g_run_queues s p) (Q p)" if "p < 32" for p
    using assms that by (simp add: dll_node_init live_inv_def sched_inv_def queues_rep_def)
  moreover have "dll (vibe_list_node_init t (sleep_nodes s)) (g_sleep_list s) Z"
    using assms by (simp add: dll_node_init live_inv_def sched_inv_def sleep_rep_def)
  ultimately show ?thesis using assms(1) by (simp add: live_inv_def sched_inv_def queues_rep_def sleep_rep_def)
qed

lemma live_inv_next_id: "live_inv (s\<lparr>g_next_thread_id := n\<rparr>) Q Z \<longleftrightarrow> live_inv s Q Z"
  by (simp add: live_inv_def sched_inv_def queues_rep_def sleep_rep_def)

lemma stack_setup_live: "live_inv (thread_stack_setup cfg t s) Q Z \<longleftrightarrow> live_inv s Q Z"
  by (simp add: live_inv_def stack_setup_inv frame_simps)

definition unused :: "kstate \<Rightarrow> tid \<Rightarrow> bool" where
  "unused s t \<longleftrightarrow> th_id (g_tcb s t) = 0 \<or> tstate s t = VIBE_THREAD_DEAD"

lemma unused_free:
  assumes "live_inv s Q Z" "unused s t"
  shows "p < 32 \<Longrightarrow> t \<notin> set (Q p)" "t \<notin> set Z"
  using live_invD [OF assms(1)] assms(2) off_cpu_free [OF live_invD(1) [OF assms(1)], of t]
  by (auto simp: unused_def off_cpu_def)

lemma fresh_tcb_simps [simp]:
  "th_id (fresh_tcb cfg entry arg attr b sz s) = g_next_thread_id s"
  "th_state (fresh_tcb cfg entry arg attr b sz s) = VIBE_THREAD_SUSPENDED"
  "th_priority (fresh_tcb cfg entry arg attr b sz s) = at_priority attr"
  "th_base_priority (fresh_tcb cfg entry arg attr b sz s) = at_priority attr"
  by (simp_all add: fresh_tcb_def Let_def)

lemma create_init_live:
  assumes inv: "live_inv s Q Z" and t: "unused s t" and id: "g_next_thread_id s \<noteq> 0"
    and prio: "at_priority attr \<le> VIBE_PRIO_MAX"
  shows "live_inv (thread_create_init cfg t entry arg attr b sz s)
    (Q(unat (at_priority attr) := Q (unat (at_priority attr)) @ [t])) Z"
proof -
  note free = unused_free [OF inv t]
  let ?s1 = "upd_tcb t (\<lambda>_. fresh_tcb cfg entry arg attr b sz s) (s\<lparr>g_next_thread_id := g_next_thread_id s + 1\<rparr>)"
  let ?s2 = "?s1\<lparr>sched_nodes := vibe_list_node_init t (sched_nodes ?s1),
       wait_nodes := vibe_list_node_init t (wait_nodes ?s1), sleep_nodes := vibe_list_node_init t (sleep_nodes ?s1)\<rparr>"
  have "live_inv ?s1 Q Z"
    using inv free prio by (intro free_live) (auto simp: live_inv_next_id off_cpu_def)
  then have "live_inv ?s2 Q Z" using free by (intro node_init_live)
  then have "live_inv (thread_stack_setup cfg t ?s2) Q Z" by (simp only: stack_setup_live)
  moreover have "tprio (thread_stack_setup cfg t ?s2) t = at_priority attr"
      "off_cpu (tstate (thread_stack_setup cfg t ?s2) t)" "th_id (g_tcb (thread_stack_setup cfg t ?s2) t) \<noteq> 0"
    using id by (simp_all add: frame_simps off_cpu_def)
  ultimately have "live_inv (vibe_sched_enqueue t (thread_stack_setup cfg t ?s2))
      (Q(unat (at_priority attr) := Q (unat (at_priority attr)) @ [t])) Z"
    using make_ready_live by metis
  moreover have "thread_create_init cfg t entry arg attr b sz s = vibe_sched_enqueue t (thread_stack_setup cfg t ?s2)"
    by (simp add: thread_create_init_def Let_def)
  ultimately show ?thesis by simp
qed

lemma create_init_fields [frame_simps]:
  "g_current_thread (thread_create_init cfg t entry arg attr b sz s) = g_current_thread s"
  "g_idle_thread (thread_create_init cfg t entry arg attr b sz s) = g_idle_thread s"
  "g_sched_lock_count (thread_create_init cfg t entry arg attr b sz s) = g_sched_lock_count s"
  "u \<noteq> t \<Longrightarrow> th_id (g_tcb (thread_create_init cfg t entry arg attr b sz s) u) = th_id (g_tcb s u)"
  "u \<noteq> t \<Longrightarrow> tstate (thread_create_init cfg t entry arg attr b sz s) u = tstate s u"
  "th_id (g_tcb (thread_create_init cfg t entry arg attr b sz s) t) = g_next_thread_id s"
  "tstate (thread_create_init cfg t entry arg attr b sz s) t = VIBE_THREAD_READY"
  "tprio (thread_create_init cfg t entry arg attr b sz s) t = at_priority attr"
  by (simp_all add: thread_create_init_def Let_def frame_simps)

lemma create_cases:
  assumes "vibe_thread_create cfg heap_alloc (Some t) entry arg attr stack h s = Some (e, h', s')"
  obtains "e \<noteq> VIBE_OK" "s' = s"
  | at b sz where "e = VIBE_OK" "attr = Some at" "entry \<noteq> 0" "at_priority at \<le> VIBE_PRIO_MAX"
      "s' = thread_create_init cfg t entry arg at b sz s"
  using assms unfolding vibe_thread_create_def
  by (auto simp: Let_def not_less split: option.splits if_splits prod.splits)

lemma create_kernel_inv:
  assumes inv: "kernel_inv s" and t: "unused s t" and id: "g_next_thread_id s \<noteq> 0"
    and run: "vibe_thread_create cfg heap_alloc (Some t) entry arg attr stack h s = Some (e, h', s')"
  shows "kernel_inv s'"
  using run
proof (cases rule: create_cases)
  case 1
  with inv show ?thesis by simp
next
  case (2 at b sz)
  obtain Q Z where k: "live_inv s Q Z" "current_ok s" "g_idle_thread s \<noteq> None" "0 \<le> g_sched_lock_count s"
    using inv by (rule kernel_invE)
  have "g_current_thread s \<noteq> Some t" using k(2) t by (auto simp: current_ok_def unused_def)
  then have "current_ok s'" using k(2) by (auto simp: current_ok_def 2 frame_simps)
  with create_init_live [OF k(1) t id 2(4)] k(3,4) show ?thesis by (auto simp: 2(5) frame_simps intro!: kernel_invI)
qed

section \<open>The tick and the scheduler lock\<close>

text \<open>The scheduling half of \<^verbatim>\<open>_vibe_sys_tick_handler\<close>, after the timers have run.\<close>

definition tick_sched :: "kconfig \<Rightarrow> kstate \<Rightarrow> kstate option" where
  "tick_sched cfg s =
     do { s \<leftarrow> vibe_sched_wake_expired (g_tick_count s) s;
          Some (vibe_sched_reschedule cfg (vibe_sched_timeslice_tick cfg s)) }"

lemma timeslice_frame:
  "g_current_thread (vibe_sched_timeslice_tick cfg s) = g_current_thread s"
  "g_idle_thread (vibe_sched_timeslice_tick cfg s) = g_idle_thread s"
  "g_sched_lock_count (vibe_sched_timeslice_tick cfg s) = g_sched_lock_count s"
  "PRIMASK (vibe_sched_timeslice_tick cfg s) = PRIMASK s"
  "th_id (g_tcb (vibe_sched_timeslice_tick cfg s) t) = th_id (g_tcb s t)"
  "th_base_priority (g_tcb (vibe_sched_timeslice_tick cfg s) t) = th_base_priority (g_tcb s t)"
  "runnable s t \<Longrightarrow> runnable (vibe_sched_timeslice_tick cfg s) t"
  by (auto simp: vibe_sched_timeslice_tick_def Let_def frame_simps split: option.split)

lemma timeslice_live:
  assumes "live_inv s Q Z" "current_ok s"
  shows "\<exists>Q'. live_inv (vibe_sched_timeslice_tick cfg s) Q' Z \<and> (\<forall>p. mset (Q' p) = mset (Q p))"
proof -
  have "\<And>c. g_current_thread s = Some c \<Longrightarrow> th_id (g_tcb s c) \<noteq> 0" using assms(2) by (auto simp: current_ok_def)
  from timeslice_inv [OF live_invD(1) [OF assms(1)] this, of cfg] obtain Q' where
    Q': "sched_inv (vibe_sched_timeslice_tick cfg s) Q' Z" "\<And>p. mset (Q' p) = mset (Q p)" by blast
  have "set (Q' p) = set (Q p)" for p using Q'(2) [of p] by (metis set_mset_mset)
  with Q' live_invD(2-4) [OF assms(1)] show ?thesis
    by (intro exI [of _ Q'] conjI live_invI) (auto simp: timeslice_frame)
qed

lemma wake_live:
  assumes "live_inv s Q Z" "current_ok s"
  shows "\<exists>s'. vibe_sched_wake_expired now s = Some s' \<and> current_ok s' \<and>
    live_inv s' (woken s (filter (\<lambda>t. th_timeout (g_tcb s t) \<le> now) Z) Q)
      (filter (\<lambda>t. \<not> th_timeout (g_tcb s t) \<le> now) Z) \<and>
    g_idle_thread s' = g_idle_thread s \<and> PRIMASK s' = PRIMASK s \<and> g_sched_lock_count s' = g_sched_lock_count s"
proof -
  from wake_expired_inv [OF live_invD(1) [OF assms(1)], of now] obtain s' where
    w: "vibe_sched_wake_expired now s = Some s'"
      "sched_inv s' (woken s (filter (\<lambda>t. th_timeout (g_tcb s t) \<le> now) Z) Q)
         (filter (\<lambda>t. \<not> th_timeout (g_tcb s t) \<le> now) Z)"
      "\<And>t. g_tcb s' t = (if t \<in> set Z \<and> th_timeout (g_tcb s t) \<le> now
         then (g_tcb s t)\<lparr>th_state := VIBE_THREAD_READY\<rparr> else g_tcb s t)"
      "g_current_thread s' = g_current_thread s" "g_idle_thread s' = g_idle_thread s" "PRIMASK s' = PRIMASK s"
      "g_sched_lock_count s' = g_sched_lock_count s" by blast
  have "current_ok s'" using assms(2) by (auto simp: current_ok_def w(3,4))
  moreover have "live_inv s' (woken s (filter (\<lambda>t. th_timeout (g_tcb s t) \<le> now) Z) Q)
         (filter (\<lambda>t. \<not> th_timeout (g_tcb s t) \<le> now) Z)"
    using w(2) live_invD(2-4) [OF assms(1)] by (intro live_invI) (auto simp: w(3) woken_def)
  ultimately show ?thesis using w by blast
qed

lemma tick_kernel_inv:
  assumes "kernel_inv s"
  shows "\<exists>s'. tick_sched cfg s = Some s' \<and> kernel_inv s' \<and> PRIMASK s' = PRIMASK s"
proof -
  obtain Q Z where k: "live_inv s Q Z" "current_ok s" "g_idle_thread s \<noteq> None" "0 \<le> g_sched_lock_count s"
    using assms by (rule kernel_invE)
  from wake_live [OF k(1,2), of "g_tick_count s"] obtain s1 Q1 Z1 where
    s1: "vibe_sched_wake_expired (g_tick_count s) s = Some s1" "current_ok s1" "live_inv s1 Q1 Z1"
      "g_idle_thread s1 = g_idle_thread s" "PRIMASK s1 = PRIMASK s" "g_sched_lock_count s1 = g_sched_lock_count s" by blast
  let ?s2 = "vibe_sched_timeslice_tick cfg s1"
  obtain Q2 where "live_inv ?s2 Q2 Z1" using timeslice_live [OF s1(3,2)] by blast
  moreover have "current_ok ?s2" using s1(2) timeslice_frame(7) [of s1] by (auto simp: current_ok_def timeslice_frame)
  ultimately have "kernel_inv (vibe_sched_reschedule cfg ?s2)"
    using k(3,4) s1(4,6) by (intro reschedule_keeps kernel_invI) (auto simp: timeslice_frame)
  then show ?thesis using s1(1,5) by (simp add: tick_sched_def frame_simps timeslice_frame)
qed

lemma lock_kernel_inv: "kernel_inv s \<Longrightarrow> kernel_inv (vibe_sched_lock s)"
  by (auto simp: kernel_inv_def vibe_sched_lock_def arch_irq_lock_def arch_irq_unlock_def)

lemma unlock_kernel_inv:
  assumes "kernel_inv s"
  shows "kernel_inv (vibe_sched_unlock cfg s)"
proof -
  let ?c = "if g_sched_lock_count s > 0 then g_sched_lock_count s - 1 else g_sched_lock_count s"
  have "kernel_inv (s\<lparr>g_sched_lock_count := ?c\<rparr>)" using assms by (auto simp: kernel_inv_def)
  moreover have self: "s\<lparr>g_sched_lock_count := 0\<rparr> = s" if "g_sched_lock_count s = 0" using that by (cases s) simp
  moreover have "vibe_sched_unlock cfg s =
      (if ?c = 0 then vibe_sched_reschedule cfg (s\<lparr>g_sched_lock_count := ?c\<rparr>) else s\<lparr>g_sched_lock_count := ?c\<rparr>)"
    by (cases "g_sched_lock_count s > 0")
      (auto simp: vibe_sched_unlock_def arch_irq_lock_def arch_irq_unlock_def Let_def self)
  ultimately show ?thesis using reschedule_keeps by presburger
qed

end
