(* ===== verification/Vibe_Wait.thy ===== *)
theory Vibe_Wait
  imports Vibe_Thread
begin

text \<open>
  Blocking and waking, as every synchronisation object of the kernel does them: the caller leaves
  its run queue, is marked waiting, is linked into the object's wait list and the CPU is given
  away; a waker takes the head of the wait list and queues it. A blocking call is modelled in two
  parts, split at the \<^verbatim>\<open>_vibe_sched_reschedule()\<close> in its middle: the first part returns either a
  final result or \<open>Suspended\<close>, the second part is what the thread runs once it is scheduled again.
\<close>

datatype 'r wait_result = Return 'r | Suspended

text \<open>The deadline of a wait: \<^verbatim>\<open>VIBE_WAIT_FOREVER\<close> or the current tick plus the timeout.\<close>

definition wait_deadline :: "vibe_tick_t \<Rightarrow> kstate \<Rightarrow> vibe_tick_t" where
  "wait_deadline timeout s =
     (if timeout = VIBE_WAIT_FOREVER then VIBE_WAIT_FOREVER else vibe_tick_get s + timeout)"

text \<open>\<open>key\<close> is the interrupt state saved on entry.\<close>

definition block_on ::
    "kconfig \<Rightarrow> u32 \<Rightarrow> tid \<Rightarrow> vibe_tick_t \<Rightarrow> tid vibe_list \<Rightarrow> kstate \<Rightarrow> tid vibe_list \<times> kstate" where
  "block_on cfg key self deadline wl s =
     (let s = vibe_sched_dequeue self s;
          s = upd_tcb self (\<lambda>th. th\<lparr>th_state := VIBE_THREAD_WAITING\<rparr>) s;
          s = upd_tcb self (\<lambda>th. th\<lparr>th_timeout := deadline\<rparr>) s;
          (wl, L) = vibe_list_append wl self (wait_nodes s);
          s = s\<lparr>wait_nodes := L\<rparr>;
          s = arch_irq_unlock key s
      in (wl, vibe_sched_reschedule cfg s))"

definition wake_head :: "tid vibe_list \<Rightarrow> kstate \<Rightarrow> tid option \<times> tid vibe_list \<times> kstate" where
  "wake_head wl s =
     (case vibe_list_get_head wl (wait_nodes s) of
        (None, wl, L) \<Rightarrow> (None, wl, s\<lparr>wait_nodes := L\<rparr>)
      | (Some t, wl, L) \<Rightarrow> (Some t, wl, vibe_sched_enqueue t (s\<lparr>wait_nodes := L\<rparr>)))"

text \<open>\<open>while ((wn = vibe_list_get_head(wl)) != NULL) enqueue(wn)\<close>.\<close>

partial_function (option) wake_all :: "tid vibe_list \<Rightarrow> kstate \<Rightarrow> (tid vibe_list \<times> kstate) option" where
  "wake_all wl s =
     (case wake_head wl s of
        (None, wl, s) \<Rightarrow> Some (wl, s)
      | (Some t, wl, s) \<Rightarrow> wake_all wl s)"

text \<open>A wait list holds the created, waiting threads \<open>W\<close>, in arrival order.\<close>

definition wait_rep :: "kstate \<Rightarrow> tid vibe_list \<Rightarrow> tid list \<Rightarrow> bool" where
  "wait_rep s wl W \<longleftrightarrow>
     dll (wait_nodes s) wl W \<and> (\<forall>t\<in>set W. tstate s t = VIBE_THREAD_WAITING \<and> th_id (g_tcb s t) \<noteq> 0)"

text \<open>The calling thread may block: it is current, not the idle thread, and the scheduler is unlocked.\<close>

definition may_block :: "kstate \<Rightarrow> tid \<Rightarrow> bool" where
  "may_block s t \<longleftrightarrow> g_current_thread s = Some t \<and> g_idle_thread s \<noteq> Some t \<and> g_sched_lock_count s = 0"

lemma wait_rep_primask [simp]: "wait_rep (s\<lparr>PRIMASK := k\<rparr>) wl W \<longleftrightarrow> wait_rep s wl W"
  by (simp add: wait_rep_def)

lemma kernel_inv_primask [simp]: "kernel_inv (s\<lparr>PRIMASK := k\<rparr>) \<longleftrightarrow> kernel_inv s"
  by (simp add: kernel_inv_def)

lemma kernel_inv_wait_nodes [simp]: "kernel_inv (s\<lparr>wait_nodes := L\<rparr>) \<longleftrightarrow> kernel_inv s"
  by (simp add: kernel_inv_def current_ok_def live_inv_def sched_inv_def queues_rep_def sleep_rep_def)

lemma wait_rep_init [simp]: "wait_rep s vibe_list_init []"
  by (simp add: wait_rep_def)

lemma wait_rep_cong:
  assumes "wait_rep s wl W" "\<And>t. t \<in> set W \<Longrightarrow> wait_nodes s' t = wait_nodes s t"
    and "\<And>t. t \<in> set W \<Longrightarrow> tstate s' t = VIBE_THREAD_WAITING \<and> th_id (g_tcb s' t) = th_id (g_tcb s t)"
  shows "wait_rep s' wl W"
  using assms dll_cong [of W "wait_nodes s'" "wait_nodes s" wl] by (auto simp: wait_rep_def)

lemma waiting_not_runnable:
  assumes "kernel_inv s" "tstate s t = VIBE_THREAD_WAITING"
  shows "vibe_sched_next_thread s \<noteq> Some t" "g_current_thread s \<noteq> Some t"
proof -
  obtain Q Z where k: "live_inv s Q Z" "current_ok s" "g_idle_thread s \<noteq> None" using assms(1) by (rule kernel_invE)
  note d = sched_invD [OF live_invD(1) [OF k(1)]]
  obtain i where "g_idle_thread s = Some i" using k(3) by auto
  with d(3,5) have "\<exists>p<32. Q p \<noteq> []" by (metis empty_iff list.set(1))
  then obtain p n where "p < 32" "vibe_sched_next_thread s = Some n" "n \<in> set (Q p)"
    using next_thread_queued [OF d(1)] by metis
  with queues_repD(3) [OF d(1), of p n] assms(2) show "vibe_sched_next_thread s \<noteq> Some t" by auto
  show "g_current_thread s \<noteq> Some t" using k(2) assms(2) by (auto simp: current_ok_def)
qed

lemma reschedule_wait_rep:
  assumes "kernel_inv s" "wait_rep s wl W"
  shows "wait_rep (vibe_sched_reschedule cfg s) wl W"
  using waiting_not_runnable [OF assms(1)] assms(2)
  by (intro wait_rep_cong [OF assms(2)]) (auto simp: frame_simps reschedule_tstate wait_rep_def)

section \<open>The contract\<close>

text \<open>
  What the objects rely on: blocking appends the caller to the wait list and takes it off the CPU,
  waking returns the longest waiting thread and makes it ready, and both leave the other
  wait lists alone.
\<close>

locale wait_queue =
  fixes inv :: "'s \<Rightarrow> bool" and rep :: "'s \<Rightarrow> 'l \<Rightarrow> 't list \<Rightarrow> bool" and can_block :: "'s \<Rightarrow> 't \<Rightarrow> bool"
    and block :: "'t \<Rightarrow> 'l \<Rightarrow> 's \<Rightarrow> 'l \<times> 's" and wake :: "'l \<Rightarrow> 's \<Rightarrow> 't option \<times> 'l \<times> 's"
  assumes block_law: "inv s \<Longrightarrow> can_block s t \<Longrightarrow> rep s l W \<Longrightarrow> block t l s = (l', s') \<Longrightarrow>
              inv s' \<and> rep s' l' (W @ [t])"
    and block_other: "inv s \<Longrightarrow> can_block s t \<Longrightarrow> rep s l W \<Longrightarrow> block t l s = (l', s') \<Longrightarrow>
              rep s m V \<Longrightarrow> set V \<inter> set W = {} \<Longrightarrow> rep s' m V"
    and wake_empty: "inv s \<Longrightarrow> rep s l [] \<Longrightarrow> wake l s = (r, l', s') \<Longrightarrow> r = None \<and> inv s' \<and> rep s' l' []"
    and wake_law: "inv s \<Longrightarrow> rep s l (t # W) \<Longrightarrow> wake l s = (r, l', s') \<Longrightarrow> r = Some t \<and> inv s' \<and> rep s' l' W"
    and wake_other: "inv s \<Longrightarrow> rep s l W \<Longrightarrow> wake l s = (r, l', s') \<Longrightarrow>
              rep s m V \<Longrightarrow> set V \<inter> set W = {} \<Longrightarrow> rep s' m V"
begin

lemma wake_rep:
  assumes "inv s" "rep s l W" "wake l s = (r, l', s')"
  shows "r = head_or W None" "inv s'" "rep s' l' (tl W)"
  using assms wake_empty [of s l r l' s'] wake_law [of s l "hd W" "tl W" r l' s'] by (cases W; auto)+

text \<open>Waking \<open>n\<close> times serves the first \<open>n\<close> threads in arrival order.\<close>

primrec wakes :: "nat \<Rightarrow> 'l \<Rightarrow> 's \<Rightarrow> 't list \<times> 'l \<times> 's" where
  "wakes 0 l s = ([], l, s)"
| "wakes (Suc n) l s =
     (case wake l s of (r, l, s) \<Rightarrow>
        (case wakes n l s of (ts, l, s) \<Rightarrow> (case r of None \<Rightarrow> (ts, l, s) | Some t \<Rightarrow> (t # ts, l, s))))"

lemma wakes_fifo:
  assumes "inv s" "rep s l W" "wakes n l s = (ts, l', s')"
  shows "ts = take n W \<and> inv s' \<and> rep s' l' (drop n W)"
  using assms
proof (induction n arbitrary: l s W ts)
  case 0
  then show ?case by simp
next
  case (Suc n)
  obtain r l1 s1 where w: "wake l s = (r, l1, s1)" by (cases "wake l s")
  obtain us where u: "wakes n l1 s1 = (us, l', s')"
    using Suc.prems(3) w by (auto split: prod.splits option.splits)
  note k = wake_rep [OF Suc.prems(1,2) w]
  from Suc.IH [OF k(2,3) u] Suc.prems(3) w u k(1) show ?case by (cases W) auto
qed

end

section \<open>The kernel provides it\<close>

lemma live_inv_wait_nodes [simp]: "live_inv (s\<lparr>wait_nodes := L\<rparr>) Q Z \<longleftrightarrow> live_inv s Q Z"
  by (simp add: live_inv_def sched_inv_def queues_rep_def sleep_rep_def)

text \<open>The state in which the blocked caller gives the CPU away.\<close>

lemma block_on_facts:
  assumes inv: "kernel_inv s" and t: "may_block s t"
    and run: "block_on cfg key t dl wl s = (wl', s')"
  obtains s1 L where "s' = vibe_sched_reschedule cfg s1" "vibe_list_append wl t (wait_nodes s) = (wl', L)"
    "wait_nodes s1 = L" "g_tcb s1 = (g_tcb s)(t := (g_tcb s t)\<lparr>th_state := VIBE_THREAD_WAITING, th_timeout := dl\<rparr>)"
    "kernel_inv s'" "tstate s' t = VIBE_THREAD_WAITING" "g_current_thread s' \<noteq> Some t" "PRIMASK s' = key"
    "\<forall>u. u \<noteq> t \<longrightarrow> tstate s u = VIBE_THREAD_WAITING \<longrightarrow> tstate s' u = VIBE_THREAD_WAITING"
proof -
  obtain Q Z where k: "live_inv s Q Z" "current_ok s" "g_idle_thread s \<noteq> None" "0 \<le> g_sched_lock_count s"
    using inv by (rule kernel_invE)
  let ?f = "\<lambda>th. th\<lparr>th_state := VIBE_THREAD_WAITING, th_timeout := dl\<rparr>"
  have cr: "th_id (g_tcb s t) \<noteq> 0" "runnable s t" "g_idle_thread s \<noteq> Some t" "g_sched_lock_count s = 0"
    using k(2) t by (auto simp: current_ok_def may_block_def)
  obtain L where app: "vibe_list_append wl t (wait_nodes s) = (wl', L)"
    using run by (auto simp: block_on_def frame_simps upd_tcb_def split: prod.splits)
  let ?d = "upd_tcb t ?f (vibe_sched_dequeue t s)"
  let ?s1 = "?d\<lparr>wait_nodes := L, PRIMASK := key\<rparr>"
  have s': "s' = vibe_sched_reschedule cfg ?s1"
    using run app by (simp add: block_on_def upd_upd arch_irq_unlock_def frame_simps)
      (simp add: upd_tcb_def frame_simps split: prod.splits)
  have "live_inv ?d (Q(unat (tprio s t) := remove1 t (Q (unat (tprio s t))))) Z"
    using retire_live [where f = ?f, OF k(1) cr(1,3)] cr(2) by (auto simp: off_cpu_def)
  then have live: "live_inv ?s1 (Q(unat (tprio s t) := remove1 t (Q (unat (tprio s t))))) Z" by simp
  have lk: "g_idle_thread ?s1 \<noteq> None" "g_sched_lock_count ?s1 \<le> 0" "tstate ?s1 t = VIBE_THREAD_WAITING"
    using k(3) cr(4) by (simp_all add: frame_simps)
  have kinv: "kernel_inv s'"
    unfolding s' using lk(1) cr(4) by (intro reschedule_kernel_inv [OF live]) (simp_all add: frame_simps)
  have w: "tstate s' u = VIBE_THREAD_WAITING" if "tstate ?s1 u = VIBE_THREAD_WAITING" for u
    unfolding s' using reschedule_leaves(2) [OF live lk(1,2), of u cfg] that by simp
  show thesis
  proof (rule that [OF s' app])
    show "tstate s' t = VIBE_THREAD_WAITING" by (rule w [OF lk(3)])
    show "g_current_thread s' \<noteq> Some t" unfolding s' using reschedule_leaves(1) [OF live lk(1,2), of t cfg] lk(3) by simp
    show "\<forall>u. u \<noteq> t \<longrightarrow> tstate s u = VIBE_THREAD_WAITING \<longrightarrow> tstate s' u = VIBE_THREAD_WAITING"
      using w by (auto simp: frame_simps)
    show "PRIMASK s' = key" unfolding s' by (simp add: frame_simps)
    show "kernel_inv s'" by (rule kinv)
  qed (simp_all add: frame_simps)
qed

lemma block_on_rep:
  assumes inv: "kernel_inv s" and t: "may_block s t" and rep: "wait_rep s wl W"
    and run: "block_on cfg key t dl wl s = (wl', s')"
  shows "kernel_inv s'" "wait_rep s' wl' (W @ [t])"
    "wait_rep s m V \<Longrightarrow> set V \<inter> set W = {} \<Longrightarrow> wait_rep s' m V"
proof -
  obtain s1 L where b: "s' = vibe_sched_reschedule cfg s1" "vibe_list_append wl t (wait_nodes s) = (wl', L)"
    "wait_nodes s1 = L" "g_tcb s1 = (g_tcb s)(t := (g_tcb s t)\<lparr>th_state := VIBE_THREAD_WAITING, th_timeout := dl\<rparr>)"
    "kernel_inv s'" "tstate s' t = VIBE_THREAD_WAITING" "g_current_thread s' \<noteq> Some t" "PRIMASK s' = key"
    "\<forall>u. u \<noteq> t \<longrightarrow> tstate s u = VIBE_THREAD_WAITING \<longrightarrow> tstate s' u = VIBE_THREAD_WAITING"
    by (rule block_on_facts [OF inv t run])
  show "kernel_inv s'" by fact
  have id: "th_id (g_tcb s' u) = th_id (g_tcb s u)" for u by (simp add: b(1) b(4) frame_simps)
  have nodes: "wait_nodes s' = L" by (simp add: b(1) b(3) frame_simps)
  have cr: "th_id (g_tcb s t) \<noteq> 0" "runnable s t"
    using inv t by (auto simp: kernel_inv_def current_ok_def may_block_def)
  have notin: "t \<notin> set V" if "wait_rep s m V" for m V using that cr(2) by (auto simp: wait_rep_def)
  note app = append_dll [OF _ notin [OF rep] b(2)]
  show "wait_rep s' wl' (W @ [t])"
    using rep app(1) cr(1) b(6,9) notin [OF rep] by (auto simp: wait_rep_def id nodes)
  show "wait_rep s' m V" if "wait_rep s m V" "set V \<inter> set W = {}"
  proof (rule wait_rep_cong [OF that(1)])
    fix u assume "u \<in> set V"
    with that notin [OF that(1)] have u: "u \<notin> set W" "u \<noteq> t" "tstate s u = VIBE_THREAD_WAITING"
      by (auto simp: wait_rep_def)
    with app(2) rep show "wait_nodes s' u = wait_nodes s u" by (simp add: nodes wait_rep_def)
    from u b(9) show "tstate s' u = VIBE_THREAD_WAITING \<and> th_id (g_tcb s' u) = th_id (g_tcb s u)" by (simp add: id)
  qed
qed

lemma wake_head_rep:
  assumes inv: "kernel_inv s" and rep: "wait_rep s wl W" and run: "wake_head wl s = (r, wl', s')"
  shows "r = head_or W None" "kernel_inv s'" "wait_rep s' wl' (tl W)"
    "wait_rep s m V \<Longrightarrow> set V \<inter> set W = {} \<Longrightarrow> wait_rep s' m V"
proof -
  obtain L where g: "vibe_list_get_head wl (wait_nodes s) = (r, wl', L)"
      and s': "s' = (case r of None \<Rightarrow> s\<lparr>wait_nodes := L\<rparr> | Some t \<Rightarrow> vibe_sched_enqueue t (s\<lparr>wait_nodes := L\<rparr>))"
    using run by (auto simp: wake_head_def split: prod.splits option.splits)
  have d: "dll (wait_nodes s) wl W" using rep by (simp add: wait_rep_def)
  note h = get_head_dll [OF d g]
  show "r = head_or W None" by (rule h(1))
  have nodes: "wait_nodes s' = L" and id: "\<And>u. th_id (g_tcb s' u) = th_id (g_tcb s u)"
      and st: "\<And>u. r \<noteq> Some u \<Longrightarrow> tstate s' u = tstate s u"
    by (simp_all add: s' frame_simps split: option.splits)
  have r: "t \<in> set W \<and> t \<notin> set (tl W)" if "r = Some t" for t
    using h(1) that dll_distinct [OF d] by (cases W) auto
  show "wait_rep s' wl' (tl W)"
    using h(2) rep r by (auto simp: wait_rep_def nodes id st dest: list.set_sel(2) [rotated])
      (metis (no_types, lifting) list.sel(2) list.set_sel(2) option.exhaust_sel st)+
  show "wait_rep s' m V" if "wait_rep s m V" "set V \<inter> set W = {}"
    using that(2) h(3) r that(1) by (intro wait_rep_cong [OF that(1)]) (auto simp: nodes id wait_rep_def, metis disjoint_iff st)
  show "kernel_inv s'"
  proof (cases r)
    case None
    with inv s' show ?thesis by simp
  next
    case (Some t)
    with rep r have "off_cpu (tstate s t)" "th_id (g_tcb s t) \<noteq> 0" by (auto simp: wait_rep_def off_cpu_def)
    with Some inv s' show ?thesis by (simp add: make_ready_kernel_inv)
  qed
qed

interpretation wq: wait_queue kernel_inv wait_rep may_block "\<lambda>t wl s. block_on cfg key t dl wl s" wake_head
  for cfg key dl
proof unfold_locales
  fix s wl wl' s' W t
  assume a: "kernel_inv s" "may_block s t" "wait_rep s wl W" "block_on cfg key t dl wl s = (wl', s')"
  show "kernel_inv s' \<and> wait_rep s' wl' (W @ [t])" using block_on_rep [OF a] by blast
next
  fix s wl wl' s' W t m V
  assume a: "kernel_inv s" "may_block s t" "wait_rep s wl W" "block_on cfg key t dl wl s = (wl', s')"
    and "wait_rep s m V" "set V \<inter> set W = {}"
  then show "wait_rep s' m V" using block_on_rep(3) [OF a] by blast
next
  fix s wl wl' s' and r :: "tid option"
  assume a: "kernel_inv s" "wait_rep s wl []" "wake_head wl s = (r, wl', s')"
  show "r = None \<and> kernel_inv s' \<and> wait_rep s' wl' []" using wake_head_rep(1-3) [OF a] by simp
next
  fix s wl wl' s' W t and r :: "tid option"
  assume a: "kernel_inv s" "wait_rep s wl (t # W)" "wake_head wl s = (r, wl', s')"
  show "r = Some t \<and> kernel_inv s' \<and> wait_rep s' wl' W" using wake_head_rep(1-3) [OF a] by simp
next
  fix s wl wl' s' W m V and r :: "tid option"
  assume a: "kernel_inv s" "wait_rep s wl W" "wake_head wl s = (r, wl', s')"
    and "wait_rep s m V" "set V \<inter> set W = {}"
  then show "wait_rep s' m V" using wake_head_rep(4) [OF a] by blast
qed

end
