(* ===== verification/Vibe_Start.thy ===== *)
theory Vibe_Start
  imports Vibe_Wait
begin

text \<open>
  From reset to the first thread: the idle thread that \<^verbatim>\<open>vibe_init\<close> (\<^verbatim>\<open>kernel/init.c\<close>) creates and
  registers, and \<^verbatim>\<open>vibe_sched_start\<close>. The kernel invariant holds from the registration on. The theory
  ends with a small running system that the properties of the other components are instantiated at.
\<close>

section \<open>The idle thread\<close>

definition CONFIG_IDLE_STACK_SIZE :: u32 where
  "CONFIG_IDLE_STACK_SIZE = 256"

definition idle_attr :: vibe_thread_attr_t where
  "idle_attr = \<lparr>at_stack_size = CONFIG_IDLE_STACK_SIZE, at_priority = VIBE_PRIO_MIN, at_name = Some ''idle'',
                at_is_static = True, at_cpu_id = -1\<rparr>"

text \<open>
  Step 5 of \<^verbatim>\<open>vibe_init\<close>: \<open>t\<close> is \<^verbatim>\<open>&_idle_thread\<close>, \<open>entry\<close> the address of \<^verbatim>\<open>_vibe_idle_entry\<close> and
  \<open>stack\<close> the static stack. A failed creation halts.
\<close>

definition init_idle ::
    "kconfig \<Rightarrow> (u32 \<Rightarrow> 'h \<Rightarrow> u32 option \<times> 'h) \<Rightarrow> tid \<Rightarrow> u32 \<Rightarrow> u32 \<Rightarrow> 'h \<Rightarrow> kstate \<Rightarrow> ('h \<times> kstate) option" where
  "init_idle cfg heap_alloc t entry stack h s =
     (case vibe_thread_create cfg heap_alloc (Some t) entry 0 (Some idle_attr) (Some stack) h s of
        Some (VIBE_OK, h, s) \<Rightarrow> Some (h, s\<lparr>g_idle_thread := Some t\<rparr>)
      | _ \<Rightarrow> None)"

lemma stack_setup_next_id [frame_simps]: "g_next_thread_id (thread_stack_setup cfg t s) = g_next_thread_id s"
  using stack_setup_frame [of cfg t s] by (auto simp: upd_tcb_def)

lemma create_init_next_id [frame_simps]:
  "g_next_thread_id (thread_create_init cfg t entry arg attr b sz s) = g_next_thread_id s + 1"
  by (simp add: thread_create_init_def Let_def frame_simps) (simp add: upd_tcb_def)

lemma create_init_prio [frame_simps]:
  "u \<noteq> t \<Longrightarrow> tprio (thread_create_init cfg t entry arg attr b sz s) u = tprio s u"
  by (simp add: thread_create_init_def Let_def frame_simps)

lemma boot_fields [simp]:
  "g_current_thread (boot_state cfg) = None" "g_idle_thread (boot_state cfg) = None"
  "g_sched_lock_count (boot_state cfg) = 0" "g_next_thread_id (boot_state cfg) = 1"
  "th_id (g_tcb (boot_state cfg) u) = 0" "g_tick_count (boot_state cfg) = 0" "PRIMASK (boot_state cfg) = 0"
  by (simp_all add: boot_state_def zero_thread_def)

lemma boot_live: "live_inv (boot_state cfg) (\<lambda>_. []) []"
  by (auto simp: live_inv_def sched_inv_def queues_rep_def sleep_rep_def boot_state_def zero_thread_def VIBE_PRIO_MAX_def)

lemma register_idle:
  assumes "live_inv s Q Z" "t \<in> set (Q (unat (tprio s t)))"
  shows "live_inv (s\<lparr>g_idle_thread := Some t\<rparr>) Q Z"
  using assms by (auto simp: live_inv_def sched_inv_def queues_rep_def sleep_rep_def)

lemma init_idle_inv:
  assumes entry: "entry \<noteq> 0"
  shows "\<exists>s. init_idle cfg heap_alloc t entry stack h (boot_state cfg) = Some (h, s) \<and>
    live_inv s ((\<lambda>_. [])(0 := [t])) [] \<and> kernel_inv s \<and> g_idle_thread s = Some t \<and> g_current_thread s = None \<and>
    g_sched_lock_count s = 0 \<and> g_next_thread_id s = 2 \<and> (\<forall>u. u \<noteq> t \<longrightarrow> th_id (g_tcb s u) = 0)"
proof -
  let ?b = "boot_state cfg" and ?i = "thread_create_init cfg t entry 0 idle_attr stack CONFIG_IDLE_STACK_SIZE (boot_state cfg)"
  have attr: "at_priority idle_attr = 0" "at_stack_size idle_attr = 256" by (simp_all add: idle_attr_def VIBE_PRIO_MIN_def CONFIG_IDLE_STACK_SIZE_def)
  have "live_inv ?i ((\<lambda>_. [])(0 := [t])) []"
    using create_init_live [OF boot_live, of cfg t idle_attr cfg entry 0 stack CONFIG_IDLE_STACK_SIZE] attr
    by (simp add: unused_def VIBE_PRIO_MAX_def)
  then have live: "live_inv (?i\<lparr>g_idle_thread := Some t\<rparr>) ((\<lambda>_. [])(0 := [t])) []"
    by (rule register_idle) (simp add: frame_simps attr)
  have "kernel_inv (?i\<lparr>g_idle_thread := Some t\<rparr>)"
    using live by (rule kernel_invI) (simp_all add: current_ok_def frame_simps)
  moreover have "init_idle cfg heap_alloc t entry stack h ?b = Some (h, ?i\<lparr>g_idle_thread := Some t\<rparr>)"
    using entry attr by (simp add: init_idle_def vibe_thread_create_def VIBE_PRIO_MAX_def CONFIG_IDLE_STACK_SIZE_def)
  ultimately show ?thesis using live by (simp add: frame_simps)
qed

section \<open>Starting the scheduler\<close>

lemma start_live:
  assumes k: "live_inv s Q Z" "g_idle_thread s \<noteq> None" "0 \<le> g_sched_lock_count s"
  shows "\<exists>s' n. vibe_sched_start cfg s = Some s' \<and> live_inv s' Q Z \<and> kernel_inv s' \<and>
    vibe_sched_next_thread s = Some n \<and> g_current_thread s' = Some n \<and> g_arch_next s' = Some n \<and> pendsv_pending s' \<and>
    g_idle_thread s' = g_idle_thread s \<and> g_sched_lock_count s' = g_sched_lock_count s \<and>
    g_tick_count s' = g_tick_count s \<and> PRIMASK s' = PRIMASK s \<and> (\<forall>u. tprio s' u = tprio s u \<and> th_id (g_tcb s' u) = th_id (g_tcb s u) \<and>
      tstate s' u = (if u = n then VIBE_THREAD_RUNNING else tstate s u))"
proof -
  note d = sched_invD [OF live_invD(1) [OF k(1)]]
  obtain i where "g_idle_thread s = Some i" using k(2) by auto
  with d(3,5) have "\<exists>p<32. Q p \<noteq> []" by (metis empty_iff list.set(1))
  then obtain p n where n: "p < 32" "vibe_sched_next_thread s = Some n" "n \<in> set (Q p)"
    using next_thread_queued [OF d(1)] by metis
  define s1 where "s1 = (let s = upd_tcb n (\<lambda>th. th\<lparr>th_state := VIBE_THREAD_RUNNING\<rparr>) (s\<lparr>g_current_thread := Some n\<rparr>)
     in if CONFIG_TRACE cfg then upd_tcb n (\<lambda>th. th\<lparr>th_switch_in_count := th_switch_in_count th + 1,
          th_last_switch_in := vibe_tick_get s\<rparr>) s else s)"
  define s2 where "s2 = s1\<lparr>g_arch_next := Some n, pendsv_pending := True\<rparr>"
  have run: "vibe_sched_start cfg s = Some s2"
    using n(2) by (simp add: vibe_sched_start_def s2_def s1_def arch_switch_to_def arch_irq_lock_def arch_irq_unlock_def Let_def)
  have tcb: "th_id (g_tcb s2 u) = th_id (g_tcb s u)" "tprio s2 u = tprio s u"
      "th_base_priority (g_tcb s2 u) = th_base_priority (g_tcb s u)" "th_timeout (g_tcb s2 u) = th_timeout (g_tcb s u)"
      "tstate s2 u = (if u = n then VIBE_THREAD_RUNNING else tstate s u)" for u
    by (simp_all add: s2_def s1_def Let_def)
  have fr: "sched_nodes s2 = sched_nodes s" "g_run_queues s2 = g_run_queues s" "g_ready_mask s2 = g_ready_mask s"
      "sleep_nodes s2 = sleep_nodes s" "g_sleep_list s2 = g_sleep_list s" "g_idle_thread s2 = g_idle_thread s"
      "g_sched_lock_count s2 = g_sched_lock_count s" "g_current_thread s2 = Some n" "g_tick_count s2 = g_tick_count s"
      "PRIMASK s2 = PRIMASK s" "g_arch_next s2 = Some n" "pendsv_pending s2"
    by (simp_all add: s2_def s1_def Let_def upd_tcb_def)
  have rn: "runnable s n" using queues_repD(3) [OF d(1) n(1,3)] by blast
  have "queues_rep s2 Q"
    using queues_repD(3) [OF d(1)] fr by (intro queues_rep_cong [OF d(1)]) (auto simp: tcb)
  moreover have "sleep_rep s2 Z"
    using d(6) rn fr by (intro sleep_rep_cong [OF d(2)]) (auto simp: tcb)
  ultimately have "sched_inv s2 Q Z"
    using live_invD(1) [OF k(1)] rn d(4) [of n] live_invD(2) [OF k(1) n(1,3)]
    unfolding sched_inv_def by (simp add: tcb fr)
  then have live: "live_inv s2 Q Z"
    using live_invD(2-4) [OF k(1)] by (intro live_invI) (auto simp: tcb)
  have "current_ok s2"
    using live_invD(2) [OF k(1) n(1,3)] by (simp add: current_ok_def fr tcb)
  with live have "kernel_inv s2" using k(2,3) by (intro kernel_invI) (simp_all add: fr)
  with run n(2) live show ?thesis by (intro exI [of _ s2] exI [of _ n]) (simp add: fr tcb)
qed

section \<open>A small running system\<close>

text \<open>
  Three application threads beside the idle thread 0: threads 7 and 2 at priority 10 and thread 3 at
  priority 5, at 1000 ticks per second with a slice of 10 ms. Thread 7 runs first.
\<close>

definition demo_cfg :: kconfig where
  "demo_cfg = \<lparr>CONFIG_SYS_CLOCK_HZ = 1000, CONFIG_TIMESLICE_MS = 10, CONFIG_TRACE = True, CONFIG_STACK_CANARY = True,
               CONFIG_TLS = True, CONFIG_HEAP_MEM = True, CONFIG_TICKLESS_IDLE = True, addr_vibe_thread_exit = 0x8001001\<rparr>"

definition demo_attr :: "u8 \<Rightarrow> vibe_thread_attr_t" where
  "demo_attr p = \<lparr>at_stack_size = 512, at_priority = p, at_name = Some ''app'', at_is_static = True, at_cpu_id = -1\<rparr>"

definition demo_idle :: kstate where
  "demo_idle = (case init_idle demo_cfg (\<lambda>n h. (None, h)) 0 0x8000101 0x20000000 () (boot_state demo_cfg) of
     Some (_, s) \<Rightarrow> s | None \<Rightarrow> boot_state demo_cfg)"

definition demo_ready :: kstate where
  "demo_ready =
     thread_create_init demo_cfg 3 0x8000401 0 (demo_attr 5) 0x20003000 512
       (thread_create_init demo_cfg 2 0x8000301 0 (demo_attr 10) 0x20002000 512
         (thread_create_init demo_cfg 7 0x8000201 0 (demo_attr 10) 0x20001000 512 demo_idle))"

definition demo_state :: kstate where
  "demo_state = (case vibe_sched_start demo_cfg demo_ready of Some s \<Rightarrow> s | None \<Rightarrow> demo_ready)"

lemma create_init_kernel_inv:
  assumes inv: "kernel_inv s" and t: "unused s t" "g_next_thread_id s \<noteq> 0" "at_priority at \<le> VIBE_PRIO_MAX"
  shows "kernel_inv (thread_create_init cfg t entry arg at b sz s)"
proof -
  obtain Q Z where k: "live_inv s Q Z" "current_ok s" "g_idle_thread s \<noteq> None" "0 \<le> g_sched_lock_count s"
    using inv by (rule kernel_invE)
  have "g_current_thread s \<noteq> Some t" using k(2) t by (auto simp: current_ok_def unused_def)
  then have "current_ok (thread_create_init cfg t entry arg at b sz s)" using k(2) by (auto simp: current_ok_def frame_simps)
  with create_init_live [OF k(1) t, of cfg entry arg b sz] k(3,4) show ?thesis by (auto simp: frame_simps intro!: kernel_invI)
qed

lemma demo_idle_inv:
  "live_inv demo_idle ((\<lambda>_. [])(0 := [0])) []" "kernel_inv demo_idle" "g_idle_thread demo_idle = Some 0"
  "g_current_thread demo_idle = None" "g_sched_lock_count demo_idle = 0" "g_next_thread_id demo_idle = 2"
  "u \<noteq> 0 \<Longrightarrow> th_id (g_tcb demo_idle u) = 0"
  using init_idle_inv [of "0x8000101" demo_cfg "\<lambda>n h. (None, h)" 0 "0x20000000" "()"]
  by (auto simp: demo_idle_def)

lemma demo_ready_live: "live_inv demo_ready ((\<lambda>_. [])(0 := [0], 10 := [7, 2], 5 := [3])) []"
proof -
  let ?s1 = "thread_create_init demo_cfg 7 0x8000201 0 (demo_attr 10) 0x20001000 512 demo_idle"
  let ?s2 = "thread_create_init demo_cfg 2 0x8000301 0 (demo_attr 10) 0x20002000 512 ?s1"
  have pr: "at_priority (demo_attr p) = p" for p by (simp add: demo_attr_def)
  have id: "th_id (g_tcb demo_idle u) = 0" if "u \<noteq> 0" for u using that by (rule demo_idle_inv(7))
  have "live_inv ?s1 ((\<lambda>_. [])(0 := [0], 10 := [7])) []"
    using create_init_live [OF demo_idle_inv(1), of 7 "demo_attr 10" demo_cfg "0x8000201" 0 "0x20001000" 512]
    by (simp add: unused_def id demo_idle_inv pr VIBE_PRIO_MAX_def)
  from create_init_live [OF this, of 2 "demo_attr 10" demo_cfg "0x8000301" 0 "0x20002000" 512]
  have "live_inv ?s2 ((\<lambda>_. [])(0 := [0], 10 := [7, 2])) []"
    by (simp add: unused_def id demo_idle_inv pr VIBE_PRIO_MAX_def frame_simps)
  from create_init_live [OF this, of 3 "demo_attr 5" demo_cfg "0x8000401" 0 "0x20003000" 512]
  show ?thesis
    by (simp add: unused_def id demo_idle_inv pr VIBE_PRIO_MAX_def frame_simps demo_ready_def)
qed

lemma demo_ready_inv: "kernel_inv demo_ready"
  using demo_ready_live by (rule kernel_invI) (simp_all add: demo_ready_def frame_simps demo_idle_inv current_ok_def)

lemma demo_next: "vibe_sched_next_thread demo_ready = Some 7"
proof -
  have "queues_rep demo_ready ((\<lambda>_. [])(0 := [0], 10 := [7, 2], 5 := [3]))"
    using demo_ready_live by (simp add: live_inv_def sched_inv_def)
  from next_thread_rep(2) [OF this, of 10] show ?thesis by simp
qed

lemma demo_state_facts:
  "live_inv demo_state ((\<lambda>_. [])(0 := [0], 10 := [7, 2], 5 := [3])) []" "kernel_inv demo_state"
  "g_current_thread demo_state = Some 7" "g_idle_thread demo_state = Some 0" "g_sched_lock_count demo_state = 0"
  "may_block demo_state 7" "tprio demo_state 7 = 10" "tprio demo_state 2 = 10" "tprio demo_state 3 = 5"
  "tstate demo_state 7 = VIBE_THREAD_RUNNING" "tstate demo_state 2 = VIBE_THREAD_READY" "tstate demo_state 3 = VIBE_THREAD_READY"
  "th_id (g_tcb demo_state 7) = 2" "th_id (g_tcb demo_state 2) = 3" "th_id (g_tcb demo_state 3) = 4"
proof -
  have r: "g_idle_thread demo_ready = Some 0" "g_sched_lock_count demo_ready = 0"
      "tprio demo_ready 7 = 10" "tprio demo_ready 2 = 10" "tprio demo_ready 3 = 5"
      "tstate demo_ready 2 = VIBE_THREAD_READY" "tstate demo_ready 3 = VIBE_THREAD_READY"
      "th_id (g_tcb demo_ready 7) = 2" "th_id (g_tcb demo_ready 2) = 3" "th_id (g_tcb demo_ready 3) = 4"
    by (simp_all add: demo_ready_def frame_simps demo_idle_inv demo_attr_def)
  from start_live [OF demo_ready_live, of demo_cfg] r demo_next obtain s where
    s: "vibe_sched_start demo_cfg demo_ready = Some s"
      "live_inv s ((\<lambda>_. [])(0 := [0], 10 := [7, 2], 5 := [3])) []" "kernel_inv s" "g_current_thread s = Some 7"
      "g_idle_thread s = Some 0" "g_sched_lock_count s = 0"
      "\<forall>u. tprio s u = tprio demo_ready u \<and> th_id (g_tcb s u) = th_id (g_tcb demo_ready u) \<and>
         tstate s u = (if u = 7 then VIBE_THREAD_RUNNING else tstate demo_ready u)" by auto
  have "demo_state = s" by (simp add: demo_state_def s(1))
  with s r show "live_inv demo_state ((\<lambda>_. [])(0 := [0], 10 := [7, 2], 5 := [3])) []" "kernel_inv demo_state"
    "g_current_thread demo_state = Some 7" "g_idle_thread demo_state = Some 0" "g_sched_lock_count demo_state = 0"
    "may_block demo_state 7" "tprio demo_state 7 = 10" "tprio demo_state 2 = 10" "tprio demo_state 3 = 5"
    "tstate demo_state 7 = VIBE_THREAD_RUNNING" "tstate demo_state 2 = VIBE_THREAD_READY" "tstate demo_state 3 = VIBE_THREAD_READY"
    "th_id (g_tcb demo_state 7) = 2" "th_id (g_tcb demo_state 2) = 3" "th_id (g_tcb demo_state 3) = 4"
    by (simp_all add: may_block_def)
qed

end
