(* ===== verification/Vibe_Timer.thy ===== *)
theory Vibe_Timer
  imports Vibe_Start
begin

text \<open>
  Software timers (\<^verbatim>\<open>kernel/timer.c\<close>) and the system tick (\<^verbatim>\<open>kernel/init.c\<close>). The timers live in a store
  with their links, so the walk of \<^verbatim>\<open>_vibe_timer_tick\<close> sees what a callback does to the list. A
  callback is application code: it is an argument that transforms the timers, the kernel and the
  application state \<open>'e\<close>. Loops over the list do not return on a cyclic list.
\<close>

section \<open>Operations\<close>

datatype vibe_timer_mode_t = VIBE_TIMER_ONE_SHOT | VIBE_TIMER_PERIODIC

type_synonym timer_id = nat

text \<open>Function and data pointers are addresses, 0 is \<^verbatim>\<open>NULL\<close>.\<close>

record vibe_timer_t =
  tm_expiry_fn :: u32
  tm_user_data :: u32
  tm_duration_ticks :: vibe_tick_t
  tm_remaining :: vibe_tick_t
  tm_mode :: vibe_timer_mode_t
  tm_active :: bool
  tm_next :: "timer_id option"

record timers =
  tm_store :: "timer_id \<Rightarrow> vibe_timer_t"
  g_timer_list_head :: "timer_id option"

type_synonym 'e tworld = "timers \<times> kstate \<times> 'e"
type_synonym 'e expiry_cb = "u32 \<Rightarrow> timer_id \<Rightarrow> u32 \<Rightarrow> 'e tworld \<Rightarrow> 'e tworld"

definition upd_tm :: "timer_id \<Rightarrow> (vibe_timer_t \<Rightarrow> vibe_timer_t) \<Rightarrow> timers \<Rightarrow> timers" where
  "upd_tm t f ts = ts\<lparr>tm_store := (tm_store ts)(t := f (tm_store ts t))\<rparr>"

definition vibe_timer_init ::
    "timer_id option \<Rightarrow> u32 \<Rightarrow> u32 \<Rightarrow> vibe_timer_mode_t \<Rightarrow> timers \<Rightarrow> vibe_err_t \<times> timers" where
  "vibe_timer_init timer expiry_fn user_data mode ts =
     (case timer of
        None \<Rightarrow> (VIBE_EINVAL, ts)
      | Some t \<Rightarrow>
          if expiry_fn = 0 then (VIBE_EINVAL, ts)
          else (VIBE_OK, upd_tm t (\<lambda>_. \<lparr>tm_expiry_fn = expiry_fn, tm_user_data = user_data, tm_duration_ticks = 0,
                 tm_remaining = 0, tm_mode = mode, tm_active = False, tm_next = None\<rparr>) ts))"

text \<open>
  The unlinking loop of \<^verbatim>\<open>vibe_timer_stop\<close>: \<open>pp\<close> is the timer whose \<^verbatim>\<open>next\<close> field \<^verbatim>\<open>pp\<close> points to, \<^term>\<open>None\<close>
  for \<^verbatim>\<open>&g_timer_list_head\<close>.
\<close>

definition pp_read :: "timer_id option \<Rightarrow> timers \<Rightarrow> timer_id option" where
  "pp_read pp ts = (case pp of None \<Rightarrow> g_timer_list_head ts | Some p \<Rightarrow> tm_next (tm_store ts p))"

definition pp_write :: "timer_id option \<Rightarrow> timer_id option \<Rightarrow> timers \<Rightarrow> timers" where
  "pp_write pp v ts =
     (case pp of None \<Rightarrow> ts\<lparr>g_timer_list_head := v\<rparr> | Some p \<Rightarrow> upd_tm p (\<lambda>tm. tm\<lparr>tm_next := v\<rparr>) ts)"

partial_function (option) timer_unlink :: "timer_id \<Rightarrow> timer_id option \<Rightarrow> timers \<Rightarrow> timers option" where
  "timer_unlink t pp ts =
     (case pp_read pp ts of
        None \<Rightarrow> Some ts
      | Some x \<Rightarrow> if x = t then Some (pp_write pp (tm_next (tm_store ts t)) ts)
                  else timer_unlink t (Some x) ts)"

definition vibe_timer_stop :: "timer_id option \<Rightarrow> timers \<times> kstate \<Rightarrow> (vibe_err_t \<times> timers \<times> kstate) option" where
  "vibe_timer_stop timer w =
     (case timer of
        None \<Rightarrow> Some (VIBE_EINVAL, w)
      | Some t \<Rightarrow>
          (let (ts, s) = w; (key, s) = arch_irq_lock s in
           if \<not> tm_active (tm_store ts t) then Some (VIBE_EAGAIN, ts, arch_irq_unlock key s)
           else do {
             ts \<leftarrow> timer_unlink t None ts;
             let ts = upd_tm t (\<lambda>tm. tm\<lparr>tm_active := False, tm_remaining := 0, tm_next := None\<rparr>) ts;
             Some (VIBE_OK, ts, arch_irq_unlock key s)
           }))"

definition vibe_timer_start ::
    "kconfig \<Rightarrow> timer_id option \<Rightarrow> u32 \<Rightarrow> timers \<times> kstate \<Rightarrow> (vibe_err_t \<times> timers \<times> kstate) option" where
  "vibe_timer_start cfg timer duration_ms w =
     (case timer of
        None \<Rightarrow> Some (VIBE_EINVAL, w)
      | Some t \<Rightarrow>
          if duration_ms = 0 then Some (VIBE_EINVAL, w)
          else
            (let (ts, s) = w; (key, s) = arch_irq_lock s in
             do {
               (ts, s) \<leftarrow> (if tm_active (tm_store ts t)
                           then map_option snd (vibe_timer_stop (Some t) (ts, s)) else Some (ts, s));
               let d = VIBE_MS_TO_TICKS cfg duration_ms;
               let d = (if d = 0 then 1 else d);
               let ts = upd_tm t (\<lambda>tm. tm\<lparr>tm_duration_ticks := d, tm_remaining := d, tm_active := True,
                                          tm_next := g_timer_list_head ts\<rparr>) ts;
               let ts = ts\<lparr>g_timer_list_head := Some t\<rparr>;
               let s = arch_irq_unlock key s;
               let next = vibe_sched_next_wakeup s;
               let s = (if CONFIG_TICKLESS_IDLE cfg \<and> next \<noteq> VIBE_WAIT_FOREVER then arch_set_next_tick next s else s);
               Some (VIBE_OK, ts, s)
             }))"

definition vibe_timer_restart ::
    "kconfig \<Rightarrow> timer_id option \<Rightarrow> timers \<times> kstate \<Rightarrow> (vibe_err_t \<times> timers \<times> kstate) option" where
  "vibe_timer_restart cfg timer w =
     (case timer of
        None \<Rightarrow> Some (VIBE_EINVAL, w)
      | Some t \<Rightarrow> vibe_timer_start cfg timer (VIBE_TICKS_TO_MS cfg (tm_duration_ticks (tm_store (fst w) t))) w)"

definition vibe_timer_is_running :: "timer_id option \<Rightarrow> timers \<Rightarrow> bool" where
  "vibe_timer_is_running timer ts = (case timer of None \<Rightarrow> False | Some t \<Rightarrow> tm_active (tm_store ts t))"

definition vibe_timer_remaining_ms :: "kconfig \<Rightarrow> timer_id option \<Rightarrow> timers \<Rightarrow> u32" where
  "vibe_timer_remaining_ms cfg timer ts =
     (case timer of
        None \<Rightarrow> 0
      | Some t \<Rightarrow> if \<not> tm_active (tm_store ts t) then 0 else VIBE_TICKS_TO_MS cfg (tm_remaining (tm_store ts t)))"

text \<open>The walk of the tick: \<open>next\<close> is read before the callback runs, \<open>prev\<close> is the last timer that stayed.\<close>

definition timer_count_down :: "vibe_timer_t \<Rightarrow> vibe_timer_t" where
  "timer_count_down tm = (if tm_remaining tm > 0 then tm\<lparr>tm_remaining := tm_remaining tm - 1\<rparr> else tm)"

partial_function (option) timer_tick_loop ::
    "'e expiry_cb \<Rightarrow> timer_id option \<Rightarrow> timer_id option \<Rightarrow> 'e tworld \<Rightarrow> 'e tworld option" where
  "timer_tick_loop cb t prev w =
     (case t of
        None \<Rightarrow> Some w
      | Some x \<Rightarrow>
          (let (ts, s, e) = w;
               next = tm_next (tm_store ts x);
               ts = upd_tm x timer_count_down ts
           in if tm_remaining (tm_store ts x) = 0 \<and> tm_active (tm_store ts x) then
                (let (ts, prev) =
                       (if tm_mode (tm_store ts x) = VIBE_TIMER_PERIODIC
                        then (upd_tm x (\<lambda>tm. tm\<lparr>tm_remaining := tm_duration_ticks tm\<rparr>) ts, Some x)
                        else (upd_tm x (\<lambda>tm. tm\<lparr>tm_active := False, tm_next := None\<rparr>) (pp_write prev next ts), prev));
                     tm = tm_store ts x;
                     w = (if tm_expiry_fn tm \<noteq> 0 then cb (tm_expiry_fn tm) x (tm_user_data tm) (ts, s, e) else (ts, s, e))
                 in timer_tick_loop cb next prev w)
              else timer_tick_loop cb next (Some x) (ts, s, e)))"

definition vibe_timer_tick :: "'e expiry_cb \<Rightarrow> 'e tworld \<Rightarrow> 'e tworld option" where
  "vibe_timer_tick cb w = timer_tick_loop cb (g_timer_list_head (fst w)) None w"

text \<open>\<^verbatim>\<open>_vibe_sys_tick_handler\<close>, the body of the SysTick interrupt.\<close>

definition vibe_sys_tick_handler :: "kconfig \<Rightarrow> 'e expiry_cb \<Rightarrow> 'e tworld \<Rightarrow> 'e tworld option" where
  "vibe_sys_tick_handler cfg cb w =
     (let (ts, s, e) = w;
          s = s\<lparr>g_tick_count := g_tick_count s + 1\<rparr>
      in do {
           (ts, s, e) \<leftarrow> vibe_timer_tick cb (ts, s, e);
           s \<leftarrow> vibe_sched_wake_expired (g_tick_count s) s;
           let s = vibe_sched_timeslice_tick cfg s;
           Some (ts, vibe_sched_reschedule cfg s, e)
         })"

section \<open>The list of active timers\<close>

primrec tchain :: "timers \<Rightarrow> timer_id option \<Rightarrow> timer_id list \<Rightarrow> bool" where
  "tchain ts h [] \<longleftrightarrow> h = None"
| "tchain ts h (x # xs) \<longleftrightarrow> h = Some x \<and> tchain ts (tm_next (tm_store ts x)) xs"

text \<open>The timers in the list are exactly the active ones.\<close>

definition timers_rep :: "timers \<Rightarrow> timer_id list \<Rightarrow> bool" where
  "timers_rep ts xs \<longleftrightarrow>
     distinct xs \<and> tchain ts (g_timer_list_head ts) xs \<and> (\<forall>x. x \<in> set xs \<longleftrightarrow> tm_active (tm_store ts x))"

lemma tchain_cong: "(\<And>x. x \<in> set xs \<Longrightarrow> tm_next (tm_store ts' x) = tm_next (tm_store ts x)) \<Longrightarrow> tchain ts' h xs = tchain ts h xs"
  by (induction xs arbitrary: h) auto

lemma tchain_head: "tchain ts h xs \<Longrightarrow> h = head_or xs None"
  by (cases xs) auto

lemma upd_tm_simps [simp]:
  "tm_store (upd_tm t f ts) = (tm_store ts)(t := f (tm_store ts t))" "g_timer_list_head (upd_tm t f ts) = g_timer_list_head ts"
  by (simp_all add: upd_tm_def)

lemma tchain_upd [simp]: "t \<notin> set xs \<Longrightarrow> tchain (upd_tm t f ts) h xs = tchain ts h xs"
  by (rule tchain_cong) auto

lemma tchain_upd_next: "(\<And>tm. tm_next (f tm) = tm_next tm) \<Longrightarrow> tchain (upd_tm t f ts) h xs = tchain ts h xs"
  by (rule tchain_cong) simp

lemma tchain_set_head [simp]: "tchain (ts\<lparr>g_timer_list_head := v\<rparr>) h xs = tchain ts h xs"
  by (rule tchain_cong) simp

text \<open>A list seen from the pointer \<open>pp\<close> that refers to its first element.\<close>

lemma pp_append:
  "tchain ts (g_timer_list_head ts) (us @ xs) \<longleftrightarrow>
     tchain ts (pp_read (last_or None us) ts) xs \<and>
     (\<forall>vs x ws. us = vs @ x # ws \<longrightarrow> pp_read (last_or None vs) ts = Some x)"
proof (induction us arbitrary: xs rule: rev_induct)
  case Nil
  then show ?case by (simp add: pp_read_def)
next
  case (snoc u us)
  have split: "us @ [u] = vs @ x # ws \<longleftrightarrow> (\<exists>ws'. ws = ws' @ [u] \<and> us = vs @ x # ws') \<or> (ws = [] \<and> vs = us \<and> x = u)" for vs x ws
    by (cases ws rule: rev_cases) auto
  show ?case using snoc.IH [of "u # xs"] by (auto simp: split pp_read_def)
qed

lemma chain_unlink:
  assumes "distinct (us @ t # vs)" "tchain ts (g_timer_list_head ts) (us @ t # vs)"
  defines "ts' \<equiv> pp_write (last_or None us) (tm_next (tm_store ts t)) ts"
  shows "tchain ts' (g_timer_list_head ts') (us @ vs)"
    "\<And>x. (tm_store ts' x)\<lparr>tm_next := None\<rparr> = (tm_store ts x)\<lparr>tm_next := None\<rparr>"
    "\<And>x. x \<notin> set us \<Longrightarrow> tm_store ts' x = tm_store ts x"
proof -
  show "tchain ts' (g_timer_list_head ts') (us @ vs)"
  proof (cases us rule: rev_cases)
    case Nil
    then show ?thesis using assms by (simp add: pp_write_def)
  next
    case (snoc ws u)
    have off: "tchain ts' h ys = tchain ts h ys" if "u \<notin> set ys" for h ys
      using that by (simp add: ts'_def snoc pp_write_def)
    have "tchain ts (g_timer_list_head ts) (ws @ u # t # vs)" using assms(2) snoc by simp
    then have split: "tchain ts (tm_next (tm_store ts t)) vs" "\<forall>xs x zs. ws = xs @ x # zs \<longrightarrow> pp_read (last_or None xs) ts = Some x"
        "pp_read (last_or None ws) ts = Some u"
      using pp_append [of ts ws "u # t # vs"] by auto
    have hd: "g_timer_list_head ts' = g_timer_list_head ts" by (simp add: ts'_def snoc pp_write_def)
    have eq: "pp_read (last_or None xs) ts' = pp_read (last_or None xs) ts" if "u \<notin> set xs" for xs
      using that by (cases xs rule: rev_cases) (auto simp: pp_read_def hd ts'_def snoc pp_write_def)
    have "tchain ts' (g_timer_list_head ts') (ws @ u # vs)"
      unfolding pp_append using split assms(1) snoc by (auto simp: eq off) (simp add: ts'_def snoc pp_write_def off)
    then show ?thesis by (simp add: snoc)
  qed
  show "(tm_store ts' x)\<lparr>tm_next := None\<rparr> = (tm_store ts x)\<lparr>tm_next := None\<rparr>" for x
    by (auto simp: ts'_def pp_write_def split: option.split)
  show "x \<notin> set us \<Longrightarrow> tm_store ts' x = tm_store ts x" for x
    by (cases us rule: rev_cases) (auto simp: ts'_def pp_write_def)
qed

lemma unlink_finds:
  assumes "distinct (us @ t # vs)" "tchain ts (g_timer_list_head ts) (us @ t # vs)"
  shows "timer_unlink t None ts = Some (pp_write (last_or None us) (tm_next (tm_store ts t)) ts)"
proof -
  have "timer_unlink t (last_or None ws) ts = Some (pp_write (last_or None us) (tm_next (tm_store ts t)) ts)"
    if "us = ws @ zs" for ws zs
    using that
  proof (induction zs arbitrary: ws)
    case Nil
    then have "pp_read (last_or None ws) ts = Some t" using assms(2) pp_append [of ts us "t # vs"] by simp
    then show ?case using Nil by (simp add: timer_unlink.simps [of t "last_or None ws"])
  next
    case (Cons z zs)
    then have "pp_read (last_or None ws) ts = Some z" "z \<noteq> t" using assms pp_append [of ts us "t # vs"] by auto
    then show ?case using Cons.IH [of "ws @ [z]"] Cons.prems by (simp add: timer_unlink.simps [of t "last_or None ws"])
  qed
  from this [of "[]" us] show ?thesis by simp
qed

lemma stop_rep:
  assumes rep: "timers_rep ts (us @ t # vs)"
  shows "\<exists>ts'. vibe_timer_stop (Some t) (ts, s) = Some (VIBE_OK, ts', s) \<and> timers_rep ts' (us @ vs) \<and>
    (\<forall>x. x \<noteq> t \<longrightarrow> (tm_store ts' x)\<lparr>tm_next := None\<rparr> = (tm_store ts x)\<lparr>tm_next := None\<rparr>) \<and>
    tm_store ts' t = (tm_store ts t)\<lparr>tm_active := False, tm_remaining := 0, tm_next := None\<rparr>"
proof -
  have d: "distinct (us @ t # vs)" "tchain ts (g_timer_list_head ts) (us @ t # vs)"
    and act: "\<And>x. x \<in> set (us @ t # vs) \<longleftrightarrow> tm_active (tm_store ts x)" using rep by (auto simp: timers_rep_def)
  define ts1 where "ts1 = pp_write (last_or None us) (tm_next (tm_store ts t)) ts"
  note c = chain_unlink [OF d, folded ts1_def]
  define ts2 where "ts2 = upd_tm t (\<lambda>tm. tm\<lparr>tm_active := False, tm_remaining := 0, tm_next := None\<rparr>) ts1"
  have "tm_active (tm_store ts1 x) = tm_active (tm_store ts x)" for x using arg_cong [OF c(2) [of x], of tm_active] by simp
  then have "timers_rep ts2 (us @ vs)"
    using c(1) d(1) act by (auto simp: timers_rep_def ts2_def)
  moreover have "vibe_timer_stop (Some t) (ts, s) = Some (VIBE_OK, ts2, s)"
    using act [of t] by (simp add: vibe_timer_stop_def arch_irq_lock_def arch_irq_unlock_def unlink_finds [OF d] ts2_def ts1_def)
  ultimately show ?thesis using c(2,3) d(1) by (intro exI [of _ ts2]) (simp add: ts2_def)
qed

lemma start_rep:
  assumes rep: "timers_rep ts xs" and ms: "duration_ms \<noteq> 0"
  shows "\<exists>ts'. vibe_timer_start cfg (Some t) duration_ms (ts, s) = Some (VIBE_OK, ts', s) \<and> timers_rep ts' (t # remove1 t xs) \<and>
    tm_remaining (tm_store ts' t) = max 1 (VIBE_MS_TO_TICKS cfg duration_ms) \<and>
    tm_duration_ticks (tm_store ts' t) = max 1 (VIBE_MS_TO_TICKS cfg duration_ms) \<and>
    tm_mode (tm_store ts' t) = tm_mode (tm_store ts t) \<and> tm_expiry_fn (tm_store ts' t) = tm_expiry_fn (tm_store ts t) \<and>
    (\<forall>x. x \<noteq> t \<longrightarrow> (tm_store ts' x)\<lparr>tm_next := None\<rparr> = (tm_store ts x)\<lparr>tm_next := None\<rparr>)"
proof -
  have "\<exists>ts1. (if tm_active (tm_store ts t) then map_option snd (vibe_timer_stop (Some t) (ts, s\<lparr>PRIMASK := 1\<rparr>))
        else Some (ts, s\<lparr>PRIMASK := 1\<rparr>)) = Some (ts1, s\<lparr>PRIMASK := 1\<rparr>) \<and> timers_rep ts1 (remove1 t xs) \<and>
      tm_mode (tm_store ts1 t) = tm_mode (tm_store ts t) \<and> tm_expiry_fn (tm_store ts1 t) = tm_expiry_fn (tm_store ts t) \<and>
      (\<forall>x. x \<noteq> t \<longrightarrow> (tm_store ts1 x)\<lparr>tm_next := None\<rparr> = (tm_store ts x)\<lparr>tm_next := None\<rparr>)"
  proof (cases "tm_active (tm_store ts t)")
    case True
    then have "t \<in> set xs" using rep by (simp add: timers_rep_def)
    then obtain us vs where xs: "xs = us @ t # vs" "t \<notin> set us" by (metis split_list_first)
    then show ?thesis using True stop_rep [of ts us t vs "s\<lparr>PRIMASK := 1\<rparr>"] rep by (auto simp: remove1_append)
  next
    case False
    then have "t \<notin> set xs" using rep by (simp add: timers_rep_def)
    then show ?thesis using False rep by (simp add: remove1_idem)
  qed
  then obtain ts1 where stop: "(if tm_active (tm_store ts t) then map_option snd (vibe_timer_stop (Some t) (ts, s\<lparr>PRIMASK := 1\<rparr>))
        else Some (ts, s\<lparr>PRIMASK := 1\<rparr>)) = Some (ts1, s\<lparr>PRIMASK := 1\<rparr>)" and
      r1: "timers_rep ts1 (remove1 t xs)" "tm_mode (tm_store ts1 t) = tm_mode (tm_store ts t)"
      "tm_expiry_fn (tm_store ts1 t) = tm_expiry_fn (tm_store ts t)"
      "\<And>x. x \<noteq> t \<Longrightarrow> (tm_store ts1 x)\<lparr>tm_next := None\<rparr> = (tm_store ts x)\<lparr>tm_next := None\<rparr>" by blast
  let ?d = "max 1 (VIBE_MS_TO_TICKS cfg duration_ms)"
  have d: "(if VIBE_MS_TO_TICKS cfg duration_ms = 0 then 1 else VIBE_MS_TO_TICKS cfg duration_ms) = ?d"
    by (auto simp: max_def word_le_nat_alt unat_eq_zero le_Suc_eq not_le)
  define ts2 where "ts2 = (upd_tm t (\<lambda>tm. tm\<lparr>tm_duration_ticks := ?d, tm_remaining := ?d, tm_active := True,
      tm_next := g_timer_list_head ts1\<rparr>) ts1)\<lparr>g_timer_list_head := Some t\<rparr>"
  have "vibe_timer_start cfg (Some t) duration_ms (ts, s) = Some (VIBE_OK, ts2, s)"
    using ms stop by (simp add: vibe_timer_start_def arch_irq_lock_def arch_irq_unlock_def arch_set_next_tick_def d ts2_def Let_def
        del: if_split_eq1)
  moreover have t: "t \<notin> set (remove1 t xs)" using rep by (simp add: timers_rep_def)
  have "timers_rep ts2 (t # remove1 t xs)"
    using r1(1) t by (auto simp: timers_rep_def ts2_def)
  ultimately show ?thesis using r1(2-4) by (intro exI [of _ ts2]) (simp add: ts2_def)
qed

section \<open>The tick\<close>

definition expires :: "vibe_timer_t \<Rightarrow> bool" where
  "expires tm \<longleftrightarrow> tm_active tm \<and> tm_remaining tm \<le> 1"

definition stays :: "vibe_timer_t \<Rightarrow> bool" where
  "stays tm \<longleftrightarrow> \<not> expires tm \<or> tm_mode tm = VIBE_TIMER_PERIODIC"

definition timer_after :: "vibe_timer_t \<Rightarrow> vibe_timer_t" where
  "timer_after tm =
     (if \<not> expires tm then timer_count_down tm
      else if tm_mode tm = VIBE_TIMER_PERIODIC then tm\<lparr>tm_remaining := tm_duration_ticks tm\<rparr>
      else tm\<lparr>tm_remaining := 0, tm_active := False\<rparr>)"

abbreviation unlinked_tm :: "vibe_timer_t \<Rightarrow> vibe_timer_t" where
  "unlinked_tm tm \<equiv> tm\<lparr>tm_next := None\<rparr>"

text \<open>Callbacks that act on the kernel and the application, not on the timers.\<close>

definition quiet :: "(u32 \<Rightarrow> timer_id \<Rightarrow> u32 \<Rightarrow> kstate \<times> 'e \<Rightarrow> kstate \<times> 'e) \<Rightarrow> 'e expiry_cb" where
  "quiet act = (\<lambda>fn x u (ts, se). (ts, act fn x u se))"

lemma quiet_apply [simp]: "quiet act fn x u (ts, se) = (ts, act fn x u se)"
  by (simp add: quiet_def)

definition call_expiry :: "(u32 \<Rightarrow> timer_id \<Rightarrow> u32 \<Rightarrow> kstate \<times> 'e \<Rightarrow> kstate \<times> 'e) \<Rightarrow> vibe_timer_t \<Rightarrow> timer_id \<Rightarrow> kstate \<times> 'e \<Rightarrow> kstate \<times> 'e" where
  "call_expiry act tm x se = (if tm_expiry_fn tm \<noteq> 0 then act (tm_expiry_fn tm) x (tm_user_data tm) se else se)"

lemma count_down_zero: "tm_remaining (timer_count_down tm) = 0 \<longleftrightarrow> tm_remaining tm \<le> 1"
proof (cases "tm_remaining tm > 0")
  case True
  then have "unat (tm_remaining tm - 1) = unat (tm_remaining tm) - 1" by (rule unat_dec_u32)
  then show ?thesis using True by (simp add: timer_count_down_def word_le_nat_alt unat_eq_zero [symmetric] word_less_nat_alt del: unat_eq_zero)
next
  case False
  then have "tm_remaining tm = 0" by (simp add: word_gt_0)
  then show ?thesis by (simp add: timer_count_down_def)
qed

lemma count_down_fields [simp]:
  "tm_active (timer_count_down tm) = tm_active tm" "tm_mode (timer_count_down tm) = tm_mode tm"
  "tm_next (timer_count_down tm) = tm_next tm" "tm_expiry_fn (timer_count_down tm) = tm_expiry_fn tm"
  "tm_user_data (timer_count_down tm) = tm_user_data tm" "tm_duration_ticks (timer_count_down tm) = tm_duration_ticks tm"
  by (simp_all add: timer_count_down_def)

text \<open>One round of the walk on a represented list, by the fate of the timer.\<close>

lemma tick_round_stays:
  assumes rep: "timers_rep ts (us @ x # xs)" and st: "stays (tm_store ts x)"
  shows "\<exists>ts1. timer_tick_loop (quiet act) (Some x) (last_or None us) (ts, se) =
      timer_tick_loop (quiet act) (head_or xs None) (Some x)
        (ts1, if expires (tm_store ts x) then call_expiry act (tm_store ts x) x se else se) \<and>
    timers_rep ts1 (us @ x # xs) \<and> tm_store ts1 x = timer_after (tm_store ts x) \<and>
    (\<forall>y. y \<noteq> x \<longrightarrow> tm_store ts1 y = tm_store ts y)"
proof -
  let ?ts1 = "upd_tm x timer_after ts"
  have act: "tm_active (tm_store ts x)" and ch: "tchain ts (tm_next (tm_store ts x)) xs" "x \<notin> set xs"
    using rep pp_append [of ts us "x # xs"] by (auto simp: timers_rep_def)
  have nxt: "tm_next (tm_store ts x) = head_or xs None" using tchain_head [OF ch(1)] .
  have keep: "tm_next (timer_after tm) = tm_next tm" for tm by (simp add: timer_after_def)
  have "tm_active (timer_after (tm_store ts x)) = tm_active (tm_store ts x)" using st by (auto simp: timer_after_def stays_def)
  then have "timers_rep ?ts1 (us @ x # xs)" using rep by (auto simp: timers_rep_def tchain_upd_next [OF keep])
  moreover have "timer_tick_loop (quiet act) (Some x) (last_or None us) (ts, se) =
      timer_tick_loop (quiet act) (head_or xs None) (Some x)
        (?ts1, if expires (tm_store ts x) then call_expiry act (tm_store ts x) x se else se)"
  proof (cases "expires (tm_store ts x)")
    case True
    then have m: "tm_mode (tm_store ts x) = VIBE_TIMER_PERIODIC" "tm_remaining (timer_count_down (tm_store ts x)) = 0"
      using st by (auto simp: stays_def expires_def count_down_zero)
    have "upd_tm x (\<lambda>tm. tm\<lparr>tm_remaining := tm_duration_ticks tm\<rparr>) (upd_tm x timer_count_down ts) = ?ts1"
      using True m by (simp add: upd_tm_def timer_after_def timer_count_down_def)
    then show ?thesis using True m act
      by (cases se) (auto simp: timer_tick_loop.simps [of "quiet act" "Some x"] nxt call_expiry_def timer_after_def Let_def)
  next
    case False
    then have "tm_remaining (timer_count_down (tm_store ts x)) \<noteq> 0" using act by (simp add: expires_def count_down_zero)
    moreover have "upd_tm x timer_count_down ts = ?ts1" using False by (simp add: upd_tm_def timer_after_def)
    ultimately show ?thesis using False by (cases se) (simp add: timer_tick_loop.simps [of "quiet act" "Some x"] nxt)
  qed
  ultimately show ?thesis by (intro exI [of _ ?ts1]) simp
qed

lemma tick_round_leaves:
  assumes rep: "timers_rep ts (us @ x # xs)" and st: "\<not> stays (tm_store ts x)"
  shows "\<exists>ts1. timer_tick_loop (quiet act) (Some x) (last_or None us) (ts, se) =
      timer_tick_loop (quiet act) (head_or xs None) (last_or None us) (ts1, call_expiry act (tm_store ts x) x se) \<and>
    timers_rep ts1 (us @ xs) \<and> unlinked_tm (tm_store ts1 x) = unlinked_tm (timer_after (tm_store ts x)) \<and>
    (\<forall>y. y \<noteq> x \<longrightarrow> unlinked_tm (tm_store ts1 y) = unlinked_tm (tm_store ts y)) \<and>
    (\<forall>y. y \<notin> set us \<longrightarrow> y \<noteq> x \<longrightarrow> tm_store ts1 y = tm_store ts y)"
proof -
  have d: "distinct (us @ x # xs)" "tchain ts (g_timer_list_head ts) (us @ x # xs)"
    and act: "\<And>y. y \<in> set (us @ x # xs) \<longleftrightarrow> tm_active (tm_store ts y)" using rep by (auto simp: timers_rep_def)
  have nxt: "tm_next (tm_store ts x) = head_or xs None"
    using tchain_head [of ts _ xs] d(2) pp_append [of ts us "x # xs"] by auto
  have e: "expires (tm_store ts x)" "tm_mode (tm_store ts x) = VIBE_TIMER_ONE_SHOT" "tm_remaining (timer_count_down (tm_store ts x)) = 0"
    using st by (auto simp: stays_def expires_def count_down_zero intro: vibe_timer_mode_t.exhaust)
  let ?ts0 = "upd_tm x timer_count_down ts"
  have d0: "tchain ?ts0 (g_timer_list_head ?ts0) (us @ x # xs)" using d(2) by (simp add: tchain_upd_next)
  define ts1 where "ts1 = pp_write (last_or None us) (tm_next (tm_store ?ts0 x)) ?ts0"
  note c = chain_unlink [OF d(1) d0, folded ts1_def]
  define ts2 where "ts2 = upd_tm x (\<lambda>tm. tm\<lparr>tm_active := False, tm_next := None\<rparr>) ts1"
  have x: "tm_store ts1 x = timer_count_down (tm_store ts x)" using c(3) [of x] d(1) by simp
  have x2: "tm_store ts2 x = (timer_count_down (tm_store ts x))\<lparr>tm_active := False, tm_next := None\<rparr>" by (simp add: ts2_def x)
  have "tm_active (tm_store ts1 y) = tm_active (tm_store ?ts0 y)" for y using arg_cong [OF c(2) [of y], of tm_active] by simp
  then have "timers_rep ts2 (us @ xs)" using c(1) d(1) act by (auto simp: timers_rep_def ts2_def)
  moreover have "timer_tick_loop (quiet act') (Some x) (last_or None us) (ts, se) =
      timer_tick_loop (quiet act') (head_or xs None) (last_or None us) (ts2, call_expiry act' (tm_store ts x) x se)" for act'
    using e act [of x] nxt x2
    by (cases se) (simp add: timer_tick_loop.simps [of "quiet act'" "Some x"] call_expiry_def ts2_def ts1_def Let_def)
  moreover have "unlinked_tm (tm_store ts2 x) = unlinked_tm (timer_after (tm_store ts x))"
    using e by (simp add: x2 timer_after_def timer_count_down_def split: if_splits)
  moreover have "unlinked_tm (tm_store ts2 y) = unlinked_tm (tm_store ts y)" if "y \<noteq> x" for y
    using c(2) [of y] that by (simp add: ts2_def)
  moreover have "tm_store ts2 y = tm_store ts y" if "y \<notin> set us" "y \<noteq> x" for y using c(3) [of y] that by (simp add: ts2_def)
  ultimately show ?thesis by (intro exI [of _ ts2]) blast
qed

lemma tick_loop_rep:
  assumes "timers_rep ts (us @ xs)"
  shows "\<exists>ts'. timer_tick_loop (quiet act) (head_or xs None) (last_or None us) (ts, se) =
      Some (ts', fold (\<lambda>x. call_expiry act (tm_store ts x) x) (filter (\<lambda>x. expires (tm_store ts x)) xs) se) \<and>
    timers_rep ts' (us @ filter (\<lambda>x. stays (tm_store ts x)) xs) \<and>
    (\<forall>y. unlinked_tm (tm_store ts' y) = unlinked_tm (if y \<in> set xs then timer_after (tm_store ts y) else tm_store ts y))"
  using assms
proof (induction xs arbitrary: us ts se)
  case Nil
  then show ?case by (intro exI [of _ ts]) (simp add: timer_tick_loop.simps)
next
  case (Cons x xs)
  have x: "x \<notin> set xs" "\<And>y. y \<in> set xs \<Longrightarrow> y \<notin> set us" using Cons.prems by (auto simp: timers_rep_def)
  show ?case
  proof (cases "stays (tm_store ts x)")
    case True
    from tick_round_stays [OF Cons.prems True, of act se] obtain ts1 where
      r: "timer_tick_loop (quiet act) (Some x) (last_or None us) (ts, se) = timer_tick_loop (quiet act) (head_or xs None) (Some x)
            (ts1, if expires (tm_store ts x) then call_expiry act (tm_store ts x) x se else se)"
        "timers_rep ts1 ((us @ [x]) @ xs)" "tm_store ts1 x = timer_after (tm_store ts x)"
        "\<And>y. y \<noteq> x \<Longrightarrow> tm_store ts1 y = tm_store ts y" by auto
    have same: "tm_store ts1 y = tm_store ts y" if "y \<in> set xs" for y by (rule r(4)) (use that x(1) in auto)
    have eq: "fold (\<lambda>x. call_expiry act (tm_store ts1 x) x) (filter (\<lambda>x. expires (tm_store ts1 x)) xs) e =
        fold (\<lambda>x. call_expiry act (tm_store ts x) x) (filter (\<lambda>x. expires (tm_store ts x)) xs) e"
        "filter (\<lambda>x. stays (tm_store ts1 x)) xs = filter (\<lambda>x. stays (tm_store ts x)) xs" for e
      by (auto intro!: fold_cong filter_cong simp: same cong: filter_cong)
    from Cons.IH [OF r(2), of "if expires (tm_store ts x) then call_expiry act (tm_store ts x) x se else se"] r(1) True x(1)
    show ?thesis by (auto simp: eq r(3,4) same)
  next
    case False
    from tick_round_leaves [OF Cons.prems False, of act se] obtain ts1 where
      r: "timer_tick_loop (quiet act) (Some x) (last_or None us) (ts, se) =
            timer_tick_loop (quiet act) (head_or xs None) (last_or None us) (ts1, call_expiry act (tm_store ts x) x se)"
        "timers_rep ts1 (us @ xs)" "unlinked_tm (tm_store ts1 x) = unlinked_tm (timer_after (tm_store ts x))"
        "\<And>y. y \<noteq> x \<Longrightarrow> unlinked_tm (tm_store ts1 y) = unlinked_tm (tm_store ts y)"
        "\<And>y. y \<notin> set us \<Longrightarrow> y \<noteq> x \<Longrightarrow> tm_store ts1 y = tm_store ts y" by blast
    have same: "tm_store ts1 y = tm_store ts y" if "y \<in> set xs" for y by (rule r(5)) (use that x in auto)
    have eq: "fold (\<lambda>x. call_expiry act (tm_store ts1 x) x) (filter (\<lambda>x. expires (tm_store ts1 x)) xs) e =
        fold (\<lambda>x. call_expiry act (tm_store ts x) x) (filter (\<lambda>x. expires (tm_store ts x)) xs) e"
        "filter (\<lambda>x. stays (tm_store ts1 x)) xs = filter (\<lambda>x. stays (tm_store ts x)) xs" for e
      by (auto intro!: fold_cong filter_cong simp: same cong: filter_cong)
    have e: "expires (tm_store ts x)" using False by (simp add: stays_def)
    from Cons.IH [OF r(2), of "call_expiry act (tm_store ts x) x se"] r(1) False e x(1)
    show ?thesis by (auto simp: eq same r(3,4))
  qed
qed

lemma tick_rep:
  assumes "timers_rep ts xs"
  shows "\<exists>ts'. vibe_timer_tick (quiet act) (ts, se) =
      Some (ts', fold (\<lambda>x. call_expiry act (tm_store ts x) x) (filter (\<lambda>x. expires (tm_store ts x)) xs) se) \<and>
    timers_rep ts' (filter (\<lambda>x. stays (tm_store ts x)) xs) \<and>
    (\<forall>y. unlinked_tm (tm_store ts' y) = unlinked_tm (if y \<in> set xs then timer_after (tm_store ts y) else tm_store ts y))"
proof -
  have "g_timer_list_head ts = head_or xs None" using assms tchain_head by (auto simp: timers_rep_def)
  then show ?thesis using tick_loop_rep [of ts "[]" xs act se] assms by (simp add: vibe_timer_tick_def)
qed

section \<open>Many ticks\<close>

primrec timer_ticks :: "'e expiry_cb \<Rightarrow> nat \<Rightarrow> 'e tworld \<Rightarrow> 'e tworld option" where
  "timer_ticks cb 0 w = Some w"
| "timer_ticks cb (Suc k) w = do { w \<leftarrow> vibe_timer_tick cb w; timer_ticks cb k w }"

text \<open>A callback that notes which timer fired, and the number of expiries of one timer in \<open>k\<close> ticks.\<close>

definition note_expiry :: "u32 \<Rightarrow> timer_id \<Rightarrow> u32 \<Rightarrow> kstate \<times> timer_id list \<Rightarrow> kstate \<times> timer_id list" where
  "note_expiry fn x u = (\<lambda>(s, log). (s, log @ [x]))"

fun expiries :: "vibe_timer_t \<Rightarrow> nat \<Rightarrow> nat" where
  "expiries tm 0 = 0"
| "expiries tm (Suc k) = (if expires tm then 1 else 0) + expiries (timer_after tm) k"

lemma after_link: "timer_after (tm\<lparr>tm_next := v\<rparr>) = (timer_after tm)\<lparr>tm_next := v\<rparr>"
  by (simp add: timer_after_def expires_def timer_count_down_def)

lemma expiries_link: "expiries (tm\<lparr>tm_next := v\<rparr>) k = expiries tm k"
  by (induction k arbitrary: tm) (simp_all add: after_link, simp add: expires_def)

lemma expiries_unlinked: "unlinked_tm tm = unlinked_tm tm' \<Longrightarrow> expiries tm k = expiries tm' k"
  using expiries_link [of None tm k] expiries_link [of None tm' k] by simp

lemma count_list_distinct: "distinct ys \<Longrightarrow> count_list ys x = (if x \<in> set ys then 1 else 0)"
  by (induction ys) auto

lemma expiries_inactive: "\<not> tm_active tm \<Longrightarrow> expiries tm k = 0"
  by (induction k arbitrary: tm) (simp_all add: expires_def timer_after_def)

lemma fold_note: "\<forall>x\<in>set ys. tm_expiry_fn (f x) \<noteq> 0 \<Longrightarrow> fold (\<lambda>x. call_expiry note_expiry (f x) x) ys (s, log) = (s, log @ ys)"
  by (induction ys arbitrary: log) (auto simp: call_expiry_def note_expiry_def)

lemma ticks_count:
  assumes "timers_rep ts xs" "\<forall>x\<in>set xs. tm_expiry_fn (tm_store ts x) \<noteq> 0"
  shows "\<exists>ts' log'. timer_ticks (quiet note_expiry) k (ts, s, log) = Some (ts', s, log @ log') \<and>
    (\<forall>x. count_list log' x = (if x \<in> set xs then expiries (tm_store ts x) k else 0))"
  using assms
proof (induction k arbitrary: ts xs log)
  case (Suc k)
  let ?fired = "filter (\<lambda>x. expires (tm_store ts x)) xs" and ?left = "filter (\<lambda>x. stays (tm_store ts x)) xs"
  from tick_rep [OF Suc.prems(1), of note_expiry "(s, log)"] obtain ts1 where
    r: "vibe_timer_tick (quiet note_expiry) (ts, s, log) = Some (ts1, s, log @ ?fired)" "timers_rep ts1 ?left"
      "\<And>y. unlinked_tm (tm_store ts1 y) = unlinked_tm (if y \<in> set xs then timer_after (tm_store ts y) else tm_store ts y)"
    using fold_note [of ?fired "tm_store ts"] Suc.prems(2) by auto
  have fn: "tm_expiry_fn (timer_after tm) = tm_expiry_fn tm" for tm by (simp add: timer_after_def)
  have "\<forall>x\<in>set ?left. tm_expiry_fn (tm_store ts1 x) \<noteq> 0"
    using arg_cong [OF r(3), of tm_expiry_fn] Suc.prems(2) by (auto simp: fn)
  from Suc.IH [OF r(2) this, of "log @ ?fired"] obtain ts2 log2 where
    i: "timer_ticks (quiet note_expiry) k (ts1, s, log @ ?fired) = Some (ts2, s, (log @ ?fired) @ log2)"
      "\<And>x. count_list log2 x = (if x \<in> set ?left then expiries (tm_store ts1 x) k else 0)" by blast
  have d: "distinct ?fired" using Suc.prems(1) by (simp add: timers_rep_def)
  have "count_list (?fired @ log2) x = (if x \<in> set xs then expiries (tm_store ts x) (Suc k) else 0)" for x
  proof -
    have c: "count_list ?fired x = (if x \<in> set ?fired then 1 else 0)" using d by (rule count_list_distinct)
    have "expiries (tm_store ts1 x) k = expiries (timer_after (tm_store ts x)) k" if "x \<in> set xs"
      using r(3) [of x] that by (intro expiries_unlinked) simp
    moreover have "expiries (timer_after (tm_store ts x)) k = 0" if "\<not> stays (tm_store ts x)"
      using that by (intro expiries_inactive) (auto simp: timer_after_def stays_def)
    ultimately show ?thesis by (auto simp: count_list_append c i(2))
  qed
  then show ?case using r(1) i(1) by (intro exI [of _ ts2] exI [of _ "?fired @ log2"]) simp
qed simp

text \<open>The expiries of one timer in closed form.\<close>

lemma count_down_pos: "tm_remaining tm > 1 \<Longrightarrow> unat (tm_remaining (timer_count_down tm)) = unat (tm_remaining tm) - 1"
  by (simp add: timer_count_down_def word_gt_0 unat_dec_u32)

lemma expiries_closed:
  assumes "tm_active tm" "0 < unat (tm_remaining tm)" "tm_mode tm = VIBE_TIMER_PERIODIC \<longrightarrow> 0 < unat (tm_duration_ticks tm)"
  shows "expiries tm k =
    (if k < unat (tm_remaining tm) then 0
     else if tm_mode tm = VIBE_TIMER_ONE_SHOT then 1
     else 1 + (k - unat (tm_remaining tm)) div unat (tm_duration_ticks tm))"
  using assms
proof (induction k arbitrary: tm)
  case (Suc k)
  show ?case
  proof (cases "expires tm")
    case False
    then have r: "tm_remaining tm > 1" using Suc.prems(1) by (simp add: expires_def not_le)
    then have one: "unat (tm_remaining tm) > 1" by (simp add: word_less_nat_alt)
    have a: "timer_after tm = timer_count_down tm" using False by (simp add: timer_after_def)
    show ?thesis using Suc.IH [of "timer_after tm"] Suc.prems False one by (auto simp: a count_down_pos [OF r] Suc_diff_le)
  next
    case True
    then have r: "unat (tm_remaining tm) = 1" using Suc.prems(2) by (simp add: expires_def word_le_nat_alt)
    show ?thesis
    proof (cases "tm_mode tm")
      case VIBE_TIMER_ONE_SHOT
      then have "expiries (timer_after tm) k = 0" using True by (intro expiries_inactive) (simp add: timer_after_def)
      then show ?thesis using True r VIBE_TIMER_ONE_SHOT by simp
    next
      case VIBE_TIMER_PERIODIC
      then have a: "timer_after tm = tm\<lparr>tm_remaining := tm_duration_ticks tm\<rparr>" using True by (simp add: timer_after_def)
      have d: "0 < unat (tm_duration_ticks tm)" using Suc.prems(3) VIBE_TIMER_PERIODIC by simp
      have "expiries (timer_after tm) k =
          (if k < unat (tm_duration_ticks tm) then 0 else 1 + (k - unat (tm_duration_ticks tm)) div unat (tm_duration_ticks tm))"
        using Suc.IH [of "timer_after tm"] Suc.prems(1) d VIBE_TIMER_PERIODIC by (simp add: a)
      also have "\<dots> = k div unat (tm_duration_ticks tm)"
        using d by (auto simp: div_if)
      finally show ?thesis using True r VIBE_TIMER_PERIODIC by simp
    qed
  qed
qed simp

section \<open>The system tick\<close>

lemma sys_tick_eq:
  "vibe_sys_tick_handler cfg cb (ts, s, e) =
     do { (ts, s, e) \<leftarrow> vibe_timer_tick cb (ts, s\<lparr>g_tick_count := g_tick_count s + 1\<rparr>, e);
          s \<leftarrow> tick_sched cfg s; Some (ts, s, e) }"
  by (simp add: vibe_sys_tick_handler_def tick_sched_def Let_def split: Option.bind_split prod.split)

lemma fold_calls_inv:
  assumes "\<And>fn x u s e. P s \<Longrightarrow> P (fst (act fn x u (s, e)))" "P (fst se)"
  shows "P (fst (fold (\<lambda>x. call_expiry act (f x) x) ys se))"
  using assms(2)
proof (induction ys arbitrary: se)
  case (Cons y ys)
  have "P (fst (call_expiry act (f y) y se))" using Cons.prems assms(1) by (cases se) (simp add: call_expiry_def)
  then show ?case using Cons.IH by simp
qed simp

text \<open>The threads asleep after the scheduling half of a tick.\<close>

lemma tick_sched_sleepers:
  assumes inv: "kernel_inv s" and run: "tick_sched cfg s = Some s'" and t: "th_id (g_tcb s t) \<noteq> 0"
  shows "tstate s' t = VIBE_THREAD_SLEEPING \<longleftrightarrow> tstate s t = VIBE_THREAD_SLEEPING \<and> g_tick_count s < th_timeout (g_tcb s t)"
proof -
  obtain Q Z where k: "live_inv s Q Z" "current_ok s" "g_idle_thread s \<noteq> None" "0 \<le> g_sched_lock_count s"
    using inv by (rule kernel_invE)
  from wake_live [OF k(1,2), of "g_tick_count s"] obtain s1 Q1 where
    w: "vibe_sched_wake_expired (g_tick_count s) s = Some s1" "current_ok s1"
      "live_inv s1 Q1 (filter (\<lambda>t. \<not> th_timeout (g_tcb s t) \<le> g_tick_count s) Z)" by blast
  have id: "th_id (g_tcb s1 u) = th_id (g_tcb s u)" for u
    using wake_expired_inv [OF live_invD(1) [OF k(1)], of "g_tick_count s"] w(1) by (auto simp del: fun_upd_apply)
  obtain Q2 where l2: "live_inv (vibe_sched_timeslice_tick cfg s1) Q2 (filter (\<lambda>t. \<not> th_timeout (g_tcb s t) \<le> g_tick_count s) Z)"
    using timeslice_live [OF w(3,2), of cfg] by blast
  have s': "s' = vibe_sched_reschedule cfg (vibe_sched_timeslice_tick cfg s1)" using run w(1) by (simp add: tick_sched_def)
  have l3: "live_inv s' Q2 (filter (\<lambda>t. \<not> th_timeout (g_tcb s t) \<le> g_tick_count s) Z)" unfolding s' by (rule reschedule_live [OF l2])
  have id': "th_id (g_tcb s' t) \<noteq> 0" using t by (simp add: s' reschedule_tcb timeslice_frame id)
  have "tstate s' t = VIBE_THREAD_SLEEPING \<longleftrightarrow> t \<in> set (filter (\<lambda>t. \<not> th_timeout (g_tcb s t) \<le> g_tick_count s) Z)"
    using sched_invD(6) [OF live_invD(1) [OF l3], of t] sched_invD(7) [OF live_invD(1) [OF l3] id'] by blast
  moreover have "t \<in> set Z \<longleftrightarrow> tstate s t = VIBE_THREAD_SLEEPING" using sched_invD(6,7) [OF live_invD(1) [OF k(1)]] t by blast
  ultimately show ?thesis by (auto simp: not_le)
qed

section \<open>Properties\<close>


definition demo_timers :: "vibe_timer_mode_t \<Rightarrow> timers" where
  "demo_timers m = \<lparr>tm_store = (\<lambda>_. \<lparr>tm_expiry_fn = 0x8000701, tm_user_data = 0, tm_duration_ticks = 0, tm_remaining = 0,
      tm_mode = m, tm_active = False, tm_next = None\<rparr>), g_timer_list_head = None\<rparr>"

lemma demo_timers_rep: "timers_rep (demo_timers m) []"
  by (simp add: timers_rep_def demo_timers_def)


text \<open>
  The system tick keeps the kernel invariant when the timer callbacks do, and always returns. It advances the
  tick counter by one, and with callbacks that leave the kernel alone a created thread is asleep afterwards exactly when it
  was asleep before and its wake-up time lies after the new tick.
\<close>

theorem sys_tick_wakes_expired:
  assumes "kernel_inv s" "timers_rep ts xs" "\<And>fn x u s e. kernel_inv s \<Longrightarrow> kernel_inv (fst (act fn x u (s, e)))"
  shows "\<exists>ts' s' e'. vibe_sys_tick_handler cfg (quiet act) (ts, s, e) = Some (ts', s', e') \<and> kernel_inv s' \<and>
    ((\<forall>fn x u s e. fst (act fn x u (s, e)) = s) \<longrightarrow>
       (\<forall>t. th_id (g_tcb s t) \<noteq> 0 \<longrightarrow>
          (tstate s' t = VIBE_THREAD_SLEEPING \<longleftrightarrow>
           tstate s t = VIBE_THREAD_SLEEPING \<and> g_tick_count s + 1 < th_timeout (g_tcb s t))))"
proof -
  define s0 where "s0 = s\<lparr>g_tick_count := g_tick_count s + 1\<rparr>"
  have inv0: "kernel_inv s0" using assms(1) by (auto simp: kernel_inv_def s0_def)
  let ?fired = "fold (\<lambda>x. call_expiry act (tm_store ts x) x) (filter (\<lambda>x. expires (tm_store ts x)) xs) (s0, e)"
  obtain ts1 where tk: "vibe_timer_tick (quiet act) (ts, s0, e) = Some (ts1, ?fired)" using tick_rep [OF assms(2)] by blast
  obtain s1 e1 where f: "?fired = (s1, e1)" by force
  have inv1: "kernel_inv s1" using fold_calls_inv [of kernel_inv act "(s0, e)", OF assms(3)] inv0 f by (metis fst_conv)
  from tick_kernel_inv [OF inv1, of cfg] obtain s2 where s2: "tick_sched cfg s1 = Some s2" "kernel_inv s2" by blast
  have run: "vibe_sys_tick_handler cfg (quiet act) (ts, s, e) = Some (ts1, s2, e1)"
    using tk s2(1) by (simp add: sys_tick_eq f flip: s0_def)
  have "s1 = s0" if "\<forall>fn x u s e. fst (act fn x u (s, e)) = s"
    using fold_calls_inv [of "\<lambda>s. s = s0" act "(s0, e)" "tm_store ts"] that f by (metis fst_conv)
  then have "tstate s2 t = VIBE_THREAD_SLEEPING \<longleftrightarrow> tstate s t = VIBE_THREAD_SLEEPING \<and> g_tick_count s + 1 < th_timeout (g_tcb s t)"
    if "\<forall>fn x u s e. fst (act fn x u (s, e)) = s" "th_id (g_tcb s t) \<noteq> 0" for t
    using tick_sched_sleepers [OF inv1 s2(1), of t] that by (simp add: s0_def)
  then show ?thesis using run s2(2) by blast
qed

theorem sys_tick_wakes_expired_witness:
  "kernel_inv demo_state \<and> (\<exists>ts' s' e'. vibe_sys_tick_handler demo_cfg (quiet (\<lambda>fn x u (s, e). (s, e))) (demo_timers VIBE_TIMER_ONE_SHOT, demo_state, ()) =
     Some (ts', s', e') \<and> kernel_inv s')"
  using sys_tick_wakes_expired [OF demo_state_facts(2) demo_timers_rep, of "\<lambda>fn x u (s, e). (s, e)" demo_cfg VIBE_TIMER_ONE_SHOT "()"]
    demo_state_facts(2) by auto

definition restart_cb :: "kconfig \<Rightarrow> timer_id \<Rightarrow> u32 \<Rightarrow> 'e expiry_cb" where
  "restart_cb cfg a ms fn x u w =
     (let (ts, s, e) = w in
      if x = a then case vibe_timer_start cfg (Some a) ms (ts, s) of Some (_, ts, s) \<Rightarrow> (ts, s, e) | None \<Rightarrow> w
      else w)"

text \<open>
  A callback that restarts its own one-shot timer can lose it. When the restarted timer was first in the list and the
  next timer, also one-shot, expires in the same tick, the removal of that one overwrites the list head: the
  restarted timer is still marked active, so \<^verbatim>\<open>vibe_timer_is_running\<close> reports it, but the list is empty and it never
  fires again.
\<close>

theorem timer_self_restart_lost:
  assumes "timers_rep ts [a, b]" "\<forall>x\<in>{a, b}. tm_mode (tm_store ts x) = VIBE_TIMER_ONE_SHOT \<and> tm_remaining (tm_store ts x) = 1 \<and>
      tm_expiry_fn (tm_store ts x) \<noteq> 0" "ms \<noteq> 0"
  shows "\<exists>ts'. vibe_timer_tick (restart_cb cfg a ms) (ts, s, e) = Some (ts', s, e) \<and>
    vibe_timer_is_running (Some a) ts' \<and> g_timer_list_head ts' = None"
proof -
  have l: "g_timer_list_head ts = Some a" "tm_next (tm_store ts a) = Some b" "tm_next (tm_store ts b) = None" "a \<noteq> b"
      "tm_active (tm_store ts a)" "tm_active (tm_store ts b)"
    using assms(1) by (auto simp: timers_rep_def)
  let ?ts1 = "(upd_tm a (\<lambda>tm. tm\<lparr>tm_remaining := 0, tm_active := False, tm_next := None\<rparr>) ts)\<lparr>g_timer_list_head := Some b\<rparr>"
  have "timers_rep ?ts1 [b]" using assms(1) l by (auto simp: timers_rep_def)
  from start_rep [OF this assms(3), of cfg a s] obtain ts2 where
    s2: "vibe_timer_start cfg (Some a) ms (?ts1, s) = Some (VIBE_OK, ts2, s)" "timers_rep ts2 [a, b]"
      "unlinked_tm (tm_store ts2 b) = unlinked_tm (tm_store ts b)"
    using l(4) by (auto simp: remove1_idem)
  have b: "tm_next (tm_store ts2 b) = None" "tm_active (tm_store ts2 a)" "tm_active (tm_store ts2 b)"
    "tm_mode (tm_store ts2 b) = VIBE_TIMER_ONE_SHOT" "tm_remaining (tm_store ts2 b) = 1"
    using s2(2) assms(2) arg_cong [OF s2(3), of tm_mode] arg_cong [OF s2(3), of tm_remaining] by (auto simp: timers_rep_def)
  have one: "upd_tm a (\<lambda>tm. tm\<lparr>tm_active := False, tm_next := None\<rparr>) (pp_write None (Some b) (upd_tm a timer_count_down ts)) = ?ts1"
    using assms(2) by (simp add: upd_tm_def pp_write_def timer_count_down_def)
  have "timer_tick_loop (restart_cb cfg a ms) (Some a) None (ts, s, e) = timer_tick_loop (restart_cb cfg a ms) (Some b) None (ts2, s, e)"
    using assms(2) l s2(1) one by (simp add: timer_tick_loop.simps [of _ "Some a"] timer_count_down_def Let_def restart_cb_def)
  also have "\<dots> = Some (upd_tm b (\<lambda>tm. tm\<lparr>tm_active := False, tm_next := None\<rparr>) (pp_write None None (upd_tm b timer_count_down ts2)), s, e)"
    using b l(4) by (simp add: timer_tick_loop.simps [of _ "Some b"] timer_tick_loop.simps [of _ None] timer_count_down_def Let_def restart_cb_def)
  finally show ?thesis using l b by (simp add: vibe_timer_tick_def vibe_timer_is_running_def pp_write_def)
qed

theorem timer_self_restart_lost_witness:
  "\<exists>ts ts'. timers_rep ts [1, 2] \<and>
     vibe_timer_tick (restart_cb demo_cfg 1 5) (ts, demo_state, ()) = Some (ts', demo_state, ()) \<and>
     vibe_timer_is_running (Some 1) ts' \<and> g_timer_list_head ts' = None"
proof -
  define ts where "ts = \<lparr>tm_store = (\<lambda>x. \<lparr>tm_expiry_fn = 0x8000701, tm_user_data = 0, tm_duration_ticks = 5, tm_remaining = 1,
      tm_mode = VIBE_TIMER_ONE_SHOT, tm_active = (x = 1 \<or> x = 2), tm_next = (if x = 1 then Some 2 else None)\<rparr>),
      g_timer_list_head = Some (1 :: nat)\<rparr>"
  have "timers_rep ts [1, 2]" by (auto simp: timers_rep_def ts_def)
  with timer_self_restart_lost [OF this, of 5 demo_cfg demo_state "()"] show ?thesis by (auto simp: ts_def)
qed

end
