(* ===== verification/Vibe_System.thy ===== *)
theory Vibe_System
  imports Vibe_Timer
begin

text \<open>
  The kernel as a transition system. A state is the timers, the kernel state and the heap; a step is one
  call of the thread, scheduler or timer interface (\<^verbatim>\<open>kernel/thread.c\<close>, \<^verbatim>\<open>kernel/sched.c\<close>,
  \<^verbatim>\<open>kernel/timer.c\<close>), with its effect until the CPU may change hands, or one SysTick interrupt. The
  premises of a rule besides the call itself are what the interface asks of its caller. The runs start
  where \<^verbatim>\<open>vibe_init\<close> has registered the idle thread. The theory shows what holds in every state of every run.
\<close>

section \<open>Steps\<close>

text \<open>
  A thread that may be retired: it was created, is not the idle thread and is not on the sleep list; the
  caller itself may go only while the scheduler is unlocked.
\<close>

definition may_retire :: "kstate \<Rightarrow> tid \<Rightarrow> bool" where
  "may_retire s t \<longleftrightarrow>
     th_id (g_tcb s t) \<noteq> 0 \<and> g_idle_thread s \<noteq> Some t \<and> tstate s t \<noteq> VIBE_THREAD_SLEEPING \<and>
     (g_current_thread s = Some t \<longrightarrow> g_sched_lock_count s = 0)"

text \<open>A thread whose place in the run queues another may change: it was created and does not run.\<close>

definition may_move :: "kstate \<Rightarrow> tid \<Rightarrow> bool" where
  "may_move s t \<longleftrightarrow> th_id (g_tcb s t) \<noteq> 0 \<and> tstate s t \<noteq> VIBE_THREAD_RUNNING"

inductive sys_step ::
    "kconfig \<Rightarrow> (u32 \<Rightarrow> 'h \<Rightarrow> u32 option \<times> 'h) \<Rightarrow> (u32 \<Rightarrow> 'h \<Rightarrow> 'h) \<Rightarrow>
     (u32 \<Rightarrow> timer_id \<Rightarrow> u32 \<Rightarrow> kstate \<times> 'h \<Rightarrow> kstate \<times> 'h) \<Rightarrow> 'h tworld \<Rightarrow> 'h tworld \<Rightarrow> bool"
  for cfg heap_alloc heap_free act where
  create: "vibe_thread_create cfg heap_alloc (Some t) entry arg attr stack h s = Some (e, h', s') \<Longrightarrow>
    unused s t \<Longrightarrow> g_next_thread_id s \<noteq> 0 \<Longrightarrow>
    sys_step cfg heap_alloc heap_free act (ts, s, h) (ts, s', h')"
| delete: "vibe_thread_delete cfg heap_free thread h s = Some (e, h', s') \<Longrightarrow>
    arg_or_self thread s = Some t \<Longrightarrow> may_retire s t \<Longrightarrow>
    sys_step cfg heap_alloc heap_free act (ts, s, h) (ts, s', h')"
| suspend: "vibe_thread_suspend cfg thread s = Some (e, s') \<Longrightarrow>
    arg_or_self thread s = Some t \<Longrightarrow> may_retire s t \<Longrightarrow>
    sys_step cfg heap_alloc heap_free act (ts, s, h) (ts, s', h)"
| resume: "vibe_thread_resume cfg (Some t) s = (e, s') \<Longrightarrow> th_id (g_tcb s t) \<noteq> 0 \<Longrightarrow>
    sys_step cfg heap_alloc heap_free act (ts, s, h) (ts, s', h)"
| sleep: "vibe_thread_sleep cfg ms s = Some s' \<Longrightarrow>
    g_idle_thread s \<noteq> g_current_thread s \<Longrightarrow> g_sched_lock_count s = 0 \<Longrightarrow>
    sys_step cfg heap_alloc heap_free act (ts, s, h) (ts, s', h)"
| yield: "sys_step cfg heap_alloc heap_free act (ts, s, h) (ts, vibe_thread_yield cfg s, h)"
| restart: "vibe_thread_restart cfg thread s = Some (e, s') \<Longrightarrow>
    arg_or_self thread s = Some t \<Longrightarrow> may_move s t \<Longrightarrow>
    sys_step cfg heap_alloc heap_free act (ts, s, h) (ts, s', h)"
| set_priority: "vibe_thread_set_priority cfg thread priority s = Some (e, s') \<Longrightarrow>
    arg_or_self thread s = Some t \<Longrightarrow> may_move s t \<Longrightarrow>
    sys_step cfg heap_alloc heap_free act (ts, s, h) (ts, s', h)"
| lock: "sys_step cfg heap_alloc heap_free act (ts, s, h) (ts, vibe_sched_lock s, h)"
| unlock: "sys_step cfg heap_alloc heap_free act (ts, s, h) (ts, vibe_sched_unlock cfg s, h)"
| reschedule: "sys_step cfg heap_alloc heap_free act (ts, s, h) (ts, vibe_sched_reschedule cfg s, h)"
| start: "vibe_sched_start cfg s = Some s' \<Longrightarrow> g_current_thread s = None \<Longrightarrow>
    sys_step cfg heap_alloc heap_free act (ts, s, h) (ts, s', h)"
| timer_init: "vibe_timer_init timer fn u mode ts = (e, ts') \<Longrightarrow> \<not> vibe_timer_is_running timer ts \<Longrightarrow>
    sys_step cfg heap_alloc heap_free act (ts, s, h) (ts', s, h)"
| timer_start: "vibe_timer_start cfg timer ms (ts, s) = Some (e, ts', s') \<Longrightarrow>
    sys_step cfg heap_alloc heap_free act (ts, s, h) (ts', s', h)"
| timer_stop: "vibe_timer_stop timer (ts, s) = Some (e, ts', s') \<Longrightarrow>
    sys_step cfg heap_alloc heap_free act (ts, s, h) (ts', s', h)"
| tick: "vibe_sys_tick_handler cfg (quiet act) (ts, s, h) = Some (ts', s', h') \<Longrightarrow>
    sys_step cfg heap_alloc heap_free act (ts, s, h) (ts', s', h')"

text \<open>The runs of the system: no timer exists and the idle thread has just been registered.\<close>

inductive sys_reach ::
    "kconfig \<Rightarrow> (u32 \<Rightarrow> 'h \<Rightarrow> u32 option \<times> 'h) \<Rightarrow> (u32 \<Rightarrow> 'h \<Rightarrow> 'h) \<Rightarrow>
     (u32 \<Rightarrow> timer_id \<Rightarrow> u32 \<Rightarrow> kstate \<times> 'h \<Rightarrow> kstate \<times> 'h) \<Rightarrow> 'h tworld \<Rightarrow> bool"
  for cfg heap_alloc heap_free act where
  boot: "init_idle cfg heap_alloc t entry stack h (boot_state cfg) = Some (h', s) \<Longrightarrow> entry \<noteq> 0 \<Longrightarrow>
    g_timer_list_head ts = None \<Longrightarrow> (\<And>x. \<not> tm_active (tm_store ts x)) \<Longrightarrow>
    sys_reach cfg heap_alloc heap_free act (ts, s, h')"
| step: "sys_reach cfg heap_alloc heap_free act w \<Longrightarrow> sys_step cfg heap_alloc heap_free act w w' \<Longrightarrow>
    sys_reach cfg heap_alloc heap_free act w'"

section \<open>The invariant of the system\<close>

definition sys_inv :: "'h tworld \<Rightarrow> bool" where
  "sys_inv w \<longleftrightarrow> kernel_inv (fst (snd w)) \<and> (\<exists>xs. timers_rep (fst w) xs)"

text \<open>A timer callback that calls the kernel keeps the kernel invariant.\<close>

definition calls_ok :: "(u32 \<Rightarrow> timer_id \<Rightarrow> u32 \<Rightarrow> kstate \<times> 'h \<Rightarrow> kstate \<times> 'h) \<Rightarrow> bool" where
  "calls_ok act \<longleftrightarrow> (\<forall>fn x u s e. kernel_inv s \<longrightarrow> kernel_inv (fst (act fn x u (s, e))))"

lemma sys_inv_pair [simp]: "sys_inv (ts, s, h) \<longleftrightarrow> kernel_inv s \<and> (\<exists>xs. timers_rep ts xs)"
  by (simp add: sys_inv_def)

lemma retire_calls_inv:
  assumes inv: "kernel_inv s" and t: "arg_or_self thread s = Some t" "may_retire s t"
  shows "vibe_thread_delete cfg heap_free thread h s = Some (e, h', s') \<Longrightarrow> kernel_inv s'"
    and "vibe_thread_suspend cfg thread s = Some (e2, s2) \<Longrightarrow> kernel_inv s2"
proof -
  have g: "th_id (g_tcb s t) \<noteq> 0" "g_idle_thread s \<noteq> Some t" "tstate s t \<noteq> VIBE_THREAD_SLEEPING"
    "g_current_thread s = Some t \<Longrightarrow> g_sched_lock_count s = 0" using t(2) by (auto simp: may_retire_def)
  show "kernel_inv s'" if "vibe_thread_delete cfg heap_free thread h s = Some (e, h', s')"
    using delete_kernel_inv [OF inv t(1) g, of cfg heap_free h] that by auto
  show "kernel_inv s2" if run: "vibe_thread_suspend cfg thread s = Some (e2, s2)"
  proof (cases "tstate s t = VIBE_THREAD_DEAD")
    case True
    with run t(1) inv show ?thesis by (auto simp: vibe_thread_suspend_def arch_irq_lock_def arch_irq_unlock_def)
  next
    case False
    with suspend_kernel_inv [OF inv t(1) g(1-3) _ g(4), of cfg] run show ?thesis by auto
  qed
qed

lemma resume_call_inv:
  assumes "kernel_inv s" "th_id (g_tcb s t) \<noteq> 0" "vibe_thread_resume cfg (Some t) s = (e, s')"
  shows "kernel_inv s'"
proof (cases "tstate s t = VIBE_THREAD_SUSPENDED")
  case True
  with resume_kernel_inv [OF assms(1,2), of cfg] assms(3) show ?thesis by auto
next
  case False
  with assms(1,3) show ?thesis by (auto simp: vibe_thread_resume_def arch_irq_lock_def arch_irq_unlock_def)
qed

lemma sleep_call_inv:
  assumes "kernel_inv s" "g_idle_thread s \<noteq> g_current_thread s" "g_sched_lock_count s = 0" "vibe_thread_sleep cfg ms s = Some s'"
  shows "kernel_inv s'"
proof (cases "g_current_thread s")
  case None
  with assms show ?thesis by (auto simp: vibe_thread_sleep_def vibe_thread_self_def)
next
  case (Some c)
  with sleep_kernel_inv [OF assms(1) Some _ assms(3), of cfg ms] assms(2,4) show ?thesis by auto
qed

lemma move_calls_inv:
  assumes inv: "kernel_inv s" and t: "arg_or_self thread s = Some t" "may_move s t"
  shows "vibe_thread_restart cfg thread s = Some (e, s') \<Longrightarrow> kernel_inv s'"
    and "vibe_thread_set_priority cfg thread priority s = Some (e2, s2) \<Longrightarrow> kernel_inv s2"
proof -
  have g: "th_id (g_tcb s t) \<noteq> 0" "tstate s t \<noteq> VIBE_THREAD_RUNNING" using t(2) by (auto simp: may_move_def)
  show "kernel_inv s'" if "vibe_thread_restart cfg thread s = Some (e, s')"
    using restart_kernel_inv [OF inv t(1) g, of cfg] that by auto
  show "kernel_inv s2" if run: "vibe_thread_set_priority cfg thread priority s = Some (e2, s2)"
  proof (cases "priority \<le> VIBE_PRIO_MAX")
    case True
    with set_priority_kernel_inv [OF inv t(1) g, of priority cfg] run show ?thesis by auto
  next
    case False
    with run inv show ?thesis by (simp add: vibe_thread_set_priority_def not_le)
  qed
qed

lemma start_call_inv:
  assumes "kernel_inv s" "vibe_sched_start cfg s = Some s'"
  shows "kernel_inv s'"
proof -
  obtain Q Z where k: "live_inv s Q Z" "current_ok s" "g_idle_thread s \<noteq> None" "0 \<le> g_sched_lock_count s"
    using assms(1) by (rule kernel_invE)
  from start_live [OF k(1,3,4), of cfg] assms(2) show ?thesis by auto
qed

lemma timer_calls_rep:
  assumes rep: "timers_rep ts xs"
  shows "vibe_timer_stop timer (ts, s) = Some (e, ts', s') \<Longrightarrow> s' = s \<and> (\<exists>ys. timers_rep ts' ys)"
    and "vibe_timer_start cfg timer ms (ts, s) = Some (e2, ts2, s2) \<Longrightarrow> s2 = s \<and> (\<exists>ys. timers_rep ts2 ys)"
    and "vibe_timer_init timer fn u mode ts = (e3, ts3) \<Longrightarrow> \<not> vibe_timer_is_running timer ts \<Longrightarrow> \<exists>ys. timers_rep ts3 ys"
proof -
  have inactive: "t \<notin> set xs" if "\<not> tm_active (tm_store ts t)" for t using that rep by (simp add: timers_rep_def)
  show "s' = s \<and> (\<exists>ys. timers_rep ts' ys)" if run: "vibe_timer_stop timer (ts, s) = Some (e, ts', s')"
  proof (cases "\<exists>t. timer = Some t \<and> tm_active (tm_store ts t)")
    case True
    then obtain t where t: "timer = Some t" "t \<in> set xs" using rep by (auto simp: timers_rep_def)
    then obtain us vs where "xs = us @ t # vs" by (metis split_list)
    with stop_rep [of ts us t vs s] rep run t(1) show ?thesis by auto
  next
    case False
    with run rep show ?thesis by (auto simp: vibe_timer_stop_def arch_irq_lock_def arch_irq_unlock_def split: option.splits)
  qed
  show "s2 = s \<and> (\<exists>ys. timers_rep ts2 ys)" if run: "vibe_timer_start cfg timer ms (ts, s) = Some (e2, ts2, s2)"
  proof (cases "timer = None \<or> ms = 0")
    case True
    with run rep show ?thesis by (auto simp: vibe_timer_start_def split: option.splits)
  next
    case False
    then obtain t where "timer = Some t" "ms \<noteq> 0" by auto
    with start_rep [OF rep, of ms cfg t s] run show ?thesis by auto
  qed
  show "\<exists>ys. timers_rep ts3 ys" if "vibe_timer_init timer fn u mode ts = (e3, ts3)" "\<not> vibe_timer_is_running timer ts"
  proof (cases "timer = None \<or> fn = 0")
    case True
    with that(1) rep show ?thesis by (auto simp: vibe_timer_init_def split: option.splits)
  next
    case False
    then obtain t where t: "timer = Some t" "fn \<noteq> 0" by auto
    with that(2) have "t \<notin> set xs" by (intro inactive) (simp add: vibe_timer_is_running_def)
    moreover have "ts3 = upd_tm t (\<lambda>_. \<lparr>tm_expiry_fn = fn, tm_user_data = u, tm_duration_ticks = 0, tm_remaining = 0,
        tm_mode = mode, tm_active = False, tm_next = None\<rparr>) ts" using that(1) t by (simp add: vibe_timer_init_def)
    ultimately have "timers_rep ts3 xs" using rep by (simp add: timers_rep_def)
    then show ?thesis ..
  qed
qed

lemma sys_tick_inv:
  assumes act: "calls_ok act" and inv: "kernel_inv s" "timers_rep ts xs"
  shows "\<exists>ts' s' e'. vibe_sys_tick_handler cfg (quiet act) (ts, s, e) = Some (ts', s', e') \<and> sys_inv (ts', s', e')"
proof -
  define s0 where "s0 = s\<lparr>g_tick_count := g_tick_count s + 1\<rparr>"
  let ?fired = "fold (\<lambda>x. call_expiry act (tm_store ts x) x) (filter (\<lambda>x. expires (tm_store ts x)) xs) (s0, e)"
  obtain ts1 ys where tk: "vibe_timer_tick (quiet act) (ts, s0, e) = Some (ts1, ?fired)" "timers_rep ts1 ys"
    using tick_rep [OF inv(2)] by blast
  obtain s1 e1 where f: "?fired = (s1, e1)" by force
  have "kernel_inv s0" using inv(1) by (auto simp: kernel_inv_def s0_def)
  with act have "kernel_inv s1" using fold_calls_inv [of kernel_inv act "(s0, e)"] f by (metis calls_ok_def fst_conv)
  from tick_kernel_inv [OF this, of cfg] obtain s2 where "tick_sched cfg s1 = Some s2" "kernel_inv s2" by blast
  with tk show ?thesis by (auto simp: sys_tick_eq f simp flip: s0_def)
qed

lemma step_inv:
  assumes "sys_step cfg heap_alloc heap_free act w w'" "calls_ok act" "sys_inv w"
  shows "sys_inv w'"
  using assms
proof (induction rule: sys_step.induct)
  case (tick ts s h ts' s' h')
  then obtain xs where "kernel_inv s" "timers_rep ts xs" by auto
  from sys_tick_inv [OF tick.prems(1) this, of cfg h] tick.hyps show ?case by auto
qed (auto simp del: split_paired_Ex
   intro: create_kernel_inv retire_calls_inv resume_call_inv sleep_call_inv yield_kernel_inv move_calls_inv
     lock_kernel_inv unlock_kernel_inv reschedule_keeps start_call_inv dest: timer_calls_rep)

lemma reach_inv:
  assumes "sys_reach cfg heap_alloc heap_free act w" "calls_ok act"
  shows "sys_inv w"
  using assms
proof (induction rule: sys_reach.induct)
  case (boot t entry stack h h' s ts)
  then have "timers_rep ts []" by (simp add: timers_rep_def)
  with init_idle_inv [OF boot.hyps(2), of cfg heap_alloc t stack h] boot.hyps(1) show ?case by auto
next
  case (step w w')
  then show ?case by (blast intro: step_inv)
qed

section \<open>What the invariant says of the data\<close>

text \<open>The created threads of priority \<open>p\<close> that can run, and the created sleepers.\<close>

definition ready_at :: "kstate \<Rightarrow> nat \<Rightarrow> tid set" where
  "ready_at s p = {t. th_id (g_tcb s t) \<noteq> 0 \<and> runnable s t \<and> unat (tprio s t) = p}"

definition sleepers :: "kstate \<Rightarrow> tid set" where
  "sleepers s = {t. th_id (g_tcb s t) \<noteq> 0 \<and> tstate s t = VIBE_THREAD_SLEEPING}"

lemma dll_visit: "dll L l xs \<Longrightarrow> vibe_list_visit L (l_head l) = Some xs"
  using visit_dlseg by (auto simp: dll_def)

lemma live_ready_at:
  assumes "live_inv s Q Z" "p < 32"
  shows "set (Q p) = ready_at s p"
proof -
  note l = live_invD [OF assms(1)] and d = sched_invD [OF live_invD(1) [OF assms(1)]]
  show ?thesis
  proof (rule set_eqI)
    fix t
    show "t \<in> set (Q p) \<longleftrightarrow> t \<in> ready_at s p"
      using l(2) [OF assms(2), of t] queues_repD(2,3) [OF d(1) assms(2), of t] d(4) [of t]
      unfolding ready_at_def by blast
  qed
qed

lemma live_sleepers: "live_inv s Q Z \<Longrightarrow> set Z = sleepers s"
  using live_invD(1,3) [of s Q Z] sched_invD(6,7) [of s Q Z] unfolding sleepers_def by blast

lemma live_queue_visit:
  assumes "live_inv s Q Z" "p < 32"
  shows "vibe_list_visit (sched_nodes s) (l_head (g_run_queues s p)) = Some (Q p)" "distinct (Q p)"
    "bit (g_ready_mask s) p \<longleftrightarrow> Q p \<noteq> []"
proof -
  note d = queues_repD [OF sched_invD(1) [OF live_invD(1) [OF assms(1)]] assms(2)]
  show "vibe_list_visit (sched_nodes s) (l_head (g_run_queues s p)) = Some (Q p)" using d(1) by (rule dll_visit)
  show "distinct (Q p)" using d(1) by (rule dll_distinct)
  show "bit (g_ready_mask s) p \<longleftrightarrow> Q p \<noteq> []" by (rule d(4))
qed

lemma live_sleep_visit:
  assumes "live_inv s Q Z"
  shows "vibe_list_visit (sleep_nodes s) (l_head (g_sleep_list s)) = Some Z" "distinct Z"
    "sorted (map (\<lambda>t. th_timeout (g_tcb s t)) Z)"
  using sched_invD(2) [OF live_invD(1) [OF assms]] by (auto simp: sleep_rep_def dll_visit dll_distinct)

section \<open>Sleeping through ticks\<close>

lemma sched_sleep_frame:
  assumes "vibe_sched_sleep c e s = Some s'"
  shows "g_tick_count s' = g_tick_count s" "th_id (g_tcb s' u) = th_id (g_tcb s u)"
  using assms by (auto simp: vibe_sched_sleep_def kernel_ops Let_def bind_eq_Some_conv split: if_splits)

lemma sleep_call_frame:
  assumes "vibe_thread_sleep cfg ms s = Some s'"
  shows "g_tick_count s' = g_tick_count s" "th_id (g_tcb s' u) = th_id (g_tcb s u)"
proof -
  have "g_tick_count s' = g_tick_count s \<and> th_id (g_tcb s' u) = th_id (g_tcb s u)"
  proof (cases "g_current_thread s")
    case None
    with assms show ?thesis by (simp add: vibe_thread_sleep_def vibe_thread_self_def)
  next
    case (Some c)
    with assms obtain s1 where s1: "vibe_sched_sleep c (g_tick_count s + VIBE_MS_TO_TICKS cfg ms)
        (vibe_sched_dequeue c (s\<lparr>PRIMASK := 1\<rparr>)) = Some s1" "s' = vibe_sched_reschedule cfg (s1\<lparr>PRIMASK := PRIMASK s\<rparr>)"
      by (auto simp: vibe_thread_sleep_def vibe_thread_self_def vibe_tick_get_def arch_irq_lock_def arch_irq_unlock_def
          arch_set_next_tick_def Let_def bind_eq_Some_conv)
    from sched_sleep_frame [OF s1(1)] show ?thesis by (simp add: s1(2) frame_simps)
  qed
  then show "g_tick_count s' = g_tick_count s" "th_id (g_tcb s' u) = th_id (g_tcb s u)" by auto
qed

lemma timeslice_keeps:
  "g_tick_count (vibe_sched_timeslice_tick cfg s) = g_tick_count s"
  "th_timeout (g_tcb (vibe_sched_timeslice_tick cfg s) t) = th_timeout (g_tcb s t)"
  by (auto simp: vibe_sched_timeslice_tick_def Let_def frame_simps split: option.split)

lemma tick_sched_frame:
  assumes "kernel_inv s" "tick_sched cfg s = Some s'"
  shows "g_tick_count s' = g_tick_count s" "th_id (g_tcb s' u) = th_id (g_tcb s u)"
    "th_timeout (g_tcb s' u) = th_timeout (g_tcb s u)"
proof -
  obtain Q Z where k: "live_inv s Q Z" using assms(1) by (rule kernel_invE)
  from wake_expired_inv [OF live_invD(1) [OF k], of "g_tick_count s"] obtain s1 where
    w: "vibe_sched_wake_expired (g_tick_count s) s = Some s1" "g_tick_count s1 = g_tick_count s"
      "\<And>t. g_tcb s1 t = (if t \<in> set Z \<and> th_timeout (g_tcb s t) \<le> g_tick_count s
         then (g_tcb s t)\<lparr>th_state := VIBE_THREAD_READY\<rparr> else g_tcb s t)" by blast
  have "s' = vibe_sched_reschedule cfg (vibe_sched_timeslice_tick cfg s1)" using assms(2) w(1) by (simp add: tick_sched_def)
  then show "g_tick_count s' = g_tick_count s" "th_id (g_tcb s' u) = th_id (g_tcb s u)"
    "th_timeout (g_tcb s' u) = th_timeout (g_tcb s u)"
    by (simp_all add: reschedule_tcb reschedule_frame timeslice_frame timeslice_keeps w)
qed

text \<open>A callback that leaves the kernel alone.\<close>

definition aloof :: "(u32 \<Rightarrow> timer_id \<Rightarrow> u32 \<Rightarrow> kstate \<times> 'h \<Rightarrow> kstate \<times> 'h) \<Rightarrow> bool" where
  "aloof act \<longleftrightarrow> (\<forall>fn x u s e. fst (act fn x u (s, e)) = s)"

lemma aloof_tick:
  assumes act: "aloof act" and inv: "kernel_inv s" "timers_rep ts xs"
  shows "\<exists>ts' s' e' ys. vibe_sys_tick_handler cfg (quiet act) (ts, s, e) = Some (ts', s', e') \<and> kernel_inv s' \<and>
    timers_rep ts' ys \<and> g_tick_count s' = g_tick_count s + 1 \<and>
    (\<forall>u. th_id (g_tcb s' u) = th_id (g_tcb s u) \<and> th_timeout (g_tcb s' u) = th_timeout (g_tcb s u) \<and>
      (th_id (g_tcb s u) \<noteq> 0 \<longrightarrow> (tstate s' u = VIBE_THREAD_SLEEPING \<longleftrightarrow>
         tstate s u = VIBE_THREAD_SLEEPING \<and> g_tick_count s + 1 < th_timeout (g_tcb s u))))"
proof -
  define s0 where "s0 = s\<lparr>g_tick_count := g_tick_count s + 1\<rparr>"
  let ?fired = "fold (\<lambda>x. call_expiry act (tm_store ts x) x) (filter (\<lambda>x. expires (tm_store ts x)) xs) (s0, e)"
  obtain ts1 ys where tk: "vibe_timer_tick (quiet act) (ts, s0, e) = Some (ts1, ?fired)" "timers_rep ts1 ys"
    using tick_rep [OF inv(2)] by blast
  have "fst ?fired = s0" using act by (intro fold_calls_inv [where P = "\<lambda>s. s = s0"]) (simp_all add: aloof_def)
  then obtain e1 where f: "?fired = (s0, e1)" by (metis prod.collapse)
  have inv0: "kernel_inv s0" using inv(1) by (auto simp: kernel_inv_def s0_def)
  from tick_kernel_inv [OF this, of cfg] obtain s2 where s2: "tick_sched cfg s0 = Some s2" "kernel_inv s2" by blast
  have "vibe_sys_tick_handler cfg (quiet act) (ts, s, e) = Some (ts1, s2, e1)"
    using tk s2(1) by (simp add: sys_tick_eq f flip: s0_def)
  moreover note tk(2) s2(2) tick_sched_frame [OF inv0 s2(1)] tick_sched_sleepers [OF inv0 s2(1)]
  ultimately show ?thesis by (intro exI [of _ ts1] exI [of _ s2] exI [of _ e1] exI [of _ ys]) (simp add: s0_def)
qed

primrec sys_ticks :: "kconfig \<Rightarrow> 'e expiry_cb \<Rightarrow> nat \<Rightarrow> 'e tworld \<Rightarrow> 'e tworld option" where
  "sys_ticks cfg cb 0 w = Some w"
| "sys_ticks cfg cb (Suc n) w = do { w \<leftarrow> sys_ticks cfg cb n w; vibe_sys_tick_handler cfg cb w }"

lemma sleep_through:
  assumes act: "aloof act" and inv: "kernel_inv s" "timers_rep ts xs"
    and c: "th_id (g_tcb s c) \<noteq> 0" "tstate s c = VIBE_THREAD_SLEEPING"
    and range: "unat (g_tick_count s) + k < 2 ^ 32"
  shows "\<exists>ts' s' e' ys. sys_ticks cfg (quiet act) k (ts, s, e) = Some (ts', s', e') \<and> kernel_inv s' \<and> timers_rep ts' ys \<and>
    unat (g_tick_count s') = unat (g_tick_count s) + k \<and> th_id (g_tcb s' c) = th_id (g_tcb s c) \<and>
    th_timeout (g_tcb s' c) = th_timeout (g_tcb s c) \<and>
    (tstate s' c = VIBE_THREAD_SLEEPING \<longleftrightarrow> k = 0 \<or> unat (g_tick_count s) + k < unat (th_timeout (g_tcb s c)))"
  using range
proof (induction k)
  case 0
  then show ?case using inv c by auto
next
  case (Suc k)
  then have "unat (g_tick_count s) + k < 2 ^ 32" by simp
  from Suc.IH [OF this] obtain ts1 s1 e1 ys where
    r: "sys_ticks cfg (quiet act) k (ts, s, e) = Some (ts1, s1, e1)" "kernel_inv s1" "timers_rep ts1 ys"
      "unat (g_tick_count s1) = unat (g_tick_count s) + k" "th_id (g_tcb s1 c) = th_id (g_tcb s c)"
      "th_timeout (g_tcb s1 c) = th_timeout (g_tcb s c)"
      "tstate s1 c = VIBE_THREAD_SLEEPING \<longleftrightarrow> k = 0 \<or> unat (g_tick_count s) + k < unat (th_timeout (g_tcb s c))" by metis
  from aloof_tick [OF act r(2,3), of cfg e1] obtain ts2 s2 e2 zs where
    t: "vibe_sys_tick_handler cfg (quiet act) (ts1, s1, e1) = Some (ts2, s2, e2)" "kernel_inv s2" "timers_rep ts2 zs"
      "g_tick_count s2 = g_tick_count s1 + 1" "th_id (g_tcb s2 c) = th_id (g_tcb s1 c)"
      "th_timeout (g_tcb s2 c) = th_timeout (g_tcb s1 c)"
      "tstate s2 c = VIBE_THREAD_SLEEPING \<longleftrightarrow> tstate s1 c = VIBE_THREAD_SLEEPING \<and> g_tick_count s1 + 1 < th_timeout (g_tcb s1 c)"
    using c(1) r(5) by metis
  have n: "unat (g_tick_count s1 + 1) = unat (g_tick_count s) + Suc k"
    using Suc.prems r(4) by (simp add: unat_word_ariths)
  have "tstate s2 c = VIBE_THREAD_SLEEPING \<longleftrightarrow> unat (g_tick_count s) + Suc k < unat (th_timeout (g_tcb s c))"
    using t(7) r(6,7) n by (auto simp: word_less_nat_alt)
  with r(1,5,6) t n show ?case by (intro exI [of _ ts2] exI [of _ s2] exI [of _ e2] exI [of _ zs]) simp
qed

section \<open>The stack of a new thread\<close>

lemma zero_mem_eq:
  "n \<le> 8 \<Longrightarrow> zero_mem n a m x = (if \<exists>i<n. x = a + 4 * of_nat i then 0 else m x)"
proof (induction n arbitrary: a m)
  case (Suc n)
  have "(\<exists>i<Suc n. x = a + 4 * of_nat i) \<longleftrightarrow> x = a \<or> (\<exists>i<n. x = (a + 4) + 4 * of_nat i)"
    by (auto simp: Ex_less_Suc2 algebra_simps)
  then show ?case using Suc by auto
qed simp

lemma stack_init_mem:
  fixes cfg :: kconfig
  assumes "sp = ((th_stack_base (g_tcb s t) + th_stack_size (g_tcb s t)) AND NOT 7) - 64"
  defines "s' \<equiv> arch_thread_stack_init cfg t s"
  shows "i < 8 \<Longrightarrow> mem32 s' (sp + 4 * of_nat i) = 0"
    "mem32 s' (sp + 32) = th_arg (g_tcb s t)" "mem32 s' (sp + 52) = addr_vibe_thread_exit cfg"
    "mem32 s' (sp + 56) = th_entry (g_tcb s t)" "mem32 s' (sp + 60) = 0x01000000"
    "th_stack_ptr (g_tcb s' t) = sp"
    "(\<And>i. i < 16 \<Longrightarrow> a \<noteq> sp + 4 * of_nat i) \<Longrightarrow> mem32 s' a = mem32 s a"
proof -
  have f: "((th_stack_base (g_tcb s t) + th_stack_size (g_tcb s t)) AND NOT 7) - 32 = sp + 32" using assms(1) by simp
  have off: "\<not> (\<exists>i<8. sp + c = sp + 4 * of_nat i)" if "32 \<le> unat c" for c :: u32
  proof
    assume "\<exists>i<8. sp + c = sp + 4 * of_nat i"
    then obtain i where i: "i < 8" "c = 4 * of_nat i" by auto
    then have "unat c = 4 * i" by (simp add: unat_word_ariths unat_of_nat)
    with i that show False by simp
  qed
  define m where "m = (mem32 s)(sp + 32 := th_arg (g_tcb s t), sp + 36 := 1, sp + 40 := 2, sp + 44 := 3, sp + 48 := 0xC,
    sp + 52 := addr_vibe_thread_exit cfg, sp + 56 := th_entry (g_tcb s t), sp + 60 := 0x01000000)"
  have s': "s' = upd_tcb t (\<lambda>th. th\<lparr>th_stack_ptr := sp\<rparr>) (s\<lparr>mem32 := zero_mem 8 sp m\<rparr>)"
    unfolding s'_def arch_thread_stack_init_def Let_def f m_def by (simp add: store32_def zero_words_mem add.assoc)
  have mem: "mem32 s' x = (if \<exists>i<8. x = sp + 4 * of_nat i then 0 else m x)" for x
    by (simp add: s' upd_tcb_def zero_mem_eq)
  have mem_above: "mem32 s' (sp + c) = m (sp + c)" if "32 \<le> unat c" for c
    using off [OF that] by (simp only: mem if_False)
  show "i < 8 \<Longrightarrow> mem32 s' (sp + 4 * of_nat i) = 0" unfolding mem by auto
  show "mem32 s' (sp + 32) = th_arg (g_tcb s t)" "mem32 s' (sp + 52) = addr_vibe_thread_exit cfg"
    "mem32 s' (sp + 56) = th_entry (g_tcb s t)" "mem32 s' (sp + 60) = 0x01000000"
    by (simp_all add: mem_above) (simp_all add: m_def)
  show "th_stack_ptr (g_tcb s' t) = sp" by (simp add: s')
  show "mem32 s' a = mem32 s a" if a: "\<And>i. i < 16 \<Longrightarrow> a \<noteq> sp + 4 * of_nat i"
  proof -
    have "a \<noteq> sp + 32" "a \<noteq> sp + 36" "a \<noteq> sp + 40" "a \<noteq> sp + 44" "a \<noteq> sp + 48" "a \<noteq> sp + 52" "a \<noteq> sp + 56" "a \<noteq> sp + 60"
      using a [of 8] a [of 9] a [of 10] a [of 11] a [of 12] a [of 13] a [of 14] a [of 15] by simp_all
    moreover have "\<not> (\<exists>i<8. a = sp + 4 * of_nat i)" using a by auto
    ultimately show ?thesis by (auto simp: mem m_def)
  qed
qed


text \<open>The two frames lie above the first word of a stack of at least 72 bytes.\<close>

lemma stack_room:
  assumes "b AND 7 = 0" "72 \<le> sz" "unat b + unat sz < 2 ^ 32"
    and sp: "sp = ((b + sz) AND NOT 7) - (64 :: u32)"
  shows "b < sp" "i < 16 \<Longrightarrow> b \<noteq> sp + 4 * of_nat i"
proof -
  have b8: "unat b mod 8 = 0" using assms(1) by (rule and_7_mod)
  have sz: "72 \<le> unat sz" using assms(2) by (simp add: word_le_nat_alt)
  have top: "unat ((b + sz) AND NOT 7) = (unat b + unat sz) div 8 * 8"
    unfolding unat_clear_7 unat_plus_u32 [OF assms(3)] ..
  then have "unat b + 72 \<le> unat ((b + sz) AND NOT 7)" using b8 sz by presburger
  moreover from this have "unat sp = unat ((b + sz) AND NOT 7) - 64"
    unfolding sp by (subst unat_minus_u32) (simp_all add: word_le_nat_alt)
  moreover have "unat ((b + sz) AND NOT 7) < 2 ^ 32" by (rule u32_bound)
  ultimately have r: "unat b < unat sp" "unat sp + 64 < 2 ^ 32" by linarith+
  show "b < sp" using r(1) by (simp add: word_less_nat_alt)
  show "b \<noteq> sp + 4 * of_nat i" if "i < 16"
  proof -
    have "unat (4 * of_nat i :: u32) = 4 * i" using that by (simp add: unat_word_ariths unat_of_nat)
    with r(2) that have "unat (sp + 4 * of_nat i) = unat sp + 4 * i" by (subst unat_plus_u32) simp_all
    with r(1) show ?thesis by auto
  qed
qed

text \<open>The memory and the stack pointer after creation are those of the stack set-up on the fresh TCB.\<close>

lemma create_init_stack:
  fixes cfg :: kconfig and t :: tid and entry arg b sz :: u32 and "at" :: vibe_thread_attr_t and s :: kstate
  defines "s' \<equiv> thread_create_init cfg t entry arg at b sz s" and "sp \<equiv> ((b + sz) AND NOT 7) - 64"
  assumes stack: "b AND 7 = 0" "72 \<le> sz" "unat b + unat sz < 2 ^ 32"
  shows "th_stack_ptr (g_tcb s' t) = sp" "b < sp" "\<forall>i<8. mem32 s' (sp + 4 * of_nat i) = 0" "mem32 s' (sp + 32) = arg"
    "mem32 s' (sp + 52) = addr_vibe_thread_exit cfg" "mem32 s' (sp + 56) = entry" "mem32 s' (sp + 60) = 0x01000000"
    "vibe_thread_check_canary cfg t s' = Some s'"
proof -
  define s1 where "s1 = upd_tcb t (\<lambda>_. fresh_tcb cfg entry arg at b sz s) (s\<lparr>g_next_thread_id := g_next_thread_id s + 1\<rparr>)"
  define s2 where "s2 = s1\<lparr>sched_nodes := vibe_list_node_init t (sched_nodes s1),
       wait_nodes := vibe_list_node_init t (wait_nodes s1), sleep_nodes := vibe_list_node_init t (sleep_nodes s1)\<rparr>"
  define s3 where "s3 = (if CONFIG_STACK_CANARY cfg then store32 b STACK_CANARY_VALUE s2 else s2)"
  have tcb: "g_tcb s3 t = fresh_tcb cfg entry arg at b sz s" by (simp add: s3_def s2_def s1_def store32_def)
  have fresh: "th_stack_base (fresh_tcb cfg entry arg at b sz s) = b" "th_stack_size (fresh_tcb cfg entry arg at b sz s) = sz"
    "th_arg (fresh_tcb cfg entry arg at b sz s) = arg" "th_entry (fresh_tcb cfg entry arg at b sz s) = entry"
    by (simp_all add: fresh_tcb_def Let_def)
  have base: "th_stack_base (g_tcb s2 t) = b" using fresh by (simp add: s2_def s1_def)
  have "thread_stack_setup cfg t s2 = arch_thread_stack_init cfg t s3"
    by (simp add: thread_stack_setup_def Let_def s3_def base)
  then have s': "s' = vibe_sched_enqueue t (arch_thread_stack_init cfg t s3)"
    by (simp add: s'_def thread_create_init_def Let_def s2_def s1_def)
  have mem: "mem32 s' = mem32 (arch_thread_stack_init cfg t s3)" by (simp add: s' frame_simps)
  have at_sp: "sp = ((th_stack_base (g_tcb s3 t) + th_stack_size (g_tcb s3 t)) AND NOT 7) - 64" by (simp add: sp_def tcb fresh)
  note m = stack_init_mem [OF at_sp, where cfg = cfg, unfolded tcb fresh, folded mem]
  note room = stack_room [OF stack sp_def [THEN meta_eq_to_obj_eq]]
  show "th_stack_ptr (g_tcb s' t) = sp" using m(6) by (simp add: s' frame_simps)
  show "b < sp" by (rule room(1))
  show "\<forall>i<8. mem32 s' (sp + 4 * of_nat i) = 0" using m(1) by blast
  show "mem32 s' (sp + 32) = arg" "mem32 s' (sp + 52) = addr_vibe_thread_exit cfg" "mem32 s' (sp + 56) = entry"
    "mem32 s' (sp + 60) = 0x01000000" by (rule m(2) m(3) m(4) m(5))+
  have "mem32 s' b = mem32 s3 b" using room(2) by (intro m(7))
  moreover have "th_stack_base (g_tcb s' t) = b"
    by (simp add: s' frame_simps arch_thread_stack_init_def Let_def zero_words_mem store32_def tcb fresh)
  ultimately show "vibe_thread_check_canary cfg t s' = Some s'"
    by (simp add: vibe_thread_check_canary_def thread_stack_check_def s3_def store32_def)
qed

section \<open>A run\<close>

text \<open>The running system of \<^verbatim>\<open>Vibe_Start\<close> is a state of a run: boot, three threads created, scheduler started.\<close>

abbreviation no_heap :: "u32 \<Rightarrow> unit \<Rightarrow> u32 option \<times> unit" where
  "no_heap n h \<equiv> (None, h)"

abbreviation no_free :: "u32 \<Rightarrow> unit \<Rightarrow> unit" where
  "no_free a h \<equiv> h"

abbreviation no_call :: "u32 \<Rightarrow> timer_id \<Rightarrow> u32 \<Rightarrow> kstate \<times> unit \<Rightarrow> kstate \<times> unit" where
  "no_call fn x u se \<equiv> se"

lemma no_call_ok: "calls_ok no_call" "aloof no_call"
  by (simp_all add: calls_ok_def aloof_def)

lemma create_static:
  assumes "entry \<noteq> 0" "at_priority at \<le> VIBE_PRIO_MAX" "at_stack_size at = sz" "0 < sz"
  shows "vibe_thread_create cfg heap_alloc (Some t) entry arg (Some at) (Some b) h s =
    Some (VIBE_OK, h, thread_create_init cfg t entry arg at b sz s)"
  using assms by (auto simp: vibe_thread_create_def)

lemma demo_reach: "sys_reach demo_cfg no_heap no_free no_call (demo_timers m, demo_state, ())"
proof -
  let ?R = "\<lambda>s. sys_reach demo_cfg no_heap no_free no_call (demo_timers m, s, ())"
  have pr: "at_priority (demo_attr p) = p" "at_stack_size (demo_attr p) = 512" for p by (simp_all add: demo_attr_def)
  have id: "th_id (g_tcb demo_idle u) = 0" if "u \<noteq> 0" for u using that by (rule demo_idle_inv(7))
  have add: "?R (thread_create_init demo_cfg t entry 0 (demo_attr p) b 512 s)"
    if "?R s" "unused s t" "g_next_thread_id s \<noteq> 0" "entry \<noteq> 0" "p \<le> VIBE_PRIO_MAX" for t entry p b s
    by (rule sys_reach.step [OF that(1)], rule sys_step.create [OF _ that(2,3)], rule create_static)
      (use that in \<open>simp_all add: pr\<close>)
  obtain u s0 where s0: "init_idle demo_cfg no_heap 0 0x8000101 0x20000000 () (boot_state demo_cfg) = Some (u, s0)"
    using init_idle_inv [of "0x8000101" demo_cfg no_heap 0 "0x20000000" "()"] by auto
  then have "demo_idle = s0" by (simp add: demo_idle_def)
  with s0 have "?R demo_idle" by (intro sys_reach.boot [of _ _ 0 "0x8000101" "0x20000000" "()"]) (simp_all add: demo_timers_def)
  then have "?R demo_ready"
    unfolding demo_ready_def
    by (intro add) (simp_all add: unused_def id demo_idle_inv VIBE_PRIO_MAX_def frame_simps)
  moreover obtain s where "vibe_sched_start demo_cfg demo_ready = Some s" "demo_state = s"
  proof -
    from start_live [OF demo_ready_live, of demo_cfg] demo_ready_inv
    obtain s where "vibe_sched_start demo_cfg demo_ready = Some s" by (auto simp: kernel_inv_def)
    with that show thesis by (simp add: demo_state_def)
  qed
  moreover have "g_current_thread demo_ready = None" by (simp add: demo_ready_def frame_simps demo_idle_inv)
  ultimately show ?thesis by (blast intro: sys_reach.step sys_step.start)
qed

lemma stack_setup_tick [frame_simps]: "g_tick_count (thread_stack_setup cfg t s) = g_tick_count s"
  using stack_setup_frame [of cfg t s] by (auto simp: upd_tcb_def)

lemma create_init_tick [frame_simps]:
  "g_tick_count (thread_create_init cfg t entry arg attr b sz s) = g_tick_count s"
  by (simp add: thread_create_init_def Let_def frame_simps) (simp add: upd_tcb_def)

lemma demo_tick: "g_tick_count demo_state = 0"
proof -
  have "g_tick_count demo_idle = 0"
    by (simp add: demo_idle_def init_idle_def create_static idle_attr_def CONFIG_IDLE_STACK_SIZE_def VIBE_PRIO_MAX_def
        VIBE_PRIO_MIN_def frame_simps)
  then have "g_tick_count demo_ready = 0" by (simp add: demo_ready_def frame_simps)
  with start_live [OF demo_ready_live, of demo_cfg] demo_ready_inv show ?thesis
    by (auto simp: kernel_inv_def demo_state_def)
qed

lemma demo_new: "unused demo_state 9" "g_next_thread_id demo_state \<noteq> 0"
proof -
  have n: "g_next_thread_id demo_ready = 5" by (simp add: demo_ready_def frame_simps demo_idle_inv)
  have i: "th_id (g_tcb demo_ready 9) = 0" by (simp add: demo_ready_def frame_simps demo_idle_inv)
  obtain s where s: "vibe_sched_start demo_cfg demo_ready = Some s" "th_id (g_tcb s 9) = 0" "demo_state = s"
    using start_live [OF demo_ready_live, of demo_cfg] demo_ready_inv i by (auto simp: kernel_inv_def demo_state_def)
  then show "unused demo_state 9" by (simp add: unused_def)
  have "g_next_thread_id s = 5" using s(1) n
    by (auto simp: vibe_sched_start_def trace_switch_def kernel_ops Let_def split: option.splits if_splits)
  then show "g_next_thread_id demo_state \<noteq> 0" using s(3) by simp
qed

section \<open>Properties\<close>







text \<open>
  C4: a created thread is ready to be switched to. \<^verbatim>\<open>vibe_thread_create\<close> with a caller-supplied stack leaves the
  thread in the ready state with the next id, at the tail of the run queue of its priority, and, when the stack is large
  enough for the two frames and the canary word, leaves on it the exception frame the first switch restores (argument, link to the
  exit trampoline, entry point, Thumb bit) above eight zeroed callee-saved registers, the stack pointer at the
  lowest of them, and below the frames the canary that \<^verbatim>\<open>vibe_thread_check_canary\<close> accepts.
\<close>

theorem create_lays_out_stack:
  assumes reach: "sys_reach cfg heap_alloc heap_free act (ts, s, h)" "calls_ok act"
    and t: "unused s t" "g_next_thread_id s \<noteq> 0"
    and call: "entry \<noteq> 0" "at_priority at \<le> VIBE_PRIO_MAX" "sz = (if at_stack_size at > 0 then at_stack_size at else 512)"
    and stack: "b AND 7 = 0" "72 \<le> sz" "unat b + unat sz < 2 ^ 32"
  shows "\<exists>s' q. vibe_thread_create cfg heap_alloc (Some t) entry arg (Some at) (Some b) h s = Some (VIBE_OK, h, s') \<and>
    tstate s' t = VIBE_THREAD_READY \<and> th_id (g_tcb s' t) = g_next_thread_id s \<and>
    vibe_list_visit (sched_nodes s) (l_head (g_run_queues s (unat (at_priority at)))) = Some q \<and>
    vibe_list_visit (sched_nodes s') (l_head (g_run_queues s' (unat (at_priority at)))) = Some (q @ [t]) \<and>
    (let sp = th_stack_ptr (g_tcb s' t) in
       sp = ((b + sz) AND NOT 7) - 64 \<and> b < sp \<and>
       (\<forall>i<8. mem32 s' (sp + 4 * of_nat i) = 0) \<and>
       mem32 s' (sp + 32) = arg \<and> mem32 s' (sp + 52) = addr_vibe_thread_exit cfg \<and>
       mem32 s' (sp + 56) = entry \<and> mem32 s' (sp + 60) = 0x01000000) \<and>
    vibe_thread_check_canary cfg t s' = Some s'"
proof -
  let ?p = "unat (at_priority at)" and ?s' = "thread_create_init cfg t entry arg at b sz s"
  have "kernel_inv s" using reach_inv [OF reach] by simp
  then obtain Q Z where k: "live_inv s Q Z" by (rule kernel_invE)
  note k' = create_init_live [OF k t call(2), of cfg entry arg b sz]
  have p: "?p < 32" using call(2) by (rule prio_bound)
  have run: "vibe_thread_create cfg heap_alloc (Some t) entry arg (Some at) (Some b) h s = Some (VIBE_OK, h, ?s')"
    using call by (simp add: vibe_thread_create_def not_less)
  show ?thesis
    unfolding Let_def
    by (intro exI [of _ ?s'] exI [of _ "Q ?p"] conjI run)
      (use create_init_stack [OF stack] live_queue_visit(1) [OF k p] live_queue_visit(1) [OF k' p]
       in \<open>simp_all add: frame_simps\<close>)
qed

theorem create_lays_out_stack_witness:
  "sys_reach demo_cfg no_heap no_free no_call (demo_timers VIBE_TIMER_ONE_SHOT, demo_state, ()) \<and>
   (\<exists>s'. vibe_thread_create demo_cfg no_heap (Some 9) 0x8000501 0x44 (Some (demo_attr 3)) (Some 0x20004000) () demo_state =
      Some (VIBE_OK, (), s') \<and> mem32 s' (th_stack_ptr (g_tcb s' 9) + 32) = 0x44 \<and> vibe_thread_check_canary demo_cfg 9 s' = Some s')"
  using create_lays_out_stack [OF demo_reach [of VIBE_TIMER_ONE_SHOT] no_call_ok(1), of 9 "0x8000501" "demo_attr 3" 512 "0x20004000" "0x44"]
    demo_new demo_reach
  by (auto simp: Let_def demo_attr_def VIBE_PRIO_MAX_def)

text \<open>
  With thread-local storage the \<^verbatim>\<open>tls\<close> pointer of a new thread does not lie above the initial frame, as the comment in
  \<^verbatim>\<open>vibe_thread_create\<close> says: on a stack whose end is aligned it is the address of the frame's status word, the last
  word of the frame, which the first switch to the thread restores.
\<close>

lemma tls_overlaps_frame:
  assumes "CONFIG_TLS cfg" "b AND 7 = 0" "72 \<le> sz" "unat b + unat sz < 2 ^ 32" "(b + sz) AND NOT 7 = b + sz"
    and s': "s' = thread_create_init cfg t entry arg at b sz s"
  shows "th_tls (g_tcb s' t) = th_stack_ptr (g_tcb s' t) + 60" "mem32 s' (th_tls (g_tcb s' t)) = 0x01000000"
proof -
  have "th_tls (g_tcb s' t) = b + sz - 4"
    using stack_setup_frame [of cfg t] assms(1)
    by (simp add: s' thread_create_init_def Let_def frame_simps) (simp add: thread_stack_setup_def arch_thread_stack_init_def Let_def store32_def zero_words_mem fresh_tcb_def)
  moreover have "th_stack_ptr (g_tcb s' t) = b + sz - 64"
    using create_init_stack(1) [OF assms(2-4)] assms(5) by (simp add: s')
  ultimately show tls: "th_tls (g_tcb s' t) = th_stack_ptr (g_tcb s' t) + 60" by simp
  show "mem32 s' (th_tls (g_tcb s' t)) = 0x01000000"
    unfolding tls using create_init_stack(1,7) [OF assms(2-4)] by (simp add: s')
qed

end
