(* ===== verification/Vibe_Mutex.thy ===== *)
theory Vibe_Mutex
  imports Vibe_Start
begin

text \<open>
  The recursive mutex with priority inheritance (\<^verbatim>\<open>kernel/mutex.c\<close>): ownership, recursion depth,
  hand-over to the first waiter, and the two places where the code does not keep its promise: the
  insertion of a waiter before the head of the wait list, and the boost of a ready owner.
\<close>

section \<open>Operations\<close>

record vibe_mutex_t =
  m_owner :: "tid option"
  m_lock_count :: u32
  m_wait_list :: "tid vibe_list"
  m_owner_orig_prio :: u8

definition vibe_mutex_init :: "vibe_mutex_t option \<Rightarrow> vibe_err_t \<times> vibe_mutex_t option" where
  "vibe_mutex_init mutex =
     (case mutex of
        None \<Rightarrow> (VIBE_EINVAL, None)
      | Some m \<Rightarrow> (VIBE_OK, Some (m\<lparr>m_owner := None, m_lock_count := 0, m_owner_orig_prio := 0,
                                      m_wait_list := vibe_list_init\<rparr>)))"

text \<open>The first waiter with a lower priority than \<open>prio\<close>, from \<open>node\<close> on.\<close>

partial_function (option) mutex_scan :: "u8 \<Rightarrow> kstate \<Rightarrow> tid option \<Rightarrow> tid option option" where
  "mutex_scan prio s node =
     (case node of
        None \<Rightarrow> Some None
      | Some n \<Rightarrow> if prio > tprio s n then Some (Some n)
                  else mutex_scan prio s (node_next (wait_nodes s n)))"

text \<open>Priority inheritance: \<open>prio\<close> is the priority of the thread about to block on \<open>owner\<close>'s mutex.\<close>

definition mutex_boost :: "u8 \<Rightarrow> tid \<Rightarrow> kstate \<Rightarrow> kstate" where
  "mutex_boost prio owner s =
     (if prio > tprio s owner then
        (let s = upd_tcb owner (\<lambda>th. th\<lparr>th_priority := prio\<rparr>) s in
         if tstate s owner = VIBE_THREAD_READY
         then vibe_sched_enqueue owner (vibe_sched_dequeue owner s) else s)
      else s)"

text \<open>The contended path of \<^verbatim>\<open>vibe_mutex_lock\<close>, with interrupts locked since \<open>key\<close>.\<close>

definition mutex_block ::
    "kconfig \<Rightarrow> u32 \<Rightarrow> tid \<Rightarrow> tid \<Rightarrow> vibe_tick_t \<Rightarrow> vibe_mutex_t \<Rightarrow> kstate \<Rightarrow> (vibe_mutex_t \<times> kstate) option" where
  "mutex_block cfg key self owner timeout m s =
     (let s = mutex_boost (tprio s self) owner s;
          s = vibe_sched_dequeue self s;
          s = upd_tcb self (\<lambda>th. th\<lparr>th_state := VIBE_THREAD_WAITING\<rparr>) s;
          s = upd_tcb self (\<lambda>th. th\<lparr>th_timeout := wait_deadline timeout s\<rparr>) s
      in do {
           pos \<leftarrow> mutex_scan (tprio s self) s (l_head (m_wait_list m));
           (wl, L) \<leftarrow> (case pos of
                         Some node \<Rightarrow> vibe_list_insert_after (m_wait_list m) (node_prev (wait_nodes s node)) self (wait_nodes s)
                       | None \<Rightarrow> Some (vibe_list_append (m_wait_list m) self (wait_nodes s)));
           let s = arch_irq_unlock key (s\<lparr>wait_nodes := L\<rparr>);
           Some (m\<lparr>m_wait_list := wl\<rparr>, vibe_sched_reschedule cfg s)
         })"

definition vibe_mutex_lock ::
    "kconfig \<Rightarrow> vibe_mutex_t option \<Rightarrow> vibe_tick_t \<Rightarrow> kstate \<Rightarrow>
     (vibe_err_t wait_result \<times> vibe_mutex_t option \<times> kstate) option" where
  "vibe_mutex_lock cfg mutex timeout s =
     (case mutex of
        None \<Rightarrow> Some (Return VIBE_EINVAL, None, s)
      | Some m \<Rightarrow>
          (let self = vibe_thread_self s;
               (key, s) = arch_irq_lock s
           in if m_owner m = self then
                Some (Return VIBE_OK, Some (m\<lparr>m_lock_count := m_lock_count m + 1\<rparr>), arch_irq_unlock key s)
              else case m_owner m of
                     None \<Rightarrow>
                       (case self of
                          None \<Rightarrow> None
                        | Some t \<Rightarrow> Some (Return VIBE_OK, Some (m\<lparr>m_owner := Some t, m_lock_count := 1,
                                            m_owner_orig_prio := tprio s t\<rparr>), arch_irq_unlock key s))
                   | Some owner \<Rightarrow>
                       if timeout = VIBE_NO_WAIT then Some (Return VIBE_EBUSY, Some m, arch_irq_unlock key s)
                       else (case self of
                               None \<Rightarrow> None
                             | Some t \<Rightarrow>
                                 do { (m, s) \<leftarrow> mutex_block cfg key t owner timeout m s;
                                      Some (Suspended, Some m, s) })))"

definition vibe_mutex_lock_resume :: "tid \<Rightarrow> vibe_mutex_t \<Rightarrow> kstate \<Rightarrow> vibe_err_t" where
  "vibe_mutex_lock_resume self m s =
     (if (tstate s self = VIBE_THREAD_RUNNING \<or> tstate s self = VIBE_THREAD_READY) \<and> m_owner m = Some self
      then VIBE_OK else VIBE_ETIMEOUT)"

definition vibe_mutex_trylock ::
    "kconfig \<Rightarrow> vibe_mutex_t option \<Rightarrow> kstate \<Rightarrow> (vibe_err_t wait_result \<times> vibe_mutex_t option \<times> kstate) option" where
  "vibe_mutex_trylock cfg mutex s = vibe_mutex_lock cfg mutex VIBE_NO_WAIT s"

definition vibe_mutex_unlock ::
    "kconfig \<Rightarrow> vibe_mutex_t option \<Rightarrow> kstate \<Rightarrow> (vibe_err_t \<times> vibe_mutex_t option \<times> kstate) option" where
  "vibe_mutex_unlock cfg mutex s =
     (case mutex of
        None \<Rightarrow> Some (VIBE_EINVAL, None, s)
      | Some m \<Rightarrow>
          (let self = vibe_thread_self s;
               (key, s) = arch_irq_lock s
           in if m_owner m \<noteq> self then Some (VIBE_EPERM, Some m, arch_irq_unlock key s)
              else
                (let m = m\<lparr>m_lock_count := m_lock_count m - 1\<rparr> in
                 if m_lock_count m > 0 then Some (VIBE_OK, Some m, arch_irq_unlock key s)
                 else case self of
                        None \<Rightarrow> None
                      | Some t \<Rightarrow>
                          (let s = upd_tcb t (\<lambda>th. th\<lparr>th_priority := m_owner_orig_prio m\<rparr>) s;
                               s = (if tstate s t = VIBE_THREAD_READY
                                    then vibe_sched_enqueue t (vibe_sched_dequeue t s) else s);
                               (head, wl, L) = vibe_list_get_head (m_wait_list m) (wait_nodes s);
                               s = s\<lparr>wait_nodes := L\<rparr>;
                               m = m\<lparr>m_wait_list := wl\<rparr>;
                               (m, s) = (case head of
                                           Some next \<Rightarrow>
                                             (m\<lparr>m_owner := Some next, m_lock_count := 1,
                                                m_owner_orig_prio := th_base_priority (g_tcb s next)\<rparr>,
                                              vibe_sched_enqueue next s)
                                         | None \<Rightarrow> (m\<lparr>m_owner := None, m_lock_count := 0\<rparr>, s));
                               s = arch_irq_unlock key s
                           in Some (VIBE_OK, Some m, vibe_sched_reschedule cfg s)))))"

definition vibe_mutex_is_owner :: "vibe_mutex_t option \<Rightarrow> kstate \<Rightarrow> bool" where
  "vibe_mutex_is_owner mutex s =
     (case mutex of None \<Rightarrow> False | Some m \<Rightarrow> m_owner m = vibe_thread_self s)"

section \<open>The abstract mutex\<close>

text \<open>Owner, recursion depth and waiters; a free mutex has depth 0 and no waiters.\<close>

record amutex =
  am_owner :: "tid option"
  am_depth :: nat
  am_waiters :: "tid list"

definition mutex_rep :: "kstate \<Rightarrow> vibe_mutex_t \<Rightarrow> amutex \<Rightarrow> bool" where
  "mutex_rep s m a \<longleftrightarrow>
     m_owner m = am_owner a \<and> unat (m_lock_count m) = am_depth a \<and> wait_rep s (m_wait_list m) (am_waiters a) \<and>
     (am_owner a = None \<longleftrightarrow> am_depth a = 0) \<and> (am_owner a = None \<longrightarrow> am_waiters a = [])"

definition amutex_unlock :: "amutex \<Rightarrow> amutex" where
  "amutex_unlock a =
     (if am_depth a > 1 then a\<lparr>am_depth := am_depth a - 1\<rparr>
      else case am_waiters a of
             [] \<Rightarrow> a\<lparr>am_owner := None, am_depth := 0\<rparr>
           | t # W \<Rightarrow> a\<lparr>am_owner := Some t, am_depth := 1, am_waiters := W\<rparr>)"

lemma mutex_lock_free:
  assumes "mutex_rep s m a" "am_owner a = None" "g_current_thread s = Some t"
  shows "\<exists>m'. vibe_mutex_lock cfg (Some m) timeout s = Some (Return VIBE_OK, Some m', s) \<and>
    mutex_rep s m' (a\<lparr>am_owner := Some t, am_depth := 1\<rparr>) \<and> m_owner_orig_prio m' = tprio s t"
  using assms by (auto simp: vibe_mutex_lock_def mutex_rep_def vibe_thread_self_def arch_irq_lock_def arch_irq_unlock_def)

lemma mutex_lock_recursive:
  assumes "mutex_rep s m a" "am_owner a = Some t" "g_current_thread s = Some t" "am_depth a + 1 < 2 ^ 32"
  shows "\<exists>m'. vibe_mutex_lock cfg (Some m) timeout s = Some (Return VIBE_OK, Some m', s) \<and>
    mutex_rep s m' (a\<lparr>am_depth := am_depth a + 1\<rparr>) \<and> m_owner_orig_prio m' = m_owner_orig_prio m"
  using assms unat_inc_u32 [of "m_lock_count m"]
  by (auto simp: vibe_mutex_lock_def mutex_rep_def vibe_thread_self_def arch_irq_lock_def arch_irq_unlock_def)

lemma mutex_trylock_busy:
  assumes "mutex_rep s m a" "am_owner a = Some u" "g_current_thread s \<noteq> Some u"
  shows "vibe_mutex_trylock cfg (Some m) s = Some (Return VIBE_EBUSY, Some m, s)"
  using assms by (auto simp: vibe_mutex_trylock_def vibe_mutex_lock_def mutex_rep_def vibe_thread_self_def
      arch_irq_lock_def arch_irq_unlock_def)

text \<open>Restoring an unboosted priority changes nothing.\<close>

lemma upd_same_prio: "p = tprio s t \<Longrightarrow> upd_tcb t (\<lambda>th. th\<lparr>th_priority := p\<rparr>) s = s"
  by (simp add: upd_tcb_def)

lemma mutex_unlock_spec:
  assumes inv: "kernel_inv s" and rep: "mutex_rep s m a" and t: "am_owner a = Some t" "g_current_thread s = Some t"
    and run: "tstate s t = VIBE_THREAD_RUNNING" and prio: "m_owner_orig_prio m = tprio s t"
  shows "\<exists>m' s'. vibe_mutex_unlock cfg (Some m) s = Some (VIBE_OK, Some m', s') \<and> mutex_rep s' m' (amutex_unlock a) \<and>
    kernel_inv s' \<and> PRIMASK s' = PRIMASK s \<and> (\<forall>u. am_owner (amutex_unlock a) = Some u \<longrightarrow> runnable s' u)"
proof (cases "am_depth a > 1")
  case True
  then have "unat (m_lock_count m - 1) = am_depth a - 1" "m_lock_count m - 1 > 0"
    using rep unat_dec_u32 [of "m_lock_count m"] by (auto simp: mutex_rep_def word_less_nat_alt)
  with True inv rep t run show ?thesis
    by (auto simp: vibe_mutex_unlock_def mutex_rep_def vibe_thread_self_def arch_irq_lock_def arch_irq_unlock_def
        amutex_unlock_def)
next
  case False
  with rep t(1) have d: "am_depth a = 1" "m_lock_count m = 1"
    by (auto simp: mutex_rep_def word_unat_eq_iff)
  let ?s = "s\<lparr>PRIMASK := 1\<rparr>" and ?m = "m\<lparr>m_lock_count := 0\<rparr>"
  obtain r wl s1 where b: "wake_head (m_wait_list m) ?s = (r, wl, s1)" by (cases "wake_head (m_wait_list m) ?s")
  have p: "kernel_inv ?s" "wait_rep ?s (m_wait_list m) (am_waiters a)" using inv rep by (simp_all add: mutex_rep_def)
  note w = wq.wake_rep [OF p b]
  let ?s2 = "vibe_sched_reschedule cfg (s1\<lparr>PRIMASK := PRIMASK s\<rparr>)"
  let ?m2 = "case r of Some n \<Rightarrow> m\<lparr>m_wait_list := wl, m_owner := Some n, m_lock_count := 1, m_owner_orig_prio := th_base_priority (g_tcb s n)\<rparr>
     | None \<Rightarrow> m\<lparr>m_wait_list := wl, m_owner := None, m_lock_count := 0\<rparr>"
  have code: "vibe_mutex_unlock cfg (Some m) s = Some (VIBE_OK, Some ?m2, ?s2)"
  proof -
    obtain L where g: "vibe_list_get_head (m_wait_list m) (wait_nodes s) = (r, wl, L)"
      "s1 = (case r of None \<Rightarrow> ?s\<lparr>wait_nodes := L\<rparr> | Some t \<Rightarrow> vibe_sched_enqueue t (?s\<lparr>wait_nodes := L\<rparr>))"
      using b by (auto simp: wake_head_def split: prod.splits option.splits)
    show ?thesis
      using rep t run prio d g by (cases r) (simp_all add: vibe_mutex_unlock_def mutex_rep_def vibe_thread_self_def
          arch_irq_lock_def arch_irq_unlock_def upd_same_prio)
  qed
  have k: "kernel_inv ?s2" "wait_rep ?s2 wl (tl (am_waiters a))"
    using w(2,3) by (auto intro: reschedule_keeps reschedule_wait_rep)
  have "PRIMASK ?s2 = PRIMASK s" by (simp add: frame_simps)
  moreover have "mutex_rep ?s2 ?m2 (amutex_unlock a)"
    using k(2) w(1) d by (cases "am_waiters a") (auto simp: mutex_rep_def amutex_unlock_def)
  moreover have "runnable ?s2 u" if "am_owner (amutex_unlock a) = Some u" for u
  proof -
    have "r = Some u" using that w(1) d by (cases "am_waiters a") (auto simp: amutex_unlock_def)
    then have "tstate s1 u = VIBE_THREAD_READY"
      using b by (auto simp: wake_head_def frame_simps split: prod.splits option.splits)
    then show ?thesis by (auto simp: reschedule_tstate)
  qed
  ultimately show ?thesis using code k(1) by blast
qed

section \<open>Where the mutex fails\<close>

lemma boost_frame [frame_simps]:
  "wait_nodes (mutex_boost p o' s) = wait_nodes s"
  "u \<noteq> o' \<Longrightarrow> tprio (mutex_boost p o' s) u = tprio s u"
  by (simp_all add: mutex_boost_def Let_def frame_simps upd_tcb_def)

lemma mutex_scan_head: "prio > tprio s h \<Longrightarrow> mutex_scan prio s (Some h) = Some (Some h)"
  by (simp add: mutex_scan.simps)

section \<open>Properties\<close>



text \<open>
  C10: unlocking by the owner, at an unboosted priority, implements the abstract unlock: one level is
  released, and the last release frees the mutex or hands it to the first waiter, which is then
  schedulable; the kernel invariant and the interrupt mask are kept.
\<close>

theorem mutex_unlock_refines:
  assumes "kernel_inv s" "mutex_rep s m a" "am_owner a = Some t" "g_current_thread s = Some t"
    and "tstate s t = VIBE_THREAD_RUNNING" "m_owner_orig_prio m = tprio s t"
  shows "\<exists>m' s'. vibe_mutex_unlock cfg (Some m) s = Some (VIBE_OK, Some m', s') \<and> mutex_rep s' m' (amutex_unlock a) \<and>
    kernel_inv s' \<and> PRIMASK s' = PRIMASK s \<and> (\<forall>u. am_owner (amutex_unlock a) = Some u \<longrightarrow> runnable s' u)"
  by (rule mutex_unlock_spec [OF assms])

theorem mutex_unlock_refines_witness:
  "\<exists>m' s'. vibe_mutex_unlock demo_cfg (Some \<lparr>m_owner = Some 7, m_lock_count = 2, m_wait_list = vibe_list_init, m_owner_orig_prio = 10\<rparr>) demo_state =
     Some (VIBE_OK, Some m', s') \<and> m_owner m' = Some 7 \<and> kernel_inv s'"
  using mutex_unlock_refines [of demo_state "\<lparr>m_owner = Some 7, m_lock_count = 2, m_wait_list = vibe_list_init, m_owner_orig_prio = 10\<rparr>"
      "\<lparr>am_owner = Some 7, am_depth = 2, am_waiters = []\<rparr>" 7 demo_cfg]
  by (auto simp: mutex_rep_def demo_state_facts amutex_unlock_def)

text \<open>
  C11: a thread that blocks on a mutex whose first waiter has a lower priority never returns: the
  sorted insertion passes the \<^verbatim>\<open>NULL\<close> predecessor of the head to \<^verbatim>\<open>vibe_list_insert_after\<close>,
  which dereferences it.
\<close>

theorem mutex_lock_head_fault:
  assumes "g_current_thread s = Some t" "m_owner m = Some u" "u \<noteq> t" "timeout \<noteq> VIBE_NO_WAIT"
    and "dll (wait_nodes s) (m_wait_list m) (h # W)" "h \<noteq> t" "h \<noteq> u" "tprio s h < tprio s t"
  shows "vibe_mutex_lock cfg (Some m) timeout s = None"
proof -
  have hd: "l_head (m_wait_list m) = Some h" "node_prev (wait_nodes s h) = None"
    using assms(5) by (simp_all add: dll_def)
  have "mutex_block cfg k t u timeout m (s\<lparr>PRIMASK := 1\<rparr>) = None" for k
    using hd assms(3,6,7,8)
    by (simp add: mutex_block_def Let_def mutex_scan_head frame_simps vibe_list_insert_after_def)
      (simp add: upd_tcb_def frame_simps vibe_list_insert_after_def)
  then show ?thesis
    using assms(1-4) by (simp add: vibe_mutex_lock_def vibe_thread_self_def arch_irq_lock_def)
qed

theorem mutex_lock_head_fault_witness:
  "vibe_mutex_lock demo_cfg (Some \<lparr>m_owner = Some 2, m_lock_count = 1,
      m_wait_list = \<lparr>l_head = Some 3, l_tail = Some 3, l_count = 1\<rparr>, m_owner_orig_prio = 10\<rparr>) VIBE_WAIT_FOREVER
      (demo_state\<lparr>wait_nodes := \<lambda>_. \<lparr>node_prev = None, node_next = None\<rparr>\<rparr>) = None"
  by (rule mutex_lock_head_fault [where t = 7 and u = 2 and h = 3 and W = "[]"])
    (simp_all add: demo_state_facts VIBE_WAIT_FOREVER_def VIBE_NO_WAIT_def dll_def)

text \<open>
  Boosting a ready owner drops the threads of the waiter's priority. The owner is removed from
  the run queue of its new priority, in which it never was: when it was alone at its old priority, the
  queue of the waiter's priority afterwards holds the owner only, and every other thread of it is
  still ready but in no run queue.
\<close>

theorem mutex_boost_drops_queue:
  assumes "live_inv s Q Z" "tstate s u = VIBE_THREAD_READY" "Q (unat (tprio s u)) = [u]"
    and "tprio s u < prio" "prio \<le> VIBE_PRIO_MAX" "t \<in> set (Q (unat prio))"
  shows "vibe_list_visit (sched_nodes (mutex_boost prio u s)) (l_head (g_run_queues (mutex_boost prio u s) (unat prio))) = Some [u] \<and>
    t \<noteq> u \<and> tstate (mutex_boost prio u s) t = tstate s t"
proof -
  note d = sched_invD [OF live_invD(1) [OF assms(1)]]
  have n: "node_prev (sched_nodes s u) = None" "node_next (sched_nodes s u) = None"
    using queues_repD(1) [OF d(1) d(3) [of u]] assms(3) by (simp_all add: dll_def)
  have "unat (tprio s t) = unat prio" using queues_repD(2) [OF d(1) prio_bound [OF assms(5)] assms(6)] .
  then have tu: "t \<noteq> u" using assms(4) by (auto simp: word_less_nat_alt)
  have "g_run_queues (mutex_boost prio u s) (unat prio) =
        (g_run_queues s (unat prio))\<lparr>l_head := Some u, l_tail := Some u, l_count := l_count (g_run_queues s (unat prio)) - 1 + 1\<rparr>"
      "node_next (sched_nodes (mutex_boost prio u s) u) = None"
    using assms(2,4) n
    by (simp_all add: mutex_boost_def vibe_sched_enqueue_def vibe_sched_dequeue_def kernel_ops list_ops Let_def)
  then show ?thesis using tu by (simp add: vibe_list_visit.simps) (simp add: mutex_boost_def Let_def frame_simps)
qed

theorem mutex_boost_drops_queue_witness:
  "vibe_list_visit (sched_nodes (mutex_boost 10 3 demo_state)) (l_head (g_run_queues (mutex_boost 10 3 demo_state) 10)) = Some [3] \<and>
   tstate (mutex_boost 10 3 demo_state) 2 = VIBE_THREAD_READY"
  using mutex_boost_drops_queue [OF demo_state_facts(1), of 3 10 2] by (simp add: demo_state_facts VIBE_PRIO_MAX_def)

end
