(* ===== verification/Vibe_Fifo.thy ===== *)
theory Vibe_Fifo
  imports Vibe_Prelude
begin

text \<open>
  The contract of a bounded first-in first-out queue, which the message queue, the pipe and the byte
  ring implement, and byte copies. A queue state has a content, an element is accepted while
  there is room (a refusal changes no content), and elements leave in the order they came. The client lemma covers every sequence
  of operations.
\<close>

section \<open>Byte copies\<close>

definition mem_write :: "(nat \<Rightarrow> 'b) \<Rightarrow> nat \<Rightarrow> 'b list \<Rightarrow> nat \<Rightarrow> 'b" where
  "mem_write buf off bs = (\<lambda>i. if off \<le> i \<and> i < off + length bs then bs ! (i - off) else buf i)"

definition mem_read :: "(nat \<Rightarrow> 'b) \<Rightarrow> nat \<Rightarrow> nat \<Rightarrow> 'b list" where
  "mem_read buf off n = map buf [off..<off + n]"

lemma length_mem_read [simp]: "length (mem_read buf off n) = n"
  by (simp add: mem_read_def)

lemma mem_read_write_same: "length bs = n \<Longrightarrow> mem_read (mem_write buf off bs) off n = bs"
  by (auto simp: mem_read_def mem_write_def intro: nth_equalityI)

lemma mem_read_write_other:
  "off' + n \<le> off \<or> off + length bs \<le> off' \<Longrightarrow> mem_read (mem_write buf off bs) off' n = mem_read buf off' n"
  by (auto simp: mem_read_def mem_write_def)

text \<open>Copies into and out of a ring in at most two contiguous chunks.\<close>

lemma mem_write_Nil [simp]: "mem_write buf off [] = buf"
  by (auto simp: mem_write_def fun_eq_iff)

lemma ring_write:
  assumes fit: "u + length bs \<le> sz" and sz: "0 < sz" and t: "t = (h + u) mod sz" and c: "c = min (sz - t) (length bs)"
  shows "ring_content (mem_write (mem_write buf t (take c bs)) 0 (drop c bs)) sz h (u + length bs) =
    ring_content buf sz h u @ bs" (is "ring_content ?buf _ _ _ = _")
proof (rule nth_equalityI)
  show "length (ring_content ?buf sz h (u + length bs)) = length (ring_content buf sz h u @ bs)" by simp
next
  fix i assume "i < length (ring_content ?buf sz h (u + length bs))"
  then have i: "i < u + length bs" by simp
  let ?x = "(h + i) mod sz"
  have lhs: "ring_content ?buf sz h (u + length bs) ! i = ?buf ?x" using i by (simp add: ring_content_def)
  have t_lt: "t < sz" using t sz by simp
  have wr: "?buf y = (if y < length bs - c then bs ! (c + y) else if t \<le> y \<and> y < t + c then bs ! (y - t) else buf y)" for y
  proof -
    have "c \<le> length bs" using c by simp
    then show ?thesis by (auto simp: mem_write_def)
  qed
  show "ring_content ?buf sz h (u + length bs) ! i = (ring_content buf sz h u @ bs) ! i"
  proof (cases "i < u")
    case True
    have new: "?x \<noteq> (t + j) mod sz" if "j < length bs" for j
    proof -
      have "(h + i) mod sz \<noteq> (h + (u + j)) mod sz" by (rule ring_slots_distinct) (use True that fit in auto)
      moreover have "(t + j) mod sz = (h + (u + j)) mod sz" unfolding t mod_add_left_eq by (simp add: add.assoc)
      ultimately show ?thesis by simp
    qed
    have "\<not> ?x < length bs - c"
    proof
      assume a: "?x < length bs - c"
      then have "c = sz - t" using c by auto
      then have "(t + (c + ?x)) mod sz = ?x" using t_lt by simp
      moreover have "c + ?x < length bs" using a by linarith
      ultimately show False using new [of "c + ?x"] by simp
    qed
    moreover have "\<not> (t \<le> ?x \<and> ?x < t + c)"
    proof
      assume a: "t \<le> ?x \<and> ?x < t + c"
      then have "(t + (?x - t)) mod sz = ?x" by simp
      moreover have "?x - t < length bs" using a c by linarith
      ultimately show False using new [of "?x - t"] by simp
    qed
    ultimately show ?thesis using True lhs wr [of ?x] by (auto simp: nth_append ring_content_def)
  next
    case False
    then obtain j where j: "i = u + j" "j < length bs" using i by (metis add_diff_inverse_nat nat_add_left_cancel_less)
    have x: "?x = (t + j) mod sz" unfolding j(1) t mod_add_left_eq by (simp add: add.assoc)
    have "?buf ?x = bs ! j"
    proof (cases "t + j < sz")
      case True
      then have "?x = t + j" using x by simp
      moreover have "j < c" "\<not> t + j < length bs - c" using True j(2) c fit t_lt by auto
      ultimately show ?thesis by (simp add: wr)
    next
      case wrap: False
      then have "?x = t + j - sz" using x t_lt j(2) fit by (simp add: mod_if)
      moreover have "c = sz - t" using wrap j(2) c by auto
      ultimately have "?x = j - c" "c \<le> j" using wrap t_lt by auto
      moreover have "j - c < length bs - c" using j(2) \<open>c \<le> j\<close> by (rule diff_less_mono)
      ultimately show ?thesis using j(2) by (simp add: wr)
    qed
    then show ?thesis using j lhs by (simp add: nth_append)
  qed
qed

lemma ring_read:
  assumes n: "n \<le> u" "u \<le> sz" and h: "h < sz" and c: "c = min (sz - h) n"
  shows "mem_read buf h c @ mem_read buf 0 (n - c) = take n (ring_content buf sz h u)"
proof (rule nth_equalityI)
  show "length (mem_read buf h c @ mem_read buf 0 (n - c)) = length (take n (ring_content buf sz h u))"
    using n c by simp
next
  fix i assume "i < length (mem_read buf h c @ mem_read buf 0 (n - c))"
  then have i: "i < n" using c by simp
  have "(h + i) mod sz = (if i < c then h + i else i - c)"
    using i n h c by (auto simp: mod_if)
  then show "(mem_read buf h c @ mem_read buf 0 (n - c)) ! i = take n (ring_content buf sz h u) ! i"
    using i n c by (auto simp: mem_read_def ring_content_def nth_append)
qed

lemma ring_drop:
  assumes "n \<le> u" "0 < sz"
  shows "ring_content buf sz ((h + n) mod sz) (u - n) = drop n (ring_content buf sz h u)"
proof (rule nth_equalityI)
  fix i assume i: "i < length (ring_content buf sz ((h + n) mod sz) (u - n))"
  have "((h + n) mod sz + i) mod sz = (h + (n + i)) mod sz" unfolding mod_add_left_eq by (simp add: add.assoc)
  then show "ring_content buf sz ((h + n) mod sz) (u - n) ! i = drop n (ring_content buf sz h u) ! i"
    using i assms by (simp add: ring_content_def less_diff_conv add.commute)
qed (use assms in simp)

section \<open>Sequences of operations\<close>

datatype 'a fifo_op = Push 'a | Pop

text \<open>Runs the operations and collects the accepted and the delivered elements.\<close>

fun fifo_run ::
    "('a \<Rightarrow> 'q \<Rightarrow> bool \<times> 'q) \<Rightarrow> ('q \<Rightarrow> 'a option \<times> 'q) \<Rightarrow> 'a fifo_op list \<Rightarrow> 'q \<Rightarrow> 'a list \<times> 'a list \<times> 'q" where
  "fifo_run push pop [] q = ([], [], q)"
| "fifo_run push pop (Push x # ops) q =
     (let (b, q) = push x q;
          (acc, del, q) = fifo_run push pop ops q
      in (if b then x # acc else acc, del, q))"
| "fifo_run push pop (Pop # ops) q =
     (let (r, q) = pop q;
          (acc, del, q) = fifo_run push pop ops q
      in (acc, (case r of None \<Rightarrow> del | Some x \<Rightarrow> x # del), q))"

definition pushed :: "'a fifo_op list \<Rightarrow> 'a list" where
  "pushed ops = concat (map (\<lambda>p. case p of Push x \<Rightarrow> [x] | Pop \<Rightarrow> []) ops)"

section \<open>The contract\<close>

locale bounded_fifo =
  fixes ok :: "'q \<Rightarrow> bool" and elem :: "'q \<Rightarrow> 'a \<Rightarrow> bool" and content :: "'q \<Rightarrow> 'a list" and capacity :: "'q \<Rightarrow> nat"
    and push :: "'a \<Rightarrow> 'q \<Rightarrow> bool \<times> 'q" and pop :: "'q \<Rightarrow> 'a option \<times> 'q"
  assumes bounded: "ok q \<Longrightarrow> length (content q) \<le> capacity q"
    and push_room: "ok q \<Longrightarrow> elem q x \<Longrightarrow> length (content q) < capacity q \<Longrightarrow>
          \<exists>q'. push x q = (True, q') \<and> ok q' \<and> content q' = content q @ [x] \<and> capacity q' = capacity q \<and> elem q' = elem q"
    and push_full: "ok q \<Longrightarrow> length (content q) = capacity q \<Longrightarrow>
          \<exists>q'. push x q = (False, q') \<and> ok q' \<and> content q' = content q \<and> capacity q' = capacity q \<and> elem q' = elem q"
    and pop_full: "ok q \<Longrightarrow> content q = x # xs \<Longrightarrow>
          \<exists>q'. pop q = (Some x, q') \<and> ok q' \<and> content q' = xs \<and> capacity q' = capacity q \<and> elem q' = elem q"
    and pop_empty: "ok q \<Longrightarrow> content q = [] \<Longrightarrow> pop q = (None, q)"
begin

lemma push_law:
  assumes "ok q" "elem q x"
  shows "\<exists>b q'. push x q = (b, q') \<and> ok q' \<and> content q' = content q @ (if b then [x] else []) \<and>
    capacity q' = capacity q \<and> elem q' = elem q \<and> (b \<longleftrightarrow> length (content q) < capacity q)"
  using push_room [OF assms] push_full [OF assms(1)] bounded [OF assms(1)] assms(1)
  by (cases "length (content q) < capacity q") force+

lemma pop_law:
  assumes "ok q"
  shows "\<exists>r q'. pop q = (r, q') \<and> ok q' \<and> content q = (case r of None \<Rightarrow> [] | Some x \<Rightarrow> [x]) @ content q' \<and>
    capacity q' = capacity q \<and> elem q' = elem q"
  using pop_full [OF assms] pop_empty [OF assms] assms by (cases "content q") force+

text \<open>Nothing is lost, duplicated or reordered: delivered and remaining are initial and accepted.\<close>

lemma run_fifo:
  assumes "ok q" "\<forall>x\<in>set (pushed ops). elem q x" "fifo_run push pop ops q = (acc, del, q')"
  shows "del @ content q' = content q @ acc" "ok q'" "length (content q') \<le> capacity q"
proof -
  have "del @ content q' = content q @ acc \<and> ok q' \<and> capacity q' = capacity q"
    using assms
  proof (induction ops arbitrary: q acc del)
    case Nil
    then show ?case by simp
  next
    case (Cons p ops)
    show ?case
    proof (cases p)
      case (Push x)
      then have x: "elem q x" "\<forall>y\<in>set (pushed ops). elem q y" using Cons.prems(2) by (auto simp: pushed_def)
      obtain b q1 where b: "push x q = (b, q1)" "ok q1" "content q1 = content q @ (if b then [x] else [])"
          "capacity q1 = capacity q" "elem q1 = elem q" using push_law [OF Cons.prems(1) x(1)] by blast
      obtain acc1 where r: "fifo_run push pop ops q1 = (acc1, del, q')" "acc = (if b then x # acc1 else acc1)"
        using Cons.prems(3) Push b(1) by (auto split: prod.splits)
      from Cons.IH [OF b(2) _ r(1)] x(2) b r(2) show ?thesis by auto
    next
      case Pop
      then have x: "\<forall>y\<in>set (pushed ops). elem q y" using Cons.prems(2) by (auto simp: pushed_def)
      obtain r q1 where b: "pop q = (r, q1)" "ok q1" "content q = (case r of None \<Rightarrow> [] | Some x \<Rightarrow> [x]) @ content q1"
          "capacity q1 = capacity q" "elem q1 = elem q" using pop_law [OF Cons.prems(1)] by blast
      obtain del1 where r: "fifo_run push pop ops q1 = (acc, del1, q')" "del = (case r of None \<Rightarrow> del1 | Some x \<Rightarrow> x # del1)"
        using Cons.prems(3) Pop b(1) by (auto split: prod.splits)
      from Cons.IH [OF b(2) _ r(1)] x b r(2) show ?thesis by (cases r) auto
    qed
  qed
  then show "del @ content q' = content q @ acc" "ok q'" "length (content q') \<le> capacity q"
    using bounded [of q'] by auto
qed

end

end
