(* ===== verification/Vibe_Msgq.thy ===== *)
theory Vibe_Msgq
  imports Vibe_Start Vibe_Fifo
begin

text \<open>
  The message queue (\<^verbatim>\<open>kernel/msgq.c\<close>): a ring of fixed-size messages in a byte buffer, with a list of
  waiting readers and one of waiting writers. The bytes \<^verbatim>\<open>q->buffer\<close> points to are a function from
  offsets; offsets are computed in 32-bit arithmetic as in the code.
\<close>

section \<open>Operations\<close>

record vibe_msgq_t =
  q_buffer :: "nat \<Rightarrow> u8"
  q_msg_size :: u32
  q_max_msgs :: u32
  q_head :: u32
  q_tail :: u32
  q_used :: u32
  q_read_wait :: "tid vibe_list"
  q_write_wait :: "tid vibe_list"

definition vibe_msgq_init ::
    "vibe_msgq_t option \<Rightarrow> (nat \<Rightarrow> u8) option \<Rightarrow> u32 \<Rightarrow> u32 \<Rightarrow> vibe_err_t \<times> vibe_msgq_t option" where
  "vibe_msgq_init q buffer msg_size max_msgs =
     (case (q, buffer) of
        (Some q, Some b) \<Rightarrow>
          if msg_size = 0 \<or> max_msgs = 0 then (VIBE_EINVAL, Some q)
          else (VIBE_OK, Some \<lparr>q_buffer = b, q_msg_size = msg_size, q_max_msgs = max_msgs, q_head = 0, q_tail = 0,
                               q_used = 0, q_read_wait = vibe_list_init, q_write_wait = vibe_list_init\<rparr>)
      | _ \<Rightarrow> (VIBE_EINVAL, q))"

text \<open>The copy into and out of the ring, as both halves of put and get perform it.\<close>

definition msgq_store :: "u8 list \<Rightarrow> vibe_msgq_t \<Rightarrow> vibe_msgq_t" where
  "msgq_store data q =
     (let q = q\<lparr>q_buffer := mem_write (q_buffer q) (unat (q_tail q * q_msg_size q)) (take (unat (q_msg_size q)) data)\<rparr>;
          q = q\<lparr>q_tail := (q_tail q + 1) mod q_max_msgs q\<rparr>
      in q\<lparr>q_used := q_used q + 1\<rparr>)"

definition msgq_load :: "vibe_msgq_t \<Rightarrow> u8 list \<times> vibe_msgq_t" where
  "msgq_load q =
     (let buf = mem_read (q_buffer q) (unat (q_head q * q_msg_size q)) (unat (q_msg_size q));
          q = q\<lparr>q_head := (q_head q + 1) mod q_max_msgs q\<rparr>
      in (buf, q\<lparr>q_used := q_used q - 1\<rparr>))"

definition vibe_msgq_put ::
    "kconfig \<Rightarrow> vibe_msgq_t option \<Rightarrow> u8 list option \<Rightarrow> vibe_tick_t \<Rightarrow> kstate \<Rightarrow>
     (vibe_err_t wait_result \<times> vibe_msgq_t option \<times> kstate) option" where
  "vibe_msgq_put cfg q data timeout s =
     (case (q, data) of
        (Some q, Some data) \<Rightarrow>
          (let (key, s) = arch_irq_lock s in
           if q_used q < q_max_msgs q then
             (let q = msgq_store data q;
                  (rn, wl, s) = wake_head (q_read_wait q) s;
                  q = q\<lparr>q_read_wait := wl\<rparr>;
                  s = arch_irq_unlock key s
              in Some (Return VIBE_OK, Some q, vibe_sched_reschedule cfg s))
           else if timeout = VIBE_NO_WAIT then Some (Return VIBE_EAGAIN, Some q, arch_irq_unlock key s)
           else case vibe_thread_self s of
                  None \<Rightarrow> None
                | Some self \<Rightarrow>
                    (let (wl, s) = block_on cfg key self (wait_deadline timeout s) (q_write_wait q) s
                     in Some (Suspended, Some (q\<lparr>q_write_wait := wl\<rparr>), s)))
      | _ \<Rightarrow> Some (Return VIBE_EINVAL, q, s))"

definition vibe_msgq_put_resume :: "vibe_msgq_t \<Rightarrow> u8 list \<Rightarrow> kstate \<Rightarrow> vibe_err_t \<times> vibe_msgq_t \<times> kstate" where
  "vibe_msgq_put_resume q data s =
     (let (key, s) = arch_irq_lock s in
      if q_used q < q_max_msgs q then (VIBE_OK, msgq_store data q, arch_irq_unlock key s)
      else (VIBE_ETIMEOUT, q, arch_irq_unlock key s))"

text \<open>The flag says whether the destination pointer is not \<^verbatim>\<open>NULL\<close>; the bytes copied out are returned.\<close>

definition vibe_msgq_get ::
    "kconfig \<Rightarrow> vibe_msgq_t option \<Rightarrow> bool \<Rightarrow> vibe_tick_t \<Rightarrow> kstate \<Rightarrow>
     (vibe_err_t wait_result \<times> u8 list option \<times> vibe_msgq_t option \<times> kstate) option" where
  "vibe_msgq_get cfg q buf timeout s =
     (case q of
        Some q \<Rightarrow>
          if \<not> buf then Some (Return VIBE_EINVAL, None, Some q, s)
          else
            (let (key, s) = arch_irq_lock s in
             if q_used q > 0 then
               (let (bytes, q) = msgq_load q;
                    (wn, wl, s) = wake_head (q_write_wait q) s;
                    q = q\<lparr>q_write_wait := wl\<rparr>;
                    s = arch_irq_unlock key s
                in Some (Return VIBE_OK, Some bytes, Some q, vibe_sched_reschedule cfg s))
             else if timeout = VIBE_NO_WAIT then Some (Return VIBE_EAGAIN, None, Some q, arch_irq_unlock key s)
             else case vibe_thread_self s of
                    None \<Rightarrow> None
                  | Some self \<Rightarrow>
                      (let (wl, s) = block_on cfg key self (wait_deadline timeout s) (q_read_wait q) s
                       in Some (Suspended, None, Some (q\<lparr>q_read_wait := wl\<rparr>), s)))
      | None \<Rightarrow> Some (Return VIBE_EINVAL, None, None, s))"

definition vibe_msgq_get_resume :: "vibe_msgq_t \<Rightarrow> kstate \<Rightarrow> vibe_err_t \<times> u8 list option \<times> vibe_msgq_t \<times> kstate" where
  "vibe_msgq_get_resume q s =
     (let (key, s) = arch_irq_lock s in
      if q_used q > 0 then
        (let (bytes, q) = msgq_load q in (VIBE_OK, Some bytes, q, arch_irq_unlock key s))
      else (VIBE_ETIMEOUT, None, q, arch_irq_unlock key s))"

definition vibe_msgq_peek :: "vibe_msgq_t option \<Rightarrow> bool \<Rightarrow> kstate \<Rightarrow> vibe_err_t \<times> u8 list option \<times> kstate" where
  "vibe_msgq_peek q buf s =
     (case q of
        Some q \<Rightarrow>
          if \<not> buf then (VIBE_EINVAL, None, s)
          else
            (let (key, s) = arch_irq_lock s in
             if q_used q = 0 then (VIBE_EAGAIN, None, arch_irq_unlock key s)
             else (VIBE_OK, Some (mem_read (q_buffer q) (unat (q_head q * q_msg_size q)) (unat (q_msg_size q))),
                   arch_irq_unlock key s))
      | None \<Rightarrow> (VIBE_EINVAL, None, s))"

definition vibe_msgq_purge :: "kconfig \<Rightarrow> vibe_msgq_t option \<Rightarrow> kstate \<Rightarrow> (vibe_msgq_t option \<times> kstate) option" where
  "vibe_msgq_purge cfg q s =
     (case q of
        None \<Rightarrow> Some (None, s)
      | Some q \<Rightarrow>
          (let (key, s) = arch_irq_lock s;
               q = q\<lparr>q_head := 0, q_tail := 0, q_used := 0\<rparr>
           in do {
                (wl, s) \<leftarrow> wake_all (q_write_wait q) s;
                let s = arch_irq_unlock key s;
                Some (Some (q\<lparr>q_write_wait := wl\<rparr>), vibe_sched_reschedule cfg s)
              }))"

definition vibe_msgq_count :: "vibe_msgq_t option \<Rightarrow> u32" where
  "vibe_msgq_count q = (case q of Some q \<Rightarrow> q_used q | None \<Rightarrow> 0)"

section \<open>The ring of messages\<close>

definition msgq_slot :: "vibe_msgq_t \<Rightarrow> nat \<Rightarrow> u8 list" where
  "msgq_slot q i = mem_read (q_buffer q) (i * unat (q_msg_size q)) (unat (q_msg_size q))"

definition msgq_content :: "vibe_msgq_t \<Rightarrow> u8 list list" where
  "msgq_content q = ring_content (msgq_slot q) (unat (q_max_msgs q)) (unat (q_head q)) (unat (q_used q))"

definition msgq_ok :: "vibe_msgq_t \<Rightarrow> bool" where
  "msgq_ok q \<longleftrightarrow>
     q_max_msgs q > 0 \<and> unat (q_max_msgs q) * unat (q_msg_size q) < 2 ^ 32 \<and> q_head q < q_max_msgs q \<and>
     q_used q \<le> q_max_msgs q \<and>
     unat (q_tail q) = (unat (q_head q) + unat (q_used q)) mod unat (q_max_msgs q)"

definition msgq_elem :: "vibe_msgq_t \<Rightarrow> u8 list \<Rightarrow> bool" where
  "msgq_elem q x \<longleftrightarrow> length x = unat (q_msg_size q)"

definition msgq_push :: "u8 list \<Rightarrow> vibe_msgq_t \<Rightarrow> bool \<times> vibe_msgq_t" where
  "msgq_push x q = (if q_used q < q_max_msgs q then (True, msgq_store x q) else (False, q))"

definition msgq_pop :: "vibe_msgq_t \<Rightarrow> u8 list option \<times> vibe_msgq_t" where
  "msgq_pop q = (if q_used q > 0 then (let (x, q) = msgq_load q in (Some x, q)) else (None, q))"

lemma next_slot:
  assumes "i < n"
  shows "unat ((i + 1) mod n :: u32) = Suc (unat i) mod unat n"
proof -
  have "unat i < unat n" "unat n < 2 ^ 32" using assms u32_bound [of n] by (simp_all add: word_less_nat_alt)
  then show ?thesis using unat_inc_u32 [of i] by (simp add: unat_mod)
qed

lemma slot_offset:
  assumes "msgq_ok q" "i < q_max_msgs q"
  shows "unat (i * q_msg_size q) = unat i * unat (q_msg_size q)"
proof -
  have "unat i * unat (q_msg_size q) \<le> unat (q_max_msgs q) * unat (q_msg_size q)"
    using assms(2) by (intro mult_le_mono1) (simp add: word_less_nat_alt)
  also have "\<dots> < 2 ^ 32" using assms(1) by (simp add: msgq_ok_def)
  finally show ?thesis by (rule unat_times_u32)
qed

lemma tail_lt: "msgq_ok q \<Longrightarrow> q_tail q < q_max_msgs q"
  by (simp add: msgq_ok_def word_less_nat_alt)

lemma msgq_store_slot:
  assumes ok: "msgq_ok q" and x: "msgq_elem q x"
  shows "msgq_slot (msgq_store x q) i = (if i = unat (q_tail q) then x else msgq_slot q i)"
proof -
  let ?n = "unat (q_msg_size q)"
  have off: "unat (q_tail q * q_msg_size q) = unat (q_tail q) * ?n" using slot_offset [OF ok tail_lt [OF ok]] .
  have len: "length x = ?n" using x by (simp add: msgq_elem_def)
  show ?thesis
  proof (cases "i = unat (q_tail q)")
    case True
    then show ?thesis using len by (simp add: msgq_slot_def msgq_store_def Let_def off mem_read_write_same)
  next
    case False
    then have "i * ?n + ?n \<le> unat (q_tail q) * ?n \<or> unat (q_tail q) * ?n + length x \<le> i * ?n"
      using len by (metis add.commute mult_Suc Suc_leI linorder_neqE_nat mult_le_mono1)
    with False show ?thesis using len by (simp add: msgq_slot_def msgq_store_def Let_def off mem_read_write_other)
  qed
qed

lemma msgq_store_spec:
  assumes ok: "msgq_ok q" and x: "msgq_elem q x" and room: "q_used q < q_max_msgs q"
  shows "msgq_ok (msgq_store x q)" "msgq_content (msgq_store x q) = msgq_content q @ [x]"
proof -
  let ?n = "unat (q_max_msgs q)" and ?h = "unat (q_head q)" and ?u = "unat (q_used q)"
  have u: "unat (q_used q + 1) = Suc ?u"
    using room u32_bound [of "q_max_msgs q"] by (subst unat_inc_u32) (auto simp: word_less_nat_alt)
  have tl: "unat (q_tail q) = (?h + ?u) mod ?n" using ok by (simp add: msgq_ok_def)
  have "unat ((q_tail q + 1) mod q_max_msgs q) = (?h + Suc ?u) mod ?n"
    unfolding next_slot [OF tail_lt [OF ok]] tl by (simp add: mod_Suc_eq)
  with ok room u show "msgq_ok (msgq_store x q)"
    by (auto simp: msgq_ok_def msgq_store_def Let_def word_le_nat_alt word_less_nat_alt)
  have "msgq_slot (msgq_store x q) = (msgq_slot q)((?h + ?u) mod ?n := x)"
    using msgq_store_slot [OF ok x] by (auto simp: fun_eq_iff tl)
  then show "msgq_content (msgq_store x q) = msgq_content q @ [x]"
    using room ring_push [of ?u ?n "msgq_slot q" ?h x]
    by (simp add: msgq_content_def u word_less_nat_alt) (simp add: msgq_store_def Let_def u)
qed

lemma msgq_load_spec:
  assumes ok: "msgq_ok q" and ne: "q_used q > 0"
  shows "\<exists>q'. msgq_load q = (hd (msgq_content q), q') \<and> msgq_ok q' \<and> msgq_content q' = tl (msgq_content q) \<and>
    q_max_msgs q' = q_max_msgs q \<and> q_msg_size q' = q_msg_size q \<and> msgq_content q \<noteq> []"
proof -
  let ?n = "unat (q_max_msgs q)" and ?h = "unat (q_head q)"
  obtain u where u: "unat (q_used q) = Suc u" "unat (q_used q - 1) = u"
    using ne unat_dec_u32 [OF ne] by (cases "unat (q_used q)") (auto simp: word_less_nat_alt)
  have h: "q_head q < q_max_msgs q" "?h < ?n" using ok by (simp_all add: msgq_ok_def word_less_nat_alt)
  let ?q = "snd (msgq_load q)"
  have slot: "msgq_slot ?q = msgq_slot q" by (simp add: msgq_load_def msgq_slot_def Let_def fun_eq_iff)
  have hd: "unat ((q_head q + 1) mod q_max_msgs q) = Suc ?h mod ?n" by (rule next_slot [OF h(1)])
  have c: "msgq_content q = msgq_slot q ?h # msgq_content ?q"
    using ring_pop [OF h(2), of "msgq_slot q" u] u hd
    by (simp add: msgq_content_def slot) (simp add: msgq_load_def Let_def u hd)
  have "Suc ?h mod ?n < ?n" using h(2) by simp
  then have "msgq_ok ?q"
    using ok u hd by (auto simp: msgq_ok_def msgq_load_def Let_def word_le_nat_alt word_less_nat_alt mod_add_left_eq)
  moreover have "fst (msgq_load q) = msgq_slot q ?h"
    by (simp add: msgq_load_def Let_def msgq_slot_def slot_offset [OF ok h(1)])
  ultimately show ?thesis using c
    by (intro exI [of _ ?q]) (simp add: prod_eq_iff, simp add: msgq_load_def Let_def)
qed

lemma msgq_used: "msgq_ok q \<Longrightarrow> (q_used q < q_max_msgs q \<longleftrightarrow> length (msgq_content q) < unat (q_max_msgs q)) \<and>
    (q_used q > 0 \<longleftrightarrow> msgq_content q \<noteq> [])"
  by (auto simp: msgq_content_def ring_content_def word_less_nat_alt)

interpretation mq: bounded_fifo msgq_ok msgq_elem msgq_content "\<lambda>q. unat (q_max_msgs q)" msgq_push msgq_pop
proof unfold_locales
  fix q assume "msgq_ok q"
  then show "length (msgq_content q) \<le> unat (q_max_msgs q)"
    by (simp add: msgq_content_def msgq_ok_def word_le_nat_alt)
next
  fix q x assume a: "msgq_ok q" "msgq_elem q x" "length (msgq_content q) < unat (q_max_msgs q)"
  then have "q_used q < q_max_msgs q" using msgq_used by blast
  with msgq_store_spec [OF a(1,2) this]
  show "\<exists>q'. msgq_push x q = (True, q') \<and> msgq_ok q' \<and> msgq_content q' = msgq_content q @ [x] \<and>
      unat (q_max_msgs q') = unat (q_max_msgs q) \<and> msgq_elem q' = msgq_elem q"
    by (auto simp: msgq_push_def) (auto simp: msgq_store_def Let_def msgq_elem_def fun_eq_iff)
next
  fix q x assume "msgq_ok q" "length (msgq_content q) = unat (q_max_msgs q)"
  then show "\<exists>q'. msgq_push x q = (False, q') \<and> msgq_ok q' \<and> msgq_content q' = msgq_content q \<and>
      unat (q_max_msgs q') = unat (q_max_msgs q) \<and> msgq_elem q' = msgq_elem q"
    using msgq_used [of q] by (simp add: msgq_push_def)
next
  fix q x xs assume a: "msgq_ok q" "msgq_content q = x # xs"
  then have "q_used q > 0" using msgq_used by fastforce
  with msgq_load_spec [OF a(1) this] a(2)
  show "\<exists>q'. msgq_pop q = (Some x, q') \<and> msgq_ok q' \<and> msgq_content q' = xs \<and>
      unat (q_max_msgs q') = unat (q_max_msgs q) \<and> msgq_elem q' = msgq_elem q"
    by (auto simp: msgq_pop_def msgq_elem_def fun_eq_iff)
next
  fix q assume "msgq_ok q" "msgq_content q = []"
  then show "msgq_pop q = (None, q)" using msgq_used [of q] by (simp add: msgq_pop_def)
qed

section \<open>The queue in the kernel\<close>

definition msgq_rep :: "kstate \<Rightarrow> vibe_msgq_t \<Rightarrow> u8 list list \<Rightarrow> tid list \<Rightarrow> tid list \<Rightarrow> bool" where
  "msgq_rep s q xs R V \<longleftrightarrow>
     msgq_ok q \<and> msgq_content q = xs \<and> wait_rep s (q_read_wait q) R \<and> wait_rep s (q_write_wait q) V \<and> set R \<inter> set V = {}"

lemma msgq_waits [simp]:
  "q_read_wait (msgq_store x q) = q_read_wait q" "q_write_wait (msgq_store x q) = q_write_wait q"
  "q_max_msgs (msgq_store x q) = q_max_msgs q" "q_msg_size (msgq_store x q) = q_msg_size q"
  by (simp_all add: msgq_store_def Let_def)

lemma msgq_load_waits:
  "msgq_load q = (b, q') \<Longrightarrow> q_read_wait q' = q_read_wait q \<and> q_write_wait q' = q_write_wait q"
  by (auto simp: msgq_load_def Let_def)

lemma msgq_wait_upd [simp]:
  "msgq_ok (q\<lparr>q_read_wait := l\<rparr>) = msgq_ok q" "msgq_ok (q\<lparr>q_write_wait := l\<rparr>) = msgq_ok q"
  "msgq_content (q\<lparr>q_read_wait := l\<rparr>) = msgq_content q" "msgq_content (q\<lparr>q_write_wait := l\<rparr>) = msgq_content q"
  by (simp_all add: msgq_ok_def msgq_content_def msgq_slot_def fun_eq_iff ring_content_def)

text \<open>The tail of a call that woke the head of one list: interrupts back, then reschedule.\<close>

lemma wake_and_reschedule:
  assumes inv: "kernel_inv s" and l: "wait_rep s l W" and m: "wait_rep s m V" and disj: "set W \<inter> set V = {}"
    and run: "wake_head l (s\<lparr>PRIMASK := 1\<rparr>) = (r, l', s')"
  shows "kernel_inv (vibe_sched_reschedule cfg (s'\<lparr>PRIMASK := PRIMASK s\<rparr>))"
    "wait_rep (vibe_sched_reschedule cfg (s'\<lparr>PRIMASK := PRIMASK s\<rparr>)) l' (tl W)"
    "wait_rep (vibe_sched_reschedule cfg (s'\<lparr>PRIMASK := PRIMASK s\<rparr>)) m V"
    "PRIMASK (vibe_sched_reschedule cfg (s'\<lparr>PRIMASK := PRIMASK s\<rparr>)) = PRIMASK s"
    "W = t # W' \<Longrightarrow> runnable (vibe_sched_reschedule cfg (s'\<lparr>PRIMASK := PRIMASK s\<rparr>)) t"
proof -
  have p: "kernel_inv (s\<lparr>PRIMASK := 1\<rparr>)" "wait_rep (s\<lparr>PRIMASK := 1\<rparr>) l W" "wait_rep (s\<lparr>PRIMASK := 1\<rparr>) m V"
    using inv l m by simp_all
  note w = wq.wake_rep [OF p(1,2) run]
  have "wait_rep s' m V" using wq.wake_other [OF p(1,2) run p(3)] disj by blast
  with w show "kernel_inv (vibe_sched_reschedule cfg (s'\<lparr>PRIMASK := PRIMASK s\<rparr>))"
    "wait_rep (vibe_sched_reschedule cfg (s'\<lparr>PRIMASK := PRIMASK s\<rparr>)) l' (tl W)"
    "wait_rep (vibe_sched_reschedule cfg (s'\<lparr>PRIMASK := PRIMASK s\<rparr>)) m V"
    by (auto intro: reschedule_keeps reschedule_wait_rep)
  show "PRIMASK (vibe_sched_reschedule cfg (s'\<lparr>PRIMASK := PRIMASK s\<rparr>)) = PRIMASK s" by (simp add: frame_simps)
  show "runnable (vibe_sched_reschedule cfg (s'\<lparr>PRIMASK := PRIMASK s\<rparr>)) t" if "W = t # W'"
  proof -
    have "tstate s' t = VIBE_THREAD_READY"
      using run w(1) that by (auto simp: wake_head_def frame_simps split: prod.splits option.splits)
    then show ?thesis by (auto simp: reschedule_tstate)
  qed
qed

lemma wake_all_rep:
  assumes "kernel_inv s" "wait_rep s l W" "wait_rep s m V" "set W \<inter> set V = {}"
  shows "\<exists>l' s'. wake_all l s = Some (l', s') \<and> kernel_inv s' \<and> wait_rep s' l' [] \<and> wait_rep s' m V \<and> PRIMASK s' = PRIMASK s"
  using assms
proof (induction W arbitrary: s l)
  case Nil
  then have "l_head l = None" by (simp add: wait_rep_def dll_def)
  then have "wake_head l s = (None, l, s)" by (simp add: wake_head_def vibe_list_get_head_def)
  with Nil show ?case by (subst wake_all.simps) simp
next
  case (Cons t W)
  obtain r l1 s1 where w: "wake_head l s = (r, l1, s1)" by (cases "wake_head l s")
  have k: "r = Some t" "kernel_inv s1" "wait_rep s1 l1 W" using wq.wake_law [OF Cons.prems(1,2) w] by auto
  have "wait_rep s1 m V" using wq.wake_other [OF Cons.prems(1,2) w Cons.prems(3)] Cons.prems(4) by blast
  moreover have "PRIMASK s1 = PRIMASK s"
    using w by (auto simp: wake_head_def frame_simps split: prod.splits option.splits)
  ultimately show ?case using Cons.IH [OF k(2,3)] Cons.prems(4) w k(1) by (subst wake_all.simps) auto
qed

section \<open>Properties\<close>



text \<open>
  C13: a put with room appends the message, wakes the longest waiting reader and leaves the writers alone;
  the kernel invariant and the interrupt mask are kept.
\<close>

theorem msgq_put_delivers:
  assumes "kernel_inv s" "msgq_rep s q xs R V" "length data = unat (q_msg_size q)" "length xs < unat (q_max_msgs q)"
  shows "\<exists>q' s'. vibe_msgq_put cfg (Some q) (Some data) timeout s = Some (Return VIBE_OK, Some q', s') \<and>
    msgq_rep s' q' (xs @ [data]) (tl R) V \<and> kernel_inv s' \<and> PRIMASK s' = PRIMASK s \<and>
    (\<forall>t W. R = t # W \<longrightarrow> runnable s' t)"
proof -
  have rep: "msgq_ok q" "msgq_content q = xs" "wait_rep s (q_read_wait q) R" "wait_rep s (q_write_wait q) V" "set R \<inter> set V = {}"
    using assms(2) by (simp_all add: msgq_rep_def)
  have room: "q_used q < q_max_msgs q" using msgq_used [OF rep(1)] rep(2) assms(4) by simp
  obtain r wl s1 where w: "wake_head (q_read_wait q) (s\<lparr>PRIMASK := 1\<rparr>) = (r, wl, s1)"
    by (cases "wake_head (q_read_wait q) (s\<lparr>PRIMASK := 1\<rparr>)")
  note f = wake_and_reschedule [OF assms(1) rep(3-5) w]
  have st: "msgq_ok (msgq_store data q)" "msgq_content (msgq_store data q) = xs @ [data]"
    using msgq_store_spec [OF rep(1) _ room] assms(3) rep(2) by (simp_all add: msgq_elem_def)
  have disj: "set (tl R) \<inter> set V = {}" using rep(5) by (cases R) auto
  have "vibe_msgq_put cfg (Some q) (Some data) timeout s = Some (Return VIBE_OK, Some ((msgq_store data q)\<lparr>q_read_wait := wl\<rparr>),
      vibe_sched_reschedule cfg (s1\<lparr>PRIMASK := PRIMASK s\<rparr>))"
    using room w by (simp add: vibe_msgq_put_def arch_irq_lock_def arch_irq_unlock_def)
  moreover have "\<forall>t W. R = t # W \<longrightarrow> runnable (vibe_sched_reschedule cfg (s1\<lparr>PRIMASK := PRIMASK s\<rparr>)) t"
    using f(5) by blast
  ultimately show ?thesis using f(1-4) st disj by (simp add: msgq_rep_def)
qed

theorem msgq_put_delivers_witness:
  "\<exists>q' s'. vibe_msgq_put demo_cfg (Some \<lparr>q_buffer = \<lambda>_. 0, q_msg_size = 2, q_max_msgs = 2, q_head = 1, q_tail = 1, q_used = 0,
       q_read_wait = vibe_list_init, q_write_wait = vibe_list_init\<rparr>) (Some [1, 2]) VIBE_NO_WAIT demo_state =
     Some (Return VIBE_OK, Some q', s') \<and> msgq_content q' = [[1, 2]]"
  using msgq_put_delivers [of demo_state "\<lparr>q_buffer = \<lambda>_. 0, q_msg_size = 2, q_max_msgs = 2, q_head = 1, q_tail = 1, q_used = 0,
       q_read_wait = vibe_list_init, q_write_wait = vibe_list_init\<rparr>" "[]" "[]" "[]" "[1, 2]" demo_cfg VIBE_NO_WAIT]
  by (auto simp: msgq_rep_def msgq_ok_def msgq_content_def demo_state_facts)

text \<open>
  A purge always returns: it empties the queue and makes every waiting writer schedulable, one after the
  other, while the waiting readers stay.
\<close>

theorem msgq_purge_empties:
  assumes "kernel_inv s" "msgq_rep s q xs R V"
  shows "\<exists>q' s'. vibe_msgq_purge cfg (Some q) s = Some (Some q', s') \<and> msgq_rep s' q' [] R [] \<and>
    kernel_inv s' \<and> PRIMASK s' = PRIMASK s"
proof -
  let ?q = "q\<lparr>q_head := 0, q_tail := 0, q_used := 0\<rparr>"
  have rep: "msgq_ok q" "wait_rep s (q_read_wait q) R" "wait_rep s (q_write_wait q) V" "set R \<inter> set V = {}"
    using assms(2) by (simp_all add: msgq_rep_def)
  have "\<exists>l' s'. wake_all (q_write_wait q) (s\<lparr>PRIMASK := 1\<rparr>) = Some (l', s') \<and> kernel_inv s' \<and> wait_rep s' l' [] \<and>
      wait_rep s' (q_read_wait q) R \<and> PRIMASK s' = 1"
    using wake_all_rep [of "s\<lparr>PRIMASK := 1\<rparr>" "q_write_wait q" V "q_read_wait q" R] assms(1) rep by auto
  then obtain l' s1 where w: "wake_all (q_write_wait q) (s\<lparr>PRIMASK := 1\<rparr>) = Some (l', s1)" "kernel_inv s1"
      "wait_rep s1 l' []" "wait_rep s1 (q_read_wait q) R" by blast
  let ?s2 = "vibe_sched_reschedule cfg (s1\<lparr>PRIMASK := PRIMASK s\<rparr>)"
  have run: "vibe_msgq_purge cfg (Some q) s = Some (Some (?q\<lparr>q_write_wait := l'\<rparr>), ?s2)"
    using w(1) by (simp add: vibe_msgq_purge_def arch_irq_lock_def arch_irq_unlock_def Let_def)
  have "kernel_inv ?s2" "wait_rep ?s2 l' []" "wait_rep ?s2 (q_read_wait q) R"
    using w(2-4) by (auto intro: reschedule_keeps reschedule_wait_rep)
  moreover have "msgq_ok ?q" "msgq_content ?q = []" using rep(1) by (auto simp: msgq_ok_def msgq_content_def)
  ultimately show ?thesis using run by (auto simp: msgq_rep_def frame_simps)
qed

theorem msgq_purge_empties_witness:
  "\<exists>q' s'. vibe_msgq_purge demo_cfg (Some \<lparr>q_buffer = \<lambda>_. 9, q_msg_size = 2, q_max_msgs = 2, q_head = 1, q_tail = 0, q_used = 1,
       q_read_wait = vibe_list_init, q_write_wait = vibe_list_init\<rparr>) demo_state = Some (Some q', s') \<and> msgq_content q' = []"
  using msgq_purge_empties [of demo_state "\<lparr>q_buffer = \<lambda>_. 9, q_msg_size = 2, q_max_msgs = 2, q_head = 1, q_tail = 0, q_used = 1,
       q_read_wait = vibe_list_init, q_write_wait = vibe_list_init\<rparr>" _ "[]" "[]" demo_cfg]
  by (auto simp: msgq_rep_def msgq_ok_def demo_state_facts)

end
