(* ===== verification/Vibe_Pipe.thy ===== *)
theory Vibe_Pipe
  imports Vibe_Msgq
begin

text \<open>
  The byte pipe (\<^verbatim>\<open>kernel/pipe.c\<close>). A write or a read is a loop whose iterations end in
  \<^verbatim>\<open>_vibe_sched_reschedule()\<close>, where other threads may run and use the pipe: one iteration is one
  definition, and the loop takes what happens at its \<open>k\<close>-th reschedule as an argument \<open>env k\<close>. The
  loop may not end, so its result is optional.
\<close>

section \<open>Operations\<close>

record vibe_pipe_t =
  p_buf :: "nat \<Rightarrow> u8"
  p_size :: u32
  p_head :: u32
  p_tail :: u32
  p_used :: u32
  p_read_wait :: "tid vibe_list"
  p_write_wait :: "tid vibe_list"

definition vibe_pipe_init ::
    "vibe_pipe_t option \<Rightarrow> (nat \<Rightarrow> u8) option \<Rightarrow> u32 \<Rightarrow> vibe_err_t \<times> vibe_pipe_t option" where
  "vibe_pipe_init pipe buf sz =
     (case (pipe, buf) of
        (Some p, Some b) \<Rightarrow>
          if sz = 0 then (VIBE_EINVAL, Some p)
          else (VIBE_OK, Some \<lparr>p_buf = b, p_size = sz, p_head = 0, p_tail = 0, p_used = 0,
                               p_read_wait = vibe_list_init, p_write_wait = vibe_list_init\<rparr>)
      | _ \<Rightarrow> (VIBE_EINVAL, pipe))"

text \<open>The copying loops, byte by byte.\<close>

primrec pipe_fill :: "u8 list \<Rightarrow> vibe_pipe_t \<Rightarrow> vibe_pipe_t" where
  "pipe_fill [] p = p"
| "pipe_fill (b # bs) p =
     pipe_fill bs (p\<lparr>p_buf := (p_buf p)(unat (p_tail p) := b), p_tail := (p_tail p + 1) mod p_size p\<rparr>)"

primrec pipe_drain :: "nat \<Rightarrow> vibe_pipe_t \<Rightarrow> u8 list \<times> vibe_pipe_t" where
  "pipe_drain 0 p = ([], p)"
| "pipe_drain (Suc n) p =
     (let b = p_buf p (unat (p_head p));
          (bs, p) = pipe_drain n (p\<lparr>p_head := (p_head p + 1) mod p_size p\<rparr>)
      in (b # bs, p))"

datatype iter = IterNext | IterBreak

definition pipe_write_iter ::
    "kconfig \<Rightarrow> vibe_tick_t \<Rightarrow> vibe_tick_t \<Rightarrow> u8 list \<Rightarrow> u32 \<Rightarrow> u32 \<Rightarrow> vibe_pipe_t \<Rightarrow> kstate \<Rightarrow>
     (iter \<times> u32 \<times> vibe_pipe_t \<times> kstate) option" where
  "pipe_write_iter cfg timeout deadline data len written p s =
     (let (key, s) = arch_irq_lock s;
          space = p_size p - p_used p
      in if space > 0 then
           (let to_write = (if len - written < space then len - written else space);
                p = pipe_fill (take (unat to_write) (drop (unat written) data)) p;
                p = p\<lparr>p_used := p_used p + to_write\<rparr>;
                written = written + to_write;
                (rn, wl, s) = wake_head (p_read_wait p) s;
                p = p\<lparr>p_read_wait := wl\<rparr>;
                s = arch_irq_unlock key s
            in Some (IterNext, written, p, vibe_sched_reschedule cfg s))
         else if timeout = VIBE_NO_WAIT then Some (IterBreak, written, p, arch_irq_unlock key s)
         else if deadline \<noteq> VIBE_WAIT_FOREVER \<and> vibe_tick_get s \<ge> deadline
         then Some (IterBreak, written, p, arch_irq_unlock key s)
         else case vibe_thread_self s of
                None \<Rightarrow> None
              | Some self \<Rightarrow>
                  (let (wl, s) = block_on cfg key self deadline (p_write_wait p) s
                   in Some (IterNext, written, p\<lparr>p_write_wait := wl\<rparr>, s)))"

type_synonym pipe_env = "nat \<Rightarrow> vibe_pipe_t \<times> kstate \<Rightarrow> vibe_pipe_t \<times> kstate"

partial_function (option) pipe_write_loop ::
    "kconfig \<Rightarrow> pipe_env \<Rightarrow> vibe_tick_t \<Rightarrow> vibe_tick_t \<Rightarrow> u8 list \<Rightarrow> u32 \<Rightarrow> nat \<Rightarrow> u32 \<Rightarrow> vibe_pipe_t \<Rightarrow> kstate \<Rightarrow>
     (u32 \<times> vibe_pipe_t \<times> kstate) option" where
  "pipe_write_loop cfg env timeout deadline data len k written p s =
     (if written < len then
        do { (r, written, p, s) \<leftarrow> pipe_write_iter cfg timeout deadline data len written p s;
             (case r of
                IterBreak \<Rightarrow> Some (written, p, s)
              | IterNext \<Rightarrow>
                  (let (p, s) = env k (p, s)
                   in pipe_write_loop cfg env timeout deadline data len (Suc k) written p s)) }
      else Some (written, p, s))"

definition vibe_pipe_write ::
    "kconfig \<Rightarrow> pipe_env \<Rightarrow> vibe_pipe_t option \<Rightarrow> u8 list option \<Rightarrow> u32 \<Rightarrow> vibe_tick_t \<Rightarrow> kstate \<Rightarrow>
     (int \<times> vibe_pipe_t option \<times> kstate) option" where
  "vibe_pipe_write cfg env pipe data len timeout s =
     (case (pipe, data) of
        (Some p, Some src) \<Rightarrow>
          do { (written, p, s) \<leftarrow> pipe_write_loop cfg env timeout (wait_deadline timeout s) src len 0 0 p s;
               Some (sint written, Some p, s) }
      | _ \<Rightarrow> Some (err_code VIBE_EINVAL, pipe, s))"

definition pipe_read_iter ::
    "kconfig \<Rightarrow> vibe_tick_t \<Rightarrow> vibe_tick_t \<Rightarrow> u32 \<Rightarrow> u32 \<Rightarrow> u8 list \<Rightarrow> vibe_pipe_t \<Rightarrow> kstate \<Rightarrow>
     (iter \<times> u32 \<times> u8 list \<times> vibe_pipe_t \<times> kstate) option" where
  "pipe_read_iter cfg timeout deadline len read_cnt dst p s =
     (let (key, s) = arch_irq_lock s in
      if p_used p > 0 then
        (let avail = p_used p;
             to_read = (if len - read_cnt < avail then len - read_cnt else avail);
             (bs, p) = pipe_drain (unat to_read) p;
             p = p\<lparr>p_used := p_used p - to_read\<rparr>;
             read_cnt = read_cnt + to_read;
             (wn, wl, s) = wake_head (p_write_wait p) s;
             p = p\<lparr>p_write_wait := wl\<rparr>;
             s = arch_irq_unlock key s
         in Some (IterNext, read_cnt, dst @ bs, p, vibe_sched_reschedule cfg s))
      else if timeout = VIBE_NO_WAIT \<or> read_cnt > 0 then Some (IterBreak, read_cnt, dst, p, arch_irq_unlock key s)
      else if deadline \<noteq> VIBE_WAIT_FOREVER \<and> vibe_tick_get s \<ge> deadline
      then Some (IterBreak, read_cnt, dst, p, arch_irq_unlock key s)
      else case vibe_thread_self s of
             None \<Rightarrow> None
           | Some self \<Rightarrow>
               (let (wl, s) = block_on cfg key self deadline (p_read_wait p) s
                in Some (IterNext, read_cnt, dst, p\<lparr>p_read_wait := wl\<rparr>, s)))"

partial_function (option) pipe_read_loop ::
    "kconfig \<Rightarrow> pipe_env \<Rightarrow> vibe_tick_t \<Rightarrow> vibe_tick_t \<Rightarrow> u32 \<Rightarrow> nat \<Rightarrow> u32 \<Rightarrow> u8 list \<Rightarrow> vibe_pipe_t \<Rightarrow> kstate \<Rightarrow>
     (u32 \<times> u8 list \<times> vibe_pipe_t \<times> kstate) option" where
  "pipe_read_loop cfg env timeout deadline len k read_cnt dst p s =
     (if read_cnt < len then
        do { (r, read_cnt, dst, p, s) \<leftarrow> pipe_read_iter cfg timeout deadline len read_cnt dst p s;
             (case r of
                IterBreak \<Rightarrow> Some (read_cnt, dst, p, s)
              | IterNext \<Rightarrow>
                  (let (p, s) = env k (p, s)
                   in pipe_read_loop cfg env timeout deadline len (Suc k) read_cnt dst p s)) }
      else Some (read_cnt, dst, p, s))"

text \<open>The flag says whether the destination pointer is not \<^verbatim>\<open>NULL\<close>; the bytes read are returned.\<close>

definition vibe_pipe_read ::
    "kconfig \<Rightarrow> pipe_env \<Rightarrow> vibe_pipe_t option \<Rightarrow> bool \<Rightarrow> u32 \<Rightarrow> vibe_tick_t \<Rightarrow> kstate \<Rightarrow>
     (int \<times> u8 list \<times> vibe_pipe_t option \<times> kstate) option" where
  "vibe_pipe_read cfg env pipe buf len timeout s =
     (case pipe of
        Some p \<Rightarrow>
          if \<not> buf then Some (err_code VIBE_EINVAL, [], Some p, s)
          else do { (n, dst, p, s) \<leftarrow> pipe_read_loop cfg env timeout (wait_deadline timeout s) len 0 0 [] p s;
                    Some (sint n, dst, Some p, s) }
      | None \<Rightarrow> Some (err_code VIBE_EINVAL, [], None, s))"

definition vibe_pipe_available_read :: "vibe_pipe_t option \<Rightarrow> u32" where
  "vibe_pipe_available_read pipe = (case pipe of Some p \<Rightarrow> p_used p | None \<Rightarrow> 0)"

definition vibe_pipe_available_write :: "vibe_pipe_t option \<Rightarrow> u32" where
  "vibe_pipe_available_write pipe = (case pipe of Some p \<Rightarrow> p_size p - p_used p | None \<Rightarrow> 0)"

section \<open>The byte ring\<close>

definition pipe_ok :: "vibe_pipe_t \<Rightarrow> bool" where
  "pipe_ok p \<longleftrightarrow>
     p_head p < p_size p \<and> p_used p \<le> p_size p \<and>
     unat (p_tail p) = (unat (p_head p) + unat (p_used p)) mod unat (p_size p)"

definition pipe_content :: "vibe_pipe_t \<Rightarrow> u8 list" where
  "pipe_content p = ring_content (p_buf p) (unat (p_size p)) (unat (p_head p)) (unat (p_used p))"

lemma pipe_fill_frame [simp]:
  "p_size (pipe_fill bs p) = p_size p" "p_head (pipe_fill bs p) = p_head p" "p_used (pipe_fill bs p) = p_used p"
  "p_read_wait (pipe_fill bs p) = p_read_wait p" "p_write_wait (pipe_fill bs p) = p_write_wait p"
  by (induction bs arbitrary: p) simp_all

lemma pipe_fill_ring:
  assumes "unat (p_tail p) = (unat (p_head p) + u) mod unat (p_size p)" "u + length bs \<le> unat (p_size p)" "0 < p_size p"
  shows "ring_content (p_buf (pipe_fill bs p)) (unat (p_size p)) (unat (p_head p)) (u + length bs) =
           ring_content (p_buf p) (unat (p_size p)) (unat (p_head p)) u @ bs \<and>
         unat (p_tail (pipe_fill bs p)) = (unat (p_head p) + u + length bs) mod unat (p_size p)"
  using assms
proof (induction bs arbitrary: p u)
  case Nil
  then show ?case by simp
next
  case (Cons b bs)
  let ?p = "p\<lparr>p_buf := (p_buf p)(unat (p_tail p) := b), p_tail := (p_tail p + 1) mod p_size p\<rparr>"
  have "p_tail p < p_size p" using Cons.prems(1,3) by (simp add: word_less_nat_alt)
  from next_slot [OF this] have tl: "unat (p_tail ?p) = (unat (p_head ?p) + Suc u) mod unat (p_size ?p)"
    using Cons.prems(1) by (simp add: mod_Suc_eq)
  have push: "ring_content (p_buf ?p) (unat (p_size p)) (unat (p_head p)) (Suc u) =
      ring_content (p_buf p) (unat (p_size p)) (unat (p_head p)) u @ [b]"
    using ring_push [of u "unat (p_size p)" "p_buf p" "unat (p_head p)" b] Cons.prems(1,2) by simp
  from Cons.IH [of ?p "Suc u", OF tl] Cons.prems(2,3) push show ?case by (simp del: fun_upd_apply)
qed

lemma pipe_drain_frame:
  "pipe_drain n p = (bs, p') \<Longrightarrow> p_size p' = p_size p \<and> p_buf p' = p_buf p \<and> p_tail p' = p_tail p \<and> p_used p' = p_used p \<and>
     p_read_wait p' = p_read_wait p \<and> p_write_wait p' = p_write_wait p"
  by (induction n arbitrary: p bs) (auto simp: Let_def split: prod.splits)

lemma pipe_drain_ring:
  assumes "p_head p < p_size p" "pipe_drain n p = (bs, p')"
  shows "ring_content (p_buf p) (unat (p_size p)) (unat (p_head p)) (n + u) =
           bs @ ring_content (p_buf p) (unat (p_size p)) (unat (p_head p')) u \<and> length bs = n \<and>
         unat (p_head p') = (unat (p_head p) + n) mod unat (p_size p) \<and> p_head p' < p_size p"
  using assms
proof (induction n arbitrary: p bs)
  case 0
  then show ?case by (simp add: word_less_nat_alt)
next
  case (Suc n)
  let ?p = "p\<lparr>p_head := (p_head p + 1) mod p_size p\<rparr>"
  have h: "unat (p_head p) < unat (p_size p)" using Suc.prems(1) by (simp add: word_less_nat_alt)
  have hd: "unat (p_head ?p) = Suc (unat (p_head p)) mod unat (p_size p)" using next_slot [OF Suc.prems(1)] by simp
  then have "p_head ?p < p_size ?p" using h by (simp add: word_less_nat_alt)
  moreover obtain cs where d: "pipe_drain n ?p = (cs, p')" "bs = p_buf p (unat (p_head p)) # cs"
    using Suc.prems(2) by (auto simp: Let_def split: prod.splits)
  ultimately have IH: "ring_content (p_buf p) (unat (p_size p)) (unat (p_head ?p)) (n + u) =
           cs @ ring_content (p_buf p) (unat (p_size p)) (unat (p_head p')) u" "length cs = n"
         "unat (p_head p') = (unat (p_head ?p) + n) mod unat (p_size p)" "p_head p' < p_size p"
    using Suc.IH [of ?p cs] by simp_all
  have "(Suc (unat (p_head p)) mod unat (p_size p) + n) mod unat (p_size p) = (unat (p_head p) + Suc n) mod unat (p_size p)"
    by (simp only: mod_add_left_eq add_Suc add_Suc_right)
  then show ?case using ring_pop [OF h, of "p_buf p" "n + u"] IH d(2) hd by simp
qed

lemma pipe_fill_spec:
  assumes ok: "pipe_ok p" and len: "unat (p_used p) + length bs \<le> unat (p_size p)" "length bs = unat n"
  shows "pipe_ok ((pipe_fill bs p)\<lparr>p_used := p_used p + n\<rparr>)"
    "pipe_content ((pipe_fill bs p)\<lparr>p_used := p_used p + n\<rparr>) = pipe_content p @ bs"
proof -
  have sz: "0 < p_size p" using ok word_gt_0_no by (auto simp: pipe_ok_def word_less_nat_alt)
  have u: "unat (p_used p + n) = unat (p_used p) + length bs"
    using len u32_bound [of "p_size p"] by (subst unat_plus_u32) auto
  note r = pipe_fill_ring [of p "unat (p_used p)" bs]
  show "pipe_ok ((pipe_fill bs p)\<lparr>p_used := p_used p + n\<rparr>)"
    using ok len r sz u by (simp add: pipe_ok_def word_le_nat_alt add.assoc)
  show "pipe_content ((pipe_fill bs p)\<lparr>p_used := p_used p + n\<rparr>) = pipe_content p @ bs"
    using ok len r sz u by (simp add: pipe_ok_def pipe_content_def)
qed

lemma pipe_drain_spec:
  assumes ok: "pipe_ok p" and n: "n \<le> p_used p" and run: "pipe_drain (unat n) p = (bs, p')"
  shows "pipe_ok (p'\<lparr>p_used := p_used p - n\<rparr>)" "bs = take (unat n) (pipe_content p)"
    "pipe_content (p'\<lparr>p_used := p_used p - n\<rparr>) = drop (unat n) (pipe_content p)"
proof -
  have u: "unat (p_used p - n) = unat (p_used p) - unat n" "unat n \<le> unat (p_used p)"
    using n by (simp_all add: unat_minus_u32 word_le_nat_alt)
  have h: "p_head p < p_size p" using ok by (simp add: pipe_ok_def)
  note f = pipe_drain_frame [OF run] and r = pipe_drain_ring [OF h run, of "unat (p_used p) - unat n"]
  have c: "pipe_content p = bs @ pipe_content (p'\<lparr>p_used := p_used p - n\<rparr>)" "length bs = unat n"
    using r f u by (simp_all add: pipe_content_def)
  then show "bs = take (unat n) (pipe_content p)"
    "pipe_content (p'\<lparr>p_used := p_used p - n\<rparr>) = drop (unat n) (pipe_content p)" by simp_all
  have "((unat (p_head p) + unat n) mod unat (p_size p) + (unat (p_used p) - unat n)) mod unat (p_size p) =
      (unat (p_head p) + unat (p_used p)) mod unat (p_size p)"
    unfolding mod_add_left_eq using u(2) by simp
  moreover have "p_used p - n \<le> p_size p" using ok u by (auto simp: pipe_ok_def word_le_nat_alt)
  ultimately show "pipe_ok (p'\<lparr>p_used := p_used p - n\<rparr>)" using r f u ok by (simp add: pipe_ok_def)
qed

lemma pipe_wait_upd [simp]:
  "pipe_ok (p\<lparr>p_read_wait := l\<rparr>) = pipe_ok p" "pipe_ok (p\<lparr>p_write_wait := l\<rparr>) = pipe_ok p"
  "pipe_content (p\<lparr>p_read_wait := l\<rparr>) = pipe_content p" "pipe_content (p\<lparr>p_write_wait := l\<rparr>) = pipe_content p"
  by (simp_all add: pipe_ok_def pipe_content_def)

definition pipe_push :: "u8 \<Rightarrow> vibe_pipe_t \<Rightarrow> bool \<times> vibe_pipe_t" where
  "pipe_push b p = (if p_used p < p_size p then (True, (pipe_fill [b] p)\<lparr>p_used := p_used p + 1\<rparr>) else (False, p))"

definition pipe_pop :: "vibe_pipe_t \<Rightarrow> u8 option \<times> vibe_pipe_t" where
  "pipe_pop p =
     (if p_used p > 0 then (case pipe_drain 1 p of (bs, p') \<Rightarrow> (Some (hd bs), p'\<lparr>p_used := p_used p - 1\<rparr>)) else (None, p))"

lemma pipe_used:
  "length (pipe_content p) = unat (p_used p)"
  by (simp add: pipe_content_def)

interpretation pf: bounded_fifo pipe_ok "\<lambda>_ _. True" pipe_content "\<lambda>p. unat (p_size p)" pipe_push pipe_pop
proof unfold_locales
  fix p assume "pipe_ok p"
  then show "length (pipe_content p) \<le> unat (p_size p)" by (simp add: pipe_used pipe_ok_def word_le_nat_alt)
next
  fix p and x :: u8 assume a: "pipe_ok p" "length (pipe_content p) < unat (p_size p)"
  then have u: "unat (p_used p) + length [x] \<le> unat (p_size p)" "p_used p < p_size p"
    by (simp_all add: pipe_used word_less_nat_alt)
  from pipe_fill_spec [OF a(1) u(1), of 1] u(2)
  show "\<exists>q'. pipe_push x p = (True, q') \<and> pipe_ok q' \<and> pipe_content q' = pipe_content p @ [x] \<and>
      unat (p_size q') = unat (p_size p) \<and> (\<lambda>_. True) = (\<lambda>_. True)"
    by (simp add: pipe_push_def)
next
  fix p x assume "pipe_ok p" "length (pipe_content p) = unat (p_size p)"
  then show "\<exists>q'. pipe_push x p = (False, q') \<and> pipe_ok q' \<and> pipe_content q' = pipe_content p \<and>
      unat (p_size q') = unat (p_size p) \<and> (\<lambda>_. True) = (\<lambda>_. True)"
    by (simp add: pipe_used pipe_push_def word_less_nat_alt)
next
  fix p x xs assume a: "pipe_ok p" "pipe_content p = x # xs"
  then have u: "(1 :: u32) \<le> p_used p" "p_used p > 0"
    using pipe_used [of p] by (auto simp: word_le_nat_alt word_less_nat_alt)
  obtain bs p' where d: "pipe_drain 1 p = (bs, p')" by force
  from pipe_drain_spec [OF a(1) u(1)] d a(2) u(2) pipe_drain_frame [OF d]
  show "\<exists>q'. pipe_pop p = (Some x, q') \<and> pipe_ok q' \<and> pipe_content q' = xs \<and>
      unat (p_size q') = unat (p_size p) \<and> (\<lambda>_. True) = (\<lambda>_. True)"
    by (auto simp: pipe_pop_def)
next
  fix p assume "pipe_ok p" "pipe_content p = []"
  then show "pipe_pop p = (None, p)" using pipe_used [of p] by (simp add: pipe_pop_def word_less_nat_alt)
qed

section \<open>Iterations and loops\<close>

lemma write_iter_spec:
  assumes ok: "pipe_ok p" and w: "written < len" "unat len \<le> length data" and room: "p_used p < p_size p"
  defines "n \<equiv> min (unat len - unat written) (unat (p_size p) - unat (p_used p))"
  shows "\<exists>p' s'. pipe_write_iter cfg timeout deadline data len written p s =
      Some (IterNext, written + of_nat n, p', s') \<and> pipe_ok p' \<and> n > 0 \<and> unat written + n \<le> unat len \<and>
      pipe_content p' = pipe_content p @ take n (drop (unat written) data) \<and> p_size p' = p_size p"
proof -
  have nn: "n > 0" "unat written + n \<le> unat len" "unat (p_used p) + n \<le> unat (p_size p)"
    using w(1) room by (auto simp: n_def word_less_nat_alt)
  have le: "written \<le> len" "p_used p \<le> p_size p" using w(1) room by (simp_all add: less_imp_le)
  let ?tw = "if len - written < p_size p - p_used p then len - written else p_size p - p_used p"
  have tw: "unat ?tw = n"
    using le by (auto simp: n_def min_def unat_minus_u32 word_less_nat_alt)
  moreover have "n < 2 ^ 32" using nn(2) u32_bound [of len] by simp
  ultimately have tw': "?tw = of_nat n" by (simp only: word_unat_eq_iff unat_of_nat_u32)
  have sp: "p_size p - p_used p > 0" using room le by (simp add: word_less_nat_alt unat_minus_u32)
  let ?bs = "take n (drop (unat written) data)"
  have len: "length ?bs = unat ?tw" "unat (p_used p) + length ?bs \<le> unat (p_size p)" using nn w(2) tw by auto
  obtain r wl s1 where wk: "wake_head (p_read_wait p) (s\<lparr>PRIMASK := 1\<rparr>) = (r, wl, s1)"
    by (cases "wake_head (p_read_wait p) (s\<lparr>PRIMASK := 1\<rparr>)")
  let ?p = "((pipe_fill ?bs p)\<lparr>p_used := p_used p + ?tw\<rparr>)"
  have "pipe_write_iter cfg timeout deadline data len written p s =
      Some (IterNext, written + ?tw, ?p\<lparr>p_read_wait := wl\<rparr>, vibe_sched_reschedule cfg (s1\<lparr>PRIMASK := PRIMASK s\<rparr>))"
    using sp wk tw unfolding pipe_write_iter_def arch_irq_lock_def arch_irq_unlock_def by (simp add: Let_def split del: if_split)
  then show ?thesis using pipe_fill_spec [OF ok len(2,1)] nn tw' by simp
qed

text \<open>
  The writer's loop without waiting returns whatever the other threads do to the pipe in between, as long
  as they leave it well formed: every iteration with room makes progress.
\<close>

lemma write_loop_returns:
  assumes "pipe_ok p" "unat len \<le> length data" "\<And>k p s. pipe_ok p \<Longrightarrow> pipe_ok (fst (env k (p, s)))"
  shows "\<exists>r. pipe_write_loop cfg env VIBE_NO_WAIT deadline data len k written p s = Some r"
  using assms(1)
proof (induction "unat len - unat written" arbitrary: written k p s rule: less_induct)
  case less
  show ?case
  proof (cases "written < len")
    case False
    then show ?thesis by (subst pipe_write_loop.simps) simp
  next
    case w: True
    show ?thesis
    proof (cases "p_used p < p_size p")
      case True
      let ?n = "min (unat len - unat written) (unat (p_size p) - unat (p_used p))"
      obtain p' s' where it: "pipe_write_iter cfg VIBE_NO_WAIT deadline data len written p s =
          Some (IterNext, written + of_nat ?n, p', s')" "pipe_ok p'" "?n > 0" "unat written + ?n \<le> unat len"
        using write_iter_spec [OF less.prems w assms(2) True] by blast
      have "unat (of_nat ?n :: u32) = ?n" using it(4) u32_bound [of len] by (intro unat_of_nat_u32) linarith
      then have "unat (written + of_nat ?n) = unat written + ?n"
        using it(4) u32_bound [of len] by (subst unat_plus_u32) auto
      then have dec: "unat len - unat (written + of_nat ?n) < unat len - unat written" using it(3,4) by linarith
      obtain p2 s2 where e: "env k (p', s') = (p2, s2)" by force
      have "pipe_ok p2" using assms(3) [OF it(2), of k s'] e by simp
      from less.hyps [OF dec this] it(1) e w show ?thesis by (subst pipe_write_loop.simps) (simp add: Let_def)
    next
      case False
      then have "p_size p - p_used p = 0" using less.prems by (simp add: pipe_ok_def)
      then show ?thesis using w by (subst pipe_write_loop.simps) (simp add: pipe_write_iter_def arch_irq_lock_def)
    qed
  qed
qed

lemma write_undisturbed:
  assumes "pipe_ok p" "unat len \<le> length data"
  shows "\<exists>p' s'. pipe_write_loop cfg (\<lambda>_ c. c) VIBE_NO_WAIT deadline data len 0 0 p s =
      Some (of_nat (min (unat len) (unat (p_size p) - unat (p_used p))), p', s') \<and> pipe_ok p' \<and>
      pipe_content p' = pipe_content p @ take (min (unat len) (unat (p_size p) - unat (p_used p))) data"
proof -
  let ?n = "min (unat len) (unat (p_size p) - unat (p_used p))"
  have stop: "pipe_write_loop cfg (\<lambda>_ c. c) VIBE_NO_WAIT deadline data len k w p s = Some (w, p, s)"
    if "\<not> w < len \<or> p_used p = p_size p" for k w p s
    using that by (subst pipe_write_loop.simps) (auto simp: pipe_write_iter_def arch_irq_lock_def arch_irq_unlock_def)
  show ?thesis
  proof (cases "0 < len \<and> p_used p < p_size p")
    case False
    then have "\<not> 0 < len \<or> p_used p = p_size p" using assms(1) by (auto simp: pipe_ok_def)
    moreover have "?n = 0" using False by (auto simp: word_less_nat_alt)
    ultimately show ?thesis using stop [of 0 p 0 s] assms(1) by auto
  next
    case True
    then obtain p' s' where it: "pipe_write_iter cfg VIBE_NO_WAIT deadline data len 0 p s =
          Some (IterNext, of_nat ?n, p', s')" "pipe_ok p'" "pipe_content p' = pipe_content p @ take ?n data" "p_size p' = p_size p"
      using write_iter_spec [OF assms(1) _ assms(2), of 0 cfg VIBE_NO_WAIT deadline s] by auto
    have n: "unat (of_nat ?n :: u32) = ?n" using u32_bound [of len] by (intro unat_of_nat_u32) linarith
    have "length (pipe_content p') = unat (p_used p) + ?n" using it(3) assms(2) by (simp add: pipe_used)
    then have u: "unat (p_used p') = unat (p_used p) + ?n" by (simp add: pipe_used)
    have "\<not> of_nat ?n < len \<or> p_used p' = p_size p'"
    proof (cases "unat len \<le> unat (p_size p) - unat (p_used p)")
      case True
      then have "\<not> (of_nat ?n :: u32) < len" unfolding word_less_nat_alt n by simp
      then show ?thesis ..
    next
      case False
      then have "unat (p_used p') = unat (p_size p')" using u it(4) True by (simp add: word_less_nat_alt)
      then show ?thesis by (simp add: word_unat_eq_iff)
    qed
    from stop [OF this] it True show ?thesis by (subst pipe_write_loop.simps) (simp add: Let_def)
  qed
qed

section \<open>Properties\<close>



text \<open>
  A non-blocking write always returns, whatever the other threads do to a well-formed pipe at its
  rescheduling points; undisturbed, it stores the longest prefix that fits and returns its length.
\<close>

theorem pipe_write_nowait:
  assumes "pipe_ok p" "unat len \<le> length data" "\<forall>k p s. pipe_ok p \<longrightarrow> pipe_ok (fst (env k (p, s)))"
  shows "(\<exists>r. vibe_pipe_write cfg env (Some p) (Some data) len VIBE_NO_WAIT s = Some r) \<and>
    (\<exists>p' s'. vibe_pipe_write cfg (\<lambda>_ c. c) (Some p) (Some data) len VIBE_NO_WAIT s =
       Some (sint (of_nat (min (unat len) (unat (p_size p) - unat (p_used p))) :: u32), Some p', s') \<and> pipe_ok p' \<and>
       pipe_content p' = pipe_content p @ take (min (unat len) (unat (p_size p) - unat (p_used p))) data)"
  using write_loop_returns [OF assms(1,2), of env cfg "wait_deadline VIBE_NO_WAIT s" 0 0 s] assms(3)
    write_undisturbed [OF assms(1,2), of cfg "wait_deadline VIBE_NO_WAIT s" s]
  by (auto simp: vibe_pipe_write_def)

theorem pipe_write_nowait_witness:
  "\<exists>p' s'. vibe_pipe_write demo_cfg (\<lambda>_ c. c) (Some \<lparr>p_buf = \<lambda>_. 0, p_size = 4, p_head = 3, p_tail = 3, p_used = 0,
       p_read_wait = vibe_list_init, p_write_wait = vibe_list_init\<rparr>) (Some [1, 2, 3, 4, 5, 6]) 6 VIBE_NO_WAIT demo_state =
     Some (4, Some p', s') \<and> pipe_content p' = [1, 2, 3, 4]"
  using pipe_write_nowait [of "\<lparr>p_buf = \<lambda>_. 0, p_size = 4, p_head = 3, p_tail = 3, p_used = 0,
       p_read_wait = vibe_list_init, p_write_wait = vibe_list_init\<rparr>" 6 "[1, 2, 3, 4, 5, 6]" "\<lambda>_ c. c" demo_cfg demo_state]
  by (auto simp: pipe_ok_def pipe_content_def)

end
