(* ===== verification/Vibe_Ring_Buffer.thy ===== *)
theory Vibe_Ring_Buffer
  imports Vibe_Fifo
begin

text \<open>
  The single-producer single-consumer byte ring (\<^verbatim>\<open>lib/ring_buffer\<close>): free-running 32-bit indices masked
  with a power-of-two size. The statistics of \<^verbatim>\<open>CONFIG_RING_BUFFER_STATS\<close> are kept when the flag
  \<open>stats\<close> is set. The fences order the accesses of the two sides and have no effect on the values.
\<close>

section \<open>Operations\<close>

record vibe_rb_t =
  rb_buf :: "nat \<Rightarrow> u8"
  rb_size :: u32
  rb_head :: u32
  rb_tail :: u32
  rb_peak_used :: u32
  rb_put_count :: u32
  rb_get_count :: u32
  rb_drop_count :: u32

definition IS_POWER_OF_TWO :: "u32 \<Rightarrow> bool" where
  "IS_POWER_OF_TWO x \<longleftrightarrow> x \<noteq> 0 \<and> x AND (x - 1) = 0"

definition vibe_rb_reset_stats :: "vibe_rb_t \<Rightarrow> vibe_rb_t" where
  "vibe_rb_reset_stats rb = rb\<lparr>rb_peak_used := 0, rb_put_count := 0, rb_get_count := 0, rb_drop_count := 0\<rparr>"

definition vibe_rb_init ::
    "bool \<Rightarrow> vibe_rb_t option \<Rightarrow> (nat \<Rightarrow> u8) option \<Rightarrow> u32 \<Rightarrow> bool \<times> vibe_rb_t option" where
  "vibe_rb_init stats rb buf sz =
     (case (rb, buf) of
        (Some rb, Some b) \<Rightarrow>
          if sz = 0 then (False, Some rb)
          else if \<not> IS_POWER_OF_TWO sz then (False, Some rb)
          else
            (let rb = rb\<lparr>rb_buf := b, rb_size := sz, rb_head := 0, rb_tail := 0\<rparr>;
                 rb = (if stats then vibe_rb_reset_stats rb else rb)
             in (True, Some rb))
      | _ \<Rightarrow> (False, rb))"

definition rb_mask :: "vibe_rb_t \<Rightarrow> u32 \<Rightarrow> u32" where
  "rb_mask rb idx = idx AND (rb_size rb - 1)"

definition vibe_rb_used :: "vibe_rb_t \<Rightarrow> u32" where
  "vibe_rb_used rb = rb_tail rb - rb_head rb"

definition vibe_rb_free :: "vibe_rb_t \<Rightarrow> u32" where
  "vibe_rb_free rb = rb_size rb - vibe_rb_used rb"

definition vibe_rb_is_empty :: "vibe_rb_t \<Rightarrow> bool" where
  "vibe_rb_is_empty rb \<longleftrightarrow> rb_head rb = rb_tail rb"

definition vibe_rb_is_full :: "vibe_rb_t \<Rightarrow> bool" where
  "vibe_rb_is_full rb \<longleftrightarrow> vibe_rb_used rb = rb_size rb"

definition rb_note_peak :: "vibe_rb_t \<Rightarrow> vibe_rb_t" where
  "rb_note_peak rb = (if vibe_rb_used rb > rb_peak_used rb then rb\<lparr>rb_peak_used := vibe_rb_used rb\<rparr> else rb)"

definition vibe_rb_put :: "bool \<Rightarrow> u8 \<Rightarrow> vibe_rb_t \<Rightarrow> bool \<times> vibe_rb_t" where
  "vibe_rb_put stats byte rb =
     (if vibe_rb_is_full rb then
        (False, if stats then rb\<lparr>rb_drop_count := rb_drop_count rb + 1\<rparr> else rb)
      else
        (let rb = rb\<lparr>rb_buf := (rb_buf rb)(unat (rb_mask rb (rb_tail rb)) := byte)\<rparr>;
             rb = rb\<lparr>rb_tail := rb_tail rb + 1\<rparr>;
             rb = (if stats then rb_note_peak (rb\<lparr>rb_put_count := rb_put_count rb + 1\<rparr>) else rb)
         in (True, rb)))"

definition vibe_rb_get :: "bool \<Rightarrow> vibe_rb_t \<Rightarrow> u8 option \<times> vibe_rb_t" where
  "vibe_rb_get stats rb =
     (if vibe_rb_is_empty rb then (None, rb)
      else
        (let byte = rb_buf rb (unat (rb_mask rb (rb_head rb)));
             rb = rb\<lparr>rb_head := rb_head rb + 1\<rparr>;
             rb = (if stats then rb\<lparr>rb_get_count := rb_get_count rb + 1\<rparr> else rb)
         in (Some byte, rb)))"

definition vibe_rb_put_buf :: "bool \<Rightarrow> u8 list \<Rightarrow> u32 \<Rightarrow> vibe_rb_t \<Rightarrow> u32 \<times> vibe_rb_t" where
  "vibe_rb_put_buf stats src len rb =
     (let space = vibe_rb_free rb;
          n = (if len < space then len else space);
          tail_idx = rb_mask rb (rb_tail rb);
          chunk = rb_size rb - tail_idx;
          chunk = (if chunk > n then n else chunk);
          rb = rb\<lparr>rb_buf := mem_write (rb_buf rb) (unat tail_idx) (take (unat chunk) src)\<rparr>;
          rb = (if n > chunk
                then rb\<lparr>rb_buf := mem_write (rb_buf rb) 0 (take (unat (n - chunk)) (drop (unat chunk) src))\<rparr> else rb);
          rb = rb\<lparr>rb_tail := rb_tail rb + n\<rparr>;
          rb = (if stats
                then rb_note_peak (rb\<lparr>rb_put_count := rb_put_count rb + n, rb_drop_count := rb_drop_count rb + (len - n)\<rparr>)
                else rb)
      in (n, rb))"

definition vibe_rb_get_buf :: "bool \<Rightarrow> u32 \<Rightarrow> vibe_rb_t \<Rightarrow> u32 \<times> u8 list \<times> vibe_rb_t" where
  "vibe_rb_get_buf stats len rb =
     (let avail = vibe_rb_used rb;
          n = (if len < avail then len else avail);
          head_idx = rb_mask rb (rb_head rb);
          chunk = rb_size rb - head_idx;
          chunk = (if chunk > n then n else chunk);
          dst = mem_read (rb_buf rb) (unat head_idx) (unat chunk);
          dst = (if n > chunk then dst @ mem_read (rb_buf rb) 0 (unat (n - chunk)) else dst);
          rb = rb\<lparr>rb_head := rb_head rb + n\<rparr>;
          rb = (if stats then rb\<lparr>rb_get_count := rb_get_count rb + n\<rparr> else rb)
      in (n, dst, rb))"

definition vibe_rb_get_stats :: "vibe_rb_t \<Rightarrow> u32 \<times> u32 \<times> u32 \<times> u32" where
  "vibe_rb_get_stats rb = (rb_peak_used rb, rb_put_count rb, rb_get_count rb, rb_drop_count rb)"

section \<open>Powers of two and masks\<close>

lemma bit_top_nat:
  assumes "2 ^ k \<le> y" "y < 2 ^ Suc k"
  shows "bit (y :: nat) k"
proof -
  have "y div 2 ^ k = 1" by (rule div_nat_eqI) (use assms in auto)
  then show ?thesis by (simp add: bit_iff_odd)
qed

lemma power_of_two:
  assumes "IS_POWER_OF_TWO x"
  shows "\<exists>k<32. unat x = 2 ^ k"
proof -
  have x0: "x \<noteq> 0" "x AND (x - 1) = 0" using assms by (simp_all add: IS_POWER_OF_TWO_def)
  then have pos: "unat x > 0" by (simp add: unat_gt_0)
  obtain k where k: "2 ^ k \<le> unat x" "unat x < 2 ^ Suc k" using ex_power_ivl1 [of 2 "unat x"] pos by auto
  have k32: "k < 32"
  proof (rule ccontr)
    assume "\<not> k < 32"
    then have "(2::nat) ^ 32 \<le> 2 ^ k" by (intro power_increasing) auto
    with k(1) u32_bound [of x] show False by linarith
  qed
  have "unat x = 2 ^ k"
  proof (rule ccontr)
    assume "unat x \<noteq> 2 ^ k"
    moreover have dec: "unat (x - 1) = unat x - 1" using x0(1) by (intro unat_dec_u32) (simp add: word_gt_0)
    ultimately have "bit (unat x) k" "bit (unat (x - 1)) k" using k by (auto intro!: bit_top_nat)
    then have "bit (x AND (x - 1)) k" by (simp add: bit_and_iff bit_unsigned_iff)
    with x0(2) show False by simp
  qed
  with k32 show ?thesis by blast
qed

lemma unat_mask:
  assumes "unat n = 2 ^ k" "k < 32"
  shows "unat (i AND (n - 1) :: u32) = unat i mod 2 ^ k"
proof -
  have "(2::nat) ^ k < 2 ^ 32" using assms(2) by (intro power_strict_increasing) auto
  then have "n = of_nat (2 ^ k)" using assms(1) by (simp only: word_unat_eq_iff unat_of_nat_u32)
  then have "i AND (n - 1) = take_bit k i" by (simp add: take_bit_eq_mask mask_eq_exp_minus_1)
  then show ?thesis by (simp add: unsigned_take_bit_eq flip: take_bit_eq_mod)
qed

section \<open>The ring\<close>

definition rb_ok :: "vibe_rb_t \<Rightarrow> bool" where
  "rb_ok rb \<longleftrightarrow> IS_POWER_OF_TWO (rb_size rb) \<and> vibe_rb_used rb \<le> rb_size rb"

definition rb_content :: "vibe_rb_t \<Rightarrow> u8 list" where
  "rb_content rb =
     ring_content (rb_buf rb) (unat (rb_size rb)) (unat (rb_head rb) mod unat (rb_size rb)) (unat (vibe_rb_used rb))"

lemma length_rb_content [simp]: "length (rb_content rb) = unat (vibe_rb_used rb)"
  by (simp add: rb_content_def)

text \<open>The free-running indices wrap at \<open>2 ^ 32\<close>, a multiple of the size.\<close>

lemma wrap_mod:
  assumes "unat n = 2 ^ k" "k < 32"
  shows "unat (a + b :: u32) mod unat n = (unat a + unat b) mod unat n"
proof -
  have "(2::nat) ^ k dvd 2 ^ 32" using assms(2) by (intro le_imp_power_dvd) simp
  moreover have "unat (a + b) = (unat a + unat b) mod 2 ^ 32" by (simp add: unat_word_ariths)
  ultimately show ?thesis using assms(1) by (simp add: mod_mod_cancel)
qed

lemma rb_index:
  assumes "rb_ok rb"
  shows "unat (rb_mask rb i) = unat i mod unat (rb_size rb)" "0 < unat (rb_size rb)"
    "unat (a + b :: u32) mod unat (rb_size rb) = (unat a + unat b) mod unat (rb_size rb)"
proof -
  obtain k where k: "k < 32" "unat (rb_size rb) = 2 ^ k" using power_of_two assms by (auto simp: rb_ok_def)
  show "unat (rb_mask rb i) = unat i mod unat (rb_size rb)" using unat_mask [OF k(2,1)] k(2) by (simp add: rb_mask_def)
  show "0 < unat (rb_size rb)" using k(2) by simp
  show "unat (a + b :: u32) mod unat (rb_size rb) = (unat a + unat b) mod unat (rb_size rb)" by (rule wrap_mod [OF k(2,1)])
qed

lemma rb_tail_index:
  assumes "rb_ok rb"
  shows "unat (rb_mask rb (rb_tail rb)) =
    (unat (rb_head rb) mod unat (rb_size rb) + unat (vibe_rb_used rb)) mod unat (rb_size rb)"
proof -
  have "rb_tail rb = rb_head rb + vibe_rb_used rb" by (simp add: vibe_rb_used_def)
  then show ?thesis using rb_index(1) [OF assms, of "rb_tail rb"] rb_index(3) [OF assms, of "rb_head rb" "vibe_rb_used rb"]
    by (simp add: mod_add_left_eq)
qed

text \<open>Statistics do not change the ring.\<close>

lemma rb_stats_only [simp]:
  "rb_ok (rb_note_peak rb) = rb_ok rb" "rb_content (rb_note_peak rb) = rb_content rb" "rb_size (rb_note_peak rb) = rb_size rb"
  "rb_ok (rb\<lparr>rb_put_count := a\<rparr>) = rb_ok rb" "rb_content (rb\<lparr>rb_put_count := a\<rparr>) = rb_content rb"
  "rb_ok (rb\<lparr>rb_get_count := a\<rparr>) = rb_ok rb" "rb_content (rb\<lparr>rb_get_count := a\<rparr>) = rb_content rb"
  "rb_ok (rb\<lparr>rb_drop_count := a\<rparr>) = rb_ok rb" "rb_content (rb\<lparr>rb_drop_count := a\<rparr>) = rb_content rb"
  by (simp_all add: rb_ok_def rb_content_def vibe_rb_used_def rb_note_peak_def)

lemma used_after_put:
  assumes "rb_ok rb" "n \<le> vibe_rb_free rb"
  shows "unat (rb_tail rb + n - rb_head rb) = unat (vibe_rb_used rb) + unat n"
    "rb_tail rb + n - rb_head rb \<le> rb_size rb"
proof -
  have f: "unat n \<le> unat (rb_size rb) - unat (vibe_rb_used rb)" "unat (vibe_rb_used rb) \<le> unat (rb_size rb)"
    using assms by (simp_all add: rb_ok_def vibe_rb_free_def word_le_nat_alt unat_minus_u32)
  have "rb_tail rb + n - rb_head rb = vibe_rb_used rb + n" by (simp add: vibe_rb_used_def)
  moreover have "unat (vibe_rb_used rb + n) = unat (vibe_rb_used rb) + unat n"
    using f u32_bound [of "rb_size rb"] by (intro unat_plus_u32) linarith
  ultimately show eq: "unat (rb_tail rb + n - rb_head rb) = unat (vibe_rb_used rb) + unat n" by (simp only:)
  show "rb_tail rb + n - rb_head rb \<le> rb_size rb" unfolding word_le_nat_alt eq using f by linarith
qed

lemma put_buf_spec:
  assumes ok: "rb_ok rb" and len: "unat len \<le> length src" and run: "vibe_rb_put_buf stats src len rb = (n, rb')"
  shows "unat n = min (unat len) (unat (rb_size rb) - unat (vibe_rb_used rb)) \<and> rb_ok rb' \<and>
    rb_content rb' = rb_content rb @ take (unat n) src \<and> rb_size rb' = rb_size rb"
proof -
  let ?sz = "unat (rb_size rb)" and ?u = "unat (vibe_rb_used rb)" and ?h = "unat (rb_head rb) mod unat (rb_size rb)"
  have u: "?u \<le> ?sz" "unat (vibe_rb_free rb) = ?sz - ?u"
    using ok by (simp_all add: rb_ok_def vibe_rb_free_def word_le_nat_alt unat_minus_u32)
  have n: "n = (if len < vibe_rb_free rb then len else vibe_rb_free rb)"
    using run by (simp add: vibe_rb_put_buf_def Let_def split: if_splits)
  then have un: "unat n = min (unat len) (?sz - ?u)" using u by (auto simp: word_less_nat_alt)
  have nf: "n \<le> vibe_rb_free rb" using n by (auto simp: not_less)
  let ?t = "unat (rb_mask rb (rb_tail rb))" and ?bs = "take (unat n) src"
  let ?chunk = "if rb_size rb - rb_mask rb (rb_tail rb) > n then n else rb_size rb - rb_mask rb (rb_tail rb)"
  have t: "?t = (?h + ?u) mod ?sz" by (rule rb_tail_index [OF ok])
  have tl: "?t < ?sz" using t rb_index(2) [OF ok] by simp
  then have "unat (rb_size rb - rb_mask rb (rb_tail rb)) = ?sz - ?t" by (simp add: unat_minus_u32 word_le_nat_alt)
  then have c: "unat ?chunk = min (?sz - ?t) (unat n)" by (auto simp: word_less_nat_alt)
  have lb: "length ?bs = unat n" using len un by simp
  have code: "rb_buf rb' = (if n > ?chunk
      then mem_write (mem_write (rb_buf rb) ?t (take (unat ?chunk) src)) 0 (take (unat (n - ?chunk)) (drop (unat ?chunk) src))
      else mem_write (rb_buf rb) ?t (take (unat ?chunk) src))"
    using run unfolding vibe_rb_put_buf_def Let_def n [symmetric] rb_note_peak_def
    by (auto split del: if_split simp: if_distrib [of rb_buf] split: if_split_asm)
  have buf: "rb_buf rb' = mem_write (mem_write (rb_buf rb) ?t (take (unat ?chunk) ?bs)) 0 (drop (unat ?chunk) ?bs)"
  proof (cases "n > ?chunk")
    case True
    from less_imp_le [OF this] have "unat (n - ?chunk) = unat n - unat ?chunk" "unat ?chunk \<le> unat n"
      by (rule unat_minus_u32, simp only: word_le_nat_alt)
    with True code show ?thesis by (simp add: take_drop min_absorb1 split del: if_split)
  next
    case False
    then have "unat ?chunk = unat n" using c by (auto simp: word_less_nat_alt)
    then show ?thesis using False code lb by (simp split del: if_split)
  qed
  have fields: "rb_head rb' = rb_head rb" "rb_tail rb' = rb_tail rb + n" "rb_size rb' = rb_size rb"
    using run n by (auto simp: vibe_rb_put_buf_def Let_def rb_note_peak_def split: if_splits)
  note used = used_after_put [OF ok nf]
  have "rb_ok rb'" using ok used(2) by (simp add: rb_ok_def vibe_rb_used_def fields)
  moreover have "rb_content rb' = rb_content rb @ ?bs"
  proof -
    have vu: "unat (vibe_rb_used rb') = ?u + length ?bs" unfolding lb using used(1) by (simp only: vibe_rb_used_def fields)
    have fit: "?u + length ?bs \<le> ?sz" using lb un u(1) by linarith
    have ch: "unat ?chunk = min (?sz - ?t) (length ?bs)" unfolding lb by (rule c)
    have "ring_content (rb_buf rb') ?sz ?h (?u + length ?bs) = ring_content (rb_buf rb) ?sz ?h ?u @ ?bs"
      unfolding buf by (rule ring_write [OF fit rb_index(2) [OF ok] t ch])
    then show ?thesis by (simp only: rb_content_def vu fields)
  qed
  ultimately show ?thesis using un fields by simp
qed

lemma get_buf_spec:
  assumes ok: "rb_ok rb" and run: "vibe_rb_get_buf stats len rb = (n, out, rb')"
  shows "unat n = min (unat len) (unat (vibe_rb_used rb)) \<and> rb_ok rb' \<and>
    out = take (unat n) (rb_content rb) \<and> rb_content rb' = drop (unat n) (rb_content rb) \<and> rb_size rb' = rb_size rb"
proof -
  let ?sz = "unat (rb_size rb)" and ?u = "unat (vibe_rb_used rb)" and ?h = "unat (rb_mask rb (rb_head rb))"
  have u: "?u \<le> ?sz" using ok by (simp add: rb_ok_def word_le_nat_alt)
  have n: "n = (if len < vibe_rb_used rb then len else vibe_rb_used rb)"
    using run by (simp add: vibe_rb_get_buf_def Let_def split: if_splits)
  then have un: "unat n = min (unat len) ?u" by (auto simp: word_less_nat_alt)
  have nu: "unat n \<le> ?u" using un by simp
  let ?chunk = "if rb_size rb - rb_mask rb (rb_head rb) > n then n else rb_size rb - rb_mask rb (rb_head rb)"
  have h: "?h = unat (rb_head rb) mod ?sz" by (rule rb_index(1) [OF ok])
  have hl: "?h < ?sz" using h rb_index(2) [OF ok] by simp
  then have "unat (rb_size rb - rb_mask rb (rb_head rb)) = ?sz - ?h" by (simp add: unat_minus_u32 word_le_nat_alt)
  then have c: "unat ?chunk = min (?sz - ?h) (unat n)" by (auto simp: word_less_nat_alt)
  have "out = (if n > ?chunk then mem_read (rb_buf rb) ?h (unat ?chunk) @ mem_read (rb_buf rb) 0 (unat (n - ?chunk))
      else mem_read (rb_buf rb) ?h (unat ?chunk))"
    using run unfolding vibe_rb_get_buf_def Let_def n [symmetric] by (auto split del: if_split split: if_split_asm)
  moreover have "unat (n - ?chunk) = unat n - unat ?chunk" if "n > ?chunk"
    by (rule unat_minus_u32) (use that in \<open>rule less_imp_le\<close>)
  moreover have "unat n - unat ?chunk = 0" if "\<not> n > ?chunk" using that c by (auto simp: word_less_nat_alt)
  moreover have "mem_read b 0 0 = []" for b :: "nat \<Rightarrow> u8" by (simp add: mem_read_def)
  ultimately have "out = mem_read (rb_buf rb) ?h (unat ?chunk) @ mem_read (rb_buf rb) 0 (unat n - unat ?chunk)"
    by (cases "n > ?chunk") (simp_all split del: if_split)
  also have "\<dots> = take (unat n) (rb_content rb)"
    unfolding rb_content_def h [symmetric] by (rule ring_read [OF nu u hl c])
  finally have out: "out = take (unat n) (rb_content rb)" .
  have fields: "rb_head rb' = rb_head rb + n" "rb_tail rb' = rb_tail rb" "rb_size rb' = rb_size rb" "rb_buf rb' = rb_buf rb"
    using run n by (auto simp: vibe_rb_get_buf_def Let_def split: if_splits)
  have "vibe_rb_used rb' = vibe_rb_used rb - n" by (simp add: vibe_rb_used_def fields)
  moreover have "n \<le> vibe_rb_used rb" using nu by (simp only: word_le_nat_alt)
  ultimately have used: "unat (vibe_rb_used rb') = ?u - unat n" by (simp only: unat_minus_u32)
  have "rb_ok rb'" using ok used u by (simp add: rb_ok_def fields word_le_nat_alt)
  moreover have "rb_content rb' = drop (unat n) (rb_content rb)"
    unfolding rb_content_def used fields rb_index(3) [OF ok]
    using ring_drop [OF nu rb_index(2) [OF ok], of "rb_buf rb" ?h] by (simp only: h mod_add_left_eq)
  ultimately show ?thesis using un out fields(3) by blast
qed

text \<open>The single-byte operations are the block operations on one byte.\<close>

lemma put_spec:
  assumes ok: "rb_ok rb" and run: "vibe_rb_put stats b rb = (r, rb')"
  shows "(r \<longleftrightarrow> unat (vibe_rb_used rb) < unat (rb_size rb)) \<and> rb_ok rb' \<and>
    rb_content rb' = rb_content rb @ (if r then [b] else []) \<and> rb_size rb' = rb_size rb"
proof -
  have le: "unat (vibe_rb_used rb) \<le> unat (rb_size rb)" using ok by (simp add: rb_ok_def word_le_nat_alt)
  show ?thesis
  proof (cases "vibe_rb_is_full rb")
    case True
    then show ?thesis using run ok
      by (auto simp: vibe_rb_put_def vibe_rb_is_full_def rb_ok_def rb_content_def vibe_rb_used_def split: if_splits)
  next
    case False
    then have room: "unat (vibe_rb_used rb) < unat (rb_size rb)"
      using le by (simp add: vibe_rb_is_full_def word_unat_eq_iff)
    have r: "r" using False run by (simp add: vibe_rb_put_def Let_def)
    have one: "(1::u32) \<le> vibe_rb_free rb"
      using room ok by (simp add: vibe_rb_free_def rb_ok_def word_le_nat_alt unat_minus_u32)
    have fields: "rb_head rb' = rb_head rb" "rb_tail rb' = rb_tail rb + 1" "rb_size rb' = rb_size rb"
        "rb_buf rb' = (rb_buf rb)(unat (rb_mask rb (rb_tail rb)) := b)"
      using run False by (auto simp: vibe_rb_put_def Let_def rb_note_peak_def rb_mask_def split: if_splits)
    note used = used_after_put [OF ok one]
    have "rb_ok rb'" using ok used(2) by (simp add: rb_ok_def vibe_rb_used_def fields)
    moreover have "rb_content rb' = rb_content rb @ [b]"
    proof -
      have vu: "unat (vibe_rb_used rb') = Suc (unat (vibe_rb_used rb))"
        unfolding vibe_rb_used_def [of rb'] fields using used(1) by simp
      show ?thesis unfolding rb_content_def vu fields rb_tail_index [OF ok] by (rule ring_push) (use room in simp_all)
    qed
    ultimately show ?thesis using r room fields(3) by simp
  qed
qed

lemma get_spec:
  assumes ok: "rb_ok rb" and run: "vibe_rb_get stats rb = (r, rb')"
  shows "rb_ok rb' \<and> rb_content rb = (case r of None \<Rightarrow> [] | Some b \<Rightarrow> [b]) @ rb_content rb' \<and>
    (r = None \<longleftrightarrow> rb_content rb = []) \<and> rb_size rb' = rb_size rb \<and> (r = None \<longrightarrow> rb' = rb)"
proof (cases "vibe_rb_is_empty rb")
  case True
  then have "rb_content rb = []" by (simp add: vibe_rb_is_empty_def rb_content_def vibe_rb_used_def ring_content_def)
  then show ?thesis using True run ok by (simp add: vibe_rb_get_def)
next
  case False
  then have u0: "vibe_rb_used rb > 0" by (simp add: vibe_rb_used_def vibe_rb_is_empty_def word_gt_0)
  let ?sz = "unat (rb_size rb)" and ?h = "unat (rb_head rb) mod unat (rb_size rb)"
  have fields: "rb_head rb' = rb_head rb + 1" "rb_tail rb' = rb_tail rb" "rb_size rb' = rb_size rb" "rb_buf rb' = rb_buf rb"
      "r = Some (rb_buf rb ?h)"
    using run False rb_index(1) [OF ok, of "rb_head rb"] by (auto simp: vibe_rb_get_def Let_def split: if_splits)
  have "vibe_rb_used rb' = vibe_rb_used rb - 1" by (simp add: vibe_rb_used_def fields)
  then have used: "unat (vibe_rb_used rb) = Suc (unat (vibe_rb_used rb'))"
    using unat_dec_u32 [OF u0] u0 by (simp add: word_less_nat_alt)
  have "rb_ok rb'" using ok used by (simp add: rb_ok_def fields word_le_nat_alt)
  moreover have "rb_content rb = rb_buf rb ?h # rb_content rb'"
  proof -
    have "unat (rb_head rb + 1) mod ?sz = Suc ?h mod ?sz" using rb_index(3) [OF ok, of "rb_head rb" 1] by (simp add: mod_Suc_eq)
    then show ?thesis unfolding rb_content_def used fields using ring_pop [of ?h ?sz] rb_index(2) [OF ok] by simp
  qed
  ultimately show ?thesis using fields(3,5) by simp
qed

interpretation rbq: bounded_fifo rb_ok "\<lambda>_ _. True" rb_content "\<lambda>rb. unat (rb_size rb)" "vibe_rb_put stats" "vibe_rb_get stats"
  for stats
proof unfold_locales
  fix rb assume "rb_ok rb"
  then show "length (rb_content rb) \<le> unat (rb_size rb)" by (simp add: rb_ok_def word_le_nat_alt)
next
  fix rb x assume a: "rb_ok rb" "length (rb_content rb) < unat (rb_size rb)"
  show "\<exists>q'. vibe_rb_put stats x rb = (True, q') \<and> rb_ok q' \<and> rb_content q' = rb_content rb @ [x] \<and>
      unat (rb_size q') = unat (rb_size rb) \<and> (\<lambda>_. True) = (\<lambda>_. True)"
    using put_spec [OF a(1), of stats x] a(2) by (cases "vibe_rb_put stats x rb") auto
next
  fix rb x assume a: "rb_ok rb" "length (rb_content rb) = unat (rb_size rb)"
  show "\<exists>q'. vibe_rb_put stats x rb = (False, q') \<and> rb_ok q' \<and> rb_content q' = rb_content rb \<and>
      unat (rb_size q') = unat (rb_size rb) \<and> (\<lambda>_. True) = (\<lambda>_. True)"
    using put_spec [OF a(1), of stats x] a(2) by (cases "vibe_rb_put stats x rb") auto
next
  fix rb x xs assume a: "rb_ok rb" "rb_content rb = x # xs"
  obtain r rb' where g: "vibe_rb_get stats rb = (r, rb')" by force
  from get_spec [OF a(1) g] a(2) g
  show "\<exists>q'. vibe_rb_get stats rb = (Some x, q') \<and> rb_ok q' \<and> rb_content q' = xs \<and>
      unat (rb_size q') = unat (rb_size rb) \<and> (\<lambda>_. True) = (\<lambda>_. True)" by (cases r) auto
next
  fix rb assume a: "rb_ok rb" "rb_content rb = []"
  then show "vibe_rb_get stats rb = (None, rb)"
    using get_spec [OF a(1)] by (cases "vibe_rb_get stats rb") blast
qed

section \<open>Properties\<close>

lemma init_ok:
  assumes "vibe_rb_init stats (Some rb) (Some b) sz = (True, Some rb')"
  shows "rb_ok rb' \<and> rb_content rb' = [] \<and> rb_size rb' = sz"
  using assms by (auto simp: vibe_rb_init_def vibe_rb_reset_stats_def rb_ok_def rb_content_def vibe_rb_used_def
      ring_content_def Let_def split: if_splits)

text \<open>C15: A ring that \<^verbatim>\<open>vibe_rb_init\<close> accepted is a first-in first-out queue: for every sequence of
  single-byte puts and gets, with or without statistics and across the wrap of the 32-bit indices, the
  delivered bytes followed by the stored ones are exactly the accepted bytes in order, and never more
  than the size of the ring are stored.\<close>

theorem ring_buffer_is_fifo:
  assumes "vibe_rb_init stats (Some rb0) (Some b) sz = (True, Some rb)"
    and "fifo_run (vibe_rb_put stats) (vibe_rb_get stats) ops rb = (acc, del, rb')"
  shows "del @ rb_content rb' = acc \<and> length (rb_content rb') \<le> unat sz \<and> rb_ok rb'"
  using rbq.run_fifo [OF _ _ assms(2)] init_ok [OF assms(1)] by simp_all

definition rb_blank :: vibe_rb_t where
  "rb_blank = \<lparr>rb_buf = (\<lambda>_. 0), rb_size = 0, rb_head = 0, rb_tail = 0, rb_peak_used = 0, rb_put_count = 0, rb_get_count = 0,
     rb_drop_count = 0\<rparr>"

theorem ring_buffer_is_fifo_witness:
  "\<exists>rb rb'. vibe_rb_init True (Some rb_blank) (Some (\<lambda>_. 0)) 2 = (True, Some rb) \<and>
     fifo_run (vibe_rb_put True) (vibe_rb_get True) [Push 1, Push 2, Push 3, Pop, Push 4, Pop] rb = ([1, 2, 4], [1, 2], rb') \<and>
     rb_content rb' = [4]"
proof -
  obtain rb where i: "vibe_rb_init True (Some rb_blank) (Some (\<lambda>_. 0)) 2 = (True, Some rb)" and
      rb: "rb = rb_blank\<lparr>rb_size := 2\<rparr>"
    by (simp add: vibe_rb_init_def rb_blank_def IS_POWER_OF_TWO_def vibe_rb_reset_stats_def)
  have "fst (fifo_run (vibe_rb_put True) (vibe_rb_get True) [Push 1, Push 2, Push 3, Pop, Push 4, Pop] (rb_blank\<lparr>rb_size := 2\<rparr>)) = [1, 2, 4]"
       "fst (snd (fifo_run (vibe_rb_put True) (vibe_rb_get True) [Push 1, Push 2, Push 3, Pop, Push 4, Pop] (rb_blank\<lparr>rb_size := 2\<rparr>))) = [1, 2]"
    by code_simp+
  then obtain rb' where r: "fifo_run (vibe_rb_put True) (vibe_rb_get True) [Push 1, Push 2, Push 3, Pop, Push 4, Pop] rb = ([1, 2, 4], [1, 2], rb')"
    unfolding rb by (metis prod.collapse)
  from ring_buffer_is_fifo [OF i r] i r show ?thesis by auto
qed

text \<open>C16: Block transfers on a well-formed ring: \<^verbatim>\<open>vibe_rb_put_buf\<close> stores the longest prefix of the
  source that fits, in two copies when the data wraps, and a following \<^verbatim>\<open>vibe_rb_get_buf\<close> of the whole
  content returns what was stored before followed by exactly that prefix and empties the ring.\<close>

theorem ring_buffer_block_roundtrip:
  assumes "rb_ok rb" "unat len \<le> length src" "vibe_rb_put_buf stats src len rb = (n, rb1)"
    and "vibe_rb_get_buf stats' (rb_size rb) rb1 = (m, out, rb2)"
  shows "unat n = min (unat len) (unat (rb_size rb) - length (rb_content rb)) \<and>
    out = rb_content rb @ take (unat n) src \<and> unat m = length out \<and> rb_content rb2 = [] \<and> rb_ok rb2"
proof -
  have p: "unat n = min (unat len) (unat (rb_size rb) - unat (vibe_rb_used rb))" "rb_ok rb1"
      "rb_content rb1 = rb_content rb @ take (unat n) src" "rb_size rb1 = rb_size rb"
    using put_buf_spec [OF assms(1-3)] by auto
  have g: "unat m = min (unat (rb_size rb)) (unat (vibe_rb_used rb1))" "rb_ok rb2"
      "out = take (unat m) (rb_content rb1)" "rb_content rb2 = drop (unat m) (rb_content rb1)"
    using get_buf_spec [OF p(2) assms(4)] by auto
  have "unat (vibe_rb_used rb1) \<le> unat (rb_size rb)" using p(2,4) by (simp add: rb_ok_def word_le_nat_alt)
  then have m: "unat m = length (rb_content rb1)" using g(1) by simp
  have "out = rb_content rb1" "rb_content rb2 = []" unfolding g(3,4) m by simp_all
  then show ?thesis using p g(2) m by simp
qed

theorem ring_buffer_block_roundtrip_witness:
  "\<exists>rb1 rb2. vibe_rb_put_buf False [7, 8, 9] 3 (rb_blank\<lparr>rb_size := 2, rb_head := 0xFFFFFFFF, rb_tail := 0xFFFFFFFF\<rparr>) = (2, rb1) \<and>
     vibe_rb_get_buf False 2 rb1 = (2, [7, 8], rb2) \<and> rb_content rb2 = []"
proof -
  let ?rb = "rb_blank\<lparr>rb_size := 2, rb_head := 0xFFFFFFFF, rb_tail := 0xFFFFFFFF\<rparr>"
  obtain n rb1 where p: "vibe_rb_put_buf False [7, 8, 9] 3 ?rb = (n, rb1)" by force
  obtain m out rb2 where g: "vibe_rb_get_buf False (rb_size ?rb) rb1 = (m, out, rb2)" using prod_cases3 by blast
  have ok: "rb_ok ?rb" by (simp add: rb_ok_def IS_POWER_OF_TWO_def vibe_rb_used_def)
  have c: "rb_content ?rb = []" by (simp add: rb_content_def vibe_rb_used_def ring_content_def)
  have len: "unat (3 :: u32) \<le> length [7, 8, 9 :: u8]" by simp
  have sz: "rb_size ?rb = 2" by simp
  have n: "unat n = unat (2 :: u32)" and o: "out = [7, 8]" and m: "unat m = unat (2 :: u32)" and e: "rb_content rb2 = []"
    using ring_buffer_block_roundtrip [OF ok len p g] unfolding c sz by simp_all
  have "n = 2" "m = 2" using n m by (simp_all only: word_unat_eq_iff)
  then show ?thesis using p g o e unfolding sz by auto
qed

text \<open>C15: \<^verbatim>\<open>vibe_rb_init\<close> accepts a size exactly when it is a power of two; a missing ring or buffer, size 0
  and every other size are refused and leave the ring as it was.\<close>

theorem ring_buffer_init_sizes:
  "(fst (vibe_rb_init stats (Some rb) (Some b) sz) \<longleftrightarrow> (\<exists>k<32. unat sz = 2 ^ k)) \<and>
   \<not> fst (vibe_rb_init stats None bo sz) \<and> \<not> fst (vibe_rb_init stats ro None sz) \<and>
   (fst (vibe_rb_init stats ro bo sz) \<or> snd (vibe_rb_init stats ro bo sz) = ro)"
proof -
  have "IS_POWER_OF_TWO sz" if k: "k < 32" "unat sz = 2 ^ k" for k
  proof -
    have "unat (sz AND (sz - 1)) = 0" by (simp add: unat_mask [OF k(2,1)] k(2))
    then show ?thesis using k(2) by (auto simp: IS_POWER_OF_TWO_def unsigned_eq_0_iff)
  qed
  then have "fst (vibe_rb_init stats (Some rb) (Some b) sz) \<longleftrightarrow> (\<exists>k<32. unat sz = 2 ^ k)"
    using power_of_two [of sz] by (auto simp: vibe_rb_init_def Let_def IS_POWER_OF_TWO_def)
  then show ?thesis by (auto simp: vibe_rb_init_def Let_def split: option.splits)
qed

end
