(* ===== verification/Vibe_Event.thy ===== *)
theory Vibe_Event
  imports Vibe_Start
begin

text \<open>
  Event flags (\<^verbatim>\<open>kernel/event.c\<close>). The wait context of a thread, a 12-byte struct, is kept where its \<^verbatim>\<open>tls\<close>
  pointer points, in the memory the stacks live in: the words at offsets 0 and 4 are the flags and the mode, the byte
  at offset 8 is \<^verbatim>\<open>satisfied\<close>. \<^verbatim>\<open>VIBE_LIST_FOR_EACH_SAFE\<close> reads the successor before the body runs.
\<close>

section \<open>Operations\<close>

datatype vibe_event_wait_mode_t = VIBE_EVENT_WAIT_ANY | VIBE_EVENT_WAIT_ALL

record vibe_event_t =
  ev_flags :: u32
  ev_wait_list :: "tid vibe_list"

fun mode_code :: "vibe_event_wait_mode_t \<Rightarrow> u32" where
  "mode_code VIBE_EVENT_WAIT_ANY = 0"
| "mode_code VIBE_EVENT_WAIT_ALL = 1"

definition ctx_wait_flags :: "u32 \<Rightarrow> kstate \<Rightarrow> u32" where
  "ctx_wait_flags ctx s = mem32 s ctx"

definition ctx_wait_mode :: "u32 \<Rightarrow> kstate \<Rightarrow> vibe_event_wait_mode_t" where
  "ctx_wait_mode ctx s = (if mem32 s (ctx + 4) = mode_code VIBE_EVENT_WAIT_ALL then VIBE_EVENT_WAIT_ALL else VIBE_EVENT_WAIT_ANY)"

definition ctx_satisfied :: "u32 \<Rightarrow> kstate \<Rightarrow> bool" where
  "ctx_satisfied ctx s \<longleftrightarrow> mem32 s (ctx + 8) AND 0xFF \<noteq> 0"

definition set_ctx_satisfied :: "u32 \<Rightarrow> bool \<Rightarrow> kstate \<Rightarrow> kstate" where
  "set_ctx_satisfied ctx b s = store32 (ctx + 8) ((mem32 s (ctx + 8) AND NOT 0xFF) OR (if b then 1 else 0)) s"

definition vibe_event_init :: "vibe_event_t option \<Rightarrow> vibe_err_t \<times> vibe_event_t option" where
  "vibe_event_init event =
     (case event of
        None \<Rightarrow> (VIBE_EINVAL, None)
      | Some ev \<Rightarrow> (VIBE_OK, Some \<lparr>ev_flags = 0, ev_wait_list = vibe_list_init\<rparr>))"

definition flags_satisfied :: "u32 \<Rightarrow> u32 \<Rightarrow> vibe_event_wait_mode_t \<Rightarrow> bool" where
  "flags_satisfied current requested mode \<longleftrightarrow>
     (if mode = VIBE_EVENT_WAIT_ALL then current AND requested = requested else current AND requested \<noteq> 0)"

partial_function (option) event_wake_loop ::
    "u32 \<Rightarrow> tid option \<Rightarrow> tid vibe_list \<Rightarrow> kstate \<Rightarrow> (tid vibe_list \<times> kstate) option" where
  "event_wake_loop flags node wl s =
     (case node of
        None \<Rightarrow> Some (wl, s)
      | Some t \<Rightarrow>
          (let tmp = node_next (wait_nodes s t);
               ctx = th_tls (g_tcb s t)
           in if ctx \<noteq> 0 \<and> flags_satisfied flags (ctx_wait_flags ctx s) (ctx_wait_mode ctx s) then
                (let s = set_ctx_satisfied ctx True s;
                     (wl, L) = vibe_list_remove wl t (wait_nodes s);
                     s = s\<lparr>wait_nodes := L\<rparr>;
                     s = vibe_sched_enqueue t s
                 in event_wake_loop flags tmp wl s)
              else event_wake_loop flags tmp wl s))"

definition vibe_event_post ::
    "kconfig \<Rightarrow> vibe_event_t option \<Rightarrow> u32 \<Rightarrow> kstate \<Rightarrow> (vibe_err_t \<times> vibe_event_t option \<times> kstate) option" where
  "vibe_event_post cfg event flags s =
     (case event of
        None \<Rightarrow> Some (VIBE_EINVAL, None, s)
      | Some ev \<Rightarrow>
          (let (key, s) = arch_irq_lock s;
               ev = ev\<lparr>ev_flags := ev_flags ev OR flags\<rparr>
           in do {
                (wl, s) \<leftarrow> event_wake_loop (ev_flags ev) (l_head (ev_wait_list ev)) (ev_wait_list ev) s;
                let s = arch_irq_unlock key s;
                Some (VIBE_OK, Some (ev\<lparr>ev_wait_list := wl\<rparr>), vibe_sched_reschedule cfg s)
              }))"

definition vibe_event_clear :: "vibe_event_t option \<Rightarrow> u32 \<Rightarrow> kstate \<Rightarrow> vibe_err_t \<times> vibe_event_t option \<times> kstate" where
  "vibe_event_clear event flags s =
     (case event of
        None \<Rightarrow> (VIBE_EINVAL, None, s)
      | Some ev \<Rightarrow>
          (let (key, s) = arch_irq_lock s;
               ev = ev\<lparr>ev_flags := ev_flags ev AND NOT flags\<rparr>
           in (VIBE_OK, Some ev, arch_irq_unlock key s)))"

definition vibe_event_wait ::
    "kconfig \<Rightarrow> vibe_event_t option \<Rightarrow> u32 \<Rightarrow> vibe_event_wait_mode_t \<Rightarrow> vibe_tick_t \<Rightarrow> kstate \<Rightarrow>
     (vibe_err_t wait_result \<times> vibe_event_t option \<times> kstate) option" where
  "vibe_event_wait cfg event flags mode timeout s =
     (case event of
        None \<Rightarrow> Some (Return VIBE_EINVAL, None, s)
      | Some ev \<Rightarrow>
          if flags = 0 then Some (Return VIBE_EINVAL, Some ev, s)
          else
            (let (key, s) = arch_irq_lock s in
             if flags_satisfied (ev_flags ev) flags mode then Some (Return VIBE_OK, Some ev, arch_irq_unlock key s)
             else if timeout = VIBE_NO_WAIT then Some (Return VIBE_EAGAIN, Some ev, arch_irq_unlock key s)
             else case vibe_thread_self s of
                    None \<Rightarrow> None
                  | Some self \<Rightarrow>
                      (let ctx = th_tls (g_tcb s self);
                           s = (if ctx \<noteq> 0
                                then set_ctx_satisfied ctx False (store32 (ctx + 4) (mode_code mode) (store32 ctx flags s))
                                else s);
                           (wl, s) = block_on cfg key self (wait_deadline timeout s) (ev_wait_list ev) s
                       in Some (Suspended, Some (ev\<lparr>ev_wait_list := wl\<rparr>), s))))"

text \<open>The rest of \<^verbatim>\<open>vibe_event_wait\<close>, once the thread runs again.\<close>

definition vibe_event_wait_resume :: "tid \<Rightarrow> kstate \<Rightarrow> vibe_err_t" where
  "vibe_event_wait_resume self s =
     (let ctx = th_tls (g_tcb s self) in
      if ctx \<noteq> 0 \<and> ctx_satisfied ctx s then VIBE_OK else VIBE_ETIMEOUT)"

definition vibe_event_get :: "vibe_event_t option \<Rightarrow> u32" where
  "vibe_event_get event = (case event of None \<Rightarrow> 0 | Some ev \<Rightarrow> ev_flags ev)"

section \<open>Waking\<close>

text \<open>What a waiter asks for: all of the requested flags, or one of them.\<close>

definition cond_met :: "u32 \<Rightarrow> u32 \<Rightarrow> vibe_event_wait_mode_t \<Rightarrow> bool" where
  "cond_met new req mode \<longleftrightarrow>
     (case mode of
        VIBE_EVENT_WAIT_ALL \<Rightarrow> \<forall>i<32. bit req i \<longrightarrow> bit new i
      | VIBE_EVENT_WAIT_ANY \<Rightarrow> \<exists>i<32. bit req i \<and> bit new i)"

lemma flags_satisfied_iff: "flags_satisfied current requested mode \<longleftrightarrow> cond_met current requested mode"
proof (cases mode)
  case VIBE_EVENT_WAIT_ALL
  then show ?thesis by (auto simp: flags_satisfied_def cond_met_def bit_eq_iff [of "current AND requested"] bit_and_iff)
next
  case VIBE_EVENT_WAIT_ANY
  then show ?thesis by (auto simp: flags_satisfied_def cond_met_def bit_eq_iff [of "current AND requested"] bit_and_iff)
qed

definition satisfied_by :: "u32 \<Rightarrow> kstate \<Rightarrow> tid \<Rightarrow> bool" where
  "satisfied_by flags s t \<longleftrightarrow>
     (let ctx = th_tls (g_tcb s t) in ctx \<noteq> 0 \<and> cond_met flags (ctx_wait_flags ctx s) (ctx_wait_mode ctx s))"

lemma satisfied_by_code:
  "satisfied_by flags s t \<longleftrightarrow>
     (let ctx = th_tls (g_tcb s t) in ctx \<noteq> 0 \<and> flags_satisfied flags (ctx_wait_flags ctx s) (ctx_wait_mode ctx s))"
  by (simp add: satisfied_by_def flags_satisfied_iff)

definition ctx_words :: "kstate \<Rightarrow> tid \<Rightarrow> u32 set" where
  "ctx_words s t = {th_tls (g_tcb s t), th_tls (g_tcb s t) + 4, th_tls (g_tcb s t) + 8}"

text \<open>The contexts of different waiters do not overlap.\<close>

definition ctxs_apart :: "kstate \<Rightarrow> tid list \<Rightarrow> bool" where
  "ctxs_apart s W \<longleftrightarrow> (\<forall>t\<in>set W. \<forall>u\<in>set W. t \<noteq> u \<longrightarrow> ctx_words s t \<inter> ctx_words s u = {})"

lemma kernel_inv_mem [simp]: "kernel_inv (s\<lparr>mem32 := m\<rparr>) \<longleftrightarrow> kernel_inv s"
  by (simp add: kernel_inv_def current_ok_def live_inv_mem)

lemma wait_rep_mem [simp]: "wait_rep (s\<lparr>mem32 := m\<rparr>) wl W \<longleftrightarrow> wait_rep s wl W"
  by (simp add: wait_rep_def)

lemma set_satisfied_mem: "set_ctx_satisfied ctx b s = s\<lparr>mem32 := mem32 (set_ctx_satisfied ctx b s)\<rparr>"
  by (simp add: set_ctx_satisfied_def store32_def)

lemma satisfied_set [simp]: "ctx_satisfied ctx (set_ctx_satisfied ctx b s) = b"
proof -
  have "((v AND NOT 0xFF) OR (if b then 1 else 0)) AND 0xFF = (if b then 1 else (0 :: u32))" for v
    by (intro bit_word_eqI) (auto simp: bit_simps)
  then show ?thesis by (simp add: ctx_satisfied_def set_ctx_satisfied_def store32_def)
qed

text \<open>One woken waiter: out of the list, ready, its context marked.\<close>

definition event_wake_one :: "tid \<Rightarrow> tid vibe_list \<Rightarrow> kstate \<Rightarrow> tid vibe_list \<times> kstate" where
  "event_wake_one t wl s =
     (let s = set_ctx_satisfied (th_tls (g_tcb s t)) True s;
          (wl, L) = vibe_list_remove wl t (wait_nodes s)
      in (wl, vibe_sched_enqueue t (s\<lparr>wait_nodes := L\<rparr>)))"

lemma wake_loop_Some:
  "event_wake_loop flags (Some t) wl s =
     (if satisfied_by flags s t
      then case event_wake_one t wl s of (wl', s') \<Rightarrow> event_wake_loop flags (node_next (wait_nodes s t)) wl' s'
      else event_wake_loop flags (node_next (wait_nodes s t)) wl s)"
  by (simp add: event_wake_loop.simps [of flags "Some t"] satisfied_by_code event_wake_one_def Let_def split: prod.split)

lemma event_wake_one_rep:
  assumes inv: "kernel_inv s" and rep: "wait_rep s wl (us @ t # xs)" and run: "event_wake_one t wl s = (wl', s')"
  shows "kernel_inv s'" "wait_rep s' wl' (us @ xs)" "PRIMASK s' = PRIMASK s"
    "g_tcb s' = (g_tcb s)(t := (g_tcb s t)\<lparr>th_state := VIBE_THREAD_READY\<rparr>)"
    "mem32 s' = mem32 (set_ctx_satisfied (th_tls (g_tcb s t)) True s)"
proof -
  define s1 where "s1 = set_ctx_satisfied (th_tls (g_tcb s t)) True s"
  have s1: "s1 = s\<lparr>mem32 := mem32 s1\<rparr>" unfolding s1_def by (rule set_satisfied_mem)
  obtain L where rm: "vibe_list_remove wl t (wait_nodes s) = (wl', L)" and s': "s' = vibe_sched_enqueue t (s1\<lparr>wait_nodes := L\<rparr>)"
    using run by (auto simp: event_wake_one_def s1_def set_ctx_satisfied_def store32_def Let_def split: prod.splits)
  have tcb1: "g_tcb s1 = g_tcb s" "PRIMASK s1 = PRIMASK s" by (simp_all add: s1_def set_ctx_satisfied_def store32_def)
  show "g_tcb s' = (g_tcb s)(t := (g_tcb s t)\<lparr>th_state := VIBE_THREAD_READY\<rparr>)" "PRIMASK s' = PRIMASK s"
    "mem32 s' = mem32 (set_ctx_satisfied (th_tls (g_tcb s t)) True s)"
    by (simp_all add: s' frame_simps tcb1 flip: s1_def)
  have inv1: "kernel_inv (s1\<lparr>wait_nodes := L\<rparr>)" using inv by (subst s1) simp
  have t: "off_cpu (tstate s t)" "th_id (g_tcb s t) \<noteq> 0" using rep by (auto simp: wait_rep_def off_cpu_def)
  show "kernel_inv s'" unfolding s' by (rule make_ready_kernel_inv [OF inv1]) (use t in \<open>simp_all add: tcb1\<close>)
  have d: "dll (wait_nodes s) wl (us @ t # xs)" using rep by (simp add: wait_rep_def)
  then have nt: "t \<notin> set (us @ xs)" by (auto dest: dll_distinct)
  show "wait_rep s' wl' (us @ xs)"
    using remove_dll(1) [OF d rm] rep nt by (auto simp: wait_rep_def s' frame_simps tcb1)
qed

lemma satisfied_by_cong:
  assumes "th_tls (g_tcb s' u) = th_tls (g_tcb s u)" "\<And>a. a \<in> ctx_words s u \<Longrightarrow> mem32 s' a = mem32 s a"
  shows "satisfied_by flags s' u = satisfied_by flags s u"
  using assms by (simp add: satisfied_by_code ctx_words_def ctx_wait_flags_def ctx_wait_mode_def)

lemma event_wake_loop_rep:
  assumes "kernel_inv s" "wait_rep s wl (us @ xs)" "ctxs_apart s (us @ xs)"
  shows "\<exists>wl' s'. event_wake_loop flags (head_or xs None) wl s = Some (wl', s') \<and> kernel_inv s' \<and> PRIMASK s' = PRIMASK s \<and>
    wait_rep s' wl' (us @ filter (\<lambda>t. \<not> satisfied_by flags s t) xs) \<and>
    (\<forall>u. th_tls (g_tcb s' u) = th_tls (g_tcb s u)) \<and>
    (\<forall>u\<in>set xs. satisfied_by flags s u \<longrightarrow> tstate s' u = VIBE_THREAD_READY \<and> ctx_satisfied (th_tls (g_tcb s u)) s') \<and>
    (\<forall>u. u \<notin> set xs \<longrightarrow> g_tcb s' u = g_tcb s u) \<and>
    (\<forall>a. (\<forall>u\<in>set xs. a \<noteq> th_tls (g_tcb s u) + 8) \<longrightarrow> mem32 s' a = mem32 s a)"
  using assms
proof (induction xs arbitrary: us wl s)
  case Nil
  then show ?case by (simp add: event_wake_loop.simps)
next
  case (Cons t xs)
  have d: "dll (wait_nodes s) wl (us @ t # xs)" using Cons.prems(2) by (simp add: wait_rep_def)
  then have nt: "t \<notin> set xs" "t \<notin> set us" by (auto dest: dll_distinct)
  have nx: "node_next (wait_nodes s t) = head_or xs None" using d by (simp add: dll_def)
  show ?case
  proof (cases "satisfied_by flags s t")
    case False
    have "wait_rep s wl ((us @ [t]) @ xs)" "ctxs_apart s ((us @ [t]) @ xs)" using Cons.prems by simp_all
    from Cons.IH [OF Cons.prems(1) this] False show ?thesis by (auto simp: wake_loop_Some nx nt)
  next
    case True
    obtain wl1 s1 where w: "event_wake_one t wl s = (wl1, s1)" by force
    note k = event_wake_one_rep [OF Cons.prems(1,2) w]
    have tls: "th_tls (g_tcb s1 u) = th_tls (g_tcb s u)" for u by (simp add: k(4))
    have mem: "mem32 s1 a = mem32 s a" if "a \<noteq> th_tls (g_tcb s t) + 8" for a
      using that by (simp add: k(5) set_ctx_satisfied_def store32_def)
    have sub: "ctx_words s1 u = ctx_words s u" for u by (simp add: ctx_words_def tls)
    have ap: "ctxs_apart s1 (us @ xs)" using Cons.prems(3) by (auto simp: ctxs_apart_def sub)
    have apart: "ctx_words s u \<inter> ctx_words s t = {}" if "u \<in> set xs" for u
      using Cons.prems(3) that nt by (auto simp: ctxs_apart_def)
    have same: "satisfied_by flags s1 u = satisfied_by flags s u" if "u \<in> set xs" for u
      using apart [OF that] mem by (intro satisfied_by_cong tls) (auto simp: ctx_words_def)
    have f: "filter (\<lambda>t. \<not> satisfied_by flags s1 t) xs = filter (\<lambda>t. \<not> satisfied_by flags s t) xs"
      using same by (auto intro: filter_cong)
    from Cons.IH [OF k(1,2) ap] obtain wl2 s2 where
      r: "event_wake_loop flags (head_or xs None) wl1 s1 = Some (wl2, s2)" "kernel_inv s2" "PRIMASK s2 = PRIMASK s1"
        "wait_rep s2 wl2 (us @ filter (\<lambda>t. \<not> satisfied_by flags s1 t) xs)" "\<And>u. th_tls (g_tcb s2 u) = th_tls (g_tcb s1 u)"
        "\<And>u. u \<in> set xs \<Longrightarrow> satisfied_by flags s1 u \<Longrightarrow> tstate s2 u = VIBE_THREAD_READY \<and> ctx_satisfied (th_tls (g_tcb s1 u)) s2"
        "\<And>u. u \<notin> set xs \<Longrightarrow> g_tcb s2 u = g_tcb s1 u"
        "\<And>a. (\<forall>u\<in>set xs. a \<noteq> th_tls (g_tcb s1 u) + 8) \<Longrightarrow> mem32 s2 a = mem32 s1 a" by blast
    have "th_tls (g_tcb s t) + 8 \<noteq> th_tls (g_tcb s u) + 8" if "u \<in> set xs" for u
      using apart [OF that] by (auto simp: ctx_words_def)
    then have "mem32 s2 (th_tls (g_tcb s t) + 8) = mem32 s1 (th_tls (g_tcb s t) + 8)" by (intro r(8)) (auto simp: tls)
    then have "ctx_satisfied (th_tls (g_tcb s t)) s2"
      using satisfied_set [of "th_tls (g_tcb s t)" True s] by (simp add: ctx_satisfied_def k(5))
    moreover have "tstate s2 t = VIBE_THREAD_READY" using r(7) [OF nt(1)] by (simp add: k(4))
    moreover have "mem32 s2 a = mem32 s a" if "\<forall>u\<in>set (t # xs). a \<noteq> th_tls (g_tcb s u) + 8" for a
      using r(8) [of a] mem [of a] that by (simp add: tls)
    moreover have "g_tcb s2 u = g_tcb s u" if "u \<notin> set (t # xs)" for u using r(7) [of u] that by (simp add: k(4))
    moreover have "tstate s2 u = VIBE_THREAD_READY \<and> ctx_satisfied (th_tls (g_tcb s u)) s2"
      if "u \<in> set xs" "satisfied_by flags s u" for u using r(6) [OF that(1)] that by (simp add: same tls)
    ultimately show ?thesis
      using True w r(1-5) f by (intro exI [of _ wl2] exI [of _ s2]) (auto simp: wake_loop_Some nx k(3) tls)
  qed
qed

text \<open>The context as \<^verbatim>\<open>vibe_event_wait\<close> fills it in.\<close>

definition open_ctx :: "u32 \<Rightarrow> u32 \<Rightarrow> vibe_event_wait_mode_t \<Rightarrow> kstate \<Rightarrow> kstate" where
  "open_ctx ctx flags mode s =
     (if ctx \<noteq> 0 then set_ctx_satisfied ctx False (store32 (ctx + 4) (mode_code mode) (store32 ctx flags s)) else s)"

lemma open_ctx_mem: "open_ctx ctx flags mode s = s\<lparr>mem32 := mem32 (open_ctx ctx flags mode s)\<rparr>"
  by (simp add: open_ctx_def set_ctx_satisfied_def store32_def)

lemma open_ctx_words:
  assumes "ctx \<noteq> 0"
  shows "mem32 (open_ctx ctx flags mode s) ctx = flags" "mem32 (open_ctx ctx flags mode s) (ctx + 4) = mode_code mode"
  using assms by (simp_all add: open_ctx_def set_ctx_satisfied_def store32_def)

lemma block_on_tls:
  assumes "block_on cfg key t dl wl s = (wl', s')"
  shows "th_tls (g_tcb s' u) = th_tls (g_tcb s u)" "mem32 s' = mem32 s"
proof -
  have "th_tls (g_tcb (vibe_sched_reschedule cfg s0) u) = th_tls (g_tcb s0 u)" for s0
    by (auto simp: vibe_sched_reschedule_def trace_switch_def kernel_ops Let_def split: option.split)
  with assms show "th_tls (g_tcb s' u) = th_tls (g_tcb s u)" "mem32 s' = mem32 s"
    by (auto simp: block_on_def Let_def arch_irq_unlock_def frame_simps split: prod.splits) (auto simp: upd_tcb_def frame_simps)
qed

lemma event_wait_run:
  assumes "flags \<noteq> 0" "\<not> flags_satisfied (ev_flags ev) flags mode" "timeout \<noteq> VIBE_NO_WAIT" "g_current_thread s = Some t"
  shows "\<exists>wl s'. vibe_event_wait cfg (Some ev) flags mode timeout s = Some (Suspended, Some (ev\<lparr>ev_wait_list := wl\<rparr>), s') \<and>
    block_on cfg (PRIMASK s) t (wait_deadline timeout s) (ev_wait_list ev)
      (open_ctx (th_tls (g_tcb s t)) flags mode (s\<lparr>PRIMASK := 1\<rparr>)) = (wl, s')"
proof -
  have "wait_deadline timeout (open_ctx c f m (s\<lparr>PRIMASK := 1\<rparr>)) = wait_deadline timeout s" for c f m
    by (simp add: wait_deadline_def vibe_tick_get_def open_ctx_def set_ctx_satisfied_def store32_def)
  then show ?thesis using assms
    by (auto simp: vibe_event_wait_def arch_irq_lock_def vibe_thread_self_def Let_def simp flip: open_ctx_def split: prod.split)
qed

section \<open>Properties\<close>

text \<open>
  C18: posting wakes exactly the waiters whose condition holds. When the wait contexts of the waiters do not overlap, the
  call returns, every waiter whose flags are satisfied by the new flag set leaves the list, is schedulable and finds
  its wait successful (\<^verbatim>\<open>VIBE_OK\<close>), the others keep waiting in their order, and the kernel invariant and the interrupt mask are
  kept.
\<close>

theorem event_post_wakes_exactly:
  assumes "kernel_inv s" "wait_rep s (ev_wait_list ev) W" "ctxs_apart s W"
  shows "\<exists>ev' s'. vibe_event_post cfg (Some ev) flags s = Some (VIBE_OK, Some ev', s') \<and>
    ev_flags ev' = ev_flags ev OR flags \<and> kernel_inv s' \<and> PRIMASK s' = PRIMASK s \<and>
    wait_rep s' (ev_wait_list ev') (filter (\<lambda>t. \<not> satisfied_by (ev_flags ev OR flags) s t) W) \<and>
    (\<forall>t\<in>set W. satisfied_by (ev_flags ev OR flags) s t \<longrightarrow> runnable s' t \<and> vibe_event_wait_resume t s' = VIBE_OK)"
proof -
  let ?s = "s\<lparr>PRIMASK := 1\<rparr>" and ?f = "ev_flags ev OR flags"
  have hd: "l_head (ev_wait_list ev) = head_or W None" using assms(2) by (simp add: wait_rep_def dll_def)
  have sat: "satisfied_by f ?s = satisfied_by f s" for f
    by (auto simp: fun_eq_iff satisfied_by_code ctx_wait_flags_def ctx_wait_mode_def)
  have "ctxs_apart ?s ([] @ W)" "wait_rep ?s (ev_wait_list ev) ([] @ W)" "kernel_inv ?s"
    using assms by (simp_all add: ctxs_apart_def ctx_words_def)
  from event_wake_loop_rep [OF this(3,2,1), of ?f] obtain wl1 s1 where
    r: "event_wake_loop ?f (head_or W None) (ev_wait_list ev) ?s = Some (wl1, s1)" "kernel_inv s1" "PRIMASK s1 = 1"
      "wait_rep s1 wl1 (filter (\<lambda>t. \<not> satisfied_by ?f s t) W)" "\<And>u. th_tls (g_tcb s1 u) = th_tls (g_tcb s u)"
      "\<And>u. u \<in> set W \<Longrightarrow> satisfied_by ?f s u \<Longrightarrow> tstate s1 u = VIBE_THREAD_READY \<and> ctx_satisfied (th_tls (g_tcb s u)) s1"
    by (auto simp: sat)
  let ?s2 = "s1\<lparr>PRIMASK := PRIMASK s\<rparr>"
  let ?s3 = "vibe_sched_reschedule cfg ?s2"
  have run: "vibe_event_post cfg (Some ev) flags s = Some (VIBE_OK, Some (ev\<lparr>ev_flags := ?f, ev_wait_list := wl1\<rparr>), ?s3)"
    using r(1) by (simp add: vibe_event_post_def arch_irq_lock_def arch_irq_unlock_def hd)
  have tls: "th_tls (g_tcb ?s3 u) = th_tls (g_tcb s u)" for u
    using r(5) [of u] by (auto simp: vibe_sched_reschedule_def trace_switch_def kernel_ops Let_def split: option.split)
  have "runnable ?s3 t \<and> vibe_event_wait_resume t ?s3 = VIBE_OK" if "t \<in> set W" "satisfied_by ?f s t" for t
    using r(6) [OF that] that(2)
    by (auto simp: reschedule_tstate vibe_event_wait_resume_def tls satisfied_by_code ctx_satisfied_def frame_simps Let_def)
  then show ?thesis using run r(2,4) by (auto simp: frame_simps intro!: reschedule_keeps reschedule_wait_rep)
qed

text \<open>
  Waiting. A satisfied condition returns \<^verbatim>\<open>VIBE_OK\<close> and an unsatisfied one without waiting \<^verbatim>\<open>VIBE_EAGAIN\<close>, both without any
  change; otherwise the caller is queued behind the earlier waiters with its condition recorded: a later flag set wakes it exactly
  when it satisfies the requested flags in the requested mode, provided the thread has a context (\<^verbatim>\<open>tls\<close> is not \<^verbatim>\<open>NULL\<close>).
\<close>

theorem event_wait_records_condition:
  assumes "kernel_inv s" "wait_rep s (ev_wait_list ev) W" "may_block s t" "flags \<noteq> 0"
  shows "(cond_met (ev_flags ev) flags mode \<longrightarrow>
      vibe_event_wait cfg (Some ev) flags mode timeout s = Some (Return VIBE_OK, Some ev, s)) \<and>
    (\<not> cond_met (ev_flags ev) flags mode \<longrightarrow>
      vibe_event_wait cfg (Some ev) flags mode VIBE_NO_WAIT s = Some (Return VIBE_EAGAIN, Some ev, s)) \<and>
    (\<not> cond_met (ev_flags ev) flags mode \<longrightarrow> timeout \<noteq> VIBE_NO_WAIT \<longrightarrow>
      (\<exists>ev' s'. vibe_event_wait cfg (Some ev) flags mode timeout s = Some (Suspended, Some ev', s') \<and>
         ev_flags ev' = ev_flags ev \<and> kernel_inv s' \<and> wait_rep s' (ev_wait_list ev') (W @ [t]) \<and> PRIMASK s' = PRIMASK s \<and>
         (\<forall>new. satisfied_by new s' t \<longleftrightarrow> th_tls (g_tcb s t) \<noteq> 0 \<and> cond_met new flags mode)))"
proof -
  have c: "g_current_thread s = Some t" using assms(3) by (simp add: may_block_def)
  have "\<exists>ev' s'. vibe_event_wait cfg (Some ev) flags mode timeout s = Some (Suspended, Some ev', s') \<and>
         ev_flags ev' = ev_flags ev \<and> kernel_inv s' \<and> wait_rep s' (ev_wait_list ev') (W @ [t]) \<and> PRIMASK s' = PRIMASK s \<and>
         (\<forall>new. satisfied_by new s' t \<longleftrightarrow> th_tls (g_tcb s t) \<noteq> 0 \<and> flags_satisfied new flags mode)"
    if h: "\<not> flags_satisfied (ev_flags ev) flags mode" "timeout \<noteq> VIBE_NO_WAIT"
  proof -
    define s0 where "s0 = open_ctx (th_tls (g_tcb s t)) flags mode (s\<lparr>PRIMASK := 1\<rparr>)"
    from event_wait_run [OF assms(4) h c, of cfg] obtain wl s' where
      r: "vibe_event_wait cfg (Some ev) flags mode timeout s = Some (Suspended, Some (ev\<lparr>ev_wait_list := wl\<rparr>), s')"
        "block_on cfg (PRIMASK s) t (wait_deadline timeout s) (ev_wait_list ev) s0 = (wl, s')" unfolding s0_def by blast
    have s0: "s0 = s\<lparr>PRIMASK := 1, mem32 := mem32 s0\<rparr>" using open_ctx_mem [of _ _ _ "s\<lparr>PRIMASK := 1\<rparr>"] by (simp add: s0_def)
    have "kernel_inv s0" "may_block s0 t" "wait_rep s0 (ev_wait_list ev) W"
      using assms(1-3) by (subst s0, simp add: may_block_def)+
    note k = block_on_rep [OF this r(2)] and p = block_on_facts [OF this(1,2) r(2)]
    have tls: "th_tls (g_tcb s' t) = th_tls (g_tcb s t)" using block_on_tls(1) [OF r(2), of t] by (subst (asm) s0) simp
    have mem: "mem32 s' = mem32 s0" by (rule block_on_tls(2) [OF r(2)])
    have "ctx_wait_mode (th_tls (g_tcb s t)) s' = mode" "ctx_wait_flags (th_tls (g_tcb s t)) s' = flags" if "th_tls (g_tcb s t) \<noteq> 0"
      using open_ctx_words [OF that, of flags mode "s\<lparr>PRIMASK := 1\<rparr>"]
      by (cases mode; simp add: ctx_wait_mode_def ctx_wait_flags_def mem s0_def)+
    then have "satisfied_by new s' t \<longleftrightarrow> th_tls (g_tcb s t) \<noteq> 0 \<and> flags_satisfied new flags mode" for new
      by (auto simp: satisfied_by_code tls Let_def)
    moreover have "PRIMASK s' = PRIMASK s" by (rule p)
    ultimately show ?thesis using r(1) k(1,2) by simp
  qed
  then show ?thesis using assms(4)
    by (simp add: vibe_event_wait_def arch_irq_lock_def arch_irq_unlock_def flags_satisfied_iff)
qed

theorem event_wait_records_condition_witness:
  "\<exists>ev' s'. vibe_event_wait demo_cfg (Some \<lparr>ev_flags = 1, ev_wait_list = vibe_list_init\<rparr>) 6 VIBE_EVENT_WAIT_ALL VIBE_WAIT_FOREVER demo_state =
      Some (Suspended, Some ev', s') \<and> ev_flags ev' = 1 \<and> kernel_inv s' \<and> wait_rep s' (ev_wait_list ev') [7]"
proof -
  have "\<not> cond_met 1 6 VIBE_EVENT_WAIT_ALL" "VIBE_WAIT_FOREVER \<noteq> VIBE_NO_WAIT"
    by (simp_all add: flags_satisfied_def VIBE_WAIT_FOREVER_def VIBE_NO_WAIT_def flip: flags_satisfied_iff)
  then show ?thesis
    using event_wait_records_condition [OF demo_state_facts(2) _ demo_state_facts(6), of "\<lparr>ev_flags = 1, ev_wait_list = vibe_list_init\<rparr>" "[]" 6
      VIBE_EVENT_WAIT_ALL demo_cfg VIBE_WAIT_FOREVER] by auto
qed

theorem event_post_wakes_exactly_witness:
  "\<exists>s wl ev' s'. kernel_inv s \<and> wait_rep s wl [7] \<and>
     vibe_event_post demo_cfg (Some \<lparr>ev_flags = 1, ev_wait_list = wl\<rparr>) 2 s = Some (VIBE_OK, Some ev', s') \<and> ev_flags ev' = 3 \<and> kernel_inv s'"
proof -
  obtain wl s where b: "block_on demo_cfg 0 7 0 vibe_list_init demo_state = (wl, s)" by force
  note k = block_on_rep(1,2) [OF demo_state_facts(2,6) wait_rep_init b]
  have rep: "wait_rep s (ev_wait_list \<lparr>ev_flags = 1, ev_wait_list = wl\<rparr>) [7]" using k(2) by simp
  have "ctxs_apart s [7]" by (simp add: ctxs_apart_def)
  from event_post_wakes_exactly [OF k(1) rep this, of demo_cfg 2] k(1) rep show ?thesis by auto
qed

text \<open>
  The wait context does not fit where \<^verbatim>\<open>vibe_thread_create\<close> puts it. The \<^verbatim>\<open>tls\<close> pointer names the last word of the stack, the context is
  three words long: a blocking wait overwrites the first word past the end of the stack with the wait mode.
\<close>

theorem event_wait_past_stack:
  assumes "flags \<noteq> 0" "\<not> flags_satisfied (ev_flags ev) flags mode" "timeout \<noteq> VIBE_NO_WAIT" "g_current_thread s = Some t"
    and "th_tls (g_tcb s t) = th_stack_base (g_tcb s t) + th_stack_size (g_tcb s t) - 4" "th_tls (g_tcb s t) \<noteq> 0"
  shows "\<exists>ev' s'. vibe_event_wait cfg (Some ev) flags mode timeout s = Some (Suspended, Some ev', s') \<and>
    mem32 s' (th_stack_base (g_tcb s t) + th_stack_size (g_tcb s t)) = mode_code mode"
proof -
  from event_wait_run [OF assms(1-4), of cfg] obtain wl s' where
    r: "vibe_event_wait cfg (Some ev) flags mode timeout s = Some (Suspended, Some (ev\<lparr>ev_wait_list := wl\<rparr>), s')"
      "block_on cfg (PRIMASK s) t (wait_deadline timeout s) (ev_wait_list ev)
         (open_ctx (th_tls (g_tcb s t)) flags mode (s\<lparr>PRIMASK := 1\<rparr>)) = (wl, s')" by blast
  have "th_tls (g_tcb s t) + 4 = th_stack_base (g_tcb s t) + th_stack_size (g_tcb s t)" using assms(5) by simp
  with open_ctx_words(2) [OF assms(6), of flags mode "s\<lparr>PRIMASK := 1\<rparr>"] block_on_tls(2) [OF r(2)] r(1) show ?thesis by auto
qed

theorem event_wait_past_stack_witness:
  "\<exists>s ev' s'. th_stack_base (g_tcb s 7) = 0x20001000 \<and> th_stack_size (g_tcb s 7) = 512 \<and>
     vibe_event_wait demo_cfg (Some \<lparr>ev_flags = 0, ev_wait_list = vibe_list_init\<rparr>) 6 VIBE_EVENT_WAIT_ALL VIBE_WAIT_FOREVER s =
       Some (Suspended, Some ev', s') \<and> mem32 s' 0x20001200 = 1"
proof -
  let ?s = "upd_tcb 7 (\<lambda>th. th\<lparr>th_stack_base := 0x20001000, th_stack_size := 512, th_tls := 0x200011FC\<rparr>) demo_state"
  have "\<not> flags_satisfied 0 6 VIBE_EVENT_WAIT_ALL" "VIBE_WAIT_FOREVER \<noteq> VIBE_NO_WAIT"
    by (simp_all add: flags_satisfied_def VIBE_WAIT_FOREVER_def VIBE_NO_WAIT_def)
  then show ?thesis
    using event_wait_past_stack [of 6 "\<lparr>ev_flags = 0, ev_wait_list = vibe_list_init\<rparr>" VIBE_EVENT_WAIT_ALL VIBE_WAIT_FOREVER ?s 7 demo_cfg]
      demo_state_facts(3) by (intro exI [of _ ?s]) auto
qed

end
