(* ===== verification/Vibe_Mem.thy ===== *)
theory Vibe_Mem
  imports Vibe_Fifo
begin

text \<open>
  Byte-addressed memory for the allocators, whose bookkeeping lives inside the memory they manage: little-endian 32-bit loads and
  stores, \<^verbatim>\<open>memset\<close>, and the law that accesses to disjoint regions commute.
\<close>

type_synonym memory = "nat \<Rightarrow> u8"

definition ld32 :: "memory \<Rightarrow> nat \<Rightarrow> u32" where
  "ld32 m a = ucast (m a) OR push_bit 8 (ucast (m (a + 1))) OR push_bit 16 (ucast (m (a + 2))) OR push_bit 24 (ucast (m (a + 3)))"

definition st32 :: "nat \<Rightarrow> u32 \<Rightarrow> memory \<Rightarrow> memory" where
  "st32 a v m = m(a := ucast v, a + 1 := ucast (drop_bit 8 v), a + 2 := ucast (drop_bit 16 v), a + 3 := ucast (drop_bit 24 v))"

definition mem_set :: "nat \<Rightarrow> u8 \<Rightarrow> nat \<Rightarrow> memory \<Rightarrow> memory" where
  "mem_set a v n m = (\<lambda>i. if a \<le> i \<and> i < a + n then v else m i)"

lemma ld32_st32 [simp]: "ld32 (st32 a v m) a = v"
proof (rule bit_word_eqI)
  fix n assume "n < LENGTH(32)"
  then have n: "n < 32" by simp
  consider "n < 8" | "8 \<le> n" "n < 16" | "16 \<le> n" "n < 24" | "24 \<le> n" "n < 32" using n by linarith
  then show "bit (ld32 (st32 a v m) a) n = bit v n"
    by cases (auto simp: ld32_def st32_def bit_or_iff bit_push_bit_iff bit_ucast_iff bit_drop_bit_eq less_diff_conv2)
qed

lemma ld32_cong: "(\<And>i. a \<le> i \<Longrightarrow> i < a + 4 \<Longrightarrow> m' i = m i) \<Longrightarrow> ld32 m' a = ld32 m a"
  by (simp add: ld32_def)

lemma st32_other: "i < a \<or> a + 4 \<le> i \<Longrightarrow> st32 a v m i = m i"
  by (auto simp: st32_def)

lemma ld32_st32_other: "b + 4 \<le> a \<or> a + 4 \<le> b \<Longrightarrow> ld32 (st32 a v m) b = ld32 m b"
  by (rule ld32_cong) (auto intro!: st32_other)

lemma mem_set_other: "i < a \<or> a + n \<le> i \<Longrightarrow> mem_set a v n m i = m i"
  by (auto simp: mem_set_def)

lemma ld32_mem_set_other: "b + 4 \<le> a \<or> a + n \<le> b \<Longrightarrow> ld32 (mem_set a v n m) b = ld32 m b"
  by (rule ld32_cong) (auto intro!: mem_set_other)

lemma ld32_zero: "(\<And>i. a \<le> i \<Longrightarrow> i < a + 4 \<Longrightarrow> m i = 0) \<Longrightarrow> ld32 m a = 0"
  by (simp add: ld32_def)

end
