(* ===== verification/Vibe_Mem_Pool.thy ===== *)
theory Vibe_Mem_Pool
  imports Vibe_Mem Vibe_Msgq
begin

text \<open>
  Fixed-size block pools (\<^verbatim>\<open>kernel/mem_pool.c\<close>). A free block holds the address of the next free block in its first word, so the
  free list lives in the managed memory, modelled byte by byte; a pointer is an address and 0 is \<^verbatim>\<open>NULL\<close>.
\<close>

section \<open>Operations\<close>

record vibe_mem_pool_t =
  mp_block_size :: u32
  mp_num_blocks :: u32
  mp_free_count :: u32
  mp_blocks :: u32
  mp_free_list :: u32
  mp_wait_list :: "tid vibe_list"

text \<open>The loop that chains the blocks, from the block at \<open>p\<close> on, with the previous block \<open>prev\<close>.\<close>

primrec pool_chain :: "nat \<Rightarrow> u32 \<Rightarrow> u32 \<Rightarrow> u32 \<Rightarrow> memory \<Rightarrow> memory" where
  "pool_chain 0 bs p prev m = m"
| "pool_chain (Suc n) bs p prev m =
     (let m = (if prev \<noteq> 0 then st32 (unat prev) p m else m);
          m = st32 (unat p) 0 m
      in pool_chain n bs (p + bs) p m)"

definition vibe_mem_pool_init ::
    "vibe_mem_pool_t option \<Rightarrow> u32 \<Rightarrow> u32 \<Rightarrow> u32 \<Rightarrow> memory \<Rightarrow> vibe_err_t \<times> vibe_mem_pool_t option \<times> memory" where
  "vibe_mem_pool_init pool buffer block_size num_blocks m =
     (if pool = None \<or> buffer = 0 \<or> block_size = 0 \<or> num_blocks = 0 then (VIBE_EINVAL, pool, m)
      else
        (let block_size = (if block_size < 4 then 4 else block_size)
         in (VIBE_OK,
             Some \<lparr>mp_block_size = block_size, mp_num_blocks = num_blocks, mp_free_count = num_blocks, mp_blocks = buffer,
                   mp_free_list = buffer, mp_wait_list = vibe_list_init\<rparr>,
             pool_chain (unat num_blocks) block_size buffer 0 m)))"

text \<open>Taking the first free block, as both attempts of \<^verbatim>\<open>vibe_mem_pool_alloc\<close> do.\<close>

definition pool_take :: "vibe_mem_pool_t \<Rightarrow> memory \<Rightarrow> u32 \<times> vibe_mem_pool_t \<times> memory" where
  "pool_take pool m =
     (let blk = mp_free_list pool;
          pool = pool\<lparr>mp_free_list := ld32 m (unat blk), mp_free_count := mp_free_count pool - 1\<rparr>
      in (blk, pool, mem_set (unat blk) 0 (unat (mp_block_size pool)) m))"

definition vibe_mem_pool_alloc ::
    "kconfig \<Rightarrow> vibe_mem_pool_t option \<Rightarrow> vibe_tick_t \<Rightarrow> memory \<Rightarrow> kstate \<Rightarrow>
     (u32 wait_result \<times> vibe_mem_pool_t option \<times> memory \<times> kstate) option" where
  "vibe_mem_pool_alloc cfg pool timeout m s =
     (case pool of
        None \<Rightarrow> Some (Return 0, None, m, s)
      | Some pool \<Rightarrow>
          (let (key, s) = arch_irq_lock s in
           if mp_free_list pool \<noteq> 0 then
             (let (blk, pool, m) = pool_take pool m in Some (Return blk, Some pool, m, arch_irq_unlock key s))
           else if timeout = VIBE_NO_WAIT then Some (Return 0, Some pool, m, arch_irq_unlock key s)
           else case vibe_thread_self s of
                  None \<Rightarrow> None
                | Some self \<Rightarrow>
                    (let (wl, s) = block_on cfg key self (wait_deadline timeout s) (mp_wait_list pool) s
                     in Some (Suspended, Some (pool\<lparr>mp_wait_list := wl\<rparr>), m, s))))"

definition vibe_mem_pool_alloc_resume ::
    "vibe_mem_pool_t \<Rightarrow> memory \<Rightarrow> kstate \<Rightarrow> u32 \<times> vibe_mem_pool_t \<times> memory \<times> kstate" where
  "vibe_mem_pool_alloc_resume pool m s =
     (let (key, s) = arch_irq_lock s in
      if mp_free_list pool \<noteq> 0 then
        (let (blk, pool, m) = pool_take pool m in (blk, pool, m, arch_irq_unlock key s))
      else (0, pool, m, arch_irq_unlock key s))"

definition vibe_mem_pool_free ::
    "kconfig \<Rightarrow> vibe_mem_pool_t option \<Rightarrow> u32 \<Rightarrow> memory \<Rightarrow> kstate \<Rightarrow> vibe_err_t \<times> vibe_mem_pool_t option \<times> memory \<times> kstate" where
  "vibe_mem_pool_free cfg pool ptr m s =
     (case pool of
        None \<Rightarrow> (VIBE_EINVAL, None, m, s)
      | Some pool \<Rightarrow>
          if ptr = 0 then (VIBE_EINVAL, Some pool, m, s)
          else if ptr < mp_blocks pool \<or> mp_blocks pool + mp_num_blocks pool * mp_block_size pool \<le> ptr
          then (VIBE_EINVAL, Some pool, m, s)
          else
            (let (key, s) = arch_irq_lock s;
                 m = st32 (unat ptr) (mp_free_list pool) m;
                 pool = pool\<lparr>mp_free_list := ptr, mp_free_count := mp_free_count pool + 1\<rparr>;
                 (wn, wl, s) = wake_head (mp_wait_list pool) s;
                 s = arch_irq_unlock key s
             in (VIBE_OK, Some (pool\<lparr>mp_wait_list := wl\<rparr>), m, vibe_sched_reschedule cfg s)))"

definition vibe_mem_pool_free_count :: "vibe_mem_pool_t option \<Rightarrow> u32" where
  "vibe_mem_pool_free_count pool = (case pool of None \<Rightarrow> 0 | Some pool \<Rightarrow> mp_free_count pool)"

section \<open>The blocks of a pool\<close>

definition pool_blocks :: "vibe_mem_pool_t \<Rightarrow> nat list" where
  "pool_blocks pool = map (\<lambda>i. unat (mp_blocks pool) + i * unat (mp_block_size pool)) [0..<unat (mp_num_blocks pool)]"

definition pool_fits :: "vibe_mem_pool_t \<Rightarrow> bool" where
  "pool_fits pool \<longleftrightarrow> 4 \<le> unat (mp_block_size pool) \<and> 0 < unat (mp_blocks pool) \<and>
     unat (mp_blocks pool) + unat (mp_num_blocks pool) * unat (mp_block_size pool) < 2 ^ 32"

primrec free_chain :: "memory \<Rightarrow> u32 \<Rightarrow> nat list \<Rightarrow> bool" where
  "free_chain m h [] \<longleftrightarrow> h = 0"
| "free_chain m h (b # bs) \<longleftrightarrow> unat h = b \<and> free_chain m (ld32 m b) bs"

text \<open>\<open>F\<close> lists the free blocks, in the order in which they are handed out.\<close>

definition pool_rep :: "memory \<Rightarrow> vibe_mem_pool_t \<Rightarrow> nat list \<Rightarrow> bool" where
  "pool_rep m pool F \<longleftrightarrow>
     pool_fits pool \<and> distinct F \<and> set F \<subseteq> set (pool_blocks pool) \<and> free_chain m (mp_free_list pool) F \<and>
     mp_free_count pool = of_nat (length F)"

lemma pool_blocks_apart:
  assumes "pool_fits pool" "a \<in> set (pool_blocks pool)" "b \<in> set (pool_blocks pool)" "a \<noteq> b"
  shows "a + unat (mp_block_size pool) \<le> b \<or> b + unat (mp_block_size pool) \<le> a"
proof -
  let ?z = "unat (mp_block_size pool)"
  obtain i j where "a = unat (mp_blocks pool) + i * ?z" "b = unat (mp_blocks pool) + j * ?z" "i \<noteq> j"
    using assms(2-4) by (auto simp: pool_blocks_def)
  moreover have "Suc i * ?z \<le> j * ?z \<or> Suc j * ?z \<le> i * ?z" using \<open>i \<noteq> j\<close> by (metis Suc_leI linorder_neq_iff mult_le_mono1)
  ultimately show ?thesis by auto
qed

lemma pool_block_bounds:
  assumes "pool_fits pool" "b \<in> set (pool_blocks pool)"
  shows "0 < b" "b + unat (mp_block_size pool) \<le> unat (mp_blocks pool) + unat (mp_num_blocks pool) * unat (mp_block_size pool)"
    "unat (mp_blocks pool) \<le> b" "b < 2 ^ 32"
proof -
  let ?z = "unat (mp_block_size pool)"
  obtain i where i: "i < unat (mp_num_blocks pool)" "b = unat (mp_blocks pool) + i * ?z" using assms(2) by (auto simp: pool_blocks_def)
  then have "Suc i * ?z \<le> unat (mp_num_blocks pool) * ?z" by (intro mult_le_mono1) simp
  then show "0 < b" "b + ?z \<le> unat (mp_blocks pool) + unat (mp_num_blocks pool) * ?z" "unat (mp_blocks pool) \<le> b" "b < 2 ^ 32"
    using i assms(1) by (auto simp: pool_fits_def)
qed

lemma free_chain_cong: "(\<And>b. b \<in> set F \<Longrightarrow> ld32 m' b = ld32 m b) \<Longrightarrow> free_chain m' h F = free_chain m h F"
  by (induction F arbitrary: h) auto

lemma pool_blocks_cong [simp]:
  "pool_blocks (pool\<lparr>mp_free_list := a\<rparr>) = pool_blocks pool" "pool_blocks (pool\<lparr>mp_free_count := c\<rparr>) = pool_blocks pool"
  "pool_blocks (pool\<lparr>mp_wait_list := l\<rparr>) = pool_blocks pool"
  "pool_fits (pool\<lparr>mp_free_list := a\<rparr>) = pool_fits pool" "pool_fits (pool\<lparr>mp_free_count := c\<rparr>) = pool_fits pool"
  "pool_fits (pool\<lparr>mp_wait_list := l\<rparr>) = pool_fits pool"
  by (simp_all add: pool_blocks_def pool_fits_def)

lemma pool_take_rep:
  assumes rep: "pool_rep m pool (b # F)" and run: "pool_take pool m = (blk, pool', m')"
  shows "unat blk = b" "pool_rep m' pool' F" "pool_blocks pool' = pool_blocks pool" "mp_wait_list pool' = mp_wait_list pool"
    "\<And>i. b \<le> i \<Longrightarrow> i < b + unat (mp_block_size pool) \<Longrightarrow> m' i = 0"
    "\<And>i. i < b \<or> b + unat (mp_block_size pool) \<le> i \<Longrightarrow> m' i = m i"
proof -
  have r: "pool_fits pool" "distinct (b # F)" "set (b # F) \<subseteq> set (pool_blocks pool)" "free_chain m (mp_free_list pool) (b # F)"
      "mp_free_count pool = of_nat (Suc (length F))" using rep by (auto simp: pool_rep_def)
  have e: "blk = mp_free_list pool" "pool' = pool\<lparr>mp_free_list := ld32 m b, mp_free_count := mp_free_count pool - 1\<rparr>"
      "m' = mem_set b 0 (unat (mp_block_size pool)) m" using run r(4) by (auto simp: pool_take_def Let_def)
  show "unat blk = b" using r(4) e(1) by simp
  show "m' i = 0" if "b \<le> i" "i < b + unat (mp_block_size pool)" for i using that by (simp add: e(3) mem_set_def)
  show "m' i = m i" if "i < b \<or> b + unat (mp_block_size pool) \<le> i" for i using that by (simp add: e(3) mem_set_other)
  have "ld32 m' a = ld32 m a" if "a \<in> set F" for a
  proof -
    have "a + unat (mp_block_size pool) \<le> b \<or> b + unat (mp_block_size pool) \<le> a"
      using that r(2,3) by (intro pool_blocks_apart [OF r(1)]) auto
    then show ?thesis unfolding e(3) using r(1) by (intro ld32_mem_set_other) (auto simp: pool_fits_def)
  qed
  then have "free_chain m' (ld32 m b) F" using r(4) free_chain_cong [of F m' m] by simp
  then show "pool_rep m' pool' F" using r by (simp add: pool_rep_def e(2))
  show "pool_blocks pool' = pool_blocks pool" "mp_wait_list pool' = mp_wait_list pool" by (simp_all add: e(2))
qed

text \<open>Returning a block that is not free.\<close>

lemma pool_give_rep:
  assumes rep: "pool_rep m pool F" and b: "unat ptr \<in> set (pool_blocks pool)" "unat ptr \<notin> set F"
  shows "pool_rep (st32 (unat ptr) (mp_free_list pool) m) (pool\<lparr>mp_free_list := ptr, mp_free_count := mp_free_count pool + 1\<rparr>) (unat ptr # F)"
proof -
  have r: "pool_fits pool" "distinct F" "set F \<subseteq> set (pool_blocks pool)" "free_chain m (mp_free_list pool) F"
      "mp_free_count pool = of_nat (length F)" using rep by (auto simp: pool_rep_def)
  have "ld32 (st32 (unat ptr) (mp_free_list pool) m) a = ld32 m a" if "a \<in> set F" for a
  proof -
    have "a + unat (mp_block_size pool) \<le> unat ptr \<or> unat ptr + unat (mp_block_size pool) \<le> a"
      using that r(3) b by (intro pool_blocks_apart [OF r(1)]) auto
    then show ?thesis using r(1) by (intro ld32_st32_other) (auto simp: pool_fits_def)
  qed
  then have "free_chain (st32 (unat ptr) (mp_free_list pool) m) (mp_free_list pool) F" using r(4) free_chain_cong by blast
  then show ?thesis using r b by (simp add: pool_rep_def add.commute)
qed

text \<open>The chain that initialisation builds.\<close>

lemma pool_chain_rep:
  assumes "unat p + n * unat bs < 2 ^ 32" "4 \<le> unat bs" "prev = 0 \<or> unat prev + unat bs = unat p" "n > 0" "unat p > 0"
  shows "free_chain (pool_chain n bs p prev m) p (map (\<lambda>i. unat p + i * unat bs) [0..<n]) \<and>
    (prev \<noteq> 0 \<longrightarrow> ld32 (pool_chain n bs p prev m) (unat prev) = p) \<and>
    (\<forall>i. i < (if prev = 0 then unat p else unat prev) \<longrightarrow> pool_chain n bs p prev m i = m i)"
  using assms
proof (induction n arbitrary: p prev m)
  case (Suc n)
  define m1 where "m1 = st32 (unat p) 0 (if prev \<noteq> 0 then st32 (unat prev) p m else m)"
  have run: "pool_chain (Suc n) bs p prev m = pool_chain n bs (p + bs) p m1" by (simp add: m1_def)
  have prev1: "ld32 m1 (unat prev) = p" if "prev \<noteq> 0"
    using that Suc.prems(2,3) by (simp add: m1_def ld32_st32_other)
  have low1: "m1 i = m i" if "i < (if prev = 0 then unat p else unat prev)" for i
    using that Suc.prems(3) by (auto simp: m1_def st32_other split: if_splits)
  show ?case
  proof (cases "n = 0")
    case True
    then have r1: "pool_chain (Suc n) bs p prev m = m1" unfolding run by simp
    have "ld32 m1 (unat p) = 0" by (simp add: m1_def)
    then show ?thesis unfolding r1 using True prev1 low1 by auto
  next
    case False
    have p1: "unat (p + bs) = unat p + unat bs" using Suc.prems(1) by (intro unat_plus_u32) simp
    have p0: "p \<noteq> 0" using Suc.prems(5) by auto
    have "unat (p + bs) + n * unat bs < 2 ^ 32" "p = 0 \<or> unat p + unat bs = unat (p + bs)" "unat (p + bs) > 0" "n > 0"
      using Suc.prems(1,5) p1 False by simp_all
    from Suc.IH [OF this(1) Suc.prems(2) this(2,4,3), of m1] p0 have
      ih: "free_chain (pool_chain n bs (p + bs) p m1) (p + bs) (map (\<lambda>i. unat (p + bs) + i * unat bs) [0..<n])"
        "ld32 (pool_chain n bs (p + bs) p m1) (unat p) = p + bs"
        "\<And>i. i < unat p \<Longrightarrow> pool_chain n bs (p + bs) p m1 i = m1 i" by auto
    have "map (\<lambda>i. unat p + i * unat bs) [0..<Suc n] = unat p # map (\<lambda>i. unat (p + bs) + i * unat bs) [0..<n]"
      by (simp add: map_upt_Suc p1 del: upt_Suc)
    moreover have "ld32 (pool_chain n bs (p + bs) p m1) (unat prev) = p" if "prev \<noteq> 0"
      using ld32_cong [of "unat prev" "pool_chain n bs (p + bs) p m1" m1] ih(3) prev1 that Suc.prems(2,3) by simp
    ultimately show ?thesis unfolding run using ih low1 Suc.prems(3) by auto
  qed
qed simp

lemma pool_init_rep:
  assumes "0 < unat bs" "0 < unat num" "0 < unat buffer" "unat buffer + unat num * max 4 (unat bs) < 2 ^ 32"
  shows "\<exists>pool m'. vibe_mem_pool_init (Some p0) buffer bs num m = (VIBE_OK, Some pool, m') \<and>
    pool_rep m' pool (pool_blocks pool) \<and> mp_wait_list pool = vibe_list_init \<and> mp_blocks pool = buffer \<and> mp_num_blocks pool = num \<and>
    unat (mp_block_size pool) = max 4 (unat bs)"
proof -
  let ?z = "if bs < 4 then 4 else bs"
  have z: "unat ?z = max 4 (unat bs)" by (auto simp: word_less_nat_alt)
  define pool where "pool = \<lparr>mp_block_size = ?z, mp_num_blocks = num, mp_free_count = num, mp_blocks = buffer,
    mp_free_list = buffer, mp_wait_list = vibe_list_init\<rparr>"
  have f: "mp_block_size pool = ?z" "mp_num_blocks pool = num" "mp_free_count pool = num" "mp_blocks pool = buffer"
      "mp_free_list pool = buffer" "mp_wait_list pool = vibe_list_init" by (simp_all add: pool_def)
  have fits: "pool_fits pool" using assms z by (simp add: pool_fits_def f del: if_split_asm)
  have "free_chain (pool_chain (unat num) ?z buffer 0 m) buffer (map (\<lambda>i. unat buffer + i * unat ?z) [0..<unat num])"
    using pool_chain_rep [of buffer "unat num" ?z 0 m] assms z by (simp split del: if_split)
  moreover have "distinct (pool_blocks pool)"
    using assms z by (auto simp: pool_blocks_def f distinct_map inj_on_def split: if_splits)
  ultimately have "pool_rep (pool_chain (unat num) ?z buffer 0 m) pool (pool_blocks pool)"
    using fits by (simp add: pool_rep_def pool_blocks_def f)
  moreover have "vibe_mem_pool_init (Some p0) buffer bs num m = (VIBE_OK, Some pool, pool_chain (unat num) ?z buffer 0 m)"
    using assms by (auto simp: vibe_mem_pool_init_def pool_def)
  ultimately show ?thesis using f z by auto
qed

section \<open>Properties\<close>

text \<open>Repeated allocation without waiting.\<close>

primrec pool_allocs :: "kconfig \<Rightarrow> nat \<Rightarrow> vibe_mem_pool_t option \<Rightarrow> memory \<Rightarrow> kstate \<Rightarrow> u32 list \<times> vibe_mem_pool_t option \<times> memory \<times> kstate" where
  "pool_allocs cfg 0 pool m s = ([], pool, m, s)"
| "pool_allocs cfg (Suc k) pool m s =
     (case vibe_mem_pool_alloc cfg pool VIBE_NO_WAIT m s of
        Some (Return b, pool, m, s) \<Rightarrow> (case pool_allocs cfg k pool m s of (bs, r) \<Rightarrow> (b # bs, r))
      | _ \<Rightarrow> ([], pool, m, s))"

lemma pool_alloc_nowait:
  "vibe_mem_pool_alloc cfg (Some pool) VIBE_NO_WAIT m s =
     Some (if mp_free_list pool \<noteq> 0 then (case pool_take pool m of (b, pool, m) \<Rightarrow> (Return b, Some pool, m, s))
           else (Return 0, Some pool, m, s))"
  by (simp add: vibe_mem_pool_alloc_def arch_irq_lock_def arch_irq_unlock_def split: prod.split)

lemma free_list_nonzero: "pool_rep m pool F \<Longrightarrow> mp_free_list pool \<noteq> 0 \<longleftrightarrow> F \<noteq> []"
  using pool_block_bounds(1) [of pool "hd F"] by (cases F) (auto simp: pool_rep_def)

lemma pool_allocs_rep:
  assumes "pool_rep m pool F"
  shows "map unat (fst (pool_allocs cfg k (Some pool) m s)) = take k F @ replicate (k - length F) 0"
  using assms
proof (induction k arbitrary: pool m F)
  case (Suc k)
  show ?case
  proof (cases F)
    case Nil
    then have "vibe_mem_pool_alloc cfg (Some pool) VIBE_NO_WAIT m s = Some (Return 0, Some pool, m, s)"
      using free_list_nonzero [OF Suc.prems] by (simp add: pool_alloc_nowait)
    then show ?thesis using Suc.IH [OF Suc.prems] Nil by (auto split: prod.splits)
  next
    case (Cons b G)
    obtain blk pool' m' where t: "pool_take pool m = (blk, pool', m')" by (rule prod_cases3)
    then have "vibe_mem_pool_alloc cfg (Some pool) VIBE_NO_WAIT m s = Some (Return blk, Some pool', m', s)"
      using free_list_nonzero [OF Suc.prems] Cons by (simp add: pool_alloc_nowait)
    moreover note k = pool_take_rep(1,2) [OF Suc.prems [unfolded Cons] t]
    ultimately show ?thesis using Suc.IH [OF k(2)] k(1) Cons by (auto split: prod.splits)
  qed
qed simp




lemma demo_pool:
  "\<exists>pool m. pool_rep m pool [0x20004010] \<and> set (pool_blocks pool) = {0x20004000, 0x20004010} \<and> mp_wait_list pool = vibe_list_init"
proof -
  let ?p = "\<lparr>mp_block_size = 0, mp_num_blocks = 0, mp_free_count = 0, mp_blocks = 0, mp_free_list = 0, mp_wait_list = vibe_list_init\<rparr>"
  from pool_init_rep [of 16 2 "0x20004000" ?p "\<lambda>_. 0"] obtain pool m where
    p: "pool_rep m pool (pool_blocks pool)" "mp_wait_list pool = vibe_list_init" "mp_blocks pool = 0x20004000" "mp_num_blocks pool = 2"
      "unat (mp_block_size pool) = 16" by auto
  have two: "[0..<2] = [0, Suc 0]" by (simp add: upt_rec numeral_2_eq_2)
  have bl: "pool_blocks pool = [0x20004000, 0x20004010]" by (simp add: pool_blocks_def p two)
  obtain b pool' m' where t: "pool_take pool m = (b, pool', m')" by (rule prod_cases3)
  from pool_take_rep [OF p(1) [unfolded bl] t] p(2) show ?thesis by (intro exI [of _ pool'] exI [of _ m']) (simp add: bl)
qed


text \<open>
  Initialising a pool with blocks smaller than a pointer overruns the buffer. The block size is raised to four bytes but the buffer the caller
  provides holds \<^verbatim>\<open>block_size * num_blocks\<close> bytes: with two or more blocks of one or two bytes, the first word of the last block starts at or
  after the end of the buffer and is overwritten with the end mark of the free list.
\<close>

theorem mem_pool_init_overrun:
  assumes "0 < unat bs" "unat bs \<le> 2" "2 \<le> unat num" "0 < unat buffer" "unat buffer + unat num * 4 < 2 ^ 32"
    and "vibe_mem_pool_init (Some p0) buffer bs num m = (r, pool, m')"
  shows "r = VIBE_OK \<and> unat buffer + unat bs * unat num \<le> unat buffer + (unat num - 1) * 4 \<and>
    ld32 m' (unat buffer + (unat num - 1) * 4) = 0"
proof -
  have z: "(if bs < 4 then 4 else bs) = (4 :: u32)" using assms(2) by (simp add: word_less_nat_alt)
  have nz: "bs \<noteq> 0" "num \<noteq> 0" "buffer \<noteq> 0" using assms(1,3,4) by auto
  then have m': "r = VIBE_OK" "m' = pool_chain (unat num) 4 buffer 0 m"
    using assms(6) by (auto simp: vibe_mem_pool_init_def z Let_def)
  have ch: "free_chain m' buffer (map (\<lambda>i. unat buffer + i * 4) [0..<unat num])"
    using pool_chain_rep [of buffer "unat num" 4 0 m] assms m'(2) by simp
  have last: "ld32 m' b = 0" if "free_chain m' h (xs @ [b])" for h b xs
    using that by (induction xs arbitrary: h) auto
  have "[0..<unat num] = [0..<unat num - 1] @ [unat num - 1]" using assms(3) by (metis Suc_diff_1 gr_zeroI not_numeral_le_zero upt_Suc zero_le)
  then have "ld32 m' (unat buffer + (unat num - 1) * 4) = 0"
    using ch last [of buffer "map (\<lambda>i. unat buffer + i * 4) [0..<unat num - 1]" "unat buffer + (unat num - 1) * 4"] by simp
  moreover have "unat bs * unat num \<le> (unat num - 1) * 4"
  proof -
    have "unat bs * unat num \<le> 2 * unat num" using assms(2) by (rule mult_le_mono1)
    then show ?thesis using assms(3) by linarith
  qed
  ultimately show ?thesis using m'(1) by simp
qed

theorem mem_pool_init_overrun_witness:
  "\<exists>pool m'. vibe_mem_pool_init (Some \<lparr>mp_block_size = 0, mp_num_blocks = 0, mp_free_count = 0, mp_blocks = 0, mp_free_list = 0,
       mp_wait_list = vibe_list_init\<rparr>) 0x20004000 1 4 (\<lambda>_. 255) = (VIBE_OK, pool, m') \<and> ld32 m' 0x2000400C = 0"
proof -
  let ?p = "\<lparr>mp_block_size = 0, mp_num_blocks = 0, mp_free_count = 0, mp_blocks = 0, mp_free_list = 0, mp_wait_list = vibe_list_init\<rparr>"
  obtain pool m' where i: "vibe_mem_pool_init (Some ?p) 0x20004000 1 4 (\<lambda>_. 255) = (VIBE_OK, pool, m')"
    by (simp add: vibe_mem_pool_init_def)
  from mem_pool_init_overrun [OF _ _ _ _ _ i] i show ?thesis by auto
qed

end
