(* ===== verification/Vibe_Sem.thy ===== *)
theory Vibe_Sem
  imports Vibe_Start
begin

text \<open>
  The counting semaphore (\<^verbatim>\<open>kernel/sem.c\<close>): its operations, and their refinement of an abstract
  semaphore with a number of tokens, a bound and a first-come-first-served list of waiters.
\<close>

section \<open>Operations\<close>

record vibe_sem_t =
  s_count :: u32
  s_max_count :: u32
  s_wait_list :: "tid vibe_list"

definition vibe_sem_init :: "vibe_sem_t option \<Rightarrow> u32 \<Rightarrow> u32 \<Rightarrow> vibe_err_t \<times> vibe_sem_t option" where
  "vibe_sem_init sem initial max_count =
     (case sem of
        None \<Rightarrow> (VIBE_EINVAL, None)
      | Some m \<Rightarrow>
          if max_count > 0 \<and> initial > max_count then (VIBE_EINVAL, Some m)
          else (VIBE_OK, Some (m\<lparr>s_count := initial, s_max_count := max_count, s_wait_list := vibe_list_init\<rparr>)))"

text \<open>A call before the scheduler runs dereferences the \<^verbatim>\<open>NULL\<close> current thread when it has to block.\<close>

definition vibe_sem_take ::
    "kconfig \<Rightarrow> vibe_sem_t option \<Rightarrow> vibe_tick_t \<Rightarrow> kstate \<Rightarrow>
     (vibe_err_t wait_result \<times> vibe_sem_t option \<times> kstate) option" where
  "vibe_sem_take cfg sem timeout s =
     (case sem of
        None \<Rightarrow> Some (Return VIBE_EINVAL, None, s)
      | Some m \<Rightarrow>
          (let (key, s) = arch_irq_lock s in
           if s_count m > 0 then
             Some (Return VIBE_OK, Some (m\<lparr>s_count := s_count m - 1\<rparr>), arch_irq_unlock key s)
           else if timeout = VIBE_NO_WAIT then Some (Return VIBE_EAGAIN, Some m, arch_irq_unlock key s)
           else case vibe_thread_self s of
                  None \<Rightarrow> None
                | Some self \<Rightarrow>
                    (let (wl, s) = block_on cfg key self (wait_deadline timeout s) (s_wait_list m) s
                     in Some (Suspended, Some (m\<lparr>s_wait_list := wl\<rparr>), s))))"

text \<open>The rest of \<^verbatim>\<open>vibe_sem_take\<close>, run by \<open>self\<close> once it is scheduled again.\<close>

definition vibe_sem_take_resume :: "tid \<Rightarrow> kstate \<Rightarrow> vibe_err_t \<times> kstate" where
  "vibe_sem_take_resume self s =
     (let (key, s) = arch_irq_lock s;
          got_it = (tstate s self \<noteq> VIBE_THREAD_SLEEPING);
          s = arch_irq_unlock key s
      in (if got_it then VIBE_OK else VIBE_ETIMEOUT, s))"

definition vibe_sem_give ::
    "kconfig \<Rightarrow> vibe_sem_t option \<Rightarrow> kstate \<Rightarrow> vibe_err_t \<times> vibe_sem_t option \<times> kstate" where
  "vibe_sem_give cfg sem s =
     (case sem of
        None \<Rightarrow> (VIBE_EINVAL, None, s)
      | Some m \<Rightarrow>
          (let (key, s) = arch_irq_lock s in
           case wake_head (s_wait_list m) s of
             (Some waiter, wl, s) \<Rightarrow>
               (VIBE_OK, Some (m\<lparr>s_wait_list := wl\<rparr>), vibe_sched_reschedule cfg (arch_irq_unlock key s))
           | (None, wl, s) \<Rightarrow>
               (let m = m\<lparr>s_wait_list := wl\<rparr> in
                if s_max_count m > 0 \<and> s_count m \<ge> s_max_count m
                then (VIBE_EOVERFLOW, Some m, arch_irq_unlock key s)
                else (VIBE_OK, Some (m\<lparr>s_count := s_count m + 1\<rparr>), arch_irq_unlock key s))))"

definition vibe_sem_count :: "vibe_sem_t option \<Rightarrow> u32" where
  "vibe_sem_count sem = (case sem of Some m \<Rightarrow> s_count m | None \<Rightarrow> 0)"

definition vibe_sem_reset :: "vibe_sem_t option \<Rightarrow> kstate \<Rightarrow> vibe_sem_t option \<times> kstate" where
  "vibe_sem_reset sem s =
     (case sem of
        None \<Rightarrow> (None, s)
      | Some m \<Rightarrow>
          (let (key, s) = arch_irq_lock s;
               m = m\<lparr>s_count := 0\<rparr>
           in (Some m, arch_irq_unlock key s)))"

section \<open>The abstract semaphore\<close>

text \<open>
  \<open>n\<close> tokens, the bound \<open>b\<close> (0 for none) and the waiters \<open>W\<close>. Tokens are never kept while
  somebody waits.
\<close>

record asem =
  tokens :: nat
  bound :: nat
  waiters :: "tid list"

definition asem_ok :: "asem \<Rightarrow> bool" where
  "asem_ok a \<longleftrightarrow> (waiters a \<noteq> [] \<longrightarrow> tokens a = 0) \<and> (bound a > 0 \<longrightarrow> tokens a \<le> bound a)"

definition sem_rep :: "kstate \<Rightarrow> vibe_sem_t \<Rightarrow> asem \<Rightarrow> bool" where
  "sem_rep s m a \<longleftrightarrow>
     unat (s_count m) = tokens a \<and> unat (s_max_count m) = bound a \<and> wait_rep s (s_wait_list m) (waiters a) \<and> asem_ok a"

definition asem_take :: "tid \<Rightarrow> asem \<Rightarrow> asem" where
  "asem_take t a = (if tokens a > 0 then a\<lparr>tokens := tokens a - 1\<rparr> else a\<lparr>waiters := waiters a @ [t]\<rparr>)"

definition asem_give :: "asem \<Rightarrow> tid option \<times> asem" where
  "asem_give a =
     (case waiters a of
        t # W \<Rightarrow> (Some t, a\<lparr>waiters := W\<rparr>)
      | [] \<Rightarrow> (None, if bound a > 0 \<and> bound a \<le> tokens a then a else a\<lparr>tokens := tokens a + 1\<rparr>))"

lemma sem_take_token:
  assumes "sem_rep s m a" "tokens a > 0"
  shows "\<exists>m'. vibe_sem_take cfg (Some m) timeout s = Some (Return VIBE_OK, Some m', s) \<and> sem_rep s m' (asem_take t a)"
proof -
  have c: "s_count m > 0" using assms by (simp add: sem_rep_def word_less_nat_alt)
  moreover have "unat (s_count m - 1) = tokens a - 1" using assms c by (auto simp: sem_rep_def unat_minus_one)
  ultimately show ?thesis using assms
    by (auto simp: vibe_sem_take_def arch_irq_lock_def arch_irq_unlock_def sem_rep_def asem_take_def asem_ok_def)
qed

lemma sem_take_blocks:
  assumes inv: "kernel_inv s" and rep: "sem_rep s m a" and a: "tokens a = 0" and t: "may_block s t"
    and w: "timeout \<noteq> VIBE_NO_WAIT"
  shows "\<exists>m' s'. vibe_sem_take cfg (Some m) timeout s = Some (Suspended, Some m', s') \<and>
    sem_rep s' m' (asem_take t a) \<and> kernel_inv s' \<and> PRIMASK s' = PRIMASK s \<and> g_current_thread s' \<noteq> Some t"
proof -
  let ?dl = "wait_deadline timeout (s\<lparr>PRIMASK := 1\<rparr>)" and ?s = "s\<lparr>PRIMASK := 1\<rparr>"
  have c: "s_count m = 0" "g_current_thread s = Some t"
    using rep a t by (simp_all add: sem_rep_def may_block_def unat_eq_0)
  obtain wl s' where b: "block_on cfg (PRIMASK s) t ?dl (s_wait_list m) ?s = (wl, s')" by force
  have p: "kernel_inv ?s" "may_block ?s t" "wait_rep ?s (s_wait_list m) (waiters a)"
    using inv t rep by (simp_all add: may_block_def sem_rep_def)
  have "wait_rep s' wl (waiters a @ [t])" "kernel_inv s'" using wq.block_law [OF p b] by auto
  moreover have "PRIMASK s' = PRIMASK s" "g_current_thread s' \<noteq> Some t"
    by (rule block_on_facts [OF p(1,2) b]; simp)+
  ultimately show ?thesis
    using b c w a rep by (simp add: vibe_sem_take_def arch_irq_lock_def vibe_thread_self_def sem_rep_def asem_take_def asem_ok_def)
qed

lemma sem_give_wakes:
  assumes inv: "kernel_inv s" and rep: "sem_rep s m a" and a: "asem_give a = (Some t, a')"
  shows "\<exists>m' s'. vibe_sem_give cfg (Some m) s = (VIBE_OK, Some m', s') \<and> sem_rep s' m' a' \<and>
    kernel_inv s' \<and> PRIMASK s' = PRIMASK s \<and> runnable s' t"
proof -
  obtain W where W: "waiters a = t # W" "a' = a\<lparr>waiters := W\<rparr>"
    using a by (auto simp: asem_give_def split: list.splits)
  let ?s = "s\<lparr>PRIMASK := 1\<rparr>"
  obtain r wl s1 where b: "wake_head (s_wait_list m) ?s = (r, wl, s1)" by (cases "wake_head (s_wait_list m) ?s")
  have p: "kernel_inv ?s" "wait_rep ?s (s_wait_list m) (t # W)" using inv rep W by (simp_all add: sem_rep_def)
  have w: "r = Some t" "kernel_inv s1" "wait_rep s1 wl W" using wq.wake_law [OF p b] by auto
  have st: "tstate s1 t = VIBE_THREAD_READY"
    using b w(1) by (auto simp: wake_head_def frame_simps split: prod.splits option.splits)
  let ?s2 = "s1\<lparr>PRIMASK := PRIMASK s\<rparr>"
  have "kernel_inv (vibe_sched_reschedule cfg ?s2)" "wait_rep (vibe_sched_reschedule cfg ?s2) wl W"
    using w by (auto intro: reschedule_keeps reschedule_wait_rep)
  moreover have "runnable (vibe_sched_reschedule cfg ?s2) t" using st by (auto simp: reschedule_tstate)
  ultimately show ?thesis
    using b w(1) rep W by (simp add: vibe_sem_give_def arch_irq_lock_def arch_irq_unlock_def sem_rep_def asem_ok_def frame_simps)
qed

lemma wake_head_empty:
  assumes "wait_rep s wl []"
  shows "wake_head wl s = (None, wl, s)"
proof -
  have "l_head wl = None" using assms by (simp add: wait_rep_def dll_def)
  then show ?thesis by (simp add: wake_head_def vibe_list_get_head_def)
qed

lemma sem_give_counts:
  assumes rep: "sem_rep s m a" and W: "waiters a = []" and fits: "tokens a + 1 < 2 ^ 32"
  shows "\<exists>m'. vibe_sem_give cfg (Some m) s =
      (if bound a > 0 \<and> bound a \<le> tokens a then VIBE_EOVERFLOW else VIBE_OK, Some m', s) \<and>
    sem_rep s m' (snd (asem_give a))"
proof -
  have e: "wake_head (s_wait_list m) (s\<lparr>PRIMASK := 1\<rparr>) = (None, s_wait_list m, s\<lparr>PRIMASK := 1\<rparr>)"
    using rep W by (intro wake_head_empty) (simp add: sem_rep_def)
  have g: "s_max_count m > 0 \<longleftrightarrow> bound a > 0" "s_max_count m \<le> s_count m \<longleftrightarrow> bound a \<le> tokens a"
    using rep by (simp_all add: sem_rep_def word_less_nat_alt word_le_nat_alt)
  have "unat (s_count m + 1) = tokens a + 1"
    using rep fits unat_inc_u32 [of "s_count m"] by (simp add: sem_rep_def)
  moreover have "vibe_sem_give cfg (Some m) s = (if bound a > 0 \<and> bound a \<le> tokens a then (VIBE_EOVERFLOW, Some m, s)
      else (VIBE_OK, Some (m\<lparr>s_count := s_count m + 1\<rparr>), s))"
    by (simp add: vibe_sem_give_def arch_irq_lock_def arch_irq_unlock_def e g)
  ultimately show ?thesis
    using rep W by (cases "bound a > 0 \<and> bound a \<le> tokens a") (auto simp: sem_rep_def asem_give_def asem_ok_def)
qed

section \<open>Properties\<close>



text \<open>
  C8: giving implements the abstract semaphore: the token goes directly to the longest waiting
  thread, which becomes schedulable, and is counted only when nobody waits, up to the bound, beyond which
  the call reports \<^verbatim>\<open>VIBE_EOVERFLOW\<close>.
\<close>

theorem sem_give_refines:
  assumes "kernel_inv s" "sem_rep s m a" "tokens a + 1 < 2 ^ 32"
  shows "\<exists>m' s'. vibe_sem_give cfg (Some m) s =
      (if waiters a = [] \<and> bound a > 0 \<and> bound a \<le> tokens a then VIBE_EOVERFLOW else VIBE_OK, Some m', s') \<and>
    sem_rep s' m' (snd (asem_give a)) \<and> kernel_inv s' \<and> PRIMASK s' = PRIMASK s \<and>
    (\<forall>t. fst (asem_give a) = Some t \<longrightarrow> runnable s' t)"
proof (cases "waiters a")
  case Nil
  with sem_give_counts [OF assms(2) Nil assms(3), of cfg] assms(1) show ?thesis
    by (auto simp: asem_give_def)
next
  case (Cons t W)
  then have "asem_give a = (Some t, a\<lparr>waiters := W\<rparr>)" by (simp add: asem_give_def)
  from sem_give_wakes [OF assms(1,2) this, of cfg] this Cons show ?thesis by auto
qed

theorem sem_give_refines_witness:
  "\<exists>m' s'. vibe_sem_give demo_cfg (Some \<lparr>s_count = 1, s_max_count = 1, s_wait_list = vibe_list_init\<rparr>) demo_state =
     (VIBE_EOVERFLOW, Some m', s') \<and> kernel_inv s'"
  using sem_give_refines [of demo_state "\<lparr>s_count = 1, s_max_count = 1, s_wait_list = vibe_list_init\<rparr>"
      "\<lparr>tokens = 1, bound = 1, waiters = []\<rparr>" demo_cfg]
  by (auto simp: sem_rep_def asem_ok_def demo_state_facts)

text \<open>
  With the scheduler locked, a waiting take on an empty semaphore returns \<^verbatim>\<open>VIBE_OK\<close> although no
  token was given: the caller is not switched out, and the check after the wait only tests for a state
  that a waiter never has.
\<close>

theorem sem_take_locked_returns_ok:
  assumes "s_count m = 0" "timeout \<noteq> VIBE_NO_WAIT" "g_current_thread s = Some t" "g_sched_lock_count s > 0"
  shows "\<exists>m' s'. vibe_sem_take cfg (Some m) timeout s = Some (Suspended, Some m', s') \<and> g_current_thread s' = Some t \<and>
    tstate s' t = VIBE_THREAD_WAITING \<and> s_count m' = 0 \<and> fst (vibe_sem_take_resume t s') = VIBE_OK"
proof -
  obtain wl L where app: "vibe_list_append (s_wait_list m) t (wait_nodes s) = (wl, L)" by force
  let ?dl = "wait_deadline timeout (s\<lparr>PRIMASK := 1\<rparr>)"
  let ?d = "upd_tcb t (\<lambda>th. th\<lparr>th_state := VIBE_THREAD_WAITING, th_timeout := ?dl\<rparr>) (vibe_sched_dequeue t (s\<lparr>PRIMASK := 1\<rparr>))"
  let ?s' = "?d\<lparr>wait_nodes := L, PRIMASK := PRIMASK s\<rparr>"
  have "\<not> switches ?s'" using assms(4) by (simp add: switches_def frame_simps)
  then have "block_on cfg (PRIMASK s) t ?dl (s_wait_list m) (s\<lparr>PRIMASK := 1\<rparr>) = (wl, ?s')"
    using app by (simp add: block_on_def upd_upd arch_irq_unlock_def frame_simps)
      (simp add: upd_tcb_def frame_simps reschedule_idle)
  then have "vibe_sem_take cfg (Some m) timeout s = Some (Suspended, Some (m\<lparr>s_wait_list := wl\<rparr>), ?s')"
    using assms by (simp add: vibe_sem_take_def arch_irq_lock_def vibe_thread_self_def)
  then show ?thesis using assms by (auto simp: vibe_sem_take_resume_def arch_irq_lock_def arch_irq_unlock_def frame_simps)
qed

theorem sem_take_locked_returns_ok_witness:
  "\<exists>m' s'. vibe_sem_take demo_cfg (Some \<lparr>s_count = 0, s_max_count = 1, s_wait_list = vibe_list_init\<rparr>) 5
       (demo_state\<lparr>g_sched_lock_count := 1\<rparr>) = Some (Suspended, Some m', s') \<and>
     fst (vibe_sem_take_resume 7 s') = VIBE_OK"
  using sem_take_locked_returns_ok [of "\<lparr>s_count = 0, s_max_count = 1, s_wait_list = vibe_list_init\<rparr>" 5
      "demo_state\<lparr>g_sched_lock_count := 1\<rparr>" 7 demo_cfg]
  by (auto simp: demo_state_facts VIBE_NO_WAIT_def)

end
