(* ===== verification/Vibe_Workq.thy ===== *)
theory Vibe_Workq
  imports Vibe_Sem Vibe_Timer
begin

text \<open>
  Work queues (\<^verbatim>\<open>kernel/workq.c\<close>). Work items, work queues and delayed work items live in stores; the work item and the timer
  embedded in a delayed work item are named by their identifiers. The worker thread is split at the point where it may block: an
  iteration returns the work item whose handler is called.
\<close>

section \<open>Operations\<close>

type_synonym work_id = nat
type_synonym workq_id = nat

record vibe_work_t =
  w_handler :: u32
  w_next :: "work_id option"
  w_pending :: bool

record vibe_workq_t =
  wq_thread :: "tid option"
  wq_head :: "work_id option"
  wq_tail :: "work_id option"
  wq_sem :: vibe_sem_t

record vibe_dwork_t =
  dw_work :: work_id
  dw_timer :: timer_id
  dw_workq :: "workq_id option"

record works =
  wk_items :: "work_id \<Rightarrow> vibe_work_t"
  wk_queues :: "workq_id \<Rightarrow> vibe_workq_t"
  wk_dworks :: "nat \<Rightarrow> vibe_dwork_t"

definition upd_item :: "work_id \<Rightarrow> (vibe_work_t \<Rightarrow> vibe_work_t) \<Rightarrow> works \<Rightarrow> works" where
  "upd_item w f ws = ws\<lparr>wk_items := (wk_items ws)(w := f (wk_items ws w))\<rparr>"

definition upd_queue :: "workq_id \<Rightarrow> (vibe_workq_t \<Rightarrow> vibe_workq_t) \<Rightarrow> works \<Rightarrow> works" where
  "upd_queue q f ws = ws\<lparr>wk_queues := (wk_queues ws)(q := f (wk_queues ws q))\<rparr>"

text \<open>The part of the worker loop between the semaphore and the handler.\<close>

definition workq_fetch :: "workq_id \<Rightarrow> works \<Rightarrow> kstate \<Rightarrow> work_id option \<times> works \<times> kstate" where
  "workq_fetch q ws s =
     (let (key, s) = arch_irq_lock s;
          work = wq_head (wk_queues ws q);
          ws = (case work of
                  None \<Rightarrow> ws
                | Some w \<Rightarrow>
                    (let ws = upd_queue q (\<lambda>wq. wq\<lparr>wq_head := w_next (wk_items ws w)\<rparr>) ws;
                         ws = (if wq_head (wk_queues ws q) = None then upd_queue q (\<lambda>wq. wq\<lparr>wq_tail := None\<rparr>) ws else ws)
                     in upd_item w (\<lambda>i. i\<lparr>w_next := None, w_pending := False\<rparr>) ws));
          s = arch_irq_unlock key s
      in (work, ws, s))"

definition workq_called :: "work_id option \<Rightarrow> works \<Rightarrow> work_id option" where
  "workq_called work ws = (case work of None \<Rightarrow> None | Some w \<Rightarrow> if w_handler (wk_items ws w) \<noteq> 0 then Some w else None)"

definition workq_thread_iter ::
    "kconfig \<Rightarrow> workq_id \<Rightarrow> works \<Rightarrow> kstate \<Rightarrow> (work_id option wait_result \<times> works \<times> kstate) option" where
  "workq_thread_iter cfg q ws s =
     (case vibe_sem_take cfg (Some (wq_sem (wk_queues ws q))) VIBE_WAIT_FOREVER s of
        Some (r, Some sem, s) \<Rightarrow>
          (let ws = upd_queue q (\<lambda>wq. wq\<lparr>wq_sem := sem\<rparr>) ws in
           case r of
             Suspended \<Rightarrow> Some (Suspended, ws, s)
           | Return _ \<Rightarrow> (let (work, ws, s) = workq_fetch q ws s in Some (Return (workq_called work ws), ws, s)))
      | _ \<Rightarrow> None)"

definition workq_thread_resume :: "workq_id \<Rightarrow> works \<Rightarrow> kstate \<Rightarrow> work_id option \<times> works \<times> kstate" where
  "workq_thread_resume q ws s =
     (let s = snd (vibe_sem_take_resume (the (wq_thread (wk_queues ws q))) s);
          (work, ws, s) = workq_fetch q ws s
      in (workq_called work ws, ws, s))"

text \<open>
  \<open>t\<close> is the one static \<^verbatim>\<open>_workq_thread\<close>, \<open>entry\<close> the address of \<^verbatim>\<open>_workq_thread_entry\<close> and \<open>addr\<close> the address of the queue;
  \<open>stack\<close> 0 is \<^verbatim>\<open>NULL\<close>.
\<close>

definition vibe_workq_init ::
    "kconfig \<Rightarrow> (u32 \<Rightarrow> 'h \<Rightarrow> u32 option \<times> 'h) \<Rightarrow> tid \<Rightarrow> u32 \<Rightarrow> u32 \<Rightarrow> workq_id option \<Rightarrow> u32 \<Rightarrow> u32 \<Rightarrow> u8 \<Rightarrow> string option \<Rightarrow> works \<Rightarrow> 'h \<Rightarrow> kstate \<Rightarrow>
     (vibe_err_t \<times> works \<times> 'h \<times> kstate) option" where
  "vibe_workq_init cfg heap_alloc t entry addr workq stack stack_size priority name ws h s =
     (case workq of
        None \<Rightarrow> Some (VIBE_EINVAL, ws, h, s)
      | Some q \<Rightarrow>
          if stack = 0 \<or> stack_size = 0 then Some (VIBE_EINVAL, ws, h, s)
          else
            (let ws = upd_queue q (\<lambda>_. \<lparr>wq_thread = None, wq_head = None, wq_tail = None,
                        wq_sem = \<lparr>s_count = 0, s_max_count = 0, s_wait_list = vibe_list_init\<rparr>\<rparr>) ws;
                 ws = upd_queue q (\<lambda>wq. wq\<lparr>wq_sem := the (snd (vibe_sem_init (Some (wq_sem wq)) 0 0))\<rparr>) ws;
                 ws = upd_queue q (\<lambda>wq. wq\<lparr>wq_thread := Some t\<rparr>) ws;
                 attr = \<lparr>at_stack_size = stack_size, at_priority = priority,
                         at_name = Some (case name of None \<Rightarrow> ''workq'' | Some n \<Rightarrow> n), at_is_static = True, at_cpu_id = -1\<rparr>
             in do { (r, h, s) \<leftarrow> vibe_thread_create cfg heap_alloc (Some t) entry addr (Some attr) (Some stack) h s;
                     Some (r, ws, h, s) }))"

definition vibe_work_init :: "work_id option \<Rightarrow> u32 \<Rightarrow> works \<Rightarrow> vibe_err_t \<times> works" where
  "vibe_work_init work handler ws =
     (case work of
        None \<Rightarrow> (VIBE_EINVAL, ws)
      | Some w \<Rightarrow>
          if handler = 0 then (VIBE_EINVAL, ws)
          else (VIBE_OK, upd_item w (\<lambda>i. i\<lparr>w_handler := handler, w_next := None, w_pending := False\<rparr>) ws))"

definition vibe_work_submit ::
    "kconfig \<Rightarrow> workq_id option \<Rightarrow> work_id option \<Rightarrow> works \<Rightarrow> kstate \<Rightarrow> vibe_err_t \<times> works \<times> kstate" where
  "vibe_work_submit cfg workq work ws s =
     (case (workq, work) of
        (Some q, Some w) \<Rightarrow>
          (let (key, s) = arch_irq_lock s in
           if w_pending (wk_items ws w) then (VIBE_EBUSY, ws, arch_irq_unlock key s)
           else
             (let ws = upd_item w (\<lambda>i. i\<lparr>w_pending := True, w_next := None\<rparr>) ws;
                  ws = (case wq_tail (wk_queues ws q) of
                          Some t \<Rightarrow> upd_item t (\<lambda>i. i\<lparr>w_next := Some w\<rparr>) ws
                        | None \<Rightarrow> upd_queue q (\<lambda>wq. wq\<lparr>wq_head := Some w\<rparr>) ws);
                  ws = upd_queue q (\<lambda>wq. wq\<lparr>wq_tail := Some w\<rparr>) ws;
                  s = arch_irq_unlock key s;
                  (r, sem, s) = vibe_sem_give cfg (Some (wq_sem (wk_queues ws q))) s;
                  ws = upd_queue q (\<lambda>wq. wq\<lparr>wq_sem := the sem\<rparr>) ws
              in (VIBE_OK, ws, s)))
      | _ \<Rightarrow> (VIBE_EINVAL, ws, s))"

text \<open>The expiry function of a delayed work item; \<open>u\<close>, the user data, is the item.\<close>

definition dwork_submit_now :: "kconfig \<Rightarrow> u32 \<Rightarrow> timer_id \<Rightarrow> u32 \<Rightarrow> kstate \<times> works \<Rightarrow> kstate \<times> works" where
  "dwork_submit_now cfg fn x u = (\<lambda>(s, ws).
     let dwork = wk_dworks ws (unat u);
         (r, ws, s) = vibe_work_submit cfg (dw_workq dwork) (Some (dw_work dwork)) ws s
     in (s, ws))"

definition dwork_timer_cb :: "kconfig \<Rightarrow> works expiry_cb" where
  "dwork_timer_cb cfg = quiet (dwork_submit_now cfg)"

text \<open>\<open>cb\<close> is the address of \<^verbatim>\<open>_dwork_timer_cb\<close>.\<close>

definition vibe_dwork_init :: "u32 \<Rightarrow> u32 option \<Rightarrow> u32 \<Rightarrow> timers \<Rightarrow> works \<Rightarrow> vibe_err_t \<times> timers \<times> works" where
  "vibe_dwork_init cb dwork handler ts ws =
     (case dwork of
        None \<Rightarrow> (VIBE_EINVAL, ts, ws)
      | Some d \<Rightarrow>
          (let dw = wk_dworks ws (unat d);
               ws = snd (vibe_work_init (Some (dw_work dw)) handler ws);
               ts = snd (vibe_timer_init (Some (dw_timer dw)) cb d VIBE_TIMER_ONE_SHOT ts)
           in (VIBE_OK, ts, ws\<lparr>wk_dworks := (wk_dworks ws)(unat d := dw\<lparr>dw_workq := None\<rparr>)\<rparr>)))"

definition vibe_dwork_submit ::
    "kconfig \<Rightarrow> workq_id option \<Rightarrow> u32 option \<Rightarrow> u32 \<Rightarrow> timers \<Rightarrow> kstate \<Rightarrow> works \<Rightarrow> (vibe_err_t \<times> timers \<times> kstate \<times> works) option" where
  "vibe_dwork_submit cfg workq dwork delay_ms ts s ws =
     (case (workq, dwork) of
        (Some q, Some d) \<Rightarrow>
          (let dw = wk_dworks ws (unat d);
               ws = ws\<lparr>wk_dworks := (wk_dworks ws)(unat d := dw\<lparr>dw_workq := Some q\<rparr>)\<rparr>
           in do { (r, ts, s) \<leftarrow> vibe_timer_start cfg (Some (dw_timer dw)) delay_ms (ts, s);
                   Some (r, ts, s, ws) })
      | _ \<Rightarrow> Some (VIBE_EINVAL, ts, s, ws))"

definition vibe_dwork_cancel :: "u32 option \<Rightarrow> timers \<Rightarrow> kstate \<Rightarrow> works \<Rightarrow> (vibe_err_t \<times> timers \<times> kstate) option" where
  "vibe_dwork_cancel dwork ts s ws =
     (case dwork of
        None \<Rightarrow> Some (VIBE_EINVAL, ts, s)
      | Some d \<Rightarrow>
          if w_pending (wk_items ws (dw_work (wk_dworks ws (unat d)))) then Some (VIBE_EAGAIN, ts, s)
          else vibe_timer_stop (Some (dw_timer (wk_dworks ws (unat d)))) (ts, s))"

section \<open>The queue of pending items\<close>

primrec work_chain :: "(work_id \<Rightarrow> vibe_work_t) \<Rightarrow> work_id option \<Rightarrow> work_id list \<Rightarrow> bool" where
  "work_chain it h [] \<longleftrightarrow> h = None"
| "work_chain it h (x # xs) \<longleftrightarrow> h = Some x \<and> work_chain it (w_next (it x)) xs"

definition workq_items :: "works \<Rightarrow> workq_id \<Rightarrow> work_id list \<Rightarrow> bool" where
  "workq_items ws q xs \<longleftrightarrow>
     distinct xs \<and> work_chain (wk_items ws) (wq_head (wk_queues ws q)) xs \<and> wq_tail (wk_queues ws q) = last_or None xs \<and>
     (\<forall>x\<in>set xs. w_pending (wk_items ws x))"

lemma work_chain_cong: "(\<And>x. x \<in> set xs \<Longrightarrow> w_next (it' x) = w_next (it x)) \<Longrightarrow> work_chain it' h xs = work_chain it h xs"
  by (induction xs arbitrary: h) auto

lemma work_chain_snoc:
  "distinct (xs @ [w]) \<Longrightarrow> w_next (it' w) = None \<Longrightarrow> (\<And>x. x \<in> set xs \<Longrightarrow> last_or None xs \<noteq> Some x \<Longrightarrow> w_next (it' x) = w_next (it x)) \<Longrightarrow>
   (\<And>x. last_or None xs = Some x \<Longrightarrow> w_next (it' x) = Some w) \<Longrightarrow> xs \<noteq> [] \<Longrightarrow> work_chain it h xs \<Longrightarrow> work_chain it' h (xs @ [w])"
proof (induction xs arbitrary: h)
  case (Cons x xs)
  show ?case
  proof (cases "xs = []")
    case True
    with Cons.prems show ?thesis by simp
  next
    case False
    then have l: "last_or (Some x) xs = last_or None xs" by (cases xs) simp_all
    have "last_or None xs \<noteq> Some x" using False Cons.prems(1) by (auto simp: last_or_None_Some)
    with Cons.prems l have "w_next (it' x) = w_next (it x)" by simp
    moreover have "work_chain it' (w_next (it x)) (xs @ [w])"
      using Cons.prems False by (intro Cons.IH) (auto simp: l)
    ultimately show ?thesis using Cons.prems by simp
  qed
qed simp

lemma submit_items:
  assumes items: "workq_items ws q xs" and w: "\<not> w_pending (wk_items ws w)"
  shows "\<exists>ws1 sem s'. vibe_work_submit cfg (Some q) (Some w) ws s = (VIBE_OK, upd_queue q (\<lambda>wq. wq\<lparr>wq_sem := the sem\<rparr>) ws1, s') \<and>
    vibe_sem_give cfg (Some (wq_sem (wk_queues ws q))) s = (fst (vibe_sem_give cfg (Some (wq_sem (wk_queues ws q))) s), sem, s') \<and>
    workq_items ws1 q (xs @ [w]) \<and> wq_sem (wk_queues ws1 q) = wq_sem (wk_queues ws q) \<and>
    (\<forall>x. w_handler (wk_items ws1 x) = w_handler (wk_items ws x) \<and> w_pending (wk_items ws1 x) = (x = w \<or> w_pending (wk_items ws x)))"
proof -
  define ws0 where "ws0 = upd_item w (\<lambda>i. i\<lparr>w_pending := True, w_next := None\<rparr>) ws"
  define ws1 where "ws1 = upd_queue q (\<lambda>wq. wq\<lparr>wq_tail := Some w\<rparr>)
    (case wq_tail (wk_queues ws q) of Some t \<Rightarrow> upd_item t (\<lambda>i. i\<lparr>w_next := Some w\<rparr>) ws0
     | None \<Rightarrow> upd_queue q (\<lambda>wq. wq\<lparr>wq_head := Some w\<rparr>) ws0)"
  have i: "distinct xs" "work_chain (wk_items ws) (wq_head (wk_queues ws q)) xs" "wq_tail (wk_queues ws q) = last_or None xs"
      "\<And>x. x \<in> set xs \<Longrightarrow> w_pending (wk_items ws x)" using items by (auto simp: workq_items_def)
  have nw: "w \<notin> set xs" using i(4) w by blast
  have sem: "wq_sem (wk_queues ws1 q) = wq_sem (wk_queues ws q)" "wq_tail (wk_queues ws1 q) = Some w"
    by (simp_all add: ws1_def ws0_def upd_queue_def upd_item_def split: option.split)
  have "work_chain (wk_items ws1) (wq_head (wk_queues ws1 q)) (xs @ [w])"
  proof (cases "xs = []")
    case True
    then show ?thesis using i(3) by (simp add: ws1_def ws0_def upd_queue_def upd_item_def)
  next
    case False
    then obtain t where t: "last_or None xs = Some t" "t \<in> set xs" by (metis append_butlast_last_id last_or_None_Some last_in_set)
    have h: "wq_head (wk_queues ws1 q) = wq_head (wk_queues ws q)" "wk_items ws1 = (wk_items ws0)(t := (wk_items ws0 t)\<lparr>w_next := Some w\<rparr>)"
      using i(3) t by (simp_all add: ws1_def ws0_def upd_queue_def upd_item_def)
    show ?thesis unfolding h
      by (rule work_chain_snoc [OF _ _ _ _ False i(2)]) (use t nw i(1) in \<open>auto simp: ws0_def upd_item_def\<close>)
  qed
  moreover have "\<forall>x. w_handler (wk_items ws1 x) = w_handler (wk_items ws x) \<and> w_pending (wk_items ws1 x) = (x = w \<or> w_pending (wk_items ws x))"
    by (auto simp: ws1_def ws0_def upd_queue_def upd_item_def split: option.split)
  ultimately have "workq_items ws1 q (xs @ [w])" using i nw sem(2) by (auto simp: workq_items_def)
  moreover obtain r sem' s' where g: "vibe_sem_give cfg (Some (wq_sem (wk_queues ws q))) s = (r, sem', s')" by (rule prod_cases3)
  moreover have "vibe_work_submit cfg (Some q) (Some w) ws s = (VIBE_OK, upd_queue q (\<lambda>wq. wq\<lparr>wq_sem := the sem'\<rparr>) ws1, s')"
  proof -
    have "wq_tail (wk_queues ws0 q) = wq_tail (wk_queues ws q)" by (simp add: ws0_def upd_item_def)
    then show ?thesis using w g sem(1)
      by (simp add: vibe_work_submit_def arch_irq_lock_def arch_irq_unlock_def Let_def flip: ws0_def) (simp flip: ws1_def)
  qed
  ultimately show ?thesis using sem(1) \<open>\<forall>x. _ x\<close> by (intro exI [of _ ws1] exI [of _ sem'] exI [of _ s']) auto
qed

lemma fetch_items:
  assumes "workq_items ws q (w # xs)"
  shows "\<exists>ws'. workq_fetch q ws s = (Some w, ws', s) \<and> workq_items ws' q xs \<and> wq_sem (wk_queues ws' q) = wq_sem (wk_queues ws q) \<and>
    (\<forall>x. w_handler (wk_items ws' x) = w_handler (wk_items ws x) \<and> w_pending (wk_items ws' x) = (x \<noteq> w \<and> w_pending (wk_items ws x)))"
proof -
  have i: "distinct (w # xs)" "wq_head (wk_queues ws q) = Some w" "work_chain (wk_items ws) (w_next (wk_items ws w)) xs"
      "wq_tail (wk_queues ws q) = last_or (Some w) xs" "\<And>x. x \<in> set (w # xs) \<Longrightarrow> w_pending (wk_items ws x)"
    using assms by (auto simp: workq_items_def)
  obtain ws' where r: "workq_fetch q ws s = (Some w, ws', s)" and
    f: "wk_items ws' = (wk_items ws)(w := (wk_items ws w)\<lparr>w_next := None, w_pending := False\<rparr>)"
      "wk_queues ws' q = (wk_queues ws q)\<lparr>wq_head := w_next (wk_items ws w),
         wq_tail := (if w_next (wk_items ws w) = None then None else wq_tail (wk_queues ws q))\<rparr>"
    using i(2) by (auto simp: workq_fetch_def arch_irq_lock_def arch_irq_unlock_def upd_queue_def upd_item_def Let_def)
  have "work_chain (wk_items ws') h xs = work_chain (wk_items ws) h xs" for h
    by (rule work_chain_cong) (use i(1) in \<open>auto simp: f\<close>)
  then have "work_chain (wk_items ws') (w_next (wk_items ws w)) xs" using i(3) by simp
  moreover have "wq_tail (wk_queues ws' q) = last_or None xs" using i(3,4) by (cases xs) (simp_all add: f)
  ultimately have "workq_items ws' q xs" using i(1,5) by (auto simp: workq_items_def f)
  then show ?thesis using r f by (intro exI [of _ ws']) simp
qed

text \<open>An idle queue: one token for each pending item and no waiting worker.\<close>

definition workq_rep :: "kstate \<Rightarrow> works \<Rightarrow> workq_id \<Rightarrow> work_id list \<Rightarrow> bool" where
  "workq_rep s ws q xs \<longleftrightarrow>
     workq_items ws q xs \<and> sem_rep s (wq_sem (wk_queues ws q)) \<lparr>tokens = length xs, bound = 0, waiters = []\<rparr>"

lemma workq_sem_upd [simp]:
  "workq_items (upd_queue q (\<lambda>wq. wq\<lparr>wq_sem := m\<rparr>) ws) q xs = workq_items ws q xs"
  "wq_sem (wk_queues (upd_queue q (\<lambda>wq. wq\<lparr>wq_sem := m\<rparr>) ws) q) = m"
  "wk_items (upd_queue q f ws) = wk_items ws"
  by (simp_all add: workq_items_def upd_queue_def)

lemma submit_rep:
  assumes rep: "workq_rep s ws q xs" and w: "\<not> w_pending (wk_items ws w)" and n: "length xs + 1 < 2 ^ 32"
  shows "\<exists>ws'. vibe_work_submit cfg (Some q) (Some w) ws s = (VIBE_OK, ws', s) \<and> workq_rep s ws' q (xs @ [w]) \<and>
    (\<forall>x. w_handler (wk_items ws' x) = w_handler (wk_items ws x) \<and> w_pending (wk_items ws' x) = (x = w \<or> w_pending (wk_items ws x)))"
proof -
  let ?m = "wq_sem (wk_queues ws q)"
  have r: "workq_items ws q xs" "sem_rep s ?m \<lparr>tokens = length xs, bound = 0, waiters = []\<rparr>" using rep by (simp_all add: workq_rep_def)
  from sem_give_counts [OF r(2), of cfg] n obtain m' where
    g: "vibe_sem_give cfg (Some ?m) s = (VIBE_OK, Some m', s)" "sem_rep s m' \<lparr>tokens = length xs + 1, bound = 0, waiters = []\<rparr>"
    by (auto simp: asem_give_def)
  from submit_items [OF r(1) w, of cfg s] g show ?thesis by (auto simp: workq_rep_def)
qed

lemma iter_rep:
  assumes rep: "workq_rep s ws q (w # xs)" and h: "w_handler (wk_items ws w) \<noteq> 0"
  shows "\<exists>ws'. workq_thread_iter cfg q ws s = Some (Return (Some w), ws', s) \<and> workq_rep s ws' q xs \<and>
    (\<forall>x. w_handler (wk_items ws' x) = w_handler (wk_items ws x) \<and> w_pending (wk_items ws' x) = (x \<noteq> w \<and> w_pending (wk_items ws x)))"
proof -
  let ?m = "wq_sem (wk_queues ws q)"
  have r: "workq_items ws q (w # xs)" "sem_rep s ?m \<lparr>tokens = Suc (length xs), bound = 0, waiters = []\<rparr>" using rep by (simp_all add: workq_rep_def)
  from sem_take_token [OF r(2), of cfg VIBE_WAIT_FOREVER] obtain m' where
    k: "vibe_sem_take cfg (Some ?m) VIBE_WAIT_FOREVER s = Some (Return VIBE_OK, Some m', s)"
      "sem_rep s m' \<lparr>tokens = length xs, bound = 0, waiters = []\<rparr>" by (auto simp: asem_take_def)
  let ?ws = "upd_queue q (\<lambda>wq. wq\<lparr>wq_sem := m'\<rparr>) ws"
  have "workq_items ?ws q (w # xs)" using r(1) by simp
  from fetch_items [OF this, of s] k h show ?thesis
    by (auto simp: workq_thread_iter_def workq_rep_def workq_called_def)
qed

section \<open>Properties\<close>

primrec submits :: "kconfig \<Rightarrow> workq_id \<Rightarrow> work_id list \<Rightarrow> works \<Rightarrow> kstate \<Rightarrow> works \<times> kstate" where
  "submits cfg q [] ws s = (ws, s)"
| "submits cfg q (w # xs) ws s = (case vibe_work_submit cfg (Some q) (Some w) ws s of (r, ws, s) \<Rightarrow> submits cfg q xs ws s)"

primrec iters :: "kconfig \<Rightarrow> workq_id \<Rightarrow> nat \<Rightarrow> works \<Rightarrow> kstate \<Rightarrow> (work_id option list \<times> works \<times> kstate) option" where
  "iters cfg q 0 ws s = Some ([], ws, s)"
| "iters cfg q (Suc n) ws s =
     (case workq_thread_iter cfg q ws s of
        Some (Return w, ws, s) \<Rightarrow> map_option (\<lambda>(us, r). (w # us, r)) (iters cfg q n ws s)
      | _ \<Rightarrow> None)"

lemma submits_rep:
  assumes "workq_rep s ws q xs" "distinct ys" "\<forall>y\<in>set ys. \<not> w_pending (wk_items ws y)" "length xs + length ys < 2 ^ 32"
  shows "\<exists>ws'. submits cfg q ys ws s = (ws', s) \<and> workq_rep s ws' q (xs @ ys) \<and>
    (\<forall>x. w_handler (wk_items ws' x) = w_handler (wk_items ws x))"
  using assms
proof (induction ys arbitrary: ws xs)
  case (Cons y ys)
  then have "\<not> w_pending (wk_items ws y)" "length xs + 1 < 2 ^ 32" by auto
  from submit_rep [OF Cons.prems(1) this, of cfg] obtain ws1 where
    r: "vibe_work_submit cfg (Some q) (Some y) ws s = (VIBE_OK, ws1, s)" "workq_rep s ws1 q (xs @ [y])"
      "\<And>x. w_handler (wk_items ws1 x) = w_handler (wk_items ws x)" "\<And>x. w_pending (wk_items ws1 x) = (x = y \<or> w_pending (wk_items ws x))" by blast
  have "\<forall>x\<in>set ys. \<not> w_pending (wk_items ws1 x)" using Cons.prems(2,3) r(4) by auto
  from Cons.IH [OF r(2) _ this] Cons.prems(2,4) r(1,3) show ?case by auto
qed auto

lemma iters_rep:
  assumes "workq_rep s ws q xs" "\<forall>x\<in>set xs. w_handler (wk_items ws x) \<noteq> 0"
  shows "\<exists>ws'. iters cfg q (length xs) ws s = Some (map Some xs, ws', s) \<and> workq_rep s ws' q []"
  using assms
proof (induction xs arbitrary: ws)
  case (Cons x xs)
  from iter_rep [OF Cons.prems(1), of cfg] Cons.prems(2) obtain ws1 where
    r: "workq_thread_iter cfg q ws s = Some (Return (Some x), ws1, s)" "workq_rep s ws1 q xs"
      "\<And>y. w_handler (wk_items ws1 y) = w_handler (wk_items ws y)" by auto
  from Cons.IH [OF r(2)] Cons.prems(2) r(1,3) show ?case by auto
qed auto


definition demo_works :: works where
  "demo_works = \<lparr>wk_items = (\<lambda>_. \<lparr>w_handler = 0x8000801, w_next = None, w_pending = False\<rparr>),
     wk_queues = (\<lambda>_. \<lparr>wq_thread = Some 2, wq_head = None, wq_tail = None,
       wq_sem = \<lparr>s_count = 0, s_max_count = 0, s_wait_list = vibe_list_init\<rparr>\<rparr>),
     wk_dworks = (\<lambda>d. \<lparr>dw_work = d, dw_timer = d, dw_workq = Some 0\<rparr>)\<rparr>"

lemma demo_works_rep: "workq_rep demo_state demo_works q []"
  by (simp add: workq_rep_def workq_items_def sem_rep_def asem_ok_def demo_works_def)


text \<open>
  Submitting an item that is still pending is refused with \<^verbatim>\<open>VIBE_EBUSY\<close> and changes nothing; a submission to a queue whose worker
  waits makes the worker schedulable and keeps the kernel invariant.
\<close>

theorem work_submit_busy_or_wakes:
  "(w_pending (wk_items ws w) \<longrightarrow> vibe_work_submit cfg (Some q) (Some w) ws s = (VIBE_EBUSY, ws, s)) \<and>
   (\<not> w_pending (wk_items ws w) \<and> workq_items ws q [] \<and> kernel_inv s \<and>
      sem_rep s (wq_sem (wk_queues ws q)) \<lparr>tokens = 0, bound = 0, waiters = [t]\<rparr> \<longrightarrow>
    (\<exists>ws' s'. vibe_work_submit cfg (Some q) (Some w) ws s = (VIBE_OK, ws', s') \<and> workq_items ws' q [w] \<and> kernel_inv s' \<and>
       runnable s' t \<and> PRIMASK s' = PRIMASK s))"
proof -
  have "\<exists>ws' s'. vibe_work_submit cfg (Some q) (Some w) ws s = (VIBE_OK, ws', s') \<and> workq_items ws' q [w] \<and> kernel_inv s' \<and>
       runnable s' t \<and> PRIMASK s' = PRIMASK s"
    if h: "\<not> w_pending (wk_items ws w)" "workq_items ws q []" "kernel_inv s"
      "sem_rep s (wq_sem (wk_queues ws q)) \<lparr>tokens = 0, bound = 0, waiters = [t]\<rparr>"
  proof -
    from sem_give_wakes [OF h(3,4), of t _ cfg] obtain m' s' where
      g: "vibe_sem_give cfg (Some (wq_sem (wk_queues ws q))) s = (VIBE_OK, Some m', s')" "kernel_inv s'" "PRIMASK s' = PRIMASK s" "runnable s' t"
      by (auto simp: asem_give_def)
    from submit_items [OF h(2,1), of cfg s] g show ?thesis by auto
  qed
  then show ?thesis by (auto simp: vibe_work_submit_def arch_irq_lock_def arch_irq_unlock_def)
qed

theorem work_submit_busy_or_wakes_witness:
  "vibe_work_submit demo_cfg (Some 0) (Some 4) (upd_item 4 (\<lambda>i. i\<lparr>w_pending := True\<rparr>) demo_works) demo_state =
     (VIBE_EBUSY, upd_item 4 (\<lambda>i. i\<lparr>w_pending := True\<rparr>) demo_works, demo_state)"
  using work_submit_busy_or_wakes [of "upd_item 4 (\<lambda>i. i\<lparr>w_pending := True\<rparr>) demo_works" 4] by (simp add: upd_item_def)

text \<open>
  Delayed work. When the timer of a delayed work item is the one that expires in a tick, the tick returns with the item appended to its target queue, with
  its token given, and the timer, being one-shot, out of the timer list; the other timers are counted down.
\<close>

theorem delayed_work_submitted:
  assumes "timers_rep ts xs" "filter (\<lambda>x. expires (tm_store ts x)) xs = [x]" "tm_mode (tm_store ts x) = VIBE_TIMER_ONE_SHOT"
    and "tm_expiry_fn (tm_store ts x) \<noteq> 0" "dw_workq (wk_dworks ws (unat (tm_user_data (tm_store ts x)))) = Some q"
    and "dw_work (wk_dworks ws (unat (tm_user_data (tm_store ts x)))) = w" "\<not> w_pending (wk_items ws w)"
    and "workq_rep s ws q ys" "length ys + 1 < 2 ^ 32"
  shows "\<exists>ts' ws'. vibe_timer_tick (dwork_timer_cb cfg) (ts, s, ws) = Some (ts', s, ws') \<and> workq_rep s ws' q (ys @ [w]) \<and>
    timers_rep ts' (remove1 x xs) \<and>
    (\<forall>y\<in>set xs. y \<noteq> x \<longrightarrow> tm_remaining (tm_store ts' y) = tm_remaining (timer_count_down (tm_store ts y)))"
proof -
  have ex: "expires (tm_store ts y) \<longleftrightarrow> y = x" if "y \<in> set xs" for y
    using that arg_cong [OF assms(2), of set] by auto
  have d: "distinct xs" using assms(1) by (simp add: timers_rep_def)
  have left: "filter (\<lambda>y. stays (tm_store ts y)) xs = remove1 x xs"
    unfolding distinct_remove1_removeAll [OF d] removeAll_filter_not_eq by (rule filter_cong) (use ex assms(3) in \<open>auto simp: stays_def\<close>)
  from submit_rep [OF assms(8,7,9), of cfg] obtain ws' where
    g: "vibe_work_submit cfg (Some q) (Some w) ws s = (VIBE_OK, ws', s)" "workq_rep s ws' q (ys @ [w])" by blast
  have "fold (\<lambda>y. call_expiry (dwork_submit_now cfg) (tm_store ts y) y) [x] (s, ws) = (s, ws')"
    using assms(4-6) g(1) by (simp add: call_expiry_def dwork_submit_now_def)
  with tick_rep [OF assms(1), of "dwork_submit_now cfg" "(s, ws)"] obtain ts' where
    t: "vibe_timer_tick (dwork_timer_cb cfg) (ts, s, ws) = Some (ts', s, ws')" "timers_rep ts' (remove1 x xs)"
      "\<And>y. unlinked_tm (tm_store ts' y) = unlinked_tm (if y \<in> set xs then timer_after (tm_store ts y) else tm_store ts y)"
    unfolding assms(2) left dwork_timer_cb_def by auto
  have "tm_remaining (tm_store ts' y) = tm_remaining (timer_count_down (tm_store ts y))" if "y \<in> set xs" "y \<noteq> x" for y
    using arg_cong [OF t(3) [of y], of tm_remaining] that ex [OF that(1)] by (simp add: timer_after_def)
  with t g show ?thesis by blast
qed

theorem delayed_work_submitted_witness:
  "\<exists>ts ts' ws'. timers_rep ts [3] \<and> vibe_timer_tick (dwork_timer_cb demo_cfg) (ts, demo_state, demo_works) = Some (ts', demo_state, ws') \<and>
     workq_rep demo_state ws' 0 [8]"
proof -
  define ts where "ts = \<lparr>tm_store = (\<lambda>x. \<lparr>tm_expiry_fn = 0x8000901, tm_user_data = 8, tm_duration_ticks = 5, tm_remaining = 1,
      tm_mode = VIBE_TIMER_ONE_SHOT, tm_active = (x = 3), tm_next = None\<rparr>), g_timer_list_head = Some (3 :: nat)\<rparr>"
  have r: "timers_rep ts [3]" by (auto simp: timers_rep_def ts_def)
  have e: "filter (\<lambda>x. expires (tm_store ts x)) [3] = [3]" by (simp add: ts_def expires_def)
  from delayed_work_submitted [OF r e _ _ _ _ _ demo_works_rep, of 0 8 demo_cfg] r show ?thesis by (auto simp: ts_def demo_works_def)
qed

end
