(* ===== verification/Vibe_Printk.thy ===== *)
theory Vibe_Printk
  imports Vibe_Kernel
begin

text \<open>
  The kernel's formatted output (\<^verbatim>\<open>kernel/init.c\<close>): the printf core over an emit callback, its console and buffer clients. The locale \<open>emitter\<close> says what a client gets:
  the characters of one output string, in order, whatever the callback does with them. An argument that is missing or of another kind
  is undefined behaviour in C, and \<^term>\<open>None\<close> here.
\<close>

section \<open>The formatting core\<close>

text \<open>A variadic argument: a 32-bit integer or pointer value, or a string pointer with the string it points to.\<close>

datatype va = VA_Word u32 | VA_Str "string option"

primrec fmt_puts :: "(char \<Rightarrow> 'c \<Rightarrow> 'c) \<Rightarrow> string \<Rightarrow> 'c \<Rightarrow> 'c" where
  "fmt_puts emit [] ctx = ctx"
| "fmt_puts emit (c # s) ctx = fmt_puts emit s (emit c ctx)"

definition digit_char :: "nat \<Rightarrow> char" where
  "digit_char d = (if d < 10 then char_of (48 + d) else char_of (97 + d - 10))"

text \<open>The digits are written from the end of an 11-byte buffer; \<open>i\<close> is the index of the last one written.\<close>

fun putuint_loop :: "nat \<Rightarrow> u32 \<Rightarrow> u32 \<Rightarrow> string \<Rightarrow> string" where
  "putuint_loop i v base buf =
     (if v \<noteq> 0 \<and> i > 0 then putuint_loop (i - 1) (v div base) base (digit_char (unat (v mod base)) # buf) else buf)"

declare putuint_loop.simps [simp del]

definition fmt_putuint :: "(char \<Rightarrow> 'c \<Rightarrow> 'c) \<Rightarrow> u32 \<Rightarrow> u32 \<Rightarrow> 'c \<Rightarrow> 'c" where
  "fmt_putuint emit v base ctx = (if v = 0 then emit (CHR ''0'') ctx else fmt_puts emit (putuint_loop 10 v base []) ctx)"

text \<open>The optional \<^verbatim>\<open>l\<close> after the percent sign.\<close>

fun fmt_long :: "string \<Rightarrow> bool \<times> string" where
  "fmt_long [] = (False, [])"
| "fmt_long (c # p) = (if c = CHR ''l'' then (True, p) else (False, c # p))"

text \<open>The switch on the conversion character.\<close>

definition fmt_conv :: "(char \<Rightarrow> 'c \<Rightarrow> 'c) \<Rightarrow> bool \<Rightarrow> char \<Rightarrow> va list \<Rightarrow> 'c \<Rightarrow> (va list \<times> 'c) option" where
  "fmt_conv emit is_long d args ctx =
     (if d = CHR ''d'' \<or> d = CHR ''i'' then
        (case args of VA_Word v # rest \<Rightarrow>
           (let (ctx, v) = (if sint v < 0 then (emit (CHR ''-'') ctx, - v) else (ctx, v)) in Some (rest, fmt_putuint emit v 10 ctx))
         | _ \<Rightarrow> None)
      else if d = CHR ''u'' then (case args of VA_Word v # rest \<Rightarrow> Some (rest, fmt_putuint emit v 10 ctx) | _ \<Rightarrow> None)
      else if d = CHR ''x'' \<or> d = CHR ''X'' then (case args of VA_Word v # rest \<Rightarrow> Some (rest, fmt_putuint emit v 16 ctx) | _ \<Rightarrow> None)
      else if d = CHR ''s'' then
        (case args of VA_Str s # rest \<Rightarrow> Some (rest, fmt_puts emit (case s of Some s \<Rightarrow> s | None \<Rightarrow> ''(null)'') ctx) | _ \<Rightarrow> None)
      else if d = CHR ''c'' then (case args of VA_Word v # rest \<Rightarrow> Some (rest, emit (char_of (unat v mod 256)) ctx) | _ \<Rightarrow> None)
      else if d = CHR ''p'' then
        (case args of VA_Word v # rest \<Rightarrow> Some (rest, fmt_putuint emit v 16 (fmt_puts emit ''0x'' ctx)) | _ \<Rightarrow> None)
      else if d = CHR ''%'' then Some (args, emit (CHR ''%'') ctx)
      else
        (let ctx = emit (CHR ''%'') ctx;
             ctx = (if is_long then emit (CHR ''l'') ctx else ctx)
         in Some (args, emit d ctx)))"

lemma fmt_long_length: "length (snd (fmt_long p)) \<le> length p"
  by (cases p) auto

function fmt_core :: "(char \<Rightarrow> 'c \<Rightarrow> 'c) \<Rightarrow> string \<Rightarrow> va list \<Rightarrow> 'c \<Rightarrow> 'c option" where
  "fmt_core emit [] args ctx = Some ctx"
| "fmt_core emit (c # p) args ctx =
     (if c \<noteq> CHR ''%'' then fmt_core emit p args (emit c ctx)
      else
        (case snd (fmt_long p) of
           [] \<Rightarrow> Some ctx
         | d # q \<Rightarrow>
             (case fmt_conv emit (fst (fmt_long p)) d args ctx of
                None \<Rightarrow> None
              | Some r \<Rightarrow> fmt_core emit q (fst r) (snd r))))"
  by pat_completeness auto
termination
proof (relation "measure (\<lambda>(_, p, _, _). length p)", goal_cases)
  case (3 emit c p args ctx d q r)
  then show ?case using fmt_long_length [of p] by simp
qed auto

section \<open>Console and buffer output\<close>

text \<open>The console hook is board code: a function on the state of the console.\<close>

definition vibe_vprintk :: "(char \<Rightarrow> 'd \<Rightarrow> 'd) \<Rightarrow> string \<Rightarrow> va list \<Rightarrow> 'd \<Rightarrow> 'd option" where
  "vibe_vprintk putc fmt args d = fmt_core putc fmt args d"

definition vibe_printk :: "(char \<Rightarrow> 'd \<Rightarrow> 'd) \<Rightarrow> string \<Rightarrow> va list \<Rightarrow> 'd \<Rightarrow> 'd option" where
  "vibe_printk putc fmt args d = vibe_vprintk putc fmt args d"

record snprintk_ctx_t =
  sp_buf :: "nat \<Rightarrow> char"
  sp_size :: u32
  sp_pos :: u32

definition buffer_emit :: "char \<Rightarrow> snprintk_ctx_t \<Rightarrow> snprintk_ctx_t" where
  "buffer_emit c ctx =
     (let ctx = (if sp_pos ctx + 1 < sp_size ctx then ctx\<lparr>sp_buf := (sp_buf ctx)(unat (sp_pos ctx) := c)\<rparr> else ctx)
      in ctx\<lparr>sp_pos := sp_pos ctx + 1\<rparr>)"

definition vibe_vsnprintk :: "(nat \<Rightarrow> char) \<Rightarrow> u32 \<Rightarrow> string \<Rightarrow> va list \<Rightarrow> (u32 \<times> (nat \<Rightarrow> char)) option" where
  "vibe_vsnprintk buf sz fmt args =
     (case fmt_core buffer_emit fmt args \<lparr>sp_buf = buf, sp_size = sz, sp_pos = 0\<rparr> of
        None \<Rightarrow> None
      | Some ctx \<Rightarrow>
          (let buf = sp_buf ctx;
               buf = (if sz > 0 then buf(unat (if sp_pos ctx < sz - 1 then sp_pos ctx else sz - 1) := CHR 0x00) else buf)
           in Some (sp_pos ctx, buf)))"

definition vibe_snprintk :: "(nat \<Rightarrow> char) \<Rightarrow> u32 \<Rightarrow> string \<Rightarrow> va list \<Rightarrow> (u32 \<times> (nat \<Rightarrow> char)) option" where
  "vibe_snprintk buf sz fmt args = vibe_vsnprintk buf sz fmt args"

section \<open>The output string\<close>

definition append_char :: "char \<Rightarrow> string \<Rightarrow> string" where
  "append_char c s = s @ [c]"

definition fmt_out :: "string \<Rightarrow> va list \<Rightarrow> string option" where
  "fmt_out fmt args = fmt_core append_char fmt args []"

text \<open>
  A callback that receives the characters of the output one by one: its effect on a context is what it does for each character of the string collected so far. The
  core is proved once against this view.
\<close>

locale emitter =
  fixes emit :: "char \<Rightarrow> 'c \<Rightarrow> 'c" and view :: "string \<Rightarrow> 'c"
  assumes emit_view: "emit c (view s) = view (s @ [c])"
begin

lemma puts_view: "fmt_puts emit t (view s) = view (s @ t)"
  by (induction t arbitrary: s) (simp_all add: emit_view)

lemma putuint_view: "fmt_putuint emit v base (view s) = view (fmt_putuint append_char v base s)"
proof -
  have "fmt_puts append_char t s = s @ t" for t s by (induction t arbitrary: s) (simp_all add: append_char_def)
  then show ?thesis by (simp add: fmt_putuint_def puts_view emit_view append_char_def)
qed

lemma conv_view:
  "fmt_conv emit l d args (view s) = map_option (\<lambda>(a, t). (a, view t)) (fmt_conv append_char l d args s)"
proof -
  have "fmt_puts append_char t s = s @ t" for t s by (induction t arbitrary: s) (simp_all add: append_char_def)
  then show ?thesis
    unfolding fmt_conv_def by (simp add: puts_view putuint_view emit_view append_char_def Let_def split: list.split va.split)
qed

lemma core_view: "fmt_core emit fmt args (view s) = map_option view (fmt_core append_char fmt args s)"
proof (induction append_char fmt args s rule: fmt_core.induct)
  case (2 c p args s)
  show ?case
  proof (cases "c = CHR ''%''")
    case True
    show ?thesis
    proof (cases "snd (fmt_long p)")
      case (Cons d q)
      then show ?thesis using True 2(2) [OF _ Cons] by (auto simp: conv_view split: option.split prod.splits)
    qed (simp add: True)
  qed (use 2(1) in \<open>simp add: emit_view append_char_def\<close>)
qed simp

end

interpretation fold_emit: emitter emit "\<lambda>s. fold emit s ctx" for emit :: "char \<Rightarrow> 'c \<Rightarrow> 'c" and ctx
  by unfold_locales simp

lemma fmt_core_fold: "fmt_core emit fmt args ctx = map_option (\<lambda>out. fold emit out ctx) (fmt_out fmt args)"
  using fold_emit.core_view [where emit = emit and ctx = ctx and s = "[]"] by (simp add: fmt_out_def)

text \<open>What the buffer callback leaves behind after the characters \<open>out\<close>.\<close>

definition filled :: "(nat \<Rightarrow> char) \<Rightarrow> u32 \<Rightarrow> string \<Rightarrow> nat \<Rightarrow> char" where
  "filled buf sz out = (\<lambda>i. if i < length out \<and> i + 1 < unat sz then out ! i else buf i)"

lemma fold_buffer_emit:
  assumes "length out < 2 ^ 32"
  shows "fold buffer_emit out \<lparr>sp_buf = buf, sp_size = sz, sp_pos = 0\<rparr> = \<lparr>sp_buf = filled buf sz out, sp_size = sz, sp_pos = of_nat (length out)\<rparr>"
  using assms
proof (induction out rule: rev_induct)
  case Nil
  then show ?case by (simp add: filled_def)
next
  case (snoc c out)
  let ?p = "of_nat (length out) :: u32"
  have p: "unat ?p = length out" "unat (?p + 1) = length out + 1"
    using snoc.prems by (simp_all add: unat_of_nat_u32 unat_plus_u32 add.commute)
  have f: "filled buf sz (out @ [c]) = (if length out + 1 < unat sz then (filled buf sz out)(length out := c) else filled buf sz out)"
    by (auto simp: filled_def fun_eq_iff nth_append)
  have "?p + 1 < sz \<longleftrightarrow> length out + 1 < unat sz" by (simp only: word_less_nat_alt p)
  then show ?case using snoc p(1) by (simp add: buffer_emit_def f Let_def)
qed

section \<open>Numbers\<close>

definition digit_val :: "char \<Rightarrow> nat" where
  "digit_val c = (if of_char c < (97 :: nat) then of_char c - 48 else of_char c - 97 + 10)"

definition num_of :: "nat \<Rightarrow> string \<Rightarrow> nat" where
  "num_of base s = foldl (\<lambda>a c. a * base + digit_val c) 0 s"

definition parse_int :: "string \<Rightarrow> int" where
  "parse_int s = (if s \<noteq> [] \<and> hd s = CHR ''-'' then - int (num_of 10 (tl s)) else int (num_of 10 s))"

lemma digit_val_char: "d < 16 \<Longrightarrow> digit_val (digit_char d) = d"
  by (auto simp: digit_val_def digit_char_def)

lemma digit_char_not_minus: "d < 16 \<Longrightarrow> digit_char d \<noteq> CHR ''-''"
proof
  assume d: "d < 16" "digit_char d = CHR ''-''"
  then have "(of_char (digit_char d) :: nat) = 45" by simp
  then show False using d(1) by (auto simp: digit_char_def split: if_splits)
qed

lemma num_of_append: "num_of base (s @ t) = foldl (\<lambda>a c. a * base + digit_val c) (num_of base s) t"
  by (simp add: num_of_def)

lemma putuint_loop_digits:
  assumes "unat v < unat base ^ i" "1 < unat base" "unat base \<le> 16"
  shows "\<exists>ds. putuint_loop i v base buf = ds @ buf \<and> num_of (unat base) ds = unat v \<and> length ds \<le> i \<and>
    (v \<noteq> 0 \<longrightarrow> ds \<noteq> []) \<and> (\<forall>c\<in>set ds. \<exists>d<16. c = digit_char d)"
  using assms
proof (induction i arbitrary: v buf)
  case 0
  then show ?case by (simp add: putuint_loop.simps [of 0] num_of_def unsigned_eq_0_iff)
next
  case (Suc i)
  show ?case
  proof (cases "v = 0")
    case True
    then show ?thesis by (simp add: putuint_loop.simps num_of_def)
  next
    case False
    let ?d = "digit_char (unat (v mod base))"
    have md: "unat (v mod base) = unat v mod unat base" "unat (v div base) = unat v div unat base" by (simp_all add: unat_mod unat_div)
    have lt: "unat v mod unat base < 16" using mod_less_divisor [of "unat base" "unat v"] Suc.prems(2,3) by linarith
    have "unat (v div base) < unat base ^ i"
      using Suc.prems(1,2) unfolding md(2) by (subst div_less_iff_less_mult) (simp_all add: mult.commute)
    from Suc.IH [OF this Suc.prems(2,3), of "?d # buf"] obtain ds where ds: "putuint_loop i (v div base) base (?d # buf) = ds @ ?d # buf"
        "num_of (unat base) ds = unat v div unat base" "length ds \<le> i" "\<forall>c\<in>set ds. \<exists>d<16. c = digit_char d"
      unfolding md(2) by blast
    have "putuint_loop (Suc i) v base buf = (ds @ [?d]) @ buf" using ds(1) False by (subst putuint_loop.simps) simp
    moreover have "num_of (unat base) (ds @ [?d]) = unat v"
      using lt by (simp add: num_of_append ds(2) digit_val_char md(1))
    moreover have "\<exists>d<16. ?d = digit_char d" using lt md(1) by auto
    ultimately show ?thesis using ds(3,4) by (intro exI [of _ "ds @ [?d]"]) auto
  qed
qed

lemma putuint_num:
  assumes "unat v < unat base ^ 10" "1 < unat base" "unat base \<le> 16"
  shows "\<exists>ds. fmt_putuint append_char v base s = s @ ds \<and> num_of (unat base) ds = unat v \<and> ds \<noteq> [] \<and> hd ds \<noteq> CHR ''-''"
proof (cases "v = 0")
  case True
  then show ?thesis by (simp add: fmt_putuint_def append_char_def num_of_def digit_val_def)
next
  case False
  have puts: "fmt_puts append_char t s = s @ t" for t s by (induction t arbitrary: s) (simp_all add: append_char_def)
  from putuint_loop_digits [OF assms, of "[]"] False obtain ds where
    ds: "putuint_loop 10 v base [] = ds" "num_of (unat base) ds = unat v" "ds \<noteq> []" "\<forall>c\<in>set ds. \<exists>d<16. c = digit_char d" by auto
  have "hd ds \<noteq> CHR ''-''" using ds(3,4) digit_char_not_minus hd_in_set [OF ds(3)] by metis
  then show ?thesis using False ds by (simp add: fmt_putuint_def puts)
qed

lemma u32_less_bases: "unat (v :: u32) < unat (10 :: u32) ^ 10" "unat v < unat (16 :: u32) ^ 10"
  using u32_bound [of v] by simp_all

lemma neg_word_value: "sint (v :: u32) < 0 \<Longrightarrow> int (unat (- v)) = - sint v"
proof -
  assume n: "sint v < 0"
  have b: "- 2147483648 \<le> sint v" using sint_ge [of v] by simp
  have u: "uint v = sint v mod 4294967296" by (simp add: uint_sint take_bit_eq_mod)
  have "int (unat (- v)) = uint (- v)" by simp
  also have "\<dots> = (- uint v) mod 4294967296" unfolding uint_word_ariths by simp
  also have "\<dots> = (- sint v) mod 4294967296" unfolding u by (rule mod_minus_eq)
  also have "\<dots> = - sint v" using n b by (intro mod_pos_pos_trivial) auto
  finally show ?thesis .
qed

lemma nonneg_word_value: "0 \<le> sint (v :: u32) \<Longrightarrow> int (unat v) = sint v"
proof -
  assume n: "0 \<le> sint v"
  have b: "sint v < 2147483648" using sint_less [of v] by simp
  have "int (unat v) = uint v" by simp
  also have "\<dots> = sint v mod 4294967296" by (simp add: uint_sint take_bit_eq_mod)
  also have "\<dots> = sint v" using n b by (intro mod_pos_pos_trivial) auto
  finally show ?thesis .
qed


text \<open>
  C31: The console and the buffer receive the same characters. \<^verbatim>\<open>vibe_printk\<close> passes each character of the output string to the console hook once and in order; \<^verbatim>\<open>vibe_vsnprintk\<close> into a
  non-empty buffer stores the first \<^verbatim>\<open>size - 1\<close> of them, terminates them, writes no byte beyond the terminator, and returns the untruncated length.\<close>

theorem snprintk_bounded:
  assumes "fmt_out fmt args = Some out" "length out < 2 ^ 32" "sz \<noteq> 0"
  defines "n \<equiv> min (length out) (unat sz - 1)"
  shows "vibe_printk putc fmt args d = Some (fold putc out d) \<and>
    (\<exists>buf'. vibe_vsnprintk buf sz fmt args = Some (of_nat (length out), buf') \<and>
      (\<forall>i<n. buf' i = out ! i) \<and> buf' n = CHR 0x00 \<and> (\<forall>i>n. buf' i = buf i))"
proof (rule conjI)
  show "vibe_printk putc fmt args d = Some (fold putc out d)" by (simp add: vibe_printk_def vibe_vprintk_def fmt_core_fold assms(1))
  have s0: "sz > 0" "unat sz > 0" using assms(3) by (simp_all add: word_gt_0 unat_gt_0)
  have s1: "unat (sz - 1) = unat sz - 1" using s0 by (simp add: unat_dec_u32)
  have l: "unat (of_nat (length out) :: u32) = length out" using assms(2) by (rule unat_of_nat_u32)
  have pos: "unat (if of_nat (length out) < sz - 1 then of_nat (length out) else sz - 1) = n"
    using s1 l by (simp add: n_def word_less_nat_alt)
  have "vibe_vsnprintk buf sz fmt args = Some (of_nat (length out), (filled buf sz out)(n := CHR 0x00))"
    using s0(1) pos by (simp add: vibe_vsnprintk_def fmt_core_fold assms(1) fold_buffer_emit [OF assms(2)] Let_def split del: if_split cong: if_cong)
  moreover have "filled buf sz out i = out ! i" if "i < n" for i using that s0 by (auto simp: filled_def n_def)
  moreover have "filled buf sz out i = buf i" if "i > n" for i using that s0 by (auto simp: filled_def n_def)
  ultimately show "\<exists>buf'. vibe_vsnprintk buf sz fmt args = Some (of_nat (length out), buf') \<and>
      (\<forall>i<n. buf' i = out ! i) \<and> buf' n = CHR 0x00 \<and> (\<forall>i>n. buf' i = buf i)" by auto
qed

lemma fmt_demo: "fmt_out ''%s=%d'' [VA_Str (Some ''t''), VA_Word 7] = Some ''t=7''"
  by (simp add: fmt_out_def fmt_conv_def append_char_def fmt_putuint_def putuint_loop.simps digit_char_def char_of_def bit_Suc_0_iff)

theorem snprintk_bounded_witness:
  "\<exists>buf'. vibe_vsnprintk (\<lambda>_. CHR ''?'') 3 ''%s=%d'' [VA_Str (Some ''t''), VA_Word 7] = Some (3, buf') \<and>
     buf' 0 = CHR ''t'' \<and> buf' 1 = CHR ''='' \<and> buf' 2 = CHR 0x00 \<and> buf' 3 = CHR ''?''"
proof -
  have m: "min (length ''t=7'') (unat (3 :: u32) - 1) = 2" by simp
  from snprintk_bounded [OF fmt_demo, of 3 "\<lambda>_ d. d" "()" "\<lambda>_. CHR ''?''", unfolded m]
  obtain buf' where b: "vibe_vsnprintk (\<lambda>_. CHR ''?'') 3 ''%s=%d'' [VA_Str (Some ''t''), VA_Word 7] = Some (3, buf')"
    "\<forall>i<2. buf' i = ''t=7'' ! i" "buf' 2 = CHR 0x00" "\<forall>i>2. buf' i = CHR ''?''" by auto
  then show ?thesis using b(2) [rule_format, of 0] b(2) [rule_format, of 1] by auto
qed

end
