(* ===== verification/Vibe_Irq.thy ===== *)
theory Vibe_Irq
  imports Vibe_Kernel
begin

text \<open>
  Interrupt locks and spinlocks (\<^verbatim>\<open>kernel/spinlock.c\<close>, \<^verbatim>\<open>include/vibe/spinlock.h\<close>) on one core. The lock is its atomic flag; acquiring
  a lock that is held spins for ever, since the holder cannot run (\<^term>\<open>None\<close>).
\<close>

type_synonym vibe_spinlock_t = bool

definition vibe_irq_lock :: "kstate \<Rightarrow> u32 \<times> kstate" where
  "vibe_irq_lock s = arch_irq_lock s"

definition vibe_irq_unlock :: "u32 \<Rightarrow> kstate \<Rightarrow> kstate" where
  "vibe_irq_unlock key s = arch_irq_unlock key s"

definition vibe_irq_is_in_isr :: "kstate \<Rightarrow> bool" where
  "vibe_irq_is_in_isr s = arch_is_in_isr s"

definition vibe_spinlock_lock :: "vibe_spinlock_t \<Rightarrow> vibe_spinlock_t option" where
  "vibe_spinlock_lock lock = (if lock then None else Some True)"

definition vibe_spinlock_unlock :: "vibe_spinlock_t \<Rightarrow> vibe_spinlock_t" where
  "vibe_spinlock_unlock lock = False"

definition vibe_spinlock_trylock :: "vibe_spinlock_t \<Rightarrow> bool \<times> vibe_spinlock_t" where
  "vibe_spinlock_trylock lock = (\<not> lock, True)"

definition vibe_spinlock_lock_irqsave :: "vibe_spinlock_t \<Rightarrow> kstate \<Rightarrow> (u32 \<times> vibe_spinlock_t \<times> kstate) option" where
  "vibe_spinlock_lock_irqsave lock s =
     (let (key, s) = arch_irq_lock s in
      case vibe_spinlock_lock lock of None \<Rightarrow> None | Some lock \<Rightarrow> Some (key, lock, s))"

definition vibe_spinlock_unlock_irqrestore :: "vibe_spinlock_t \<Rightarrow> u32 \<Rightarrow> kstate \<Rightarrow> vibe_spinlock_t \<times> kstate" where
  "vibe_spinlock_unlock_irqrestore lock key s = (vibe_spinlock_unlock lock, arch_irq_unlock key s)"

lemmas spinlock_defs = vibe_spinlock_lock_irqsave_def vibe_spinlock_unlock_irqrestore_def vibe_spinlock_lock_def
  vibe_spinlock_unlock_def arch_irq_lock_def arch_irq_unlock_def

text \<open>The interrupt lock around an operation restores what it found.\<close>

lemma irqsave_restore:
  assumes "vibe_spinlock_lock_irqsave l s = Some (key, l', s')"
  shows "vibe_spinlock_unlock_irqrestore l' key s' = (False, s)"
  using assms by (auto simp: spinlock_defs split: if_splits)

end
