(* ===== verification/Vibe_Rtt.thy ===== *)
theory Vibe_Rtt
  imports Vibe_Fifo Vibe_Irq
begin

text \<open>
  Real-Time Transfer channels (\<^verbatim>\<open>subsys/rtt/rtt.c\<close>, \<^verbatim>\<open>include/vibe/rtt.h\<close>): rings in target memory that a debug probe reads and writes from outside. One slot stays
  empty, so that equal offsets mean an empty ring. The probe's side of a ring is its read offset (up) or write offset (down); what is required of it
  is that the offset stays inside the ring.
\<close>

section \<open>Control block\<close>

record vibe_rtt_up_t =
  up_sName :: string
  up_pBuffer :: "(nat \<Rightarrow> u8) option"
  up_SizeOfBuffer :: u32
  up_WrOff :: u32
  up_RdOff :: u32
  up_Flags :: u32

record vibe_rtt_down_t =
  dn_sName :: string
  dn_pBuffer :: "(nat \<Rightarrow> u8) option"
  dn_SizeOfBuffer :: u32
  dn_WrOff :: u32
  dn_RdOff :: u32
  dn_Flags :: u32

record rtt_config =
  CONFIG_RTT_MAX_UP_BUFFERS :: u32
  CONFIG_RTT_MAX_DOWN_BUFFERS :: u32
  CONFIG_RTT_BUFFER_SIZE_UP :: u32
  CONFIG_RTT_BUFFER_SIZE_DOWN :: u32

text \<open>The control block, the two static ring stores and \<^verbatim>\<open>_rtt_ready\<close>.\<close>

record vibe_rtt_cb_t =
  cb_acID :: string
  cb_MaxNumUpBuffers :: int
  cb_MaxNumDownBuffers :: int
  cb_aUp :: "nat \<Rightarrow> vibe_rtt_up_t"
  cb_aDown :: "nat \<Rightarrow> vibe_rtt_down_t"
  rtt_up0_storage :: "nat \<Rightarrow> u8"
  rtt_down0_storage :: "nat \<Rightarrow> u8"
  rtt_ready :: bool

definition VIBE_RTT_MODE_SKIP :: u32 where "VIBE_RTT_MODE_SKIP = 0"

definition rtt_up_zero :: vibe_rtt_up_t where
  "rtt_up_zero = \<lparr>up_sName = '''', up_pBuffer = None, up_SizeOfBuffer = 0, up_WrOff = 0, up_RdOff = 0, up_Flags = 0\<rparr>"

definition rtt_down_zero :: vibe_rtt_down_t where
  "rtt_down_zero = \<lparr>dn_sName = '''', dn_pBuffer = None, dn_SizeOfBuffer = 0, dn_WrOff = 0, dn_RdOff = 0, dn_Flags = 0\<rparr>"

definition vibe_rtt_init :: "rtt_config \<Rightarrow> vibe_rtt_cb_t \<Rightarrow> kstate \<Rightarrow> vibe_rtt_cb_t \<times> kstate" where
  "vibe_rtt_init cfg cb s =
     (let (key, s) = vibe_irq_lock s in
      if rtt_ready cb then (cb, vibe_irq_unlock key s)
      else
        (let cb = cb\<lparr>cb_acID := '''', cb_aUp := \<lambda>_. rtt_up_zero, cb_aDown := \<lambda>_. rtt_down_zero\<rparr>;
             cb = cb\<lparr>cb_MaxNumUpBuffers := uint (CONFIG_RTT_MAX_UP_BUFFERS cfg), cb_MaxNumDownBuffers := uint (CONFIG_RTT_MAX_DOWN_BUFFERS cfg)\<rparr>;
             cb = cb\<lparr>cb_aUp := (cb_aUp cb)(0 := \<lparr>up_sName = ''Terminal'', up_pBuffer = Some (rtt_up0_storage cb),
                      up_SizeOfBuffer = CONFIG_RTT_BUFFER_SIZE_UP cfg, up_WrOff = 0, up_RdOff = 0, up_Flags = VIBE_RTT_MODE_SKIP\<rparr>)\<rparr>;
             cb = cb\<lparr>cb_aDown := (cb_aDown cb)(0 := \<lparr>dn_sName = ''Terminal'', dn_pBuffer = Some (rtt_down0_storage cb),
                      dn_SizeOfBuffer = CONFIG_RTT_BUFFER_SIZE_DOWN cfg, dn_WrOff = 0, dn_RdOff = 0, dn_Flags = VIBE_RTT_MODE_SKIP\<rparr>)\<rparr>;
             cb = cb\<lparr>cb_acID := ''SEGGER'' @ '' RTT''\<rparr>
         in (cb\<lparr>rtt_ready := True\<rparr>, vibe_irq_unlock key s)))"

section \<open>Transfers\<close>

definition rtt_space :: "vibe_rtt_up_t \<Rightarrow> u32" where
  "rtt_space up = (if up_RdOff up > up_WrOff up then up_RdOff up - up_WrOff up - 1 else up_SizeOfBuffer up - up_WrOff up + up_RdOff up - 1)"

text \<open>The length of the next contiguous copy.\<close>

definition rtt_run :: "vibe_rtt_up_t \<Rightarrow> u32 \<Rightarrow> u32" where
  "rtt_run up rest =
     (let run = up_SizeOfBuffer up - up_WrOff up;
          run = (if run > rtt_space up then rtt_space up else run)
      in if run > rest then rest else run)"

definition rtt_copy :: "u8 list \<Rightarrow> u32 \<Rightarrow> u32 \<Rightarrow> vibe_rtt_up_t \<Rightarrow> vibe_rtt_up_t" where
  "rtt_copy src written run up =
     (let up = up\<lparr>up_pBuffer := map_option (\<lambda>b. mem_write b (unat (up_WrOff up)) (take (unat run) (drop (unat written) src))) (up_pBuffer up)\<rparr>;
          wr = up_WrOff up + run
      in up\<lparr>up_WrOff := (if wr \<ge> up_SizeOfBuffer up then 0 else wr)\<rparr>)"

partial_function (option) rtt_write_loop :: "u8 list \<Rightarrow> u32 \<Rightarrow> u32 \<Rightarrow> vibe_rtt_up_t \<Rightarrow> (u32 \<times> vibe_rtt_up_t) option" where
  "rtt_write_loop src len written up =
     (if \<not> written < len then Some (written, up)
      else if rtt_space up = 0 then Some (written, up)
      else rtt_write_loop src len (written + rtt_run up (len - written)) (rtt_copy src written (rtt_run up (len - written)) up))"

definition vibe_rtt_write ::
    "rtt_config \<Rightarrow> u32 \<Rightarrow> u8 list \<Rightarrow> u32 \<Rightarrow> vibe_rtt_cb_t \<Rightarrow> kstate \<Rightarrow> (u32 \<times> vibe_rtt_cb_t \<times> kstate) option" where
  "vibe_rtt_write cfg channel data len cb s =
     (let (cb, s) = (if \<not> rtt_ready cb then vibe_rtt_init cfg cb s else (cb, s)) in
      if channel \<ge> CONFIG_RTT_MAX_UP_BUFFERS cfg \<or> up_pBuffer (cb_aUp cb (unat channel)) = None then Some (0, cb, s)
      else
        (let (key, s) = vibe_irq_lock s in
         map_option (\<lambda>(written, up). (written, cb\<lparr>cb_aUp := (cb_aUp cb)(unat channel := up)\<rparr>, vibe_irq_unlock key s))
           (rtt_write_loop data len 0 (cb_aUp cb (unat channel)))))"

definition vibe_rtt_putc :: "rtt_config \<Rightarrow> u8 \<Rightarrow> vibe_rtt_cb_t \<Rightarrow> kstate \<Rightarrow> (vibe_rtt_cb_t \<times> kstate) option" where
  "vibe_rtt_putc cfg c cb s = map_option snd (vibe_rtt_write cfg 0 [c] 1 cb s)"

text \<open>The bytes read so far are \<open>dst\<close>.\<close>

partial_function (option) rtt_read_loop ::
    "(nat \<Rightarrow> u8) \<Rightarrow> u32 \<Rightarrow> u32 \<Rightarrow> u32 \<Rightarrow> u32 \<Rightarrow> u32 \<Rightarrow> u8 list \<Rightarrow> (u32 \<times> u8 list \<times> u32) option" where
  "rtt_read_loop buf sz wr len rd cnt dst =
     (if cnt < len \<and> rd \<noteq> wr
      then rtt_read_loop buf sz wr len (if rd + 1 \<ge> sz then 0 else rd + 1) (cnt + 1) (dst @ [buf (unat rd)])
      else Some (cnt, dst, rd))"

definition vibe_rtt_read ::
    "rtt_config \<Rightarrow> u32 \<Rightarrow> u32 \<Rightarrow> vibe_rtt_cb_t \<Rightarrow> kstate \<Rightarrow> (u32 \<times> u8 list \<times> vibe_rtt_cb_t \<times> kstate) option" where
  "vibe_rtt_read cfg channel len cb s =
     (let (cb, s) = (if \<not> rtt_ready cb then vibe_rtt_init cfg cb s else (cb, s)) in
      if channel \<ge> CONFIG_RTT_MAX_DOWN_BUFFERS cfg then Some (0, [], cb, s)
      else
        (let dn = cb_aDown cb (unat channel) in
         case dn_pBuffer dn of
           None \<Rightarrow> Some (0, [], cb, s)
         | Some buf \<Rightarrow>
             (let (key, s) = vibe_irq_lock s in
              map_option (\<lambda>(cnt, dst, rd). (cnt, dst, cb\<lparr>cb_aDown := (cb_aDown cb)(unat channel := dn\<lparr>dn_RdOff := rd\<rparr>)\<rparr>, vibe_irq_unlock key s))
                (rtt_read_loop buf (dn_SizeOfBuffer dn) (dn_WrOff dn) len (dn_RdOff dn) 0 []))))"

definition vibe_rtt_up_used :: "rtt_config \<Rightarrow> u32 \<Rightarrow> vibe_rtt_cb_t \<Rightarrow> u32" where
  "vibe_rtt_up_used cfg channel cb =
     (if \<not> rtt_ready cb \<or> channel \<ge> CONFIG_RTT_MAX_UP_BUFFERS cfg then 0
      else
        (let up = cb_aUp cb (unat channel); wr = up_WrOff up; rd = up_RdOff up
         in if wr \<ge> rd then wr - rd else up_SizeOfBuffer up - rd + wr))"

section \<open>Ring contents\<close>

definition rtt_count :: "u32 \<Rightarrow> u32 \<Rightarrow> u32 \<Rightarrow> nat" where
  "rtt_count sz wr rd = (unat wr + unat sz - unat rd) mod unat sz"

definition rtt_ring :: "(nat \<Rightarrow> u8) \<Rightarrow> u32 \<Rightarrow> u32 \<Rightarrow> u32 \<Rightarrow> u8 list" where
  "rtt_ring buf sz wr rd = ring_content buf (unat sz) (unat rd) (rtt_count sz wr rd)"

definition up_ok :: "vibe_rtt_up_t \<Rightarrow> bool" where
  "up_ok up \<longleftrightarrow> up_pBuffer up \<noteq> None \<and> up_WrOff up < up_SizeOfBuffer up \<and> up_RdOff up < up_SizeOfBuffer up"

definition up_content :: "vibe_rtt_up_t \<Rightarrow> u8 list" where
  "up_content up = rtt_ring (the (up_pBuffer up)) (up_SizeOfBuffer up) (up_WrOff up) (up_RdOff up)"

lemma rtt_count_if:
  assumes "wr < sz" "rd < sz"
  shows "rtt_count sz wr rd = (if rd \<le> wr then unat wr - unat rd else unat sz - unat rd + unat wr)"
proof (cases "rd \<le> wr")
  case True
  then have e: "unat wr + unat sz - unat rd = (unat wr - unat rd) + unat sz" by (simp add: word_le_nat_alt)
  have "unat wr - unat rd < unat sz" using assms by (simp add: word_less_nat_alt)
  then have "rtt_count sz wr rd = unat wr - unat rd" unfolding rtt_count_def e by simp
  then show ?thesis using True by simp
next
  case False
  then have "unat wr + unat sz - unat rd < unat sz" using assms by (simp add: word_le_nat_alt word_less_nat_alt)
  then show ?thesis using False assms by (simp add: rtt_count_def word_less_nat_alt)
qed

lemma rtt_count_mod:
  assumes "wr < sz" "rd < sz"
  shows "unat wr = (unat rd + rtt_count sz wr rd) mod unat sz"
proof -
  have b: "unat wr < unat sz" "unat rd < unat sz" using assms by (simp_all add: word_less_nat_alt)
  have "(unat rd + rtt_count sz wr rd) mod unat sz = (unat rd + (unat wr + unat sz - unat rd)) mod unat sz"
    unfolding rtt_count_def by (rule mod_add_right_eq)
  also have "unat rd + (unat wr + unat sz - unat rd) = unat wr + unat sz" using b by linarith
  finally show ?thesis using b by simp
qed

lemma rtt_count_zero:
  assumes "wr < sz" "rd < sz"
  shows "rtt_count sz wr rd = 0 \<longleftrightarrow> rd = wr"
proof
  assume "rtt_count sz wr rd = 0"
  then have "unat wr = unat rd" using rtt_count_mod [OF assms] assms(2) by (simp add: word_less_nat_alt)
  then show "rd = wr" by (simp add: word_unat_eq_iff)
next
  assume "rd = wr"
  then show "rtt_count sz wr rd = 0" by (simp add: rtt_count_def)
qed

lemma rtt_space_eq:
  assumes "up_ok up"
  shows "unat (rtt_space up) = unat (up_SizeOfBuffer up) - 1 - length (up_content up)"
proof -
  let ?z = "up_SizeOfBuffer up" and ?w = "up_WrOff up" and ?r = "up_RdOff up"
  have b: "unat ?w < unat ?z" "unat ?r < unat ?z" "?w < ?z" "?r < ?z" using assms by (simp_all add: up_ok_def word_less_nat_alt)
  have l: "length (up_content up) = (if ?r \<le> ?w then unat ?w - unat ?r else unat ?z - unat ?r + unat ?w)"
    using rtt_count_if [OF b(3,4)] by (simp add: up_content_def rtt_ring_def)
  show ?thesis
  proof (cases "?r > ?w")
    case True
    then have "unat (?r - ?w) = unat ?r - unat ?w" "?r - ?w > 0" by (simp_all add: unat_minus_u32 word_less_nat_alt word_le_nat_alt)
    then have "unat (?r - ?w - 1) = unat ?r - unat ?w - 1" by (simp add: unat_dec_u32)
    then show ?thesis using True l b by (simp add: rtt_space_def word_less_nat_alt word_le_nat_alt)
  next
    case False
    have zw: "unat (?z - ?w) = unat ?z - unat ?w" using b by (simp add: unat_minus_u32 word_le_nat_alt)
    have le: "unat ?r \<le> unat ?w" using False by (simp add: word_le_nat_alt not_less)
    have s: "unat (?z - ?w + ?r) = unat ?z - unat ?w + unat ?r"
      using zw b le u32_bound [of ?z] by (subst unat_plus_u32) simp_all
    then have "?z - ?w + ?r > 0" using b by (simp add: word_less_nat_alt)
    then have "unat (?z - ?w + ?r - 1) = unat ?z - unat ?w + unat ?r - 1" using s by (simp add: unat_dec_u32)
    moreover have "rtt_space up = ?z - ?w + ?r - 1" using False by (simp add: rtt_space_def)
    moreover have "length (up_content up) = unat ?w - unat ?r" using False l by (simp add: not_less)
    ultimately show ?thesis using b le by simp
  qed
qed

lemma ring_distance:
  fixes r z k :: nat
  assumes "w = (r + k) mod z" "r < z" "k < z"
  shows "(w + z - r) mod z = k"
proof (cases "r + k < z")
  case True
  then have "w + z - r = k + z" using assms(1) by simp
  then show ?thesis using assms(3) by simp
next
  case False
  then have "w = r + k - z" using assms by (simp add: mod_if)
  then have "w + z - r = k" using False by simp
  then show ?thesis using assms(3) by simp
qed

lemma rtt_run_bounds:
  assumes "up_ok up" "rtt_space up \<noteq> 0" "rest \<noteq> 0"
  shows "0 < unat (rtt_run up rest) \<and> unat (rtt_run up rest) \<le> unat rest \<and> unat (rtt_run up rest) \<le> unat (rtt_space up) \<and>
    unat (rtt_run up rest) \<le> unat (up_SizeOfBuffer up) - unat (up_WrOff up)"
proof -
  let ?z = "up_SizeOfBuffer up" and ?w = "up_WrOff up"
  have b: "unat ?w < unat ?z" using assms(1) by (simp add: up_ok_def word_less_nat_alt)
  have "unat (?z - ?w) = unat ?z - unat ?w" using b by (simp add: unat_minus_u32 word_le_nat_alt)
  moreover have "0 < unat (rtt_space up)" "0 < unat rest" using assms(2,3) by (simp_all add: unat_gt_0)
  ultimately show ?thesis using b by (auto simp: rtt_run_def Let_def word_less_nat_alt)
qed

text \<open>One contiguous copy appends that many bytes.\<close>

lemma rtt_copy_step:
  assumes ok: "up_ok up" and r: "unat run \<le> unat (rtt_space up)" "unat run \<le> unat (up_SizeOfBuffer up) - unat (up_WrOff up)"
    and src: "unat written + unat run \<le> length src"
  defines "up' \<equiv> rtt_copy src written run up"
  shows "up_ok up' \<and> up_content up' = up_content up @ take (unat run) (drop (unat written) src) \<and>
    up_SizeOfBuffer up' = up_SizeOfBuffer up \<and> up_RdOff up' = up_RdOff up"
proof -
  let ?z = "up_SizeOfBuffer up" and ?w = "up_WrOff up" and ?r = "up_RdOff up"
  let ?bs = "take (unat run) (drop (unat written) src)"
  obtain buf where buf: "up_pBuffer up = Some buf" using ok by (auto simp: up_ok_def)
  have b: "unat ?w < unat ?z" "unat ?r < unat ?z" "?w < ?z" "?r < ?z" using ok by (simp_all add: up_ok_def word_less_nat_alt)
  define u where "u = rtt_count ?z ?w ?r"
  have len: "length ?bs = unat run" using src by simp
  have c: "up_content up = ring_content buf (unat ?z) (unat ?r) u" by (simp add: up_content_def rtt_ring_def buf u_def)
  have "u < unat ?z" using b by (simp add: u_def rtt_count_def)
  then have fit: "u + unat run < unat ?z" using r(1) rtt_space_eq [OF ok] b by (simp add: c)
  have t: "unat ?w = (unat ?r + u) mod unat ?z" unfolding u_def by (rule rtt_count_mod [OF b(3,4)])
  have sum: "unat (?w + run) = unat ?w + unat run" using r(2) b u32_bound [of ?z] by (subst unat_plus_u32) simp_all
  define w' where "w' = (if ?w + run \<ge> ?z then 0 else ?w + run)"
  have w': "unat w' = (unat ?w + unat run) mod unat ?z" "w' < ?z"
    using sum r(2) b by (auto simp: w'_def word_le_nat_alt word_less_nat_alt mod_if)
  have u': "rtt_count ?z w' ?r = u + unat run"
  proof -
    have "unat w' = (unat ?r + (u + unat run)) mod unat ?z" unfolding w'(1) t mod_add_left_eq by (simp add: add.assoc)
    then show ?thesis unfolding rtt_count_def by (rule ring_distance) (use fit b in simp_all)
  qed
  have "ring_content (mem_write buf (unat ?w) ?bs) (unat ?z) (unat ?r) (u + length ?bs) = ring_content buf (unat ?z) (unat ?r) u @ ?bs"
    using ring_write [of u ?bs "unat ?z" "unat ?w" "unat ?r" "unat run" buf] fit b t r(2) len by simp
  moreover have "up' = up\<lparr>up_pBuffer := Some (mem_write buf (unat ?w) ?bs), up_WrOff := w'\<rparr>"
    by (simp add: up'_def rtt_copy_def Let_def buf w'_def)
  ultimately show ?thesis using b w'(2) u' len by (simp add: buf up_ok_def up_content_def rtt_ring_def flip: u_def)
qed

lemma rtt_write_loop_spec:
  assumes "up_ok up" "unat written \<le> unat len" "unat len \<le> length src"
  defines "k \<equiv> min (unat len - unat written) (unat (up_SizeOfBuffer up) - 1 - length (up_content up))"
  shows "\<exists>w up'. rtt_write_loop src len written up = Some (w, up') \<and> unat w = unat written + k \<and> up_ok up' \<and>
    up_content up' = up_content up @ take k (drop (unat written) src) \<and> up_SizeOfBuffer up' = up_SizeOfBuffer up \<and> up_RdOff up' = up_RdOff up"
  using assms(1-3) unfolding k_def
proof (induction "unat len - unat written" arbitrary: written up rule: less_induct)
  case less
  show ?case
  proof (cases "written < len \<and> rtt_space up \<noteq> 0")
    case False
    then have "rtt_write_loop src len written up = Some (written, up)" by (subst rtt_write_loop.simps) auto
    moreover have "min (unat len - unat written) (unat (up_SizeOfBuffer up) - 1 - length (up_content up)) = 0"
      using False rtt_space_eq [OF less.prems(1)] by (auto simp: word_less_nat_alt unat_eq_0)
    ultimately show ?thesis using less.prems(1) by simp
  next
    case True
    let ?run = "rtt_run up (len - written)"
    define up1 where "up1 = rtt_copy src written ?run up"
    have lw: "unat (len - written) = unat len - unat written"
      by (rule unat_minus_u32) (use True in \<open>simp add: order_less_imp_le\<close>)
    have r: "0 < unat ?run" "unat ?run \<le> unat len - unat written" "unat ?run \<le> unat (rtt_space up)"
        "unat ?run \<le> unat (up_SizeOfBuffer up) - unat (up_WrOff up)"
      using rtt_run_bounds [OF less.prems(1), of "len - written"] True lw by auto
    have w: "unat (written + ?run) = unat written + unat ?run"
      using r(2) less.prems(2) u32_bound [of len] by (subst unat_plus_u32) simp_all
    have src: "unat written + unat ?run \<le> length src" using r(2) less.prems(2,3) by linarith
    have c: "up_ok up1" "up_content up1 = up_content up @ take (unat ?run) (drop (unat written) src)"
        "up_SizeOfBuffer up1 = up_SizeOfBuffer up" "up_RdOff up1 = up_RdOff up"
      using rtt_copy_step [OF less.prems(1) r(3,4) src, folded up1_def] by simp_all
    have lc: "length (up_content up1) = length (up_content up) + unat ?run" unfolding c(2) using src by simp
    have sp: "unat (rtt_space up) = unat (up_SizeOfBuffer up) - 1 - length (up_content up)" by (rule rtt_space_eq [OF less.prems(1)])
    have "unat len - unat (written + ?run) < unat len - unat written" "unat (written + ?run) \<le> unat len" using r w less.prems(2) by linarith+
    from less.hyps [OF this(1) c(1) this(2) less.prems(3)] obtain v up' where v:
      "rtt_write_loop src len (written + ?run) up1 = Some (v, up')" "up_ok up'"
      "unat v = unat (written + ?run) + min (unat len - unat (written + ?run)) (unat (up_SizeOfBuffer up1) - 1 - length (up_content up1))"
      "up_content up' = up_content up1 @ take (min (unat len - unat (written + ?run)) (unat (up_SizeOfBuffer up1) - 1 - length (up_content up1))) (drop (unat (written + ?run)) src)"
      "up_SizeOfBuffer up' = up_SizeOfBuffer up1" "up_RdOff up' = up_RdOff up1"
      by (elim exE conjE) (rule that)
    let ?m = "min (unat len - unat (written + ?run)) (unat (up_SizeOfBuffer up1) - 1 - length (up_content up1))"
    have k: "min (unat len - unat written) (unat (up_SizeOfBuffer up) - 1 - length (up_content up)) = unat ?run + ?m"
    proof -
      have "min L S = a + min (L - a) (S - a)" if "a \<le> L" "a \<le> S" for a L S :: nat using that by auto
      from this [OF r(2) r(3) [unfolded sp]] show ?thesis unfolding c(3) w lc by simp
    qed
    have "rtt_write_loop src len written up = Some (v, up')" using True v(1) by (subst rtt_write_loop.simps) (simp add: up1_def)
    moreover have "up_content up' = up_content up @ take (unat ?run + ?m) (drop (unat written) src)"
      unfolding v(4) c(2) by (simp add: take_add w add.commute)
    moreover have "unat v = unat written + (unat ?run + ?m)" unfolding v(3) w by simp
    ultimately show ?thesis unfolding k using v(2) v(5) [unfolded c(3)] v(6) [unfolded c(4)] by blast
  qed
qed

text \<open>The reader takes bytes off the front.\<close>

lemma rtt_ring_Cons:
  assumes "rd < sz" "wr < sz" "rd \<noteq> wr"
  defines "rd' \<equiv> (if rd + 1 \<ge> sz then 0 else rd + 1)"
  shows "rtt_ring buf sz wr rd = buf (unat rd) # rtt_ring buf sz wr rd' \<and> rd' < sz \<and> rtt_count sz wr rd = Suc (rtt_count sz wr rd')"
proof -
  have b: "unat rd < unat sz" "unat wr < unat sz" using assms by (simp_all add: word_less_nat_alt)
  have i: "unat (rd + 1) = unat rd + 1" using b u32_bound [of sz] by (intro unat_inc_u32) simp
  have r': "unat rd' = Suc (unat rd) mod unat sz" "rd' < sz"
    using b i by (auto simp: rd'_def word_le_nat_alt word_less_nat_alt mod_if)
  have "rtt_count sz wr rd \<noteq> 0" using assms(3) rtt_count_zero [OF assms(2,1)] by simp
  then obtain c where c: "rtt_count sz wr rd = Suc c" by (cases "rtt_count sz wr rd") auto
  have lt: "rtt_count sz wr rd < unat sz" using b by (simp add: rtt_count_def)
  have "unat wr = (unat rd + Suc c) mod unat sz" using rtt_count_mod [OF assms(2,1)] c by simp
  then have "unat wr = (unat rd' + c) mod unat sz" unfolding r'(1) mod_add_left_eq by simp
  then have c': "rtt_count sz wr rd' = c" unfolding rtt_count_def by (rule ring_distance) (use r'(2) lt c in \<open>simp_all add: word_less_nat_alt\<close>)
  have "rtt_ring buf sz wr rd = buf (unat rd) # rtt_ring buf sz wr rd'"
    unfolding rtt_ring_def c c' r'(1) by (rule ring_pop [OF b(1)])
  then show ?thesis using c c' r'(2) by simp
qed

lemma rtt_read_loop_spec:
  fixes buf :: "nat \<Rightarrow> u8"
  assumes "rd < sz" "wr < sz" "unat cnt \<le> unat len"
  defines "k \<equiv> min (unat len - unat cnt) (length (rtt_ring buf sz wr rd))"
  shows "\<exists>cnt' rd'. rtt_read_loop buf sz wr len rd cnt dst = Some (cnt', dst @ take k (rtt_ring buf sz wr rd), rd') \<and>
    unat cnt' = unat cnt + k \<and> rd' < sz \<and> rtt_ring buf sz wr rd' = drop k (rtt_ring buf sz wr rd)"
  using assms(1-3) unfolding k_def
proof (induction "length (rtt_ring buf sz wr rd)" arbitrary: rd cnt dst)
  case 0
  then have "rtt_count sz wr rd = 0" by (simp add: rtt_ring_def)
  then have "rd = wr" using rtt_count_zero [OF 0(3,2)] by simp
  then show ?case using 0 by (subst rtt_read_loop.simps) simp
next
  case (Suc n)
  have ne: "rd \<noteq> wr"
    using Suc.hyps(2) rtt_count_zero [OF Suc.prems(2,1)] by (auto simp: rtt_ring_def)
  define rd1 where "rd1 = (if rd + 1 \<ge> sz then 0 else rd + 1)"
  note R = rtt_ring_Cons [OF Suc.prems(1,2) ne, of buf, folded rd1_def]
  show ?case
  proof (cases "cnt < len")
    case True
    have c1: "unat (cnt + 1) = unat cnt + 1" using True u32_bound [of len] by (intro unat_inc_u32) (simp add: word_less_nat_alt)
    have le: "unat (cnt + 1) \<le> unat len" using True c1 by (simp add: word_less_nat_alt)
    have n: "n = length (rtt_ring buf sz wr rd1)" using Suc.hyps(2) R by simp
    from Suc.hyps(1) [OF n R [THEN conjunct2, THEN conjunct1] Suc.prems(2) le, of "dst @ [buf (unat rd)]"] obtain cnt' rd' where
      IH: "rtt_read_loop buf sz wr len rd1 (cnt + 1) (dst @ [buf (unat rd)]) =
         Some (cnt', (dst @ [buf (unat rd)]) @ take (min (unat len - unat (cnt + 1)) (length (rtt_ring buf sz wr rd1))) (rtt_ring buf sz wr rd1), rd')"
        "unat cnt' = unat (cnt + 1) + min (unat len - unat (cnt + 1)) (length (rtt_ring buf sz wr rd1))" "rd' < sz"
        "rtt_ring buf sz wr rd' = drop (min (unat len - unat (cnt + 1)) (length (rtt_ring buf sz wr rd1))) (rtt_ring buf sz wr rd1)" by blast
    have step: "rtt_read_loop buf sz wr len rd cnt dst = rtt_read_loop buf sz wr len rd1 (cnt + 1) (dst @ [buf (unat rd)])"
      using True ne by (subst rtt_read_loop.simps) (simp add: rd1_def)
    have m: "min (unat len - unat cnt) (length (rtt_ring buf sz wr rd)) = Suc (min (unat len - unat (cnt + 1)) (length (rtt_ring buf sz wr rd1)))"
      using R c1 le by simp
    show ?thesis unfolding m step using IH R c1 by simp
  next
    case False
    then have "rtt_read_loop buf sz wr len rd cnt dst = Some (cnt, dst, rd)" by (subst rtt_read_loop.simps) simp
    moreover have "unat len - unat cnt = 0" using False by (simp add: word_less_nat_alt)
    ultimately show ?thesis using Suc.prems(1) by simp
  qed
qed

section \<open>Channels\<close>

lemma irq_lock_unlock: "vibe_irq_lock s = (key, s') \<Longrightarrow> vibe_irq_unlock key s' = s"
  by (auto simp: vibe_irq_lock_def vibe_irq_unlock_def arch_irq_lock_def arch_irq_unlock_def)

lemma up_used_content:
  assumes "rtt_ready cb" "channel < CONFIG_RTT_MAX_UP_BUFFERS cfg" "up_ok (cb_aUp cb (unat channel))"
  shows "unat (vibe_rtt_up_used cfg channel cb) = length (up_content (cb_aUp cb (unat channel)))"
proof -
  let ?u = "cb_aUp cb (unat channel)"
  let ?z = "up_SizeOfBuffer ?u" and ?w = "up_WrOff ?u" and ?r = "up_RdOff ?u"
  have b: "?w < ?z" "?r < ?z" "unat ?w < unat ?z" "unat ?r < unat ?z" using assms(3) by (simp_all add: up_ok_def word_less_nat_alt)
  have zr: "unat (?z - ?r) = unat ?z - unat ?r" using b by (simp add: unat_minus_u32 word_le_nat_alt)
  have "unat (?z - ?r + ?w) = unat ?z - unat ?r + unat ?w" if "\<not> ?r \<le> ?w"
    using that zr b u32_bound [of ?z] by (subst unat_plus_u32) (simp_all add: word_le_nat_alt)
  then have "unat (if ?r \<le> ?w then ?w - ?r else ?z - ?r + ?w) = rtt_count ?z ?w ?r"
    unfolding rtt_count_if [OF b(1,2)] by (simp add: unat_minus_u32)
  moreover have "\<not> CONFIG_RTT_MAX_UP_BUFFERS cfg \<le> channel" using assms(2) by simp
  ultimately show ?thesis using assms(1) by (simp add: vibe_rtt_up_used_def up_content_def rtt_ring_def Let_def)
qed


definition demo_rtt_cfg :: rtt_config where
  "demo_rtt_cfg = \<lparr>CONFIG_RTT_MAX_UP_BUFFERS = 2, CONFIG_RTT_MAX_DOWN_BUFFERS = 2, CONFIG_RTT_BUFFER_SIZE_UP = 4, CONFIG_RTT_BUFFER_SIZE_DOWN = 4\<rparr>"

definition demo_rtt :: vibe_rtt_cb_t where
  "demo_rtt = \<lparr>cb_acID = [], cb_MaxNumUpBuffers = 0, cb_MaxNumDownBuffers = 0, cb_aUp = \<lambda>_. rtt_up_zero, cb_aDown = \<lambda>_. rtt_down_zero,
     rtt_up0_storage = \<lambda>_. 0, rtt_down0_storage = \<lambda>i. of_nat i, rtt_ready = False\<rparr>"

lemma demo_rtt_up:
  "rtt_ready (fst (vibe_rtt_init demo_rtt_cfg demo_rtt s))" "up_ok (cb_aUp (fst (vibe_rtt_init demo_rtt_cfg demo_rtt s)) 0)"
  "up_content (cb_aUp (fst (vibe_rtt_init demo_rtt_cfg demo_rtt s)) 0) = []" "up_SizeOfBuffer (cb_aUp (fst (vibe_rtt_init demo_rtt_cfg demo_rtt s)) 0) = 4"
  by (simp_all add: vibe_rtt_init_def demo_rtt_cfg_def demo_rtt_def vibe_irq_lock_def arch_irq_lock_def up_ok_def up_content_def rtt_ring_def rtt_count_def)


definition dn_ok :: "vibe_rtt_down_t \<Rightarrow> bool" where
  "dn_ok dn \<longleftrightarrow> dn_pBuffer dn \<noteq> None \<and> dn_WrOff dn < dn_SizeOfBuffer dn \<and> dn_RdOff dn < dn_SizeOfBuffer dn"

definition dn_content :: "vibe_rtt_down_t \<Rightarrow> u8 list" where
  "dn_content dn = rtt_ring (the (dn_pBuffer dn)) (dn_SizeOfBuffer dn) (dn_WrOff dn) (dn_RdOff dn)"

text \<open>
  A read from a configured down channel returns the oldest pending bytes, at most as many as asked for, in the order the probe wrote them, and
  leaves the rest pending.\<close>

theorem rtt_read_takes:
  assumes "rtt_ready cb" "channel < CONFIG_RTT_MAX_DOWN_BUFFERS cfg" "dn_ok (cb_aDown cb (unat channel))"
  defines "dn \<equiv> cb_aDown cb (unat channel)"
  shows "\<exists>n cb'. vibe_rtt_read cfg channel len cb s = Some (n, take (unat n) (dn_content dn), cb', s) \<and>
    unat n = min (unat len) (length (dn_content dn)) \<and> dn_ok (cb_aDown cb' (unat channel)) \<and>
    dn_content (cb_aDown cb' (unat channel)) = drop (unat n) (dn_content dn)"
proof -
  obtain buf where buf: "dn_pBuffer dn = Some buf" and b: "dn_RdOff dn < dn_SizeOfBuffer dn" "dn_WrOff dn < dn_SizeOfBuffer dn"
    using assms(3) by (auto simp: dn_ok_def dn_def)
  have c: "dn_content dn = rtt_ring buf (dn_SizeOfBuffer dn) (dn_WrOff dn) (dn_RdOff dn)" by (simp add: dn_content_def buf)
  from rtt_read_loop_spec [OF b, of 0 len buf "[]", folded c] obtain n rd where
    r: "rtt_read_loop buf (dn_SizeOfBuffer dn) (dn_WrOff dn) len (dn_RdOff dn) 0 [] = Some (n, take (unat n) (dn_content dn), rd)"
      "unat n = min (unat len) (length (dn_content dn))" "rd < dn_SizeOfBuffer dn"
      "rtt_ring buf (dn_SizeOfBuffer dn) (dn_WrOff dn) rd = drop (unat n) (dn_content dn)"
    by auto
  obtain key s' where k: "vibe_irq_lock s = (key, s')" by force
  let ?cb = "cb\<lparr>cb_aDown := (cb_aDown cb)(unat channel := dn\<lparr>dn_RdOff := rd\<rparr>)\<rparr>"
  have "vibe_rtt_read cfg channel len cb s = Some (n, take (unat n) (dn_content dn), ?cb, s)"
    using assms(1) not_le [THEN iffD2, OF assms(2)] r(1) buf irq_lock_unlock [OF k] unfolding dn_def by (simp add: vibe_rtt_read_def k Let_def)
  moreover have "dn_ok (cb_aDown ?cb (unat channel))" using b(2) r(3) buf by (simp add: dn_ok_def)
  moreover have "dn_content (cb_aDown ?cb (unat channel)) = drop (unat n) (dn_content dn)" using r(4) buf by (simp add: dn_content_def)
  ultimately show ?thesis using r(2) by blast
qed

theorem rtt_read_takes_witness:
  "\<forall>s. \<exists>n cb'. vibe_rtt_read demo_rtt_cfg 0 8 (fst (vibe_rtt_init demo_rtt_cfg demo_rtt s)) s = Some (n, [], cb', s)"
proof
  fix s
  let ?cb = "fst (vibe_rtt_init demo_rtt_cfg demo_rtt s)"
  have d: "dn_ok (cb_aDown ?cb 0)" "dn_content (cb_aDown ?cb 0) = []" "0 < CONFIG_RTT_MAX_DOWN_BUFFERS demo_rtt_cfg"
    by (simp_all add: vibe_rtt_init_def demo_rtt_cfg_def demo_rtt_def vibe_irq_lock_def arch_irq_lock_def dn_ok_def dn_content_def rtt_ring_def rtt_count_def)
  show "\<exists>n cb'. vibe_rtt_read demo_rtt_cfg 0 8 ?cb s = Some (n, [], cb', s)"
    using rtt_read_takes [OF demo_rtt_up(1) d(3), of s 8 s] d by auto
qed

end
