(* ===== verification/Vibe_Log.thy ===== *)
theory Vibe_Log
  imports Vibe_Printk Vibe_Rtt Vibe_Irq Vibe_Fifo
begin

text \<open>
  The logging subsystem (\<^verbatim>\<open>subsys/logging/log.c\<close>, \<^verbatim>\<open>include/vibe/log.h\<close>): module levels, formatting, the direct back ends and the
  ring of deferred messages, which implements the bounded queue of \<open>Vibe_Fifo\<close>. The module table is the list that the linker section
  holds. A character array that is only used as a C string is that string.
\<close>

section \<open>Modules and messages\<close>

datatype vibe_log_level_t =
  VIBE_LOG_LEVEL_ERR | VIBE_LOG_LEVEL_WRN | VIBE_LOG_LEVEL_INF | VIBE_LOG_LEVEL_DBG | VIBE_LOG_LEVEL_NONE

fun level_code :: "vibe_log_level_t \<Rightarrow> nat" where
  "level_code VIBE_LOG_LEVEL_ERR = 0"
| "level_code VIBE_LOG_LEVEL_WRN = 1"
| "level_code VIBE_LOG_LEVEL_INF = 2"
| "level_code VIBE_LOG_LEVEL_DBG = 3"
| "level_code VIBE_LOG_LEVEL_NONE = 4"

record vibe_log_module_t =
  lm_name :: string
  lm_level :: vibe_log_level_t

record vibe_log_msg_t =
  lg_level :: vibe_log_level_t
  lg_module_name :: string
  lg_timestamp_ms :: u32
  lg_msg :: string

text \<open>\<open>LOG_RING_LEN\<close> is \<^verbatim>\<open>ARRAY_SIZE(g_log_ring)\<close>, the number of messages that fit in \<^verbatim>\<open>CONFIG_LOG_BUFFER_SIZE\<close>.\<close>

record log_config =
  LOG_RING_LEN :: u32
  CONFIG_LOG_DEFERRED :: bool
  CONFIG_LOG_BACKEND_RTT :: bool
  CONFIG_LOG_BACKEND_UART :: bool
  CONFIG_LOG_DEFAULT_LEVEL :: vibe_log_level_t

record log_state =
  g_log_modules :: "vibe_log_module_t list"
  g_log_ring :: "nat \<Rightarrow> vibe_log_msg_t"
  g_log_head :: u32
  g_log_tail :: u32
  g_log_lock :: vibe_spinlock_t

text \<open>The table of level names has no entry for \<^verbatim>\<open>VIBE_LOG_LEVEL_NONE\<close>: the access is out of bounds.\<close>

fun level_str :: "vibe_log_level_t \<Rightarrow> string option" where
  "level_str VIBE_LOG_LEVEL_ERR = Some ''ERR''"
| "level_str VIBE_LOG_LEVEL_WRN = Some ''WRN''"
| "level_str VIBE_LOG_LEVEL_INF = Some ''INF''"
| "level_str VIBE_LOG_LEVEL_DBG = Some ''DBG''"
| "level_str VIBE_LOG_LEVEL_NONE = None"

section \<open>Output\<close>

type_synonym 'd log_world = "vibe_rtt_cb_t \<times> kstate \<times> 'd"

text \<open>The C string in the first \<open>n\<close> bytes of a buffer, and those bytes.\<close>

definition buf_str :: "(nat \<Rightarrow> char) \<Rightarrow> nat \<Rightarrow> string" where
  "buf_str buf n = takeWhile (\<lambda>c. c \<noteq> CHR 0x00) (map buf [0..<n])"

definition buf_bytes :: "(nat \<Rightarrow> char) \<Rightarrow> nat \<Rightarrow> u8 list" where
  "buf_bytes buf n = map (\<lambda>i. of_nat (of_char (buf i))) [0..<n]"

definition line_fmt :: string where
  "line_fmt = ''[%s][%s] %s'' @ [CHR 0x0A]"

definition log_output ::
    "log_config \<Rightarrow> rtt_config \<Rightarrow> (char \<Rightarrow> 'd \<Rightarrow> 'd) \<Rightarrow> (nat \<Rightarrow> char) \<Rightarrow> vibe_log_module_t option \<Rightarrow> vibe_log_level_t \<Rightarrow> string \<Rightarrow>
     'd log_world \<Rightarrow> 'd log_world option" where
  "log_output cfg rtt putc line md level msg w =
     do {
       lvl \<leftarrow> level_str level;
       let args = [VA_Str (Some lvl), VA_Str (Some (case md of Some m \<Rightarrow> lm_name m | None \<Rightarrow> ''?'')), VA_Str (Some msg)];
       (cb, s, d) \<leftarrow>
         (if CONFIG_LOG_BACKEND_RTT cfg then
            (let (cb, s, d) = w in do {
               (n, line) \<leftarrow> vibe_snprintk line 160 line_fmt args;
               let n = (if n \<ge> 160 then 160 - 1 else n);
               (r, cb, s) \<leftarrow> vibe_rtt_write rtt 0 (buf_bytes line (unat n)) n cb s;
               Some (cb, s, d)
             })
          else Some w);
       if \<not> CONFIG_LOG_BACKEND_RTT cfg \<or> CONFIG_LOG_BACKEND_UART cfg
       then do { d \<leftarrow> vibe_printk putc line_fmt args d; Some (cb, s, d) }
       else Some (cb, s, d)
     }"

text \<open>The store of one message in the ring, and the refusal when it is full.\<close>

definition log_push :: "u32 \<Rightarrow> vibe_log_msg_t \<Rightarrow> log_state \<Rightarrow> bool \<times> log_state" where
  "log_push len m st =
     (let next = (g_log_tail st + 1) mod len in
      if next \<noteq> g_log_head st
      then (True, st\<lparr>g_log_ring := (g_log_ring st)(unat (g_log_tail st) := m), g_log_tail := next\<rparr>)
      else (False, st))"

text \<open>\<open>stackbuf\<close> is what the local array holds on entry.\<close>

definition vibe_log_emit ::
    "kconfig \<Rightarrow> log_config \<Rightarrow> rtt_config \<Rightarrow> (char \<Rightarrow> 'd \<Rightarrow> 'd) \<Rightarrow> (nat \<Rightarrow> char) \<Rightarrow> vibe_log_module_t option \<Rightarrow> vibe_log_level_t \<Rightarrow>
     string \<Rightarrow> va list \<Rightarrow> log_state \<times> 'd log_world \<Rightarrow> (log_state \<times> 'd log_world) option" where
  "vibe_log_emit kcfg cfg rtt putc stackbuf md level fmt args w =
     (let (st, cb, s, d) = w in
      case md of
        None \<Rightarrow> Some w
      | Some m \<Rightarrow>
          if level_code level > level_code (lm_level m) then Some w
          else do {
            (n, buf) \<leftarrow> vibe_vsnprintk stackbuf 128 fmt args;
            let msg = buf_str buf 128;
            if CONFIG_LOG_DEFERRED cfg then do {
              (key, l, s) \<leftarrow> vibe_spinlock_lock_irqsave (g_log_lock st) s;
              let st = snd (log_push (LOG_RING_LEN cfg) \<lparr>lg_level = level, lg_module_name = lm_name m,
                               lg_timestamp_ms = vibe_uptime_ms kcfg s, lg_msg = take 127 msg\<rparr> st);
              let (l, s) = vibe_spinlock_unlock_irqrestore l key s;
              Some (st\<lparr>g_log_lock := l\<rparr>, cb, s, d)
            }
            else do { w' \<leftarrow> log_output cfg rtt putc stackbuf md level msg (cb, s, d); Some (st, w') }
          })"

definition flush_fmt :: string where
  "flush_fmt = ''[%s][%s][%u] %s'' @ [CHR 0x0A]"

definition log_print :: "(char \<Rightarrow> 'd \<Rightarrow> 'd) \<Rightarrow> vibe_log_msg_t \<Rightarrow> 'd \<Rightarrow> 'd option" where
  "log_print putc m d =
     do { lvl \<leftarrow> level_str (lg_level m);
          vibe_printk putc flush_fmt
            [VA_Str (Some lvl), VA_Str (Some (lg_module_name m)), VA_Word (lg_timestamp_ms m), VA_Str (Some (lg_msg m))] d }"

definition log_pop :: "u32 \<Rightarrow> log_state \<Rightarrow> vibe_log_msg_t option \<times> log_state" where
  "log_pop len st =
     (if g_log_head st \<noteq> g_log_tail st
      then (Some (g_log_ring st (unat (g_log_head st))), st\<lparr>g_log_head := (g_log_head st + 1) mod len\<rparr>)
      else (None, st))"

partial_function (option) log_flush_loop ::
    "u32 \<Rightarrow> (char \<Rightarrow> 'd \<Rightarrow> 'd) \<Rightarrow> log_state \<times> 'd \<Rightarrow> (log_state \<times> 'd) option" where
  "log_flush_loop len putc w =
     (let (st, d) = w in
      case log_pop len st of
        (None, _) \<Rightarrow> Some (st, d)
      | (Some m, st) \<Rightarrow> do { d \<leftarrow> log_print putc m d; log_flush_loop len putc (st, d) })"

definition vibe_log_flush :: "log_config \<Rightarrow> (char \<Rightarrow> 'd \<Rightarrow> 'd) \<Rightarrow> log_state \<times> 'd \<Rightarrow> (log_state \<times> 'd) option" where
  "vibe_log_flush cfg putc w = (if CONFIG_LOG_DEFERRED cfg then log_flush_loop (LOG_RING_LEN cfg) putc w else Some w)"

section \<open>Levels\<close>

fun set_level_in :: "string \<Rightarrow> vibe_log_level_t \<Rightarrow> vibe_log_module_t list \<Rightarrow> vibe_err_t \<times> vibe_log_module_t list" where
  "set_level_in nm level [] = (VIBE_ENODEV, [])"
| "set_level_in nm level (m # ms) =
     (if lm_name m = nm then (VIBE_OK, m\<lparr>lm_level := level\<rparr> # ms)
      else (let (e, ms) = set_level_in nm level ms in (e, m # ms)))"

definition vibe_log_set_level :: "string \<Rightarrow> vibe_log_level_t \<Rightarrow> log_state \<Rightarrow> vibe_err_t \<times> log_state" where
  "vibe_log_set_level nm level st =
     (let (e, ms) = set_level_in nm level (g_log_modules st) in (e, st\<lparr>g_log_modules := ms\<rparr>))"

definition vibe_log_get_level :: "string \<Rightarrow> log_state \<Rightarrow> vibe_log_level_t" where
  "vibe_log_get_level nm st =
     (case filter (\<lambda>m. lm_name m = nm) (g_log_modules st) of m # _ \<Rightarrow> lm_level m | [] \<Rightarrow> VIBE_LOG_LEVEL_NONE)"

definition vibe_log_init :: "log_config \<Rightarrow> (char \<Rightarrow> 'd \<Rightarrow> 'd) \<Rightarrow> log_state \<times> 'd \<Rightarrow> (log_state \<times> 'd) option" where
  "vibe_log_init cfg putc w =
     (let (st, d) = w;
          st = st\<lparr>g_log_modules := map (\<lambda>m. if level_code (lm_level m) > level_code (CONFIG_LOG_DEFAULT_LEVEL cfg)
                                            then m\<lparr>lm_level := CONFIG_LOG_DEFAULT_LEVEL cfg\<rparr> else m) (g_log_modules st)\<rparr>
      in do { d \<leftarrow> vibe_printk putc (''[log] logging subsystem initialised'' @ [CHR 0x0A]) [] d; Some (st, d) })"

section \<open>The ring is a bounded queue\<close>

definition log_used :: "u32 \<Rightarrow> log_state \<Rightarrow> nat" where
  "log_used len st = (unat (g_log_tail st) + unat len - unat (g_log_head st)) mod unat len"

definition log_content :: "u32 \<Rightarrow> log_state \<Rightarrow> vibe_log_msg_t list" where
  "log_content len st = ring_content (g_log_ring st) (unat len) (unat (g_log_head st)) (log_used len st)"

definition log_ok :: "u32 \<Rightarrow> log_state \<Rightarrow> bool" where
  "log_ok len st \<longleftrightarrow> 0 < len \<and> g_log_head st < len \<and> g_log_tail st < len"

lemma log_next: "i < len \<Longrightarrow> unat ((i + 1) mod len :: u32) = (unat i + 1) mod unat len" "i < len \<Longrightarrow> (i + 1) mod len < len"
proof -
  assume i: "i < len"
  then have "unat i + 1 < 2 ^ 32" using u32_bound [of len] by (simp add: word_less_nat_alt)
  then have "unat (i + 1) = unat i + 1" by (simp add: unat_plus_u32)
  then show n: "unat ((i + 1) mod len) = (unat i + 1) mod unat len" by (simp add: unat_mod)
  have "0 < unat len" using i by (simp add: word_less_nat_alt)
  then show "(i + 1) mod len < len" by (simp add: word_less_nat_alt n)
qed

lemma log_tail_index:
  assumes "log_ok len st"
  shows "unat (g_log_tail st) = (unat (g_log_head st) + log_used len st) mod unat len"
proof -
  have h: "unat (g_log_head st) < unat len" "unat (g_log_tail st) < unat len" using assms by (simp_all add: log_ok_def word_less_nat_alt)
  show ?thesis
  proof (cases "unat (g_log_head st) \<le> unat (g_log_tail st)")
    case True
    then have "log_used len st = unat (g_log_tail st) - unat (g_log_head st)" using h by (simp add: log_used_def mod_if)
    then show ?thesis using h True by simp
  next
    case False
    then have "log_used len st = unat (g_log_tail st) + unat len - unat (g_log_head st)" using h by (simp add: log_used_def)
    then show ?thesis using h False by simp
  qed
qed

lemma log_used_less: "log_ok len st \<Longrightarrow> log_used len st < unat len"
  by (simp add: log_ok_def log_used_def word_less_nat_alt)

text \<open>One slot stays unused: the ring is full when the next tail would be the head.\<close>

lemma log_full:
  assumes "log_ok len st"
  shows "(g_log_tail st + 1) mod len = g_log_head st \<longleftrightarrow> log_used len st = unat len - 1"
proof -
  let ?h = "unat (g_log_head st)" and ?n = "unat len" and ?u = "log_used len st"
  have h: "?h < ?n" "g_log_tail st < len" using assms by (simp_all add: log_ok_def word_less_nat_alt)
  have u: "?u < ?n" using log_used_less [OF assms] .
  have "unat ((g_log_tail st + 1) mod len) = (?h + (?u + 1)) mod ?n"
    by (simp only: log_next(1) [OF h(2)] log_tail_index [OF assms] mod_add_left_eq add.assoc)
  moreover have "(?h + (?u + 1)) mod ?n = ?h \<longleftrightarrow> ?u = ?n - 1"
  proof (cases "?u = ?n - 1")
    case True
    then show ?thesis using h u by simp
  next
    case False
    then have "(?h + 0) mod ?n \<noteq> (?h + (?u + 1)) mod ?n" using u by (intro ring_slots_distinct) linarith+
    then show ?thesis using h False by simp
  qed
  ultimately show ?thesis by (simp add: word_unat_eq_iff)
qed

lemma log_push_room:
  fixes m :: vibe_log_msg_t
  assumes ok: "log_ok len st" and room: "log_used len st < unat len - 1"
  defines "st' \<equiv> st\<lparr>g_log_ring := (g_log_ring st)(unat (g_log_tail st) := m), g_log_tail := (g_log_tail st + 1) mod len\<rparr>"
  shows "log_push len m st = (True, st')" "log_ok len st'" "log_content len st' = log_content len st @ [m]"
proof -
  have t: "g_log_tail st < len" using ok by (simp add: log_ok_def)
  show "log_push len m st = (True, st')" using log_full [OF ok] room by (simp add: log_push_def st'_def Let_def)
  show ok': "log_ok len st'" using ok log_next(2) [OF t] by (simp add: log_ok_def st'_def)
  have "(unat (g_log_head st) + log_used len st') mod unat len = (unat (g_log_head st) + (log_used len st + 1)) mod unat len"
  proof -
    have "(unat (g_log_head st) + log_used len st') mod unat len = unat (g_log_tail st')"
      using log_tail_index [OF ok'] by (simp add: st'_def)
    also have "\<dots> = (unat (g_log_tail st) + 1) mod unat len" by (simp add: st'_def log_next(1) [OF t])
    also have "\<dots> = (unat (g_log_head st) + (log_used len st + 1)) mod unat len"
      by (simp only: log_tail_index [OF ok] mod_add_left_eq add.assoc)
    finally show ?thesis .
  qed
  then have "log_used len st' = log_used len st + 1"
    using log_used_less [OF ok'] room ring_slots_distinct [of "log_used len st'" "log_used len st + 1" "unat len" "unat (g_log_head st)"]
      ring_slots_distinct [of "log_used len st + 1" "log_used len st'" "unat len" "unat (g_log_head st)"]
    by (metis less_diff_conv linorder_neqE_nat)
  moreover have "log_used len st < unat len" using room by linarith
  ultimately show "log_content len st' = log_content len st @ [m]"
    using ring_push [of "log_used len st" "unat len" "g_log_ring st" "unat (g_log_head st)" m]
    by (simp add: log_content_def st'_def log_tail_index [OF ok])
qed

lemma log_empty: "log_ok len st \<Longrightarrow> log_content len st = [] \<longleftrightarrow> g_log_head st = g_log_tail st"
proof -
  assume ok: "log_ok len st"
  have "log_used len st = 0 \<longleftrightarrow> unat (g_log_head st) = unat (g_log_tail st)"
  proof
    assume "log_used len st = 0"
    then show "unat (g_log_head st) = unat (g_log_tail st)"
      using log_tail_index [OF ok] ok by (simp add: log_ok_def word_less_nat_alt)
  qed (simp add: log_used_def)
  then show ?thesis by (simp add: log_content_def word_unat_eq_iff flip: length_0_conv)
qed

lemma log_pop_some:
  assumes ok: "log_ok len st" and c: "log_content len st = m # ms"
  defines "st' \<equiv> st\<lparr>g_log_head := (g_log_head st + 1) mod len\<rparr>"
  shows "log_pop len st = (Some m, st')" "log_ok len st'" "log_content len st' = ms"
proof -
  have h: "g_log_head st < len" "unat (g_log_head st) < unat len" using ok by (simp_all add: log_ok_def word_less_nat_alt)
  have ne: "g_log_head st \<noteq> g_log_tail st" using log_empty [OF ok] c by simp
  have "log_used len st = Suc (length ms)" using arg_cong [OF c, of length] by (simp add: log_content_def)
  then have u: "log_used len st = Suc (length ms)" .
  have r: "ring_content (g_log_ring st) (unat len) (unat (g_log_head st)) (Suc (length ms)) = m # ms"
    using c by (simp add: log_content_def u)
  note p = ring_pop [OF h(2), of "g_log_ring st" "length ms"]
  show "log_pop len st = (Some m, st')" using ne r p by (simp add: log_pop_def st'_def)
  show ok': "log_ok len st'" using ok log_next(2) [OF h(1)] by (simp add: log_ok_def st'_def)
  have n: "unat (g_log_head st') = Suc (unat (g_log_head st)) mod unat len" by (simp add: st'_def log_next(1) [OF h(1)])
  have "(Suc (unat (g_log_head st)) mod unat len + log_used len st') mod unat len =
    (Suc (unat (g_log_head st)) mod unat len + length ms) mod unat len"
  proof -
    have "(Suc (unat (g_log_head st)) mod unat len + log_used len st') mod unat len = unat (g_log_tail st)"
      using log_tail_index [OF ok'] n by (simp add: st'_def)
    also have "\<dots> = (unat (g_log_head st) + Suc (length ms)) mod unat len" using log_tail_index [OF ok] by (simp only: u)
    also have "\<dots> = (Suc (unat (g_log_head st)) mod unat len + length ms) mod unat len" by (simp only: mod_add_left_eq add_Suc add_Suc_right)
    finally show ?thesis .
  qed
  moreover have "length ms < unat len" using log_used_less [OF ok] u by simp
  ultimately have "log_used len st' = length ms"
    using log_used_less [OF ok'] ring_slots_distinct by (metis linorder_neqE_nat)
  then show "log_content len st' = ms" using r p n by (simp add: log_content_def) (simp add: st'_def)
qed

interpretation logq: bounded_fifo "log_ok len" "\<lambda>_ _. True" "log_content len" "\<lambda>_. unat len - 1" "log_push len" "log_pop len"
  for len
proof unfold_locales
  fix st assume ok: "log_ok len st"
  show "length (log_content len st) \<le> unat len - 1" using log_used_less [OF ok] by (simp add: log_content_def)
  show "\<exists>q'. log_push len x st = (True, q') \<and> log_ok len q' \<and> log_content len q' = log_content len st @ [x] \<and>
      unat len - 1 = unat len - 1 \<and> (\<lambda>_ :: vibe_log_msg_t. True) = (\<lambda>_. True)" if "length (log_content len st) < unat len - 1" for x
    using log_push_room [OF ok, where m = x] that by (simp add: log_content_def)
  show "\<exists>q'. log_push len x st = (False, q') \<and> log_ok len q' \<and> log_content len q' = log_content len st \<and>
      unat len - 1 = unat len - 1 \<and> (\<lambda>_ :: vibe_log_msg_t. True) = (\<lambda>_. True)" if "length (log_content len st) = unat len - 1" for x
    using log_full [OF ok] that ok by (simp add: log_push_def log_content_def Let_def)
  show "\<exists>q'. log_pop len st = (Some x, q') \<and> log_ok len q' \<and> log_content len q' = xs \<and>
      unat len - 1 = unat len - 1 \<and> (\<lambda>_ :: vibe_log_msg_t. True) = (\<lambda>_. True)" if "log_content len st = x # xs" for x xs
    using log_pop_some [OF ok that] by simp
  show "log_pop len st = (None, st)" if "log_content len st = []"
    using log_empty [OF ok] that by (simp add: log_pop_def)
qed

section \<open>Deferred messages come out in order\<close>

text \<open>A call of a log macro: the kernel state it runs in, the module, the level and the format with its arguments.\<close>

record log_call =
  lc_state :: kstate
  lc_module :: vibe_log_module_t
  lc_level :: vibe_log_level_t
  lc_fmt :: string
  lc_args :: "va list"
  lc_stack :: "nat \<Rightarrow> char"

fun emit_all ::
    "kconfig \<Rightarrow> log_config \<Rightarrow> rtt_config \<Rightarrow> (char \<Rightarrow> 'd \<Rightarrow> 'd) \<Rightarrow> vibe_rtt_cb_t \<Rightarrow> 'd \<Rightarrow> log_call list \<Rightarrow> log_state \<Rightarrow> log_state option" where
  "emit_all kcfg cfg rtt putc cb d [] st = Some st"
| "emit_all kcfg cfg rtt putc cb d (c # cs) st =
     do {
       (st, w) \<leftarrow> vibe_log_emit kcfg cfg rtt putc (lc_stack c) (Some (lc_module c)) (lc_level c) (lc_fmt c) (lc_args c) (st, cb, lc_state c, d);
       emit_all kcfg cfg rtt putc cb d cs st
     }"

text \<open>The calls that the level of the module lets through, the message of one, and the line that it prints.\<close>

definition enabled :: "log_call \<Rightarrow> bool" where
  "enabled c \<longleftrightarrow> level_code (lc_level c) \<le> level_code (lm_level (lc_module c))"

definition formats :: "log_call \<Rightarrow> bool" where
  "formats c \<longleftrightarrow> (\<exists>out. fmt_out (lc_fmt c) (lc_args c) = Some out \<and> length out < 2 ^ 32)"

definition call_msg :: "kconfig \<Rightarrow> log_call \<Rightarrow> vibe_log_msg_t" where
  "call_msg kcfg c = \<lparr>lg_level = lc_level c, lg_module_name = lm_name (lc_module c), lg_timestamp_ms = vibe_uptime_ms kcfg (lc_state c),
     lg_msg = takeWhile (\<lambda>x. x \<noteq> CHR 0x00) (take 127 (the (fmt_out (lc_fmt c) (lc_args c))))\<rparr>"

definition msg_line :: "vibe_log_msg_t \<Rightarrow> string" where
  "msg_line m = ''['' @ the (level_str (lg_level m)) @ '']['' @ lg_module_name m @ '']['' @
     fmt_putuint append_char (lg_timestamp_ms m) 10 [] @ ''] '' @ lg_msg m @ [CHR 0x0A]"

lemma append_char_puts: "fmt_puts append_char t s = s @ t"
  by (induction t arbitrary: s) (simp_all add: append_char_def)

lemma append_char_putuint: "fmt_putuint append_char v b s = s @ fmt_putuint append_char v b []"
  by (simp add: fmt_putuint_def append_char_puts) (simp add: append_char_def)

lemma flush_line:
  assumes "level_str (lg_level m) = Some lvl"
  shows "fmt_out flush_fmt [VA_Str (Some lvl), VA_Str (Some (lg_module_name m)), VA_Word (lg_timestamp_ms m), VA_Str (Some (lg_msg m))] =
    Some (msg_line m)"
proof -
  have "fmt_out flush_fmt [VA_Str (Some lvl), VA_Str (Some (lg_module_name m)), VA_Word (lg_timestamp_ms m), VA_Str (Some (lg_msg m))] =
    Some ((fmt_putuint append_char (lg_timestamp_ms m) 10 (''['' @ lvl @ '']['' @ lg_module_name m @ ''][''))
      @ ''] '' @ lg_msg m @ [CHR 0x0A])"
    by (simp add: fmt_out_def flush_fmt_def fmt_conv_def append_char_puts) (simp add: append_char_def)
  then show ?thesis using assms by (simp add: msg_line_def append_char_putuint [of _ _ "_ # _"])
qed

lemma log_print_line:
  assumes "lg_level m \<noteq> VIBE_LOG_LEVEL_NONE"
  shows "log_print putc m d = Some (fold putc (msg_line m) d)"
proof -
  obtain lvl where l: "level_str (lg_level m) = Some lvl" using assms by (cases "lg_level m") auto
  then show ?thesis by (simp add: log_print_def vibe_printk_def vibe_vprintk_def fmt_core_fold flush_line [OF l])
qed

lemma flush_loop_prints:
  assumes "log_ok len st" "\<forall>m\<in>set (log_content len st). lg_level m \<noteq> VIBE_LOG_LEVEL_NONE"
  shows "\<exists>st'. log_flush_loop len putc (st, d) = Some (st', fold putc (concat (map msg_line (log_content len st))) d) \<and>
    log_ok len st' \<and> log_content len st' = []"
  using assms
proof (induction "log_content len st" arbitrary: st d)
  case Nil
  have "log_flush_loop len putc (st, d) = Some (st, d)"
    by (subst log_flush_loop.simps) (simp add: logq.pop_empty [OF Nil.prems(1) Nil.hyps [symmetric]])
  then show ?case using Nil by auto
next
  case (Cons m ms)
  note c = Cons.hyps(2) [symmetric]
  obtain st1 where p: "log_pop len st = (Some m, st1)" "log_ok len st1" "log_content len st1 = ms"
    using logq.pop_full [OF Cons.prems(1) c] by blast
  have m: "lg_level m \<noteq> VIBE_LOG_LEVEL_NONE" "\<forall>m\<in>set (log_content len st1). lg_level m \<noteq> VIBE_LOG_LEVEL_NONE"
    using Cons.prems(2) by (simp_all add: c p(3))
  have "log_flush_loop len putc (st, d) = log_flush_loop len putc (st1, fold putc (msg_line m) d)"
    by (subst log_flush_loop.simps) (simp add: p(1) log_print_line [OF m(1)])
  then show ?case using Cons.hyps(1) [OF p(3) [symmetric] p(2) m(2), of "fold putc (msg_line m) d"] by (simp add: c p(3))
qed

text \<open>A character array that was printed into holds the output, cut to the room that the terminator leaves.\<close>

lemma buf_str_printed:
  assumes "fmt_out fmt args = Some out" "length out < 2 ^ 32"
  shows "\<exists>n buf'. vibe_vsnprintk buf 128 fmt args = Some (n, buf') \<and>
    buf_str buf' 128 = takeWhile (\<lambda>x. x \<noteq> CHR 0x00) (take 127 out)"
proof -
  let ?k = "min (length out) 127"
  let ?p = "of_nat (length out) :: u32"
  have p: "unat ?p = length out" using assms(2) by (simp add: unat_of_nat_u32)
  have k: "?p < 127 \<Longrightarrow> unat ?p = ?k" "\<not> ?p < 127 \<Longrightarrow> ?k = 127" using p by (auto simp: word_less_nat_alt min_def)
  have r: "vibe_vsnprintk buf 128 fmt args = Some (?p, (filled buf 128 out)(?k := CHR 0x00))"
    using k by (simp add: vibe_vsnprintk_def fmt_core_fold assms(1) fold_buffer_emit [OF assms(2)] Let_def)
  have split: "[0..<128] = [0..<?k] @ ?k # [Suc ?k..<128 :: nat]"
  proof -
    have k: "?k < 128" by simp
    then have "[0..<128] = [0..<?k] @ [?k..<128]" using upt_add_eq_append [of 0 ?k "128 - ?k"] by simp
    then show ?thesis by (simp only: upt_conv_Cons [OF k])
  qed
  have pre: "map ((filled buf 128 out)(?k := CHR 0x00)) [0..<?k] = take 127 out"
    by (rule nth_equalityI) (auto simp: filled_def)
  have "buf_str ((filled buf 128 out)(?k := CHR 0x00)) 128 = takeWhile (\<lambda>x. x \<noteq> CHR 0x00) (take 127 out @ CHR 0x00 # map ((filled buf 128 out)(?k := CHR 0x00)) [Suc ?k..<128])"
    unfolding buf_str_def split map_append pre by simp
  also have "\<dots> = takeWhile (\<lambda>x. x \<noteq> CHR 0x00) (take 127 out)" by (rule takeWhile_tail) simp
  finally show ?thesis using r by blast
qed

lemma emit_pushes:
  assumes "CONFIG_LOG_DEFERRED cfg" "\<not> g_log_lock st" "formats c"
  shows "vibe_log_emit kcfg cfg rtt putc (lc_stack c) (Some (lc_module c)) (lc_level c) (lc_fmt c) (lc_args c) (st, cb, lc_state c, d) =
    Some (if enabled c then snd (log_push (LOG_RING_LEN cfg) (call_msg kcfg c) st) else st, cb, lc_state c, d)"
proof (cases "enabled c")
  case False
  then show ?thesis by (simp add: vibe_log_emit_def enabled_def)
next
  case True
  obtain out n buf' where o: "fmt_out (lc_fmt c) (lc_args c) = Some out" "vibe_vsnprintk (lc_stack c) 128 (lc_fmt c) (lc_args c) = Some (n, buf')"
      "buf_str buf' 128 = takeWhile (\<lambda>x. x \<noteq> CHR 0x00) (take 127 out)"
    using assms(3) buf_str_printed unfolding formats_def by metis
  obtain key l s where l: "vibe_spinlock_lock_irqsave (g_log_lock st) (lc_state c) = Some (key, l, s)" "g_tick_count s = g_tick_count (lc_state c)"
    using assms(2) by (auto simp: spinlock_defs)
  have "length (buf_str buf' 128) \<le> 127" using length_takeWhile_le [of _ "take 127 out"] by (simp add: o(3) del: length_takeWhile_le)
  then have msg: "\<lparr>lg_level = lc_level c, lg_module_name = lm_name (lc_module c), lg_timestamp_ms = vibe_uptime_ms kcfg s,
      lg_msg = take 127 (buf_str buf' 128)\<rparr> = call_msg kcfg c"
    using o by (simp add: call_msg_def vibe_uptime_ms_def l(2))
  have "(snd (log_push len m st))\<lparr>g_log_lock := False\<rparr> = snd (log_push len m st)" for len m
    using assms(2) by (cases st) (simp add: log_push_def Let_def)
  then show ?thesis
    using True assms(1) by (simp add: vibe_log_emit_def enabled_def o(2) l(1) irqsave_restore [OF l(1)] msg Let_def)
qed

lemma log_push_content:
  assumes "log_ok len st" "\<not> g_log_lock st"
  shows "log_ok len (snd (log_push len m st))" "\<not> g_log_lock (snd (log_push len m st))"
    "log_content len (snd (log_push len m st)) = take (unat len - 1) (log_content len st @ [m])"
proof -
  show "\<not> g_log_lock (snd (log_push len m st))" using assms(2) by (simp add: log_push_def Let_def)
  obtain b q where q: "log_push len m st = (b, q)" "log_ok len q" "log_content len q = log_content len st @ (if b then [m] else [])"
      "b = (length (log_content len st) < unat len - 1)"
    using logq.push_law [OF assms(1) TrueI, of m] by blast
  then show "log_ok len (snd (log_push len m st))" "log_content len (snd (log_push len m st)) = take (unat len - 1) (log_content len st @ [m])"
    using logq.bounded [OF assms(1)] by simp_all
qed

lemma take_take_append: "take n (take n xs @ ys) = take n (xs @ ys)"
  by (cases "length xs \<le> n") simp_all

lemma emit_all_content:
  assumes "CONFIG_LOG_DEFERRED cfg" "log_ok (LOG_RING_LEN cfg) st" "\<not> g_log_lock st" "\<forall>c\<in>set cs. formats c"
  shows "\<exists>st'. emit_all kcfg cfg rtt putc cb d cs st = Some st' \<and> log_ok (LOG_RING_LEN cfg) st' \<and>
    log_content (LOG_RING_LEN cfg) st' =
      take (unat (LOG_RING_LEN cfg) - 1) (log_content (LOG_RING_LEN cfg) st @ map (call_msg kcfg) (filter enabled cs))"
  using assms(2-)
proof (induction cs arbitrary: st)
  case Nil
  then show ?case using logq.bounded [OF Nil(1)] by simp
next
  case (Cons c cs)
  let ?st = "if enabled c then snd (log_push (LOG_RING_LEN cfg) (call_msg kcfg c) st) else st"
  have f: "formats c" "\<forall>c\<in>set cs. formats c" using Cons.prems(3) by simp_all
  note e = emit_pushes [OF assms(1) Cons.prems(2) f(1)]
  have st: "log_ok (LOG_RING_LEN cfg) ?st" "\<not> g_log_lock ?st" using log_push_content Cons.prems by auto
  have "take (unat (LOG_RING_LEN cfg) - 1) (log_content (LOG_RING_LEN cfg) ?st @ map (call_msg kcfg) (filter enabled cs)) =
    take (unat (LOG_RING_LEN cfg) - 1) (log_content (LOG_RING_LEN cfg) st @ map (call_msg kcfg) (filter enabled (c # cs)))"
    using log_push_content(3) [OF Cons.prems(1,2)]
      take_take_append [of "unat (LOG_RING_LEN cfg) - 1" "log_content (LOG_RING_LEN cfg) st @ [call_msg kcfg c]"] by (simp del: take_append)
  then show ?case using Cons.IH [OF st f(2)] by (simp only: emit_all.simps e bind.bind_lunit prod.case)
qed

text \<open>
  C40: Deferred logging keeps the order and drops only what does not fit. After any sequence of log calls, \<^verbatim>\<open>vibe_log_flush\<close> returns, and it has printed first the messages that were already in the ring
  and then the messages of the calls that the level of their module let through, in the order of the calls: as many as the ring holds, which is one less than its length, the later ones are dropped.
  A line carries level, module, time of the call and at most 127 characters of the formatted text. The ring is empty afterwards.
\<close>
theorem log_deferred_in_order:
  assumes "CONFIG_LOG_DEFERRED cfg" "log_ok (LOG_RING_LEN cfg) st" "\<not> g_log_lock st"
    and "\<forall>m\<in>set (log_content (LOG_RING_LEN cfg) st). lg_level m \<noteq> VIBE_LOG_LEVEL_NONE"
    and "\<forall>c\<in>set cs. formats c \<and> lc_level c \<noteq> VIBE_LOG_LEVEL_NONE"
  shows "\<exists>st' st''. emit_all kcfg cfg rtt putc cb d cs st = Some st' \<and>
    vibe_log_flush cfg putc (st', d) =
      Some (st'', fold putc (concat (map msg_line (take (unat (LOG_RING_LEN cfg) - 1)
        (log_content (LOG_RING_LEN cfg) st @ map (call_msg kcfg) (filter enabled cs))))) d) \<and>
    log_content (LOG_RING_LEN cfg) st'' = []"
proof -
  let ?c = "take (unat (LOG_RING_LEN cfg) - 1) (log_content (LOG_RING_LEN cfg) st @ map (call_msg kcfg) (filter enabled cs))"
  obtain st' where st': "emit_all kcfg cfg rtt putc cb d cs st = Some st'" "log_ok (LOG_RING_LEN cfg) st'" "log_content (LOG_RING_LEN cfg) st' = ?c"
    using emit_all_content [OF assms(1-3), of cs kcfg rtt putc cb d] assms(5) by (auto simp del: take_append)
  have "lg_level m \<noteq> VIBE_LOG_LEVEL_NONE" if "m \<in> set (log_content (LOG_RING_LEN cfg) st')" for m
    using in_set_takeD [OF that [unfolded st'(3)]] assms(4,5) by (auto simp: call_msg_def)
  then show ?thesis
    using flush_loop_prints [OF st'(2), of putc d] st' assms(1) by (auto simp: vibe_log_flush_def)
qed

definition demo_log_cfg :: log_config where
  "demo_log_cfg = \<lparr>LOG_RING_LEN = 2, CONFIG_LOG_DEFERRED = True, CONFIG_LOG_BACKEND_RTT = False, CONFIG_LOG_BACKEND_UART = True,
     CONFIG_LOG_DEFAULT_LEVEL = VIBE_LOG_LEVEL_INF\<rparr>"

definition demo_log :: log_state where
  "demo_log = \<lparr>g_log_modules = [], g_log_ring = \<lambda>_. \<lparr>lg_level = VIBE_LOG_LEVEL_ERR, lg_module_name = [], lg_timestamp_ms = 0, lg_msg = []\<rparr>,
     g_log_head = 1, g_log_tail = 1, g_log_lock = False\<rparr>"

definition demo_call :: "kstate \<Rightarrow> vibe_log_level_t \<Rightarrow> u32 \<Rightarrow> log_call" where
  "demo_call s level v = \<lparr>lc_state = s\<lparr>g_tick_count := 25\<rparr>, lc_module = \<lparr>lm_name = ''net'', lm_level = VIBE_LOG_LEVEL_INF\<rparr>, lc_level = level,
     lc_fmt = ''up %u'', lc_args = [VA_Word v], lc_stack = \<lambda>_. CHR ''?''\<rparr>"

lemma demo_digits: "fmt_putuint append_char 7 10 s = s @ ''7''" "fmt_putuint append_char 25 10 s = s @ ''25''"
  by (simp_all add: fmt_putuint_def putuint_loop.simps digit_char_def char_of_def bit_Suc_0_iff append_char_puts) (simp_all add: append_char_def)

lemma demo_call_msg:
  "call_msg (kcfg\<lparr>CONFIG_SYS_CLOCK_HZ := 1000\<rparr>) (demo_call s level 7) =
     \<lparr>lg_level = level, lg_module_name = ''net'', lg_timestamp_ms = 25, lg_msg = ''up 7''\<rparr>"
  by (simp add: call_msg_def demo_call_def fmt_out_def fmt_conv_def demo_digits vibe_uptime_ms_def VIBE_TICKS_TO_MS_def)
    (simp add: append_char_def)

text \<open>A debug message is filtered, the first information message is printed, and the error that follows finds the ring full.\<close>

theorem log_deferred_in_order_witness:
  "\<forall>kcfg rtt cb s. \<exists>st' st''.
    emit_all (kcfg\<lparr>CONFIG_SYS_CLOCK_HZ := 1000\<rparr>) demo_log_cfg rtt append_char cb []
      [demo_call s VIBE_LOG_LEVEL_DBG 7, demo_call s VIBE_LOG_LEVEL_INF 7, demo_call s VIBE_LOG_LEVEL_ERR 7] demo_log = Some st' \<and>
    vibe_log_flush demo_log_cfg append_char (st', []) = Some (st'', ''[INF][net][25] up 7'' @ [CHR 0x0A])"
proof (intro allI)
  fix kcfg :: kconfig and rtt cb s
  let ?cs = "[demo_call s VIBE_LOG_LEVEL_DBG 7, demo_call s VIBE_LOG_LEVEL_INF 7, demo_call s VIBE_LOG_LEVEL_ERR 7]"
  let ?kcfg = "kcfg\<lparr>CONFIG_SYS_CLOCK_HZ := 1000\<rparr>"
  have cfg: "CONFIG_LOG_DEFERRED demo_log_cfg" "LOG_RING_LEN demo_log_cfg = 2" by (simp_all add: demo_log_cfg_def)
  have log: "log_ok 2 demo_log" "\<not> g_log_lock demo_log" "log_content 2 demo_log = []"
    by (simp_all add: log_ok_def demo_log_def log_content_def log_used_def)
  have f: "formats c \<and> lc_level c \<noteq> VIBE_LOG_LEVEL_NONE" if "c \<in> set ?cs" for c
    using that by (auto simp: formats_def demo_call_def fmt_out_def fmt_conv_def demo_digits) (simp_all add: append_char_def)
  have "take (unat (2 :: u32) - 1) ([] @ map (call_msg ?kcfg) (filter enabled ?cs)) = [call_msg ?kcfg (demo_call s VIBE_LOG_LEVEL_INF 7)]"
    by (simp add: enabled_def) (simp add: demo_call_def)
  then have out: "fold append_char (concat (map msg_line (take (unat (2 :: u32) - 1) ([] @ map (call_msg ?kcfg) (filter enabled ?cs))))) [] =
      ''[INF][net][25] up 7'' @ [CHR 0x0A]"
    by (simp add: demo_call_msg msg_line_def demo_digits) (simp add: append_char_def)
  from log_deferred_in_order [OF cfg(1), unfolded cfg(2), OF log(1,2), unfolded log(3), of ?cs ?kcfg rtt append_char cb "[]"] f
  show "\<exists>st' st''. emit_all ?kcfg demo_log_cfg rtt append_char cb [] ?cs demo_log = Some st' \<and>
    vibe_log_flush demo_log_cfg append_char (st', []) = Some (st'', ''[INF][net][25] up 7'' @ [CHR 0x0A])"
    unfolding out by auto
qed

section \<open>A log call returns\<close>

lemma vsnprintk_returns: "fmt_out fmt args = Some out \<Longrightarrow> \<exists>r. vibe_vsnprintk buf n fmt args = Some r"
  by (simp add: vibe_vsnprintk_def fmt_core_fold Let_def)

text \<open>With deferred output, or when only the console is used, a log call comes back and leaves the kernel as it was.\<close>

lemma emit_returns:
  assumes "fmt_out fmt args = Some out" "\<not> g_log_lock st" "level \<noteq> VIBE_LOG_LEVEL_NONE" "CONFIG_LOG_DEFERRED cfg \<or> \<not> CONFIG_LOG_BACKEND_RTT cfg"
  shows "\<exists>st' d'. vibe_log_emit kcfg cfg rtt putc buf md level fmt args (st, cb, s, d) = Some (st', cb, s, d') \<and> \<not> g_log_lock st'"
proof -
  obtain n b where v: "vibe_vsnprintk buf 128 fmt args = Some (n, b)" using vsnprintk_returns [OF assms(1), of buf 128] by auto
  obtain key l s1 where l: "vibe_spinlock_lock_irqsave (g_log_lock st) s = Some (key, l, s1)" using assms(2) by (auto simp: spinlock_defs)
  obtain lvl where lvl: "level_str level = Some lvl" using assms(3) by (cases level) auto
  have "\<exists>out. fmt_out line_fmt [VA_Str (Some lvl), VA_Str (Some nm), VA_Str (Some msg)] = Some out" for nm msg
    by (simp add: fmt_out_def line_fmt_def fmt_conv_def)
  then have "\<exists>d'. vibe_printk putc line_fmt [VA_Str (Some lvl), VA_Str (Some nm), VA_Str (Some msg)] d = Some d'" for nm msg
    by (simp add: vibe_printk_def vibe_vprintk_def fmt_core_fold)
  then have o: "\<exists>d'. log_output cfg rtt putc buf md level msg (cb, s, d) = Some (cb, s, d')" if "\<not> CONFIG_LOG_BACKEND_RTT cfg" for msg
    by (rule exE [of "\<lambda>d'. vibe_printk putc line_fmt [VA_Str (Some lvl), VA_Str (Some (case md of Some m \<Rightarrow> lm_name m | None \<Rightarrow> ''?'')), VA_Str (Some msg)] d = Some d'"])
      (simp_all add: log_output_def lvl that)
  show ?thesis
  proof (cases "\<exists>m. md = Some m \<and> \<not> level_code level > level_code (lm_level m)")
    case False
    then show ?thesis using assms(2) by (cases md) (auto simp: vibe_log_emit_def)
  next
    case True
    then obtain m where m: "md = Some m" "\<not> level_code level > level_code (lm_level m)" by blast
    show ?thesis
    proof (cases "CONFIG_LOG_DEFERRED cfg")
      case True
      then show ?thesis using m by (simp add: vibe_log_emit_def v l [simplified] irqsave_restore [OF l])
    next
      case False
      then obtain d' where "log_output cfg rtt putc buf md level (buf_str b 128) (cb, s, d) = Some (cb, s, d')" using o assms(4) by blast
      then show ?thesis using m False assms(2) by (simp add: vibe_log_emit_def v)
    qed
  qed
qed

section \<open>Levels\<close>

text \<open>A module set to \<^verbatim>\<open>VIBE_LOG_LEVEL_NONE\<close>, which the header calls the level that disables all logging, lets every message through.\<close>

theorem level_none_enables_all: "lm_level (lc_module c) = VIBE_LOG_LEVEL_NONE \<Longrightarrow> enabled c"
  by (cases "lc_level c") (simp_all add: enabled_def)

text \<open>Setting a level is seen by the next lookup and touches no other module; an unknown name is reported.\<close>

lemma set_level_get:
  "vibe_log_set_level nm level st = (e, st') \<Longrightarrow> (e = VIBE_OK \<longleftrightarrow> nm \<in> lm_name ` set (g_log_modules st)) \<and>
    (e = VIBE_OK \<longrightarrow> vibe_log_get_level nm st' = level) \<and> (other \<noteq> nm \<longrightarrow> vibe_log_get_level other st' = vibe_log_get_level other st)"
proof -
  have "set_level_in nm level ms = (e, ms') \<Longrightarrow> (e = VIBE_OK \<longleftrightarrow> nm \<in> lm_name ` set ms) \<and> (e = VIBE_OK \<or> e = VIBE_ENODEV) \<and>
    (e = VIBE_OK \<longrightarrow> (\<exists>m r. filter (\<lambda>m. lm_name m = nm) ms' = m # r \<and> lm_level m = level)) \<and>
    (other \<noteq> nm \<longrightarrow> filter (\<lambda>m. lm_name m = other) ms' = filter (\<lambda>m. lm_name m = other) ms)" for ms ms' e
    by (induction ms arbitrary: ms' e) (auto simp: split: if_splits prod.splits)
  from this [of "g_log_modules st"] show "vibe_log_set_level nm level st = (e, st') \<Longrightarrow> ?thesis"
    by (auto simp: vibe_log_set_level_def vibe_log_get_level_def split: prod.splits)
qed

end
