(* ===== verification/Vibe_Port.thy ===== *)
theory Vibe_Port
  imports Vibe_Printk Vibe_Timer
begin

text \<open>
  The rest of the Cortex-M port (\<^verbatim>\<open>arch/arm/cortex_m/core/irq.c\<close>, \<^verbatim>\<open>core/mpu.c\<close>): exception priorities, the system timer, the interrupt
  controller, reset and the memory protection unit, as writes to a record of device registers. A write to the base or attribute register
  of the protection unit goes to the region that the region number register selects. The properties read the encoded fields back.
\<close>

section \<open>Registers\<close>

record port_state =
  g_system_core_clock :: u32
  SCB_SHPR :: "nat \<Rightarrow> u32"
  SCB_SHCSR :: u32
  SCB_AIRCR :: u32
  SYSTICK_CTRL :: u32
  SYSTICK_LOAD :: u32
  SYSTICK_VAL :: u32
  NVIC_ISER :: "nat \<Rightarrow> u32"
  NVIC_ICER :: "nat \<Rightarrow> u32"
  NVIC_IP :: "nat \<Rightarrow> u8"
  MPU_TYPE :: u32
  MPU_CTRL :: u32
  MPU_RNR :: u32
  MPU_RBAR :: "u32 \<Rightarrow> u32"
  MPU_RASR :: "u32 \<Rightarrow> u32"

section \<open>Exceptions and the system timer\<close>

definition arch_set_core_clock :: "u32 \<Rightarrow> port_state \<Rightarrow> port_state" where
  "arch_set_core_clock hz p = p\<lparr>g_system_core_clock := hz\<rparr>"

text \<open>\<open>m0\<close>: the build is for a core without the configurable fault handlers.\<close>

definition arch_init :: "bool \<Rightarrow> port_state \<Rightarrow> port_state" where
  "arch_init m0 p =
     (let p = p\<lparr>SCB_SHPR := (SCB_SHPR p)(2 := push_bit 24 0x40 OR push_bit 16 0xFF)\<rparr>
      in if \<not> m0 then p\<lparr>SCB_SHCSR := SCB_SHCSR p OR (BIT 18 OR BIT 17 OR BIT 16)\<rparr> else p)"

text \<open>A frequency of zero is a division by zero.\<close>

definition arch_systick_init :: "u32 \<Rightarrow> port_state \<Rightarrow> port_state option" where
  "arch_systick_init ticks_per_sec p =
     (if ticks_per_sec = 0 then None
      else
        (let reload = g_system_core_clock p div ticks_per_sec - 1;
             p = p\<lparr>SYSTICK_CTRL := 0\<rparr>;
             p = p\<lparr>SYSTICK_LOAD := reload\<rparr>;
             p = p\<lparr>SYSTICK_VAL := 0\<rparr>
         in Some (p\<lparr>SYSTICK_CTRL := BIT 0 OR BIT 1 OR BIT 2\<rparr>)))"

text \<open>The handler of the timer interrupt; the trace hooks of the default build are empty.\<close>

definition SysTick_Handler ::
    "kconfig \<Rightarrow> (u32 \<Rightarrow> timer_id \<Rightarrow> u32 \<Rightarrow> timers \<times> kstate \<times> 'e \<Rightarrow> timers \<times> kstate \<times> 'e) \<Rightarrow> timers \<times> kstate \<times> 'e \<Rightarrow> (timers \<times> kstate \<times> 'e) option" where
  "SysTick_Handler cfg cb w = vibe_sys_tick_handler cfg cb w"

section \<open>The interrupt controller\<close>

text \<open>The register arrays have 8 words and 240 bytes; an index past them is out of bounds.\<close>

definition arch_nvic_enable_irq :: "u32 \<Rightarrow> port_state \<Rightarrow> port_state option" where
  "arch_nvic_enable_irq irq p =
     (let i = unat (drop_bit 5 irq) in
      if i < 8 then Some (p\<lparr>NVIC_ISER := (NVIC_ISER p)(i := BIT (unat (irq AND 0x1F)))\<rparr>) else None)"

definition arch_nvic_disable_irq :: "u32 \<Rightarrow> port_state \<Rightarrow> port_state option" where
  "arch_nvic_disable_irq irq p =
     (let i = unat (drop_bit 5 irq) in
      if i < 8 then Some (p\<lparr>NVIC_ICER := (NVIC_ICER p)(i := BIT (unat (irq AND 0x1F)))\<rparr>) else None)"

definition arch_nvic_set_priority :: "u32 \<Rightarrow> u32 \<Rightarrow> port_state \<Rightarrow> port_state option" where
  "arch_nvic_set_priority irq priority p =
     (if unat irq < 240 then Some (p\<lparr>NVIC_IP := (NVIC_IP p)(unat irq := ucast (priority AND 0xFF))\<rparr>) else None)"

text \<open>The request is the last effect of a reset: the loop behind it does not end.\<close>

definition arch_reboot :: "port_state \<Rightarrow> port_state" where
  "arch_reboot p = p\<lparr>SCB_AIRCR := 0x05FA0000 OR BIT 2\<rparr>"

text \<open>What the default fault handler prints before it halts.\<close>

definition vibe_default_fault_handler :: "(char \<Rightarrow> 'd \<Rightarrow> 'd) \<Rightarrow> u32 \<Rightarrow> u32 \<Rightarrow> string \<Rightarrow> 'd \<Rightarrow> 'd option" where
  "vibe_default_fault_handler putc cfsr hfsr fault_name d =
     do {
       d \<leftarrow> vibe_printk putc ([CHR 0x0A] @ ''!!! FAULT: %s !!!'' @ [CHR 0x0A]) [VA_Str (Some fault_name)] d;
       d \<leftarrow> vibe_printk putc (''  SCB->CFSR = 0x%x'' @ [CHR 0x0A]) [VA_Word cfsr] d;
       vibe_printk putc (''  SCB->HFSR = 0x%x'' @ [CHR 0x0A]) [VA_Word hfsr] d
     }"

section \<open>The memory protection unit\<close>

record vibe_mpu_region_t =
  mr_base_addr :: u32
  mr_size_bytes :: u32
  mr_ap :: u32
  mr_execute :: bool
  mr_cacheable :: bool
  mr_bufferable :: bool

function mpu_size_loop :: "u32 \<Rightarrow> u32 \<Rightarrow> u32" where
  "mpu_size_loop v sz = (if v > 1 then mpu_size_loop (drop_bit 1 v) (sz + 1) else sz)"
  by pat_completeness auto
termination
proof (relation "measure (\<lambda>(v, _). unat v)", goal_cases)
  case (2 v sz)
  then show ?case by (simp add: drop_bit_eq_div unat_div word_less_nat_alt)
qed simp

declare mpu_size_loop.simps [simp del]

definition bytes_to_mpu_size :: "u32 \<Rightarrow> u32" where
  "bytes_to_mpu_size bytes = (if bytes < 32 then 4 else mpu_size_loop bytes 0 - 1)"

definition arch_mpu_enable :: "(char \<Rightarrow> 'd \<Rightarrow> 'd) \<Rightarrow> port_state \<Rightarrow> 'd \<Rightarrow> (port_state \<times> 'd) option" where
  "arch_mpu_enable putc p d =
     (let num_regions = drop_bit 8 (MPU_TYPE p) AND 0xFF in
      if num_regions = 0 then
        do { d \<leftarrow> vibe_printk putc (''[mpu] No MPU regions available '' @ [CHR 0xE2, CHR 0x80, CHR 0x94] @ '' MPU not present'' @ [CHR 0x0A]) [] d; Some (p, d) }
      else
        do { d \<leftarrow> vibe_printk putc (''[mpu] Enabling MPU (%u regions)'' @ [CHR 0x0A]) [VA_Word num_regions] d;
             Some (p\<lparr>MPU_CTRL := BIT 0 OR BIT 2\<rparr>, d) })"

definition arch_mpu_configure_region :: "u32 \<Rightarrow> vibe_mpu_region_t option \<Rightarrow> port_state \<Rightarrow> port_state" where
  "arch_mpu_configure_region region_num cfg p =
     (case cfg of
        None \<Rightarrow> p
      | Some c \<Rightarrow>
          if region_num \<ge> 8 then p
          else
            (let size_enc = bytes_to_mpu_size (mr_size_bytes c);
                 p = p\<lparr>MPU_RNR := region_num\<rparr>;
                 p = p\<lparr>MPU_RBAR := (MPU_RBAR p)(MPU_RNR p := mr_base_addr c AND NOT 0x1F)\<rparr>;
                 rasr = BIT 0 OR push_bit 1 size_enc OR mr_ap c;
                 rasr = (if \<not> mr_execute c then rasr OR BIT 28 else rasr);
                 rasr = (if mr_cacheable c then rasr OR BIT 17 else rasr);
                 rasr = (if mr_bufferable c then rasr OR BIT 16 else rasr)
             in p\<lparr>MPU_RASR := (MPU_RASR p)(MPU_RNR p := rasr)\<rparr>))"

definition arch_mpu_disable_region :: "u32 \<Rightarrow> port_state \<Rightarrow> port_state" where
  "arch_mpu_disable_region region_num p =
     (if region_num \<ge> 8 then p
      else (let p = p\<lparr>MPU_RNR := region_num\<rparr> in p\<lparr>MPU_RASR := (MPU_RASR p)(MPU_RNR p := 0)\<rparr>))"

section \<open>What the registers encode\<close>

text \<open>The size loop counts the position of the highest bit.\<close>

lemma mpu_size_loop_log2:
  assumes "0 < unat v" "unat sz + 32 < 2 ^ 32"
  shows "\<exists>k. mpu_size_loop v sz = sz + of_nat k \<and> k < 32 \<and> 2 ^ k \<le> unat v \<and> unat v < 2 ^ Suc k"
proof -
  have "unat v < 2 ^ Suc n \<Longrightarrow> n < 32 \<Longrightarrow> 0 < unat v \<Longrightarrow>
    \<exists>k. mpu_size_loop v sz = sz + of_nat k \<and> k \<le> n \<and> 2 ^ k \<le> unat v \<and> unat v < 2 ^ Suc k" for n and v sz :: u32
  proof (induction n arbitrary: v sz)
    case 0
    then have "\<not> v > 1" "unat v = 1" by (simp_all add: word_less_nat_alt)
    then show ?case by (intro exI [of _ 0]) (simp add: mpu_size_loop.simps)
  next
    case (Suc n)
    show ?case
    proof (cases "unat v > 1")
      case True
      have half: "unat (drop_bit 1 v) = unat v div 2" by (simp add: drop_bit_eq_div unat_div)
      have "unat (drop_bit 1 v) < 2 ^ Suc n" "0 < unat (drop_bit 1 v)" unfolding half using Suc.prems True by auto
      from Suc.IH [OF this(1) _ this(2), of "sz + 1"] Suc.prems obtain k where
        k: "mpu_size_loop (drop_bit 1 v) (sz + 1) = sz + 1 + of_nat k" "k \<le> n" "2 ^ k \<le> unat v div 2" "unat v div 2 < 2 ^ Suc k"
        unfolding half by auto
      have "mpu_size_loop v sz = sz + of_nat (Suc k)"
        using True k(1) by (subst mpu_size_loop.simps) (simp add: word_less_nat_alt)
      moreover have "2 ^ Suc k \<le> unat v" "unat v < 2 ^ Suc (Suc k)" using k(3,4) by auto
      ultimately show ?thesis using k(2) by (intro exI [of _ "Suc k"]) auto
    next
      case False
      then have "unat v = 1" "\<not> v > 1" using Suc.prems by (simp_all add: word_less_nat_alt)
      then show ?thesis by (intro exI [of _ 0]) (simp add: mpu_size_loop.simps)
    qed
  qed
  from this [of v 31 sz] assms show ?thesis using u32_bound [of v] by (auto simp: less_Suc_eq_le)
qed

lemma bytes_to_mpu_size_log2:
  assumes "32 \<le> bytes"
  shows "\<exists>k. bytes_to_mpu_size bytes = of_nat k \<and> k < 31 \<and> 2 ^ Suc k \<le> unat bytes \<and> unat bytes < 2 ^ Suc (Suc k)"
proof -
  have b: "32 \<le> unat bytes" using assms by (simp add: word_le_nat_alt)
  then obtain k where k: "mpu_size_loop bytes 0 = of_nat k" "k < 32" "2 ^ k \<le> unat bytes" "unat bytes < 2 ^ Suc k"
    using mpu_size_loop_log2 [of bytes 0] by auto
  have "k \<noteq> 0" using k(4) b by (cases k) auto
  then obtain j where j: "k = Suc j" by (cases k) auto
  have "bytes_to_mpu_size bytes = of_nat j" using assms k(1) by (simp add: bytes_to_mpu_size_def j flip: not_le)
  then show ?thesis using k j by auto
qed

text \<open>A field of the attribute word: the fields do not overlap.\<close>

lemma take_bit_eq_self_u32: "unat (w :: u32) < 2 ^ n \<Longrightarrow> take_bit n w = w"
  by (simp add: word_unat_eq_iff unsigned_take_bit_eq take_bit_nat_eq_self)

lemma rasr_fields:
  fixes size_enc ap :: u32
  assumes "size_enc < 32" "ap AND NOT (push_bit 24 7) = 0"
  defines "rasr x c b \<equiv> BIT 0 OR push_bit 1 size_enc OR ap OR (if x then BIT 28 else 0) OR (if c then BIT 17 else 0) OR (if b then BIT 16 else 0)"
  shows "drop_bit 1 (rasr x c b) AND 0x1F = size_enc" "rasr x c b AND push_bit 24 7 = ap"
    "bit (rasr x c b) 0" "bit (rasr x c b) 28 \<longleftrightarrow> x" "bit (rasr x c b) 17 \<longleftrightarrow> c" "bit (rasr x c b) 16 \<longleftrightarrow> b"
proof -
  have s: "bit size_enc i \<Longrightarrow> i < 5" for i
  proof (rule ccontr)
    assume "bit size_enc i" "\<not> i < 5"
    moreover have "take_bit 5 size_enc = size_enc" using assms(1) by (intro take_bit_eq_self_u32) (simp add: word_less_nat_alt)
    ultimately show False by (metis bit_take_bit_iff)
  qed
  have m7: "bit (7 :: u32) i \<longleftrightarrow> i < 3" for i using bit_mask_iff [where 'a = "32 word", of 3 i] by (auto simp: mask_eq_exp_minus_1)
  have m31: "bit (31 :: u32) i \<longleftrightarrow> i < 5" for i using bit_mask_iff [where 'a = "32 word", of 5 i] by (auto simp: mask_eq_exp_minus_1)
  have a: "bit ap i \<Longrightarrow> 24 \<le> i \<and> i < 27" for i
  proof -
    assume b: "bit ap i"
    have "\<not> bit (ap AND NOT (push_bit 24 7)) i" by (simp only: assms(2) bit_0_eq bot_apply bool_simps) simp
    moreover have "i < 32" using bit_imp_le_length [OF b] by simp
    ultimately show ?thesis using b unfolding bit_and_iff bit_not_iff bit_push_bit_iff m7 by auto
  qed
  have r: "bit (rasr x c b) i \<longleftrightarrow> i = 0 \<or> 1 \<le> i \<and> bit size_enc (i - 1) \<or> bit ap i \<or> x \<and> i = 28 \<or> c \<and> i = 17 \<or> b \<and> i = 16" for i
    using s [of "i - 1"] unfolding rasr_def bit_or_iff bit_push_bit_iff by auto
  have "bit (drop_bit 1 (rasr x c b) AND 0x1F) i = bit size_enc i" for i
    using s [of i] a [of "Suc i"] unfolding bit_and_iff bit_drop_bit_eq comp_apply m31 r by auto
  then show "drop_bit 1 (rasr x c b) AND 0x1F = size_enc" by (intro bit_word_eqI)
  have "bit (rasr x c b AND push_bit 24 7) i = bit ap i" for i
    using s [of "i - 1"] a [of i] unfolding bit_and_iff bit_push_bit_iff m7 r by auto
  then show "rasr x c b AND push_bit 24 7 = ap" by (intro bit_word_eqI)
  show "bit (rasr x c b) 0" "bit (rasr x c b) 28 \<longleftrightarrow> x" "bit (rasr x c b) 17 \<longleftrightarrow> c" "bit (rasr x c b) 16 \<longleftrightarrow> b"
    using s [of 27] s [of 16] s [of 15] a [of 28] a [of 17] a [of 16] unfolding r by auto
qed

text \<open>
  The protection region that \<^verbatim>\<open>arch_mpu_configure_region\<close> programs is the one it was asked for. For a size of at least 32 bytes the unit decodes a region of the largest power of
  two that is at most the size (the size itself when that is a power of two), starting at the base address with its low five bits cleared, enabled, with the requested access permission and with the
  execute-never, cacheable and bufferable bits as asked; the other regions keep their registers. The size loop ends.
\<close>
theorem mpu_region_encodes:
  fixes p :: port_state
  assumes "n < 8" "32 \<le> mr_size_bytes c" "mr_ap c AND NOT (push_bit 24 7) = 0"
  defines "p' \<equiv> arch_mpu_configure_region n (Some c) p"
  shows "(let k = unat (drop_bit 1 (MPU_RASR p' n) AND 0x1F) in 2 ^ Suc k \<le> unat (mr_size_bytes c) \<and> unat (mr_size_bytes c) < 2 ^ Suc (Suc k)) \<and>
    MPU_RBAR p' n = mr_base_addr c AND NOT 0x1F \<and> bit (MPU_RASR p' n) 0 \<and> MPU_RASR p' n AND push_bit 24 7 = mr_ap c \<and>
    (bit (MPU_RASR p' n) 28 \<longleftrightarrow> \<not> mr_execute c) \<and> (bit (MPU_RASR p' n) 17 \<longleftrightarrow> mr_cacheable c) \<and> (bit (MPU_RASR p' n) 16 \<longleftrightarrow> mr_bufferable c) \<and>
    (\<forall>m. m \<noteq> n \<longrightarrow> MPU_RASR p' m = MPU_RASR p m \<and> MPU_RBAR p' m = MPU_RBAR p m)"
proof -
  obtain k where k: "bytes_to_mpu_size (mr_size_bytes c) = of_nat k" "k < 31" "2 ^ Suc k \<le> unat (mr_size_bytes c)" "unat (mr_size_bytes c) < 2 ^ Suc (Suc k)"
    using bytes_to_mpu_size_log2 [OF assms(2)] by blast
  have sz: "bytes_to_mpu_size (mr_size_bytes c) < 32" "unat (of_nat k :: u32) = k" using k(1,2) by (simp_all add: word_less_nat_alt unat_of_nat_u32)
  have r: "MPU_RASR p' n = BIT 0 OR push_bit 1 (bytes_to_mpu_size (mr_size_bytes c)) OR mr_ap c OR (if \<not> mr_execute c then BIT 28 else 0) OR
      (if mr_cacheable c then BIT 17 else 0) OR (if mr_bufferable c then BIT 16 else 0)"
    using assms(1) unfolding p'_def arch_mpu_configure_region_def by (simp add: Let_def or.assoc flip: not_less)
  note f = rasr_fields [OF sz(1) assms(3), where x = "\<not> mr_execute c" and c = "mr_cacheable c" and b = "mr_bufferable c", folded r]
  have "let k = unat (drop_bit 1 (MPU_RASR p' n) AND 0x1F) in 2 ^ Suc k \<le> unat (mr_size_bytes c) \<and> unat (mr_size_bytes c) < 2 ^ Suc (Suc k)"
    unfolding f(1) k(1) sz(2) Let_def using k(3,4) ..
  moreover have "MPU_RBAR p' n = mr_base_addr c AND NOT 0x1F" "\<forall>m. m \<noteq> n \<longrightarrow> MPU_RASR p' m = MPU_RASR p m \<and> MPU_RBAR p' m = MPU_RBAR p m"
    using assms(1) by (simp_all add: p'_def arch_mpu_configure_region_def Let_def flip: not_less)
  ultimately show ?thesis using f(2-6) by (intro conjI)
qed

definition demo_port :: port_state where
  "demo_port = \<lparr>g_system_core_clock = 12000000, SCB_SHPR = \<lambda>_. 0, SCB_SHCSR = 0, SCB_AIRCR = 0, SYSTICK_CTRL = 0, SYSTICK_LOAD = 0, SYSTICK_VAL = 0,
     NVIC_ISER = \<lambda>_. 0, NVIC_ICER = \<lambda>_. 0, NVIC_IP = \<lambda>_. 0, MPU_TYPE = 0x800, MPU_CTRL = 0, MPU_RNR = 0, MPU_RBAR = \<lambda>_. 0, MPU_RASR = \<lambda>_. 0\<rparr>"

text \<open>A read-write region of 520 KB of RAM: the unit protects 512 KB of it.\<close>

definition demo_region :: vibe_mpu_region_t where
  "demo_region = \<lparr>mr_base_addr = 0x20000000, mr_size_bytes = 532480, mr_ap = 0x3000000, mr_execute = False, mr_cacheable = True, mr_bufferable = False\<rparr>"

theorem mpu_region_encodes_witness:
  "MPU_RBAR (arch_mpu_configure_region 1 (Some demo_region) demo_port) 1 = 0x20000000 \<and>
   bit (MPU_RASR (arch_mpu_configure_region 1 (Some demo_region) demo_port) 1) 28 \<and>
   MPU_RASR (arch_mpu_configure_region 1 (Some demo_region) demo_port) 0 = 0"
proof -
  have "1 < (8 :: u32)" "32 \<le> mr_size_bytes demo_region" "mr_ap demo_region AND NOT (push_bit 24 7) = 0" by (simp_all add: demo_region_def)
  from mpu_region_encodes [OF this, of demo_port] show ?thesis
    by (simp add: demo_region_def demo_port_def Let_def)
qed

text \<open>
  The tick rate. With a frequency of at most the core clock, the timer counts \<^verbatim>\<open>clock / hz\<close> cycles per tick, runs from the processor clock and raises its interrupt. The
  reload register has 24 bits: the value fits exactly when the quotient is at most \<^verbatim>\<open>2^24\<close>.
\<close>

lemma systick_period:
  assumes "0 < hz" "hz \<le> g_system_core_clock p"
  shows "\<exists>p'. arch_systick_init hz p = Some p' \<and> unat (SYSTICK_LOAD p') + 1 = unat (g_system_core_clock p) div unat hz \<and>
    SYSTICK_CTRL p' = 7 \<and> SCB_SHPR p' = SCB_SHPR p \<and> g_system_core_clock p' = g_system_core_clock p"
proof -
  have "1 \<le> unat (g_system_core_clock p) div unat hz" using assms by (simp add: word_less_nat_alt word_le_nat_alt div_greater_zero_iff Suc_le_eq)
  then have "unat (g_system_core_clock p div hz - 1) + 1 = unat (g_system_core_clock p) div unat hz"
    using unat_minus_u32 [of 1 "g_system_core_clock p div hz"] by (simp add: unat_div word_le_nat_alt)
  moreover have "BIT 0 OR BIT 1 OR BIT 2 = 7" by (simp add: BIT_def)
  ultimately show ?thesis using assms(1) by (simp add: arch_systick_init_def Let_def)
qed

text \<open>PendSV gets the lowest priority and the tick a higher one: a context switch never preempts the tick.\<close>

lemma pendsv_lowest: "drop_bit 16 (SCB_SHPR (arch_init m0 p) 2) AND 0xFF = 0xFF" "drop_bit 24 (SCB_SHPR (arch_init m0 p) 2) AND 0xFF = 0x40"
  by (simp_all add: arch_init_def Let_def)

end
