(* ===== verification/Vibe_Boot.thy ===== *)
theory Vibe_Boot
  imports Vibe_Workq Vibe_Log Vibe_Port "HOL-Library.Multiset"
begin

text \<open>
  The boot sequence (\<^verbatim>\<open>vibe_init\<close> of \<^verbatim>\<open>kernel/init.c\<close>), composed of the components it calls: the port, the device walker
  (\<^verbatim>\<open>include/vibe/device.h\<close>), the idle thread, the system work queue, the log and the start of the scheduler; and the idle loop
  (\<^verbatim>\<open>kernel/idle.c\<close>), the trace statistics (\<^verbatim>\<open>kernel/trace.c\<close>) and the tables of \<^verbatim>\<open>kernel/smp.c\<close>. The device table is the list that the linker section
  holds. A driver's init function is named by its address, and what it does to the state of the drivers is an argument.
\<close>

section \<open>Devices\<close>

datatype vibe_init_level_t = VIBE_INIT_PRE_KERNEL_1 | VIBE_INIT_PRE_KERNEL_2 | VIBE_INIT_POST_KERNEL | VIBE_INIT_APPLICATION

fun init_level_code :: "vibe_init_level_t \<Rightarrow> nat" where
  "init_level_code VIBE_INIT_PRE_KERNEL_1 = 0"
| "init_level_code VIBE_INIT_PRE_KERNEL_2 = 1"
| "init_level_code VIBE_INIT_POST_KERNEL = 2"
| "init_level_code VIBE_INIT_APPLICATION = 3"

record vibe_device_t =
  dv_name :: "string option"
  dv_api :: u32
  dv_config :: u32
  dv_data :: u32
  dv_init_fn :: u32
  dv_pm_ops :: u32
  dv_init_level :: vibe_init_level_t

text \<open>The whole system at boot: hardware, kernel, work queues, log, console, drivers and heap.\<close>

record ('d, 'v, 'h) world =
  wo_port :: port_state
  wo_kernel :: kstate
  wo_works :: works
  wo_log :: log_state
  wo_rtt :: vibe_rtt_cb_t
  wo_console :: 'd
  wo_dev :: 'v
  wo_heap :: 'h

text \<open>Build options and link-time addresses; the identifiers name the static objects.\<close>

record boot_config =
  bc_kernel :: kconfig
  bc_log :: log_config
  bc_rtt :: rtt_config
  CONFIG_LOG :: bool
  bc_m0 :: bool
  CONFIG_SYS_WORKQ_STACK_SIZE :: u32
  CONFIG_SYS_WORKQ_PRIORITY :: u8
  bc_devices :: "vibe_device_t list"
  bc_idle_thread :: tid
  bc_idle_entry :: u32
  bc_idle_stack :: u32
  bc_workq_thread :: tid
  bc_workq_entry :: u32
  bc_workq_stack :: u32
  bc_workq_addr :: u32
  bc_sys_workq :: workq_id

text \<open>A log macro in this file: the module is the entry \<^verbatim>\<open>kernel_init\<close> of the module table. \<open>buf\<close> is what the stack holds.\<close>

definition log_here ::
    "boot_config \<Rightarrow> (char \<Rightarrow> 'd \<Rightarrow> 'd) \<Rightarrow> (nat \<Rightarrow> char) \<Rightarrow> vibe_log_level_t \<Rightarrow> string \<Rightarrow> va list \<Rightarrow> ('d, 'v, 'h) world \<Rightarrow> ('d, 'v, 'h) world option" where
  "log_here bc putc buf level fmt args w =
     (if CONFIG_LOG bc then
        do {
          (st, cb, s, d) \<leftarrow> vibe_log_emit (bc_kernel bc) (bc_log bc) (bc_rtt bc) putc buf
             (find (\<lambda>m. lm_name m = ''kernel_init'') (g_log_modules (wo_log w))) level fmt args (wo_log w, wo_rtt w, wo_kernel w, wo_console w);
          Some (w\<lparr>wo_log := st, wo_rtt := cb, wo_kernel := s, wo_console := d\<rparr>)
        }
      else Some w)"

definition dev_fail_fmt :: string where
  "dev_fail_fmt = ''device '' @ [CHR 0x27] @ ''%s'' @ [CHR 0x27] @ '' init failed: %ld''"

fun device_walk ::
    "boot_config \<Rightarrow> (char \<Rightarrow> 'd \<Rightarrow> 'd) \<Rightarrow> (nat \<Rightarrow> char) \<Rightarrow> (u32 \<Rightarrow> vibe_device_t \<Rightarrow> 'v \<Rightarrow> vibe_err_t \<times> 'v) \<Rightarrow> vibe_init_level_t \<Rightarrow>
     vibe_device_t list \<Rightarrow> ('d, 'v, 'h) world \<Rightarrow> ('d, 'v, 'h) world option" where
  "device_walk bc putc buf run level [] w = Some w"
| "device_walk bc putc buf run level (dev # devs) w =
     (if dv_init_level dev \<noteq> level then device_walk bc putc buf run level devs w
      else if dv_init_fn dev \<noteq> 0 then
        (let (err, v) = run (dv_init_fn dev) dev (wo_dev w);
             w = w\<lparr>wo_dev := v\<rparr>
         in do {
              w \<leftarrow> (if err \<noteq> VIBE_OK
                   then log_here bc putc buf VIBE_LOG_LEVEL_WRN dev_fail_fmt [VA_Str (dv_name dev), VA_Word (word_of_int (err_code err))] w
                   else Some w);
              device_walk bc putc buf run level devs w
            })
      else device_walk bc putc buf run level devs w)"

definition vibe_device_init_level ::
    "boot_config \<Rightarrow> (char \<Rightarrow> 'd \<Rightarrow> 'd) \<Rightarrow> (nat \<Rightarrow> char) \<Rightarrow> (u32 \<Rightarrow> vibe_device_t \<Rightarrow> 'v \<Rightarrow> vibe_err_t \<times> 'v) \<Rightarrow> vibe_init_level_t \<Rightarrow>
     ('d, 'v, 'h) world \<Rightarrow> ('d, 'v, 'h) world option" where
  "vibe_device_init_level bc putc buf run level w = device_walk bc putc buf run level (bc_devices bc) w"

definition vibe_device_get :: "boot_config \<Rightarrow> string \<Rightarrow> vibe_device_t option" where
  "vibe_device_get bc name = find (\<lambda>d. dv_name d = Some name) (bc_devices bc)"

definition vibe_device_is_ready :: "vibe_device_t option \<Rightarrow> bool" where
  "vibe_device_is_ready dev = (case dev of None \<Rightarrow> False | Some d \<Rightarrow> dv_init_fn d \<noteq> 0)"

section \<open>The boot sequence\<close>

definition vibe_init ::
    "boot_config \<Rightarrow> (char \<Rightarrow> 'd \<Rightarrow> 'd) \<Rightarrow> (nat \<Rightarrow> char) \<Rightarrow> (u32 \<Rightarrow> vibe_device_t \<Rightarrow> 'v \<Rightarrow> vibe_err_t \<times> 'v) \<Rightarrow> (u32 \<Rightarrow> 'h \<Rightarrow> u32 option \<times> 'h) \<Rightarrow>
     ('d, 'v, 'h) world \<Rightarrow> ('d, 'v, 'h) world option" where
  "vibe_init bc putc buf run heap_alloc w =
     do {
       let w = w\<lparr>wo_port := arch_init (bc_m0 bc) (wo_port w)\<rparr>;
       w \<leftarrow> vibe_device_init_level bc putc buf run VIBE_INIT_PRE_KERNEL_1 w;
       w \<leftarrow> vibe_device_init_level bc putc buf run VIBE_INIT_PRE_KERNEL_2 w;
       (h, s) \<leftarrow> init_idle (bc_kernel bc) heap_alloc (bc_idle_thread bc) (bc_idle_entry bc) (bc_idle_stack bc) (wo_heap w) (wo_kernel w);
       let w = w\<lparr>wo_heap := h, wo_kernel := s\<rparr>;
       (err, ws, h, s) \<leftarrow> vibe_workq_init (bc_kernel bc) heap_alloc (bc_workq_thread bc) (bc_workq_entry bc) (bc_workq_addr bc)
          (Some (bc_sys_workq bc)) (bc_workq_stack bc) (CONFIG_SYS_WORKQ_STACK_SIZE bc) (CONFIG_SYS_WORKQ_PRIORITY bc)
          (Some ''sys_workq'') (wo_works w) (wo_heap w) (wo_kernel w);
       let w = w\<lparr>wo_works := ws, wo_heap := h, wo_kernel := s\<rparr>;
       w \<leftarrow> (if err \<noteq> VIBE_OK
            then do { d \<leftarrow> vibe_printk putc (''WARN: failed to create system work queue (%ld)'' @ [CHR 0x0A]) [VA_Word (word_of_int (err_code err))] (wo_console w);
                      Some (w\<lparr>wo_console := d\<rparr>) }
            else Some w);
       w \<leftarrow> vibe_device_init_level bc putc buf run VIBE_INIT_POST_KERNEL w;
       w \<leftarrow> (if CONFIG_LOG bc
            then do { (st, d) \<leftarrow> vibe_log_init (bc_log bc) putc (wo_log w, wo_console w); Some (w\<lparr>wo_log := st, wo_console := d\<rparr>) }
            else Some w);
       w \<leftarrow> log_here bc putc buf VIBE_LOG_LEVEL_INF ''VibeRTOS v%s starting'' [VA_Str (Some ''0.1.0'')] w;
       w \<leftarrow> vibe_device_init_level bc putc buf run VIBE_INIT_APPLICATION w;
       p \<leftarrow> arch_systick_init (CONFIG_SYS_CLOCK_HZ (bc_kernel bc)) (wo_port w);
       let w = w\<lparr>wo_port := p\<rparr>;
       w \<leftarrow> log_here bc putc buf VIBE_LOG_LEVEL_INF ''Scheduler starting at %d Hz'' [VA_Word (CONFIG_SYS_CLOCK_HZ (bc_kernel bc))] w;
       s \<leftarrow> vibe_sched_start (bc_kernel bc) (wo_kernel w);
       Some (w\<lparr>wo_kernel := s\<rparr>)
     }"

section \<open>The idle thread, statistics and CPU tables\<close>

text \<open>The start of the idle thread, and one round of its loop. The wait for an interrupt and the empty trace hook change nothing.\<close>

definition idle_enter :: "(char \<Rightarrow> 'd \<Rightarrow> 'd) \<Rightarrow> kstate \<times> 'd \<Rightarrow> (kstate \<times> 'd) option" where
  "idle_enter putc w =
     (let (s, d) = w; s = s\<lparr>g_idle_thread := vibe_thread_self s\<rparr> in
      do { d \<leftarrow> vibe_printk putc (''[idle] idle thread started'' @ [CHR 0x0A]) [] d; Some (s, d) })"

definition idle_ticks :: "kstate \<Rightarrow> vibe_tick_t option" where
  "idle_ticks s =
     (let next = vibe_sched_next_wakeup s in
      if next \<noteq> VIBE_WAIT_FOREVER \<and> next > vibe_tick_get s then Some (next - vibe_tick_get s) else None)"

definition arch_cpu_idle :: "kstate \<Rightarrow> kstate" where
  "arch_cpu_idle s = s"

definition idle_round :: "kconfig \<Rightarrow> kstate \<Rightarrow> kstate" where
  "idle_round cfg s =
     (let s = (if CONFIG_TICKLESS_IDLE cfg then (case idle_ticks s of Some n \<Rightarrow> arch_set_next_tick n s | None \<Rightarrow> s) else s)
      in arch_cpu_idle s)"

record vibe_trace_thread_stats_t =
  ts_switch_in_count :: u32
  ts_last_switch_in :: vibe_tick_t
  ts_total_runtime :: vibe_tick_t

definition vibe_trace_thread_stats ::
    "kconfig \<Rightarrow> tid option \<Rightarrow> vibe_trace_thread_stats_t option \<Rightarrow> kstate \<Rightarrow> vibe_err_t \<times> vibe_trace_thread_stats_t option" where
  "vibe_trace_thread_stats cfg thread stats s =
     (case stats of
        None \<Rightarrow> (VIBE_EINVAL, None)
      | Some st \<Rightarrow>
          (case (if thread = None then vibe_thread_self s else thread) of
             None \<Rightarrow> (VIBE_EINVAL, Some st)
           | Some t \<Rightarrow>
               (let st = \<lparr>ts_switch_in_count = 0, ts_last_switch_in = 0, ts_total_runtime = 0\<rparr>;
                    st = (if CONFIG_TRACE cfg
                          then st\<lparr>ts_switch_in_count := th_switch_in_count (g_tcb s t), ts_last_switch_in := th_last_switch_in (g_tcb s t),
                                  ts_total_runtime := th_total_runtime (g_tcb s t)\<rparr>
                          else st)
                in (VIBE_OK, Some st))))"

record vibe_cpu_t =
  cpu_cpu_id :: u32
  cpu_current_thread :: "tid option"
  cpu_idle_thread :: "tid option"
  cpu_sched_lock :: int
  cpu_irq_nest_count :: u32

definition vibe_smp_cpu_id :: u32 where
  "vibe_smp_cpu_id = 0"

fun smp_init_loop :: "nat \<Rightarrow> nat \<Rightarrow> (nat \<Rightarrow> vibe_cpu_t) \<Rightarrow> nat \<Rightarrow> vibe_cpu_t" where
  "smp_init_loop i 0 g_cpus = g_cpus"
| "smp_init_loop i (Suc n) g_cpus =
     smp_init_loop (Suc i) n (g_cpus(i := \<lparr>cpu_cpu_id = of_nat i, cpu_current_thread = None, cpu_idle_thread = None, cpu_sched_lock = 0, cpu_irq_nest_count = 0\<rparr>))"

definition vibe_smp_init :: "(char \<Rightarrow> 'd \<Rightarrow> 'd) \<Rightarrow> nat \<Rightarrow> (nat \<Rightarrow> vibe_cpu_t) \<times> 'd \<Rightarrow> ((nat \<Rightarrow> vibe_cpu_t) \<times> 'd) option" where
  "vibe_smp_init putc num_cpus w =
     (let (g_cpus, d) = w; g_cpus = smp_init_loop 0 num_cpus g_cpus in
      do { d \<leftarrow> vibe_printk putc (''[smp] SMP init: %d CPUs'' @ [CHR 0x0A]) [VA_Word (of_nat num_cpus)] d; Some (g_cpus, d) })"

section \<open>Devices are initialised in order\<close>

text \<open>What the drivers see of a sequence of init calls.\<close>

definition init_effect :: "(u32 \<Rightarrow> vibe_device_t \<Rightarrow> 'v \<Rightarrow> vibe_err_t \<times> 'v) \<Rightarrow> vibe_device_t \<Rightarrow> 'v \<Rightarrow> 'v" where
  "init_effect run dev v = snd (run (dv_init_fn dev) dev v)"

definition has_init :: "vibe_device_t \<Rightarrow> bool" where
  "has_init dev \<longleftrightarrow> dv_init_fn dev \<noteq> 0"

text \<open>Logging comes back: it is off, deferred, or goes to the console only, and its lock is free.\<close>

definition log_quiet :: "boot_config \<Rightarrow> ('d, 'v, 'h) world \<Rightarrow> bool" where
  "log_quiet bc w \<longleftrightarrow> CONFIG_LOG bc \<longrightarrow> \<not> g_log_lock (wo_log w) \<and> (CONFIG_LOG_DEFERRED (bc_log bc) \<or> \<not> CONFIG_LOG_BACKEND_RTT (bc_log bc))"

text \<open>Two worlds that differ in the log and the console only.\<close>

definition same_core :: "('d, 'v, 'h) world \<Rightarrow> ('d, 'v, 'h) world \<Rightarrow> bool" where
  "same_core w w' \<longleftrightarrow> wo_port w' = wo_port w \<and> wo_kernel w' = wo_kernel w \<and> wo_works w' = wo_works w \<and> wo_heap w' = wo_heap w"

lemma log_here_returns:
  assumes "log_quiet bc w" "fmt_out fmt args = Some out" "level \<noteq> VIBE_LOG_LEVEL_NONE"
  shows "\<exists>w'. log_here bc putc buf level fmt args w = Some w' \<and> same_core w w' \<and> wo_dev w' = wo_dev w \<and> log_quiet bc w'"
proof (cases "CONFIG_LOG bc")
  case True
  then have q: "\<not> g_log_lock (wo_log w)" "CONFIG_LOG_DEFERRED (bc_log bc) \<or> \<not> CONFIG_LOG_BACKEND_RTT (bc_log bc)"
    using assms(1) by (simp_all add: log_quiet_def)
  from emit_returns [OF assms(2) q(1) assms(3) q(2), of "bc_kernel bc" "bc_rtt bc" putc buf
      "find (\<lambda>m. lm_name m = ''kernel_init'') (g_log_modules (wo_log w))" "wo_rtt w" "wo_kernel w" "wo_console w"] obtain st' d' where
    e: "vibe_log_emit (bc_kernel bc) (bc_log bc) (bc_rtt bc) putc buf (find (\<lambda>m. lm_name m = ''kernel_init'') (g_log_modules (wo_log w))) level fmt args
      (wo_log w, wo_rtt w, wo_kernel w, wo_console w) = Some (st', wo_rtt w, wo_kernel w, d')" "\<not> g_log_lock st'" by (elim exE conjE)
  then show ?thesis using True q(2) by (simp add: log_here_def same_core_def log_quiet_def)
qed (simp add: log_here_def same_core_def log_quiet_def)

lemma dev_fail_formats: "\<exists>out. fmt_out dev_fail_fmt [VA_Str nm, VA_Word v] = Some out"
  by (simp add: fmt_out_def dev_fail_fmt_def fmt_conv_def)

lemma start_formats: "\<exists>out. fmt_out ''Scheduler starting at %d Hz'' [VA_Word v] = Some out"
  by (cases "sint v < 0") (simp_all add: fmt_out_def fmt_conv_def)

lemma device_walk_calls:
  assumes "log_quiet bc w"
  shows "\<exists>w'. device_walk bc putc buf run level devs w = Some w' \<and> same_core w w' \<and> log_quiet bc w' \<and>
    wo_dev w' = fold (init_effect run) (filter (\<lambda>d. has_init d \<and> dv_init_level d = level) devs) (wo_dev w)"
  using assms
proof (induction devs arbitrary: w)
  case Nil
  then show ?case by (simp add: same_core_def)
next
  case (Cons dev devs)
  show ?case
  proof (cases "dv_init_level dev = level \<and> dv_init_fn dev \<noteq> 0")
    case False
    then show ?thesis using Cons by (auto simp: has_init_def)
  next
    case True
    obtain err v where r: "run (dv_init_fn dev) dev (wo_dev w) = (err, v)" by force
    let ?w = "w\<lparr>wo_dev := v\<rparr>"
    have q: "log_quiet bc ?w" using Cons.prems by (simp add: log_quiet_def)
    obtain w1 where w1: "(if err \<noteq> VIBE_OK
        then log_here bc putc buf VIBE_LOG_LEVEL_WRN dev_fail_fmt [VA_Str (dv_name dev), VA_Word (word_of_int (err_code err))] ?w
        else Some ?w) = Some w1" "same_core ?w w1" "wo_dev w1 = v" "log_quiet bc w1"
      using log_here_returns [OF q, of dev_fail_fmt "[VA_Str (dv_name dev), VA_Word (word_of_int (err_code err))]" _ VIBE_LOG_LEVEL_WRN putc buf]
        dev_fail_formats [of "dv_name dev" "word_of_int (err_code err)"] q
      by (cases "err = VIBE_OK") (auto simp: same_core_def)
    have "device_walk bc putc buf run level (dev # devs) w = device_walk bc putc buf run level devs w1"
      using True r w1(1) by (simp only: device_walk.simps) simp
    moreover have "init_effect run dev (wo_dev w) = v" by (simp add: init_effect_def r)
    ultimately show ?thesis using Cons.IH [OF w1(4)] w1(2,3) True by (auto simp: same_core_def has_init_def)
  qed
qed

lemma init_level_eq: "init_level_code l = n \<longleftrightarrow>
  n = 0 \<and> l = VIBE_INIT_PRE_KERNEL_1 \<or> n = 1 \<and> l = VIBE_INIT_PRE_KERNEL_2 \<or> n = 2 \<and> l = VIBE_INIT_POST_KERNEL \<or> n = 3 \<and> l = VIBE_INIT_APPLICATION"
  by (cases l) auto

text \<open>The four passes of the walker visit the devices in the order of a stable sort by level.\<close>

lemma passes_sort:
  "filter (\<lambda>d. P d \<and> dv_init_level d = VIBE_INIT_PRE_KERNEL_1) devs @ filter (\<lambda>d. P d \<and> dv_init_level d = VIBE_INIT_PRE_KERNEL_2) devs @
   filter (\<lambda>d. P d \<and> dv_init_level d = VIBE_INIT_POST_KERNEL) devs @ filter (\<lambda>d. P d \<and> dv_init_level d = VIBE_INIT_APPLICATION) devs =
   sort_key (\<lambda>d. init_level_code (dv_init_level d)) (filter P devs)" (is "?l = sort_key ?k _")
proof (rule properties_for_sort_key [symmetric])
  show "mset ?l = mset (filter P devs)"
  proof (induction devs)
    case (Cons d devs)
    then show ?case by (cases "dv_init_level d") auto
  qed simp
  show "filter (\<lambda>d. ?k x = ?k d) ?l = filter (\<lambda>d. ?k x = ?k d) (filter P devs)" for x
    by (cases "dv_init_level x") (simp_all add: init_level_eq eq_commute [of _ "init_level_code _"] conj_commute cong: conj_cong)
  have "sorted (map ?k (filter (\<lambda>d. P d \<and> dv_init_level d = l) devs))" for l by (induction devs) auto
  then show "sorted (map ?k ?l)" by (auto simp: sorted_append)
qed

section \<open>The system after boot\<close>

text \<open>A configuration that can boot: distinct threads with code and stacks, a work queue above the idle priority, and a tick rate the clock can give.\<close>

definition bootable :: "boot_config \<Rightarrow> ('d, 'v, 'h) world \<Rightarrow> bool" where
  "bootable bc w \<longleftrightarrow> log_quiet bc w \<and> wo_kernel w = boot_state (bc_kernel bc) \<and> bc_idle_entry bc \<noteq> 0 \<and> bc_workq_entry bc \<noteq> 0 \<and>
     bc_workq_stack bc \<noteq> 0 \<and> 0 < CONFIG_SYS_WORKQ_STACK_SIZE bc \<and> 0 < CONFIG_SYS_WORKQ_PRIORITY bc \<and> CONFIG_SYS_WORKQ_PRIORITY bc \<le> VIBE_PRIO_MAX \<and>
     bc_workq_thread bc \<noteq> bc_idle_thread bc \<and> 0 < CONFIG_SYS_CLOCK_HZ (bc_kernel bc) \<and> CONFIG_SYS_CLOCK_HZ (bc_kernel bc) \<le> g_system_core_clock (wo_port w)"

text \<open>Steps 5, 6 and 11: the two threads and the choice of the first one to run.\<close>

lemma kernel_boots:
  assumes "bootable bc w" "wo_kernel w = boot_state (bc_kernel bc)"
  shows "\<exists>s ws s1. init_idle (bc_kernel bc) heap_alloc (bc_idle_thread bc) (bc_idle_entry bc) (bc_idle_stack bc) h (boot_state (bc_kernel bc)) = Some (h, s) \<and>
    vibe_workq_init (bc_kernel bc) heap_alloc (bc_workq_thread bc) (bc_workq_entry bc) (bc_workq_addr bc) (Some (bc_sys_workq bc)) (bc_workq_stack bc)
      (CONFIG_SYS_WORKQ_STACK_SIZE bc) (CONFIG_SYS_WORKQ_PRIORITY bc) (Some ''sys_workq'') works h s = Some (VIBE_OK, ws, h, s1) \<and>
    wq_thread (wk_queues ws (bc_sys_workq bc)) = Some (bc_workq_thread bc) \<and>
    live_inv s1 ((\<lambda>_. [])(0 := [bc_idle_thread bc], unat (CONFIG_SYS_WORKQ_PRIORITY bc) := [bc_workq_thread bc])) [] \<and>
    g_idle_thread s1 = Some (bc_idle_thread bc) \<and> g_sched_lock_count s1 = 0"
proof -
  note b = assms(1) [unfolded bootable_def]
  obtain s where s: "init_idle (bc_kernel bc) heap_alloc (bc_idle_thread bc) (bc_idle_entry bc) (bc_idle_stack bc) h (boot_state (bc_kernel bc)) = Some (h, s)"
      "live_inv s ((\<lambda>_. [])(0 := [bc_idle_thread bc])) []" "g_idle_thread s = Some (bc_idle_thread bc)" "g_current_thread s = None" "g_sched_lock_count s = 0"
      "g_next_thread_id s = 2" "\<forall>u. u \<noteq> bc_idle_thread bc \<longrightarrow> th_id (g_tcb s u) = 0"
    using init_idle_inv [of "bc_idle_entry bc" "bc_kernel bc" heap_alloc "bc_idle_thread bc" "bc_idle_stack bc" h] b by auto
  define attr where "attr = \<lparr>at_stack_size = CONFIG_SYS_WORKQ_STACK_SIZE bc, at_priority = CONFIG_SYS_WORKQ_PRIORITY bc, at_name = Some ''sys_workq'',
    at_is_static = True, at_cpu_id = -1\<rparr>"
  let ?s1 = "thread_create_init (bc_kernel bc) (bc_workq_thread bc) (bc_workq_entry bc) (bc_workq_addr bc) attr (bc_workq_stack bc) (CONFIG_SYS_WORKQ_STACK_SIZE bc) s"
  have p: "at_priority attr = CONFIG_SYS_WORKQ_PRIORITY bc" "unat (CONFIG_SYS_WORKQ_PRIORITY bc) \<noteq> 0"
    using b by (simp_all add: attr_def word_less_nat_alt)
  have sz: "CONFIG_SYS_WORKQ_STACK_SIZE bc \<noteq> 0" using b by (auto simp: word_less_nat_alt)
  have "unused s (bc_workq_thread bc)" using s b by (simp add: unused_def)
  from create_init_live [OF s(2) this, of attr "bc_kernel bc" "bc_workq_entry bc" "bc_workq_addr bc" "bc_workq_stack bc" "CONFIG_SYS_WORKQ_STACK_SIZE bc"]
  have live: "live_inv ?s1 ((\<lambda>_. [])(0 := [bc_idle_thread bc], unat (CONFIG_SYS_WORKQ_PRIORITY bc) := [bc_workq_thread bc])) []"
    using b p s(6) by simp
  have "\<exists>ws. vibe_workq_init (bc_kernel bc) heap_alloc (bc_workq_thread bc) (bc_workq_entry bc) (bc_workq_addr bc) (Some (bc_sys_workq bc)) (bc_workq_stack bc)
      (CONFIG_SYS_WORKQ_STACK_SIZE bc) (CONFIG_SYS_WORKQ_PRIORITY bc) (Some ''sys_workq'') works h s = Some (VIBE_OK, ws, h, ?s1) \<and>
      wq_thread (wk_queues ws (bc_sys_workq bc)) = Some (bc_workq_thread bc)"
    using b sz by (simp add: vibe_workq_init_def vibe_thread_create_def attr_def upd_queue_def Let_def not_less [symmetric])
  then show ?thesis using s live by (auto simp: frame_simps)
qed

lemma first_thread:
  assumes "live_inv s ((\<lambda>_. [])(0 := [i], p := [q])) []" "0 < p" "p < 32"
  shows "vibe_sched_next_thread s = Some q"
proof -
  have "queues_rep s ((\<lambda>_. [])(0 := [i], p := [q]))" using assms(1) by (simp add: live_inv_def sched_inv_def)
  from next_thread_rep(2) [OF this, of p] assms(2,3) show ?thesis by simp
qed

lemma log_init_returns:
  assumes "log_quiet bc w"
  shows "\<exists>w'. (if CONFIG_LOG bc
      then do { (st, d) \<leftarrow> vibe_log_init (bc_log bc) putc (wo_log w, wo_console w); Some (w\<lparr>wo_log := st, wo_console := d\<rparr>) }
      else Some w) = Some w' \<and> same_core w w' \<and> wo_dev w' = wo_dev w \<and> log_quiet bc w'"
  using assms by (auto simp: vibe_log_init_def vibe_printk_def vibe_vprintk_def log_quiet_def same_core_def Let_def)

text \<open>The devices of one level.\<close>

abbreviation at_level :: "boot_config \<Rightarrow> vibe_init_level_t \<Rightarrow> vibe_device_t list" where
  "at_level bc l \<equiv> filter (\<lambda>d. has_init d \<and> dv_init_level d = l) (bc_devices bc)"

lemma init_level_calls:
  assumes "log_quiet bc w"
  shows "\<exists>w'. vibe_device_init_level bc putc buf run level w = Some w' \<and> same_core w w' \<and> log_quiet bc w' \<and>
    wo_dev w' = fold (init_effect run) (at_level bc level) (wo_dev w)"
  using device_walk_calls [OF assms] by (simp add: vibe_device_init_level_def)

lemma same_core_trans: "same_core u v \<Longrightarrow> same_core v w \<Longrightarrow> same_core u w"
  by (simp add: same_core_def)

text \<open>Steps 3 and 4, and steps 7 to 9.\<close>

lemma pre_kernel:
  assumes "log_quiet bc w"
  shows "\<exists>w1 w2. vibe_device_init_level bc putc buf run VIBE_INIT_PRE_KERNEL_1 w = Some w1 \<and>
    vibe_device_init_level bc putc buf run VIBE_INIT_PRE_KERNEL_2 w1 = Some w2 \<and> same_core w w2 \<and> log_quiet bc w2 \<and>
    wo_dev w2 = fold (init_effect run) (at_level bc VIBE_INIT_PRE_KERNEL_1 @ at_level bc VIBE_INIT_PRE_KERNEL_2) (wo_dev w)"
proof -
  obtain w1 where w1: "vibe_device_init_level bc putc buf run VIBE_INIT_PRE_KERNEL_1 w = Some w1" "same_core w w1" "log_quiet bc w1"
      "wo_dev w1 = fold (init_effect run) (at_level bc VIBE_INIT_PRE_KERNEL_1) (wo_dev w)"
    using init_level_calls [OF assms] by blast
  with init_level_calls [OF w1(3), of putc buf run VIBE_INIT_PRE_KERNEL_2] show ?thesis by (auto intro: same_core_trans)
qed

lemma post_kernel:
  assumes "log_quiet bc w"
  shows "\<exists>w1 w2 w3 w4. vibe_device_init_level bc putc buf run VIBE_INIT_POST_KERNEL w = Some w1 \<and>
    (if CONFIG_LOG bc
      then do { (st, d) \<leftarrow> vibe_log_init (bc_log bc) putc (wo_log w1, wo_console w1); Some (w1\<lparr>wo_log := st, wo_console := d\<rparr>) }
      else Some w1) = Some w2 \<and>
    log_here bc putc buf VIBE_LOG_LEVEL_INF ''VibeRTOS v%s starting'' [VA_Str (Some ''0.1.0'')] w2 = Some w3 \<and>
    vibe_device_init_level bc putc buf run VIBE_INIT_APPLICATION w3 = Some w4 \<and> same_core w w4 \<and> log_quiet bc w4 \<and>
    wo_dev w4 = fold (init_effect run) (at_level bc VIBE_INIT_POST_KERNEL @ at_level bc VIBE_INIT_APPLICATION) (wo_dev w)"
proof -
  obtain w1 where w1: "vibe_device_init_level bc putc buf run VIBE_INIT_POST_KERNEL w = Some w1" "same_core w w1" "log_quiet bc w1"
      "wo_dev w1 = fold (init_effect run) (at_level bc VIBE_INIT_POST_KERNEL) (wo_dev w)"
    using init_level_calls [OF assms] by blast
  obtain w2 where w2: "(if CONFIG_LOG bc
      then do { (st, d) \<leftarrow> vibe_log_init (bc_log bc) putc (wo_log w1, wo_console w1); Some (w1\<lparr>wo_log := st, wo_console := d\<rparr>) }
      else Some w1) = Some w2" "same_core w1 w2" "wo_dev w2 = wo_dev w1" "log_quiet bc w2"
    using log_init_returns [OF w1(3), of putc] by auto
  obtain out where "fmt_out ''VibeRTOS v%s starting'' [VA_Str (Some ''0.1.0'')] = Some out" by (simp add: fmt_out_def fmt_conv_def)
  from log_here_returns [OF w2(4) this, of VIBE_LOG_LEVEL_INF putc buf] obtain w3 where
    w3: "log_here bc putc buf VIBE_LOG_LEVEL_INF ''VibeRTOS v%s starting'' [VA_Str (Some ''0.1.0'')] w2 = Some w3" "same_core w2 w3" "wo_dev w3 = wo_dev w2" "log_quiet bc w3"
    by auto
  obtain w4 where w4: "vibe_device_init_level bc putc buf run VIBE_INIT_APPLICATION w3 = Some w4" "same_core w3 w4" "log_quiet bc w4"
      "wo_dev w4 = fold (init_effect run) (at_level bc VIBE_INIT_APPLICATION) (wo_dev w3)"
    using init_level_calls [OF w3(4)] by blast
  have "same_core w w4" using w1(2) w2(2) w3(2) w4(2) by (blast intro: same_core_trans)
  moreover have "wo_dev w4 = fold (init_effect run) (at_level bc VIBE_INIT_POST_KERNEL @ at_level bc VIBE_INIT_APPLICATION) (wo_dev w)"
    unfolding w4(4) w3(3) w2(3) w1(4) by simp
  ultimately show ?thesis using w1(1) w2(1) w3(1) w4(1,3) by (intro exI conjI)
qed


text \<open>Three drivers, out of order in the table, the second of which fails; each records its call.\<close>

definition demo_dev :: "string \<Rightarrow> u32 \<Rightarrow> vibe_init_level_t \<Rightarrow> vibe_device_t" where
  "demo_dev nm f l = \<lparr>dv_name = Some nm, dv_api = 0, dv_config = 0, dv_data = 0, dv_init_fn = f, dv_pm_ops = 0, dv_init_level = l\<rparr>"

definition demo_boot :: boot_config where
  "demo_boot = \<lparr>bc_kernel = demo_cfg, bc_log = demo_log_cfg, bc_rtt = demo_rtt_cfg, CONFIG_LOG = True, bc_m0 = False,
     CONFIG_SYS_WORKQ_STACK_SIZE = 1024, CONFIG_SYS_WORKQ_PRIORITY = 30,
     bc_devices = [demo_dev ''app'' 0x101 VIBE_INIT_APPLICATION, demo_dev ''uart0'' 0x201 VIBE_INIT_POST_KERNEL, demo_dev ''none'' 0 VIBE_INIT_POST_KERNEL,
       demo_dev ''clk'' 0x301 VIBE_INIT_PRE_KERNEL_1, demo_dev ''gpio0'' 0x401 VIBE_INIT_POST_KERNEL],
     bc_idle_thread = 0, bc_idle_entry = 0x8000101, bc_idle_stack = 0x20000000, bc_workq_thread = 1, bc_workq_entry = 0x8000301,
     bc_workq_stack = 0x20000400, bc_workq_addr = 0x20001000, bc_sys_workq = 0\<rparr>"

definition demo_works :: works where
  "demo_works = \<lparr>wk_items = \<lambda>_. \<lparr>w_handler = 0, w_next = None, w_pending = False\<rparr>,
     wk_queues = \<lambda>_. \<lparr>wq_thread = None, wq_head = None, wq_tail = None, wq_sem = \<lparr>s_count = 0, s_max_count = 0, s_wait_list = vibe_list_init\<rparr>\<rparr>,
     wk_dworks = \<lambda>_. \<lparr>dw_work = 0, dw_timer = 0, dw_workq = None\<rparr>\<rparr>"

definition demo_world :: "(string, u32 list, unit) world" where
  "demo_world = \<lparr>wo_port = demo_port, wo_kernel = boot_state demo_cfg, wo_works = demo_works, wo_log = demo_log, wo_rtt = demo_rtt,
     wo_console = [], wo_dev = [], wo_heap = ()\<rparr>"

definition demo_run :: "u32 \<Rightarrow> vibe_device_t \<Rightarrow> u32 list \<Rightarrow> vibe_err_t \<times> u32 list" where
  "demo_run f dev v = (if f = 0x201 then VIBE_EBUSY else VIBE_OK, v @ [f])"


section \<open>Sleeping in the idle thread\<close>

text \<open>The idle thread never asks for a wake-up after the deadline of a sleeper, and it asks for none when one is due.\<close>

lemma idle_not_late:
  assumes "sleep_rep s Z" "t \<in> set Z" "idle_ticks s = Some n"
  shows "0 < unat n \<and> unat (g_tick_count s) + unat n \<le> unat (th_timeout (g_tcb s t))"
proof -
  obtain h where h: "l_head (g_sleep_list s) = Some h" "th_timeout (g_tcb s h) \<le> th_timeout (g_tcb s t)"
    using assms(1,2) by (cases Z) (auto simp: sleep_rep_def dll_def)
  then have n: "th_timeout (g_tcb s h) > g_tick_count s" "n = th_timeout (g_tcb s h) - g_tick_count s"
    using assms(3) by (auto simp: idle_ticks_def vibe_sched_next_wakeup_def vibe_list_peek_head_def vibe_tick_get_def Let_def split: if_splits)
  then show ?thesis using h(2) unat_minus_u32 [of "g_tick_count s" "th_timeout (g_tcb s h)"] by (simp add: word_le_nat_alt word_less_nat_alt)
qed

end
