(* ===== verification/Vibe_Heap.thy ===== *)
theory Vibe_Heap
  imports Vibe_Mem Vibe_Irq
begin

text \<open>
  The first-fit and best-fit heaps (\<^verbatim>\<open>lib/heap/heap_priv.h\<close>, \<^verbatim>\<open>heap_first_fit.c\<close>, \<^verbatim>\<open>heap_best_fit.c\<close>). The block headers live in the managed
  memory, at their C offsets: \<^verbatim>\<open>prev\<close> 0, \<^verbatim>\<open>next\<close> 4, \<^verbatim>\<open>size\<close> 8, \<^verbatim>\<open>magic\<close> 12. Pointers are addresses, 0 is \<^verbatim>\<open>NULL\<close>. The two allocators differ in the
  search for a free block only; what the rest needs of a search is the locale \<open>fit_policy\<close>, which both interpret. A walk over a
  cyclic chain does not return.
\<close>

section \<open>Block headers\<close>

definition HEAP_ALIGN_UP :: "u32 \<Rightarrow> u32" where
  "HEAP_ALIGN_UP x = (x + 7) AND NOT 7"

definition HEAP_MAGIC_FREE :: u32 where "HEAP_MAGIC_FREE = 0xFEEDF00D"

definition HEAP_MAGIC_USED :: u32 where "HEAP_MAGIC_USED = 0xA110CA7E"

definition HDR_SIZE :: u32 where "HDR_SIZE = HEAP_ALIGN_UP 16"

definition BLK_MIN_SIZE :: u32 where "BLK_MIN_SIZE = HDR_SIZE + 8"

definition hdr_prev :: "memory \<Rightarrow> u32 \<Rightarrow> u32" where "hdr_prev m b = ld32 m (unat b)"

definition hdr_next :: "memory \<Rightarrow> u32 \<Rightarrow> u32" where "hdr_next m b = ld32 m (unat b + 4)"

definition hdr_size :: "memory \<Rightarrow> u32 \<Rightarrow> u32" where "hdr_size m b = ld32 m (unat b + 8)"

definition hdr_magic :: "memory \<Rightarrow> u32 \<Rightarrow> u32" where "hdr_magic m b = ld32 m (unat b + 12)"

definition set_hdr_prev :: "u32 \<Rightarrow> u32 \<Rightarrow> memory \<Rightarrow> memory" where "set_hdr_prev b v m = st32 (unat b) v m"

definition set_hdr_next :: "u32 \<Rightarrow> u32 \<Rightarrow> memory \<Rightarrow> memory" where "set_hdr_next b v m = st32 (unat b + 4) v m"

definition set_hdr_size :: "u32 \<Rightarrow> u32 \<Rightarrow> memory \<Rightarrow> memory" where "set_hdr_size b v m = st32 (unat b + 8) v m"

definition set_hdr_magic :: "u32 \<Rightarrow> u32 \<Rightarrow> memory \<Rightarrow> memory" where "set_hdr_magic b v m = st32 (unat b + 12) v m"

lemmas hdr_defs = hdr_prev_def hdr_next_def hdr_size_def hdr_magic_def
  set_hdr_prev_def set_hdr_next_def set_hdr_size_def set_hdr_magic_def

definition hdr_from_ptr :: "u32 \<Rightarrow> u32" where "hdr_from_ptr p = p - HDR_SIZE"

definition ptr_from_hdr :: "u32 \<Rightarrow> u32" where "ptr_from_hdr h = h + HDR_SIZE"

record heap_state_t =
  hs_pool :: u32
  hs_pool_size :: u32
  hs_head :: u32
  hs_lock :: vibe_spinlock_t
  hs_used_bytes :: u32
  hs_alloc_count :: u32
  hs_initialized :: bool

type_synonym heap = "heap_state_t \<times> memory"

definition heap_pool_init :: "heap \<Rightarrow> heap" where
  "heap_pool_init h =
     (let (st, m) = h;
          blk = hs_pool st;
          m = set_hdr_prev blk 0 m;
          m = set_hdr_next blk 0 m;
          m = set_hdr_size blk (hs_pool_size st - HDR_SIZE) m;
          m = set_hdr_magic blk HEAP_MAGIC_FREE m
      in (st\<lparr>hs_head := blk, hs_initialized := True\<rparr>, m))"

definition heap_split :: "u32 \<Rightarrow> u32 \<Rightarrow> memory \<Rightarrow> memory" where
  "heap_split blk sz m =
     (let leftover = hdr_size m blk - sz in
      if leftover < BLK_MIN_SIZE then m
      else
        (let nxt = blk + HDR_SIZE + sz;
             m = set_hdr_prev nxt blk m;
             m = set_hdr_next nxt (hdr_next m blk) m;
             m = set_hdr_size nxt (leftover - HDR_SIZE) m;
             m = set_hdr_magic nxt HEAP_MAGIC_FREE m;
             m = (if hdr_next m blk \<noteq> 0 then set_hdr_prev (hdr_next m blk) nxt m else m);
             m = set_hdr_next blk nxt m
         in set_hdr_size blk sz m))"

text \<open>\<open>a\<close> absorbs its successor \<open>b\<close>, as both halves of \<^verbatim>\<open>heap_coalesce\<close> do.\<close>

definition heap_absorb :: "u32 \<Rightarrow> u32 \<Rightarrow> memory \<Rightarrow> memory" where
  "heap_absorb a b m =
     (let m = set_hdr_size a (hdr_size m a + (HDR_SIZE + hdr_size m b)) m;
          m = set_hdr_next a (hdr_next m b) m
      in if hdr_next m b \<noteq> 0 then set_hdr_prev (hdr_next m b) a m else m)"

definition heap_coalesce :: "u32 \<Rightarrow> memory \<Rightarrow> u32 \<times> memory" where
  "heap_coalesce blk m =
     (let m = (if hdr_next m blk \<noteq> 0 \<and> hdr_magic m (hdr_next m blk) = HEAP_MAGIC_FREE
               then heap_absorb blk (hdr_next m blk) m else m)
      in if hdr_prev m blk \<noteq> 0 \<and> hdr_magic m (hdr_prev m blk) = HEAP_MAGIC_FREE
         then (hdr_prev m blk, heap_absorb (hdr_prev m blk) blk m) else (blk, m))"

record vibe_heap_stats_t =
  st_total :: u32
  st_used :: u32
  st_free :: u32
  st_largest_free :: u32
  st_alloc_count :: u32
  st_free_count :: u32

partial_function (option) heap_walk :: "memory \<Rightarrow> u32 \<Rightarrow> vibe_heap_stats_t \<Rightarrow> vibe_heap_stats_t option" where
  "heap_walk m b out =
     (if b = 0 then Some out
      else heap_walk m (hdr_next m b)
        (if hdr_magic m b = HEAP_MAGIC_USED
         then out\<lparr>st_used := st_used out + hdr_size m b, st_alloc_count := st_alloc_count out + 1\<rparr>
         else out\<lparr>st_free := st_free out + hdr_size m b, st_free_count := st_free_count out + 1,
                  st_largest_free := (if hdr_size m b > st_largest_free out then hdr_size m b else st_largest_free out)\<rparr>))"

definition heap_walk_stats :: "heap \<Rightarrow> vibe_heap_stats_t option" where
  "heap_walk_stats h =
     (let (st, m) = h
      in heap_walk m (hs_head st)
           \<lparr>st_total = hs_pool_size st - HDR_SIZE, st_used = 0, st_free = 0, st_largest_free = 0, st_alloc_count = 0, st_free_count = 0\<rparr>)"

section \<open>The two searches\<close>

text \<open>The loop of the first-fit \<^verbatim>\<open>vibe_heap_alloc\<close>.\<close>

partial_function (option) ff_search :: "memory \<Rightarrow> u32 \<Rightarrow> u32 \<Rightarrow> u32 option" where
  "ff_search m sz b =
     (if b = 0 then Some 0
      else if hdr_magic m b = HEAP_MAGIC_FREE \<and> hdr_size m b \<ge> sz then Some b
      else ff_search m sz (hdr_next m b))"

text \<open>The loop of the best-fit \<^verbatim>\<open>vibe_heap_alloc\<close>, with the best block so far.\<close>

partial_function (option) bf_search :: "memory \<Rightarrow> u32 \<Rightarrow> u32 \<Rightarrow> u32 \<Rightarrow> u32 option" where
  "bf_search m sz b best =
     (if b = 0 then Some best
      else if hdr_magic m b = HEAP_MAGIC_FREE \<and> hdr_size m b \<ge> sz \<and> (best = 0 \<or> hdr_size m b < hdr_size m best)
      then if hdr_size m b = sz then Some b else bf_search m sz (hdr_next m b) b
      else bf_search m sz (hdr_next m b) best)"

section \<open>Operations\<close>

text \<open>Splitting and marking the block found, with the statistics.\<close>

definition heap_take :: "u32 \<Rightarrow> u32 \<Rightarrow> heap \<Rightarrow> u32 \<times> heap" where
  "heap_take b sz h =
     (let (st, m) = h;
          m = heap_split b sz m;
          m = set_hdr_magic b HEAP_MAGIC_USED m;
          st = st\<lparr>hs_used_bytes := hs_used_bytes st + hdr_size m b, hs_alloc_count := hs_alloc_count st + 1\<rparr>
      in (ptr_from_hdr b, st, m))"

definition heap_alloc_with ::
    "(memory \<Rightarrow> u32 \<Rightarrow> u32 \<Rightarrow> u32 option) \<Rightarrow> u32 \<Rightarrow> heap \<Rightarrow> kstate \<Rightarrow> (u32 \<times> heap \<times> kstate) option" where
  "heap_alloc_with search sz h s =
     (if sz = 0 then Some (0, h, s)
      else
        (let sz = HEAP_ALIGN_UP sz;
             (st, m) = h
         in do {
              (key, l, s) \<leftarrow> vibe_spinlock_lock_irqsave (hs_lock st) s;
              let h = (if \<not> hs_initialized st then heap_pool_init (st, m) else (st, m));
              b \<leftarrow> search (snd h) sz (hs_head (fst h));
              let (ret, st, m) = (if b \<noteq> 0 then heap_take b sz h else (0, h));
              let (l, s) = vibe_spinlock_unlock_irqrestore l key s;
              Some (ret, (st\<lparr>hs_lock := l\<rparr>, m), s)
            }))"

definition ff_heap_alloc :: "u32 \<Rightarrow> heap \<Rightarrow> kstate \<Rightarrow> (u32 \<times> heap \<times> kstate) option" where
  "ff_heap_alloc = heap_alloc_with ff_search"

definition bf_heap_alloc :: "u32 \<Rightarrow> heap \<Rightarrow> kstate \<Rightarrow> (u32 \<times> heap \<times> kstate) option" where
  "bf_heap_alloc = heap_alloc_with (\<lambda>m sz b. bf_search m sz b 0)"

text \<open>\<open>check\<close> is \<^verbatim>\<open>CONFIG_HEAP_CORRUPTION_CHECK\<close>; a bad free prints a message and does nothing. The code is the same in both files.\<close>

definition vibe_heap_free :: "bool \<Rightarrow> u32 \<Rightarrow> heap \<Rightarrow> kstate \<Rightarrow> (heap \<times> kstate) option" where
  "vibe_heap_free check ptr h s =
     (if ptr = 0 then Some (h, s)
      else
        (let blk = hdr_from_ptr ptr;
             (st, m) = h
         in do {
              (key, l, s) \<leftarrow> vibe_spinlock_lock_irqsave (hs_lock st) s;
              let (st, m) =
                (if check \<and> hdr_magic m blk \<noteq> HEAP_MAGIC_USED then (st, m)
                 else
                   (let st = st\<lparr>hs_used_bytes := hs_used_bytes st - hdr_size m blk, hs_alloc_count := hs_alloc_count st - 1\<rparr>;
                        m = set_hdr_magic blk HEAP_MAGIC_FREE m
                    in (st, snd (heap_coalesce blk m))));
              let (l, s) = vibe_spinlock_unlock_irqrestore l key s;
              Some ((st\<lparr>hs_lock := l\<rparr>, m), s)
            }))"

definition mem_copy :: "nat \<Rightarrow> nat \<Rightarrow> nat \<Rightarrow> memory \<Rightarrow> memory" where
  "mem_copy dst src n m = mem_write m dst (mem_read m src n)"

definition heap_realloc_with ::
    "(u32 \<Rightarrow> heap \<Rightarrow> kstate \<Rightarrow> (u32 \<times> heap \<times> kstate) option) \<Rightarrow> bool \<Rightarrow> u32 \<Rightarrow> u32 \<Rightarrow> heap \<Rightarrow> kstate \<Rightarrow> (u32 \<times> heap \<times> kstate) option" where
  "heap_realloc_with alloc check ptr sz h s =
     (if ptr = 0 then alloc sz h s
      else if sz = 0 then do { (h, s) \<leftarrow> vibe_heap_free check ptr h s; Some (0, h, s) }
      else
        (let blk = hdr_from_ptr ptr;
             old_size = hdr_size (snd h) blk;
             new_size = HEAP_ALIGN_UP sz
         in if new_size \<le> old_size then Some (ptr, h, s)
            else do {
              (np, (st, m), s) \<leftarrow> alloc sz h s;
              if np = 0 then Some (0, (st, m), s)
              else do {
                let m = mem_copy (unat np) (unat ptr) (unat (if old_size < sz then old_size else sz)) m;
                (h, s) \<leftarrow> vibe_heap_free check ptr (st, m) s;
                Some (np, h, s)
              }
            }))"

definition heap_calloc_with ::
    "(u32 \<Rightarrow> heap \<Rightarrow> kstate \<Rightarrow> (u32 \<times> heap \<times> kstate) option) \<Rightarrow> u32 \<Rightarrow> u32 \<Rightarrow> heap \<Rightarrow> kstate \<Rightarrow> (u32 \<times> heap \<times> kstate) option" where
  "heap_calloc_with alloc nmemb sz h s =
     (if nmemb = 0 \<or> sz = 0 then Some (0, h, s)
      else if nmemb > 0xFFFFFFFF div sz then Some (0, h, s)
      else do {
        let total = nmemb * sz;
        (p, (st, m), s) \<leftarrow> alloc total h s;
        let m = (if p \<noteq> 0 then mem_set (unat p) 0 (unat total) m else m);
        Some (p, (st, m), s)
      })"

definition ff_heap_realloc :: "bool \<Rightarrow> u32 \<Rightarrow> u32 \<Rightarrow> heap \<Rightarrow> kstate \<Rightarrow> (u32 \<times> heap \<times> kstate) option" where
  "ff_heap_realloc = heap_realloc_with ff_heap_alloc"

definition bf_heap_realloc :: "bool \<Rightarrow> u32 \<Rightarrow> u32 \<Rightarrow> heap \<Rightarrow> kstate \<Rightarrow> (u32 \<times> heap \<times> kstate) option" where
  "bf_heap_realloc = heap_realloc_with bf_heap_alloc"

definition ff_heap_calloc :: "u32 \<Rightarrow> u32 \<Rightarrow> heap \<Rightarrow> kstate \<Rightarrow> (u32 \<times> heap \<times> kstate) option" where
  "ff_heap_calloc = heap_calloc_with ff_heap_alloc"

definition bf_heap_calloc :: "u32 \<Rightarrow> u32 \<Rightarrow> heap \<Rightarrow> kstate \<Rightarrow> (u32 \<times> heap \<times> kstate) option" where
  "bf_heap_calloc = heap_calloc_with bf_heap_alloc"

definition vibe_heap_stats :: "bool \<Rightarrow> heap \<Rightarrow> kstate \<Rightarrow> (vibe_heap_stats_t \<times> heap \<times> kstate) option" where
  "vibe_heap_stats enabled h s =
     (if enabled then
        (let (st, m) = h in do {
           (key, l, s) \<leftarrow> vibe_spinlock_lock_irqsave (hs_lock st) s;
           out \<leftarrow> heap_walk_stats (st, m);
           let (l, s) = vibe_spinlock_unlock_irqrestore l key s;
           Some (out, (st\<lparr>hs_lock := l\<rparr>, m), s)
         })
      else Some (\<lparr>st_total = 0, st_used = 0, st_free = 0, st_largest_free = 0, st_alloc_count = 0, st_free_count = 0\<rparr>, h, s))"

section \<open>The chain of blocks\<close>

text \<open>
  A block is its payload size and whether it is free. \<open>hseg m p a B e\<close>: from address \<open>a\<close> on, memory holds the headers of the blocks \<open>B\<close>, physically
  contiguous and linked both ways, the first one's \<^verbatim>\<open>prev\<close> is \<open>p\<close> and the last one's \<^verbatim>\<open>next\<close> is \<open>e\<close>.
\<close>

type_synonym block = "nat \<times> bool"

primrec hseg :: "memory \<Rightarrow> nat \<Rightarrow> nat \<Rightarrow> block list \<Rightarrow> nat \<Rightarrow> bool" where
  "hseg m p a [] e \<longleftrightarrow> True"
| "hseg m p a (b # B) e \<longleftrightarrow>
     unat (ld32 m a) = p \<and> unat (ld32 m (a + 4)) = (if B = [] then e else a + 16 + fst b) \<and> unat (ld32 m (a + 8)) = fst b \<and>
     ld32 m (a + 12) = (if snd b then HEAP_MAGIC_FREE else HEAP_MAGIC_USED) \<and> hseg m a (a + 16 + fst b) B e"

primrec span :: "block list \<Rightarrow> nat" where
  "span [] = 0"
| "span (b # B) = 16 + fst b + span B"

primrec last_hdr :: "nat \<Rightarrow> nat \<Rightarrow> block list \<Rightarrow> nat" where
  "last_hdr p a [] = p"
| "last_hdr p a (b # B) = last_hdr a (a + 16 + fst b) B"

lemma magic_ne [simp]: "HEAP_MAGIC_FREE \<noteq> HEAP_MAGIC_USED" "HEAP_MAGIC_USED \<noteq> HEAP_MAGIC_FREE"
  by (simp_all add: HEAP_MAGIC_FREE_def HEAP_MAGIC_USED_def)

lemma hdr_size_16 [simp]: "HDR_SIZE = 16"
  by (simp add: HDR_SIZE_def HEAP_ALIGN_UP_def)

lemma blk_min_24 [simp]: "BLK_MIN_SIZE = 24"
  by (simp add: BLK_MIN_SIZE_def)

lemma span_append [simp]: "span (xs @ ys) = span xs + span ys"
  by (induction xs) auto

lemma last_hdr_append [simp]: "last_hdr p a (xs @ ys) = last_hdr (last_hdr p a xs) (a + span xs) ys"
  by (induction xs arbitrary: p a) (auto simp: add.assoc)

lemma hseg_append:
  "hseg m p a (xs @ ys) e \<longleftrightarrow>
     hseg m p a xs (if ys = [] then e else a + span xs) \<and> hseg m (last_hdr p a xs) (a + span xs) ys e"
  by (induction xs arbitrary: p a) (auto simp: add.assoc)

lemma hseg_cong:
  "(\<And>i. a \<le> i \<Longrightarrow> i < a + span B \<Longrightarrow> m' i = m i) \<Longrightarrow> hseg m' p a B e = hseg m p a B e"
proof (induction B arbitrary: p a)
  case (Cons b B)
  have "ld32 m' (a + k) = ld32 m (a + k)" if "k \<le> 12" for k
    by (rule ld32_cong) (use that in \<open>auto intro!: Cons.prems\<close>)
  from this [of 0] this [of 4] this [of 8] this [of 12] Cons.IH [of "a + 16 + fst b" a] Cons.prems show ?case by simp
qed simp

text \<open>Only the \<^verbatim>\<open>prev\<close> field of the first header depends on what precedes it.\<close>

lemma hseg_set_prev:
  assumes "hseg m p a B e" "B \<noteq> []" "unat q = p'"
  shows "hseg (st32 a q m) p' a B e"
proof -
  obtain b B' where B: "B = b # B'" using assms(2) by (cases B) auto
  have "hseg (st32 a q m) a (a + 16 + fst b) B' e = hseg m a (a + 16 + fst b) B' e"
    by (rule hseg_cong) (auto intro!: st32_other)
  then show ?thesis using assms by (simp add: B ld32_st32_other)
qed

lemma split_stores:
  assumes "unat blk = b" "b + 16 + n < 2 ^ 32" "unat (ld32 m (b + 8)) = n" "unat sz + 24 \<le> n"
    and d: "unat (ld32 m (b + 4)) = d" "d = 0 \<or> d = b + 16 + n"
  defines "c \<equiv> b + 16 + unat sz"
  shows "heap_split blk sz m =
    st32 (b + 8) sz (st32 (b + 4) (of_nat c)
      ((if d \<noteq> 0 then st32 d (of_nat c) else id)
        (st32 (c + 12) HEAP_MAGIC_FREE (st32 (c + 8) (of_nat (n - unat sz - 16)) (st32 (c + 4) (ld32 m (b + 4)) (st32 c blk m))))))"
proof -
  have nz: "ld32 m (b + 4) \<noteq> 0 \<longleftrightarrow> d \<noteq> 0" using d(1) unsigned_eq_0_iff [of "ld32 m (b + 4)"] by auto
  have left: "unat (ld32 m (b + 8) - sz) = n - unat sz"
    using assms(3,4) by (simp add: unat_minus_u32 word_le_nat_alt)
  then have ge: "\<not> ld32 m (b + 8) - sz < 24" using assms(4) by (simp add: word_less_nat_alt)
  have "unat (ld32 m (b + 8) - sz - 16) = n - unat sz - 16"
    using left assms(4) by (subst unat_minus_u32) (simp_all add: word_le_nat_alt)
  moreover have "unat (of_nat (n - unat sz - 16) :: u32) = n - unat sz - 16" by (rule unat_of_nat_u32) (use assms(2) in linarith)
  ultimately have left': "ld32 m (b + 8) - sz - 16 = of_nat (n - unat sz - 16)" by (simp only: word_unat_eq_iff)
  have uc: "unat (of_nat c :: u32) = c" by (rule unat_of_nat_u32) (use assms(2,4) in \<open>simp add: c_def\<close>)
  have "unat (blk + 16) = b + 16" using assms(1,2) by (subst unat_plus_u32) simp_all
  then have "unat (blk + 16 + sz) = c" using assms(2,4) by (subst unat_plus_u32) (simp_all add: c_def)
  then have c: "blk + 16 + sz = of_nat c" by (simp only: word_unat_eq_iff uc)
  have rd: "ld32 (st32 c blk m) (b + 4) = ld32 m (b + 4)"
      "ld32 (st32 (c + 12) x (st32 (c + 8) y (st32 (c + 4) z (st32 c blk m)))) (b + 4) = ld32 m (b + 4)" for x y z
    by (simp_all add: c_def ld32_st32_other)
  show ?thesis
    unfolding heap_split_def hdr_defs Let_def hdr_size_16 blk_min_24 assms(1) using ge
    by (simp add: c uc rd nz left' d(1))
qed

lemma st32_frame: "i < a \<or> a + 4 \<le> i \<Longrightarrow> m i = v \<Longrightarrow> st32 a x m i = v"
  by (simp add: st32_other)

text \<open>Marking a block, and cutting a block in two, on the represented chain.\<close>

lemma hseg_mark:
  assumes "hseg m p a (xs @ (n, f) # ys) e" "b = a + span xs"
  shows "hseg (st32 (b + 12) (if g then HEAP_MAGIC_FREE else HEAP_MAGIC_USED) m) p a (xs @ (n, g) # ys) e"
proof -
  let ?m = "st32 (b + 12) (if g then HEAP_MAGIC_FREE else HEAP_MAGIC_USED) m"
  have "hseg ?m p a xs k = hseg m p a xs k" for k by (rule hseg_cong) (auto simp: assms(2) intro!: st32_other)
  moreover have "hseg ?m b (b + 16 + n) ys e = hseg m b (b + 16 + n) ys e" by (rule hseg_cong) (auto intro!: st32_other)
  ultimately show ?thesis using assms by (simp add: hseg_append ld32_st32_other)
qed

lemma hseg_split:
  assumes seg: "hseg m p a (xs @ (n, f) # ys) 0" and b: "b = a + span xs" "unat blk = b" "b + 16 + n < 2 ^ 32" "0 < a"
    and z: "unat sz + 24 \<le> n"
  shows "hseg (heap_split blk sz m) p a (xs @ (unat sz, f) # (n - unat sz - 16, True) # ys) 0"
    "\<And>i. i < b \<or> b + 20 + n \<le> i \<Longrightarrow> heap_split blk sz m i = m i"
    "\<And>i. ys = [] \<Longrightarrow> i < b \<or> b + 16 + n \<le> i \<Longrightarrow> heap_split blk sz m i = m i"
    "\<And>i. b + 20 + n \<le> i \<Longrightarrow> heap_split blk sz m i = m i"
proof -
  define c where "c = b + 16 + unat sz"
  define d where "d = (if ys = [] then 0 else b + 16 + n)"
  have s: "hseg m p a xs b" "unat (ld32 m b) = last_hdr p a xs" "unat (ld32 m (b + 4)) = d" "unat (ld32 m (b + 8)) = n"
      "ld32 m (b + 12) = (if f then HEAP_MAGIC_FREE else HEAP_MAGIC_USED)" "hseg m b (b + 16 + n) ys 0"
    using seg by (simp_all add: hseg_append b d_def)
  have d01: "d = 0 \<or> d = b + 16 + n" by (simp add: d_def)
  define m1 where "m1 = st32 (c + 12) HEAP_MAGIC_FREE (st32 (c + 8) (of_nat (n - unat sz - 16)) (st32 (c + 4) (ld32 m (b + 4)) (st32 c blk m)))"
  define m2 where "m2 = (if d \<noteq> 0 then st32 d (of_nat c) else id) m1"
  have eq: "heap_split blk sz m = st32 (b + 8) sz (st32 (b + 4) (of_nat c) m2)"
    unfolding m2_def m1_def using split_stores [OF b(2,3) s(4) z s(3) d01] by (simp add: c_def)
  have uc: "unat (of_nat c :: u32) = c" and ur: "unat (of_nat (n - unat sz - 16) :: u32) = n - unat sz - 16"
    by (rule unat_of_nat_u32, use b(3) z in \<open>simp add: c_def\<close>)+
  have m1: "m1 i = m i" if "i < c \<or> c + 16 \<le> i" for i using that by (auto simp: m1_def intro!: st32_frame)
  have m2: "m2 i = m1 i" if "d = 0 \<or> i < d \<or> d + 4 \<le> i" for i using that by (auto simp: m2_def st32_other)
  show out: "heap_split blk sz m i = m i" if "i < b \<or> b + 20 + n \<le> i" for i
    unfolding eq using that z d01 by (intro st32_frame) (auto simp: m2 m1 c_def)
  show "heap_split blk sz m i = m i" if "ys = []" "i < b \<or> b + 16 + n \<le> i" for i
    unfolding eq using that z by (intro st32_frame) (auto simp: m2 m1 c_def d_def)
  show "heap_split blk sz m i = m i" if "b + 20 + n \<le> i" for i using that by (intro out) simp
  have "hseg (heap_split blk sz m) p a xs b" using s(1) hseg_cong [of a xs "heap_split blk sz m" m] out b(1) by simp
  moreover have "hseg m1 b (b + 16 + n) ys 0" using s(6) hseg_cong [of "b + 16 + n" ys m1 m] m1 z by (simp add: c_def)
  then have "hseg m2 c (b + 16 + n) ys 0"
    using hseg_set_prev [of m1 b "b + 16 + n" ys 0 "of_nat c" c] uc by (cases "ys = []") (simp_all add: m2_def d_def)
  then have "hseg (heap_split blk sz m) c (b + 16 + n) ys 0"
    using hseg_cong [of "b + 16 + n" ys "heap_split blk sz m" m2] by (simp add: eq st32_other)
  moreover have ld2: "ld32 m2 k = ld32 m1 k" if "k + 4 \<le> b + 16 + n" for k
    by (rule ld32_cong) (use that d01 in \<open>auto intro!: m2\<close>)
  have "unat (ld32 m1 c) = b" "unat (ld32 m1 (c + 4)) = d" "unat (ld32 m1 (c + 8)) = n - unat sz - 16" "ld32 m1 (c + 12) = HEAP_MAGIC_FREE"
    by (simp_all add: m1_def ld32_st32_other b(2) s(3) ur [unfolded diff_diff_left])
  then have "unat (ld32 (heap_split blk sz m) c) = b" "unat (ld32 (heap_split blk sz m) (c + 4)) = d"
      "unat (ld32 (heap_split blk sz m) (c + 8)) = n - unat sz - 16" "ld32 (heap_split blk sz m) (c + 12) = HEAP_MAGIC_FREE"
    using z by (simp_all add: eq ld32_st32_other ld2 c_def)
  moreover have "ld32 m1 k = ld32 m k" if "k + 4 \<le> c" for k by (rule ld32_cong) (use that in \<open>auto intro!: m1\<close>)
  then have "unat (ld32 (heap_split blk sz m) b) = last_hdr p a xs" "unat (ld32 (heap_split blk sz m) (b + 4)) = c"
      "ld32 (heap_split blk sz m) (b + 8) = sz" "ld32 (heap_split blk sz m) (b + 12) = (if f then HEAP_MAGIC_FREE else HEAP_MAGIC_USED)"
    using z s(2,5) uc by (simp_all add: eq ld32_st32_other ld2 c_def)
  moreover have "c + 16 + (n - unat sz - 16) = b + 16 + n" using z by (simp add: c_def)
  ultimately show "hseg (heap_split blk sz m) p a (xs @ (unat sz, f) # (n - unat sz - 16, True) # ys) 0"
    by (simp add: hseg_append d_def c_def flip: b(1)) (simp add: ac_simps)
qed

lemma hseg_absorb:
  assumes seg: "hseg m p a (xs @ (n, f) # (k, g) # ys) 0" and b: "b = a + span xs" "unat blk = b" "unat nxt = b + 16 + n"
    "b + 32 + n + k < 2 ^ 32"
  shows "hseg (heap_absorb blk nxt m) p a (xs @ (n + 16 + k, f) # ys) 0"
    "\<And>i. i < b \<or> b + 36 + n + k \<le> i \<Longrightarrow> heap_absorb blk nxt m i = m i"
    "\<And>i. b + 16 \<le> i \<Longrightarrow> i < b + 32 + n + k \<Longrightarrow> heap_absorb blk nxt m i = m i"
    "\<And>i. ys = [] \<Longrightarrow> b + 16 \<le> i \<Longrightarrow> heap_absorb blk nxt m i = m i"
proof -
  define c where "c = b + 16 + n"
  define d where "d = (if ys = [] then 0 else c + 16 + k)"
  have s: "hseg m p a xs b" "unat (ld32 m b) = last_hdr p a xs" "unat (ld32 m (b + 8)) = n"
      "ld32 m (b + 12) = (if f then HEAP_MAGIC_FREE else HEAP_MAGIC_USED)"
      "unat (ld32 m (c + 4)) = d" "unat (ld32 m (c + 8)) = k" "hseg m c (c + 16 + k) ys 0"
    using seg by (simp_all add: hseg_append b(1) c_def d_def)
  let ?v = "ld32 m (b + 8) + (16 + ld32 m (c + 8))"
  define m1 where "m1 = st32 (b + 4) (ld32 m (c + 4)) (st32 (b + 8) ?v m)"
  have k16: "unat (16 + ld32 m (c + 8)) = 16 + k" using s(6) b(4) by (subst unat_plus_u32) simp_all
  have v: "unat ?v = n + 16 + k" using s(3) k16 b(4) by (subst unat_plus_u32) simp_all
  have nz: "ld32 m (c + 4) \<noteq> 0 \<longleftrightarrow> d \<noteq> 0" using s(5) unsigned_eq_0_iff [of "ld32 m (c + 4)"] by auto
  have eq: "heap_absorb blk nxt m = (if d \<noteq> 0 then st32 d blk m1 else m1)"
    unfolding heap_absorb_def hdr_defs Let_def b(2,3) hdr_size_16 c_def [symmetric]
    using nz s(5) by (simp add: m1_def c_def ld32_st32_other)
  have m1: "m1 i = m i" if "i < b + 4 \<or> b + 12 \<le> i" for i using that by (auto simp: m1_def intro!: st32_frame)
  show out: "heap_absorb blk nxt m i = m i" if "i < b \<or> b + 36 + n + k \<le> i" for i
    using that by (auto simp: eq d_def c_def st32_other m1)
  show mid: "heap_absorb blk nxt m i = m i" if "b + 16 \<le> i" "i < b + 32 + n + k" for i
    using that by (auto simp: eq d_def c_def st32_other m1)
  show "heap_absorb blk nxt m i = m i" if "ys = []" "b + 16 \<le> i" for i using that by (simp add: eq d_def m1)
  have "hseg (heap_absorb blk nxt m) p a xs b" using s(1) hseg_cong [of a xs "heap_absorb blk nxt m" m] out b(1) by simp
  moreover have "hseg m1 c (c + 16 + k) ys 0" using s(7) hseg_cong [of "c + 16 + k" ys m1 m] m1 by (simp add: c_def)
  then have "hseg (heap_absorb blk nxt m) b (c + 16 + k) ys 0"
    using hseg_set_prev [of m1 c "c + 16 + k" ys 0 blk b] b(2) by (cases "ys = []") (simp_all add: eq d_def)
  moreover have "ld32 (heap_absorb blk nxt m) (b + j) = ld32 m1 (b + j)" if "j \<le> 12" for j
    by (rule ld32_cong) (use that in \<open>auto simp: eq d_def c_def st32_other\<close>)
  from this [of 0] this [of 4] this [of 8] this [of 12]
  have "unat (ld32 (heap_absorb blk nxt m) b) = last_hdr p a xs" "unat (ld32 (heap_absorb blk nxt m) (b + 4)) = d"
      "unat (ld32 (heap_absorb blk nxt m) (b + 8)) = n + 16 + k"
      "ld32 (heap_absorb blk nxt m) (b + 12) = (if f then HEAP_MAGIC_FREE else HEAP_MAGIC_USED)"
    using s(2,4,5) v by (simp_all add: m1_def ld32_st32_other)
  ultimately show "hseg (heap_absorb blk nxt m) p a (xs @ (n + 16 + k, f) # ys) 0"
    by (simp add: hseg_append d_def c_def add.assoc flip: b(1))
qed

section \<open>Alignment\<close>

lemma align_up:
  assumes "unat x + 7 < 2 ^ 32"
  shows "unat (HEAP_ALIGN_UP x) = (unat x + 7) div 8 * 8"
proof -
  have m: "(7 :: u32) = mask 3" by (simp add: mask_eq_exp_minus_1)
  have "unat (x + 7) = unat x + 7" using assms by (subst unat_plus_u32) simp_all
  then show ?thesis unfolding HEAP_ALIGN_UP_def using unat_clear_low3 [of "x + 7"] unfolding m by simp
qed

lemma align_up_mod8: "unat (HEAP_ALIGN_UP x) mod 8 = 0"
proof -
  have m: "(7 :: u32) = mask 3" by (simp add: mask_eq_exp_minus_1)
  have "unat ((x + mask 3) AND NOT (mask 3)) mod 8 = 0" unfolding unat_clear_low3 by simp
  then show ?thesis unfolding HEAP_ALIGN_UP_def m .
qed

lemma align_up_bounds:
  assumes "unat x + 7 < 2 ^ 32" "x \<noteq> 0"
  shows "unat x \<le> unat (HEAP_ALIGN_UP x) \<and> unat (HEAP_ALIGN_UP x) < unat x + 8 \<and>
    unat (HEAP_ALIGN_UP x) mod 8 = 0 \<and> 8 \<le> unat (HEAP_ALIGN_UP x)"
proof -
  have "unat x > 0" using assms(2) by (simp add: unat_gt_0)
  then show ?thesis unfolding align_up [OF assms(1)] by presburger
qed

section \<open>Well-formed heaps\<close>

definition fits :: "nat \<Rightarrow> block \<Rightarrow> bool" where
  "fits z b \<longleftrightarrow> snd b \<and> z \<le> fst b"

text \<open>No two neighbours are free: freeing has merged them.\<close>

fun settled :: "block list \<Rightarrow> bool" where
  "settled (b # c # B) \<longleftrightarrow> \<not> (snd b \<and> snd c) \<and> settled (c # B)"
| "settled B \<longleftrightarrow> True"

definition used_total :: "block list \<Rightarrow> nat" where
  "used_total B = sum_list (map fst (filter (\<lambda>b. \<not> snd b) B))"

definition used_count :: "block list \<Rightarrow> nat" where
  "used_count B = length (filter (\<lambda>b. \<not> snd b) B)"

text \<open>The payload bytes that belong to the callers.\<close>

primrec owned :: "nat \<Rightarrow> block list \<Rightarrow> nat set" where
  "owned a [] = {}"
| "owned a (b # B) = (if snd b then {} else {a + 16..<a + 16 + fst b}) \<union> owned (a + 16 + fst b) B"

definition heap_ok :: "heap \<Rightarrow> block list \<Rightarrow> bool" where
  "heap_ok h B \<longleftrightarrow>
     hs_initialized (fst h) \<and> \<not> hs_lock (fst h) \<and> hs_head (fst h) = hs_pool (fst h) \<and> 0 < unat (hs_pool (fst h)) \<and>
     unat (hs_pool (fst h)) mod 8 = 0 \<and> unat (hs_pool (fst h)) + unat (hs_pool_size (fst h)) < 2 ^ 32 \<and>
     B \<noteq> [] \<and> hseg (snd h) 0 (unat (hs_pool (fst h))) B 0 \<and> span B = unat (hs_pool_size (fst h)) \<and>
     (\<forall>b\<in>set B. fst b mod 8 = 0) \<and> hs_used_bytes (fst h) = of_nat (used_total B) \<and> hs_alloc_count (fst h) = of_nat (used_count B)"

definition heap_rep :: "heap \<Rightarrow> block list \<Rightarrow> bool" where
  "heap_rep h B \<longleftrightarrow> heap_ok h B \<and> settled B"

lemma used_simps [simp]:
  "used_total [] = 0" "used_total (b # B) = (if snd b then 0 else fst b) + used_total B" "used_total (xs @ ys) = used_total xs + used_total ys"
  "used_count [] = 0" "used_count (b # B) = (if snd b then 0 else 1) + used_count B" "used_count (xs @ ys) = used_count xs + used_count ys"
  by (simp_all add: used_total_def used_count_def)

lemma owned_append [simp]: "owned a (xs @ ys) = owned a xs \<union> owned (a + span xs) ys"
  by (induction xs arbitrary: a) (auto simp: add.assoc)

lemma owned_bounds: "i \<in> owned a B \<Longrightarrow> a + 16 \<le> i \<and> i < a + span B"
  by (induction B arbitrary: a) (auto split: if_splits, fastforce+)

lemma settled_append:
  "settled (xs @ b # ys) \<longleftrightarrow> settled (xs @ [b]) \<and> settled (b # ys)"
proof (induction xs)
  case (Cons x xs)
  then show ?case by (cases xs) auto
qed simp

lemma settled_swap: "settled (xs @ (n, True) # ys) \<Longrightarrow> settled (xs @ (k, f) # ys)"
proof (induction xs)
  case Nil
  then show ?case by (cases ys) auto
next
  case (Cons x xs)
  then show ?case by (cases xs) auto
qed

section \<open>Searches\<close>

lemma ff_search_law:
  assumes "hseg m p a B 0" "0 < a" "a + span B < 2 ^ 32" "unat h = (if B = [] then 0 else a)"
  shows "\<exists>r. ff_search m sz h = Some r \<and>
    ((r = 0 \<and> (\<forall>b\<in>set B. \<not> fits (unat sz) b)) \<or>
     (\<exists>xs n ys. B = xs @ (n, True) # ys \<and> unat sz \<le> n \<and> unat r = a + span xs \<and> (\<forall>b\<in>set xs. \<not> fits (unat sz) b)))"
  using assms
proof (induction B arbitrary: p a h)
  case Nil
  then have "h = 0" by (simp add: unsigned_eq_0_iff)
  then show ?case by (simp add: ff_search.simps)
next
  case (Cons b B)
  obtain n f where b: "b = (n, f)" by force
  have h: "unat h = a" "h \<noteq> 0" using Cons.prems(2,4) by auto
  have hd: "hdr_magic m h = (if f then HEAP_MAGIC_FREE else HEAP_MAGIC_USED)" "unat (hdr_size m h) = n"
      "unat (hdr_next m h) = (if B = [] then 0 else a + 16 + n)" "hseg m a (a + 16 + n) B 0"
    using Cons.prems(1) by (simp_all add: hdr_defs h b)
  show ?case
  proof (cases "fits (unat sz) b")
    case True
    then have "ff_search m sz h = Some h" using hd(1,2) h(2) by (simp add: ff_search.simps [of m sz h] fits_def b word_le_nat_alt)
    then show ?thesis using True h(1) b by (intro exI [of _ h] conjI disjI2 exI [of _ "[]"] exI [of _ n] exI [of _ B]) (auto simp: fits_def)
  next
    case False
    then have step: "ff_search m sz h = ff_search m sz (hdr_next m h)"
      using hd(1,2) h(2) by (auto simp: ff_search.simps [of m sz h] fits_def b word_le_nat_alt)
    have bd: "0 < a + 16 + n" "a + 16 + n + span B < 2 ^ 32" using Cons.prems(3) by (simp_all add: b)
    from Cons.IH [OF hd(4) bd hd(3)] obtain r where r: "ff_search m sz h = Some r"
      "(r = 0 \<and> (\<forall>b\<in>set B. \<not> fits (unat sz) b)) \<or>
       (\<exists>xs k ys. B = xs @ (k, True) # ys \<and> unat sz \<le> k \<and> unat r = a + 16 + n + span xs \<and> (\<forall>b\<in>set xs. \<not> fits (unat sz) b))"
      unfolding step by blast
    from r(2) show ?thesis
    proof
      assume "r = 0 \<and> (\<forall>b\<in>set B. \<not> fits (unat sz) b)"
      then show ?thesis using r(1) False by auto
    next
      assume "\<exists>xs k ys. B = xs @ (k, True) # ys \<and> unat sz \<le> k \<and> unat r = a + 16 + n + span xs \<and> (\<forall>b\<in>set xs. \<not> fits (unat sz) b)"
      then obtain xs k ys where "B = xs @ (k, True) # ys" "unat sz \<le> k" "unat r = a + 16 + n + span xs" "\<forall>b\<in>set xs. \<not> fits (unat sz) b" by blast
      then show ?thesis using r(1) False b
        by (intro exI [of _ r] conjI disjI2 exI [of _ "b # xs"] exI [of _ k] exI [of _ ys]) auto
    qed
  qed
qed

text \<open>What the best-fit search has found among the blocks \<open>B\<close> laid out from \<open>a\<close>: nothing fits, or \<open>r\<close> is a smallest fitting block.\<close>

definition best_in :: "nat \<Rightarrow> nat \<Rightarrow> block list \<Rightarrow> nat \<Rightarrow> u32 \<Rightarrow> bool" where
  "best_in z a B n r \<longleftrightarrow>
     (if r = 0 then \<forall>b\<in>set B. \<not> fits z b
      else z \<le> n \<and> (\<forall>b\<in>set B. fits z b \<longrightarrow> n \<le> fst b) \<and> (\<exists>xs ys. B = xs @ (n, True) # ys \<and> unat r = a + span xs))"

lemma best_in_keep:
  assumes "best_in z a B n r" "fits z b \<Longrightarrow> r \<noteq> 0 \<and> n \<le> fst b"
  shows "best_in z a (B @ [b]) n r"
  using assms by (fastforce simp: best_in_def split: if_splits)

lemma best_in_new:
  assumes "best_in z a B n r" "z \<le> k" "r = 0 \<or> k < n" "unat h = a + span B" "h \<noteq> 0"
  shows "best_in z a (B @ [(k, True)]) k h"
  using assms by (fastforce simp: best_in_def split: if_splits)

lemma best_in_exact:
  assumes "B = xs @ (unat sz, True) # ys" "unat h = a + span xs" "h \<noteq> 0"
  shows "best_in (unat sz) a B (unat sz) h"
  using assms by (auto simp: best_in_def fits_def)

lemma bf_search_law:
  assumes "hseg m p (a + span pre) B 0" "0 < a" "a + span (pre @ B) < 2 ^ 32" "unat h = (if B = [] then 0 else a + span pre)"
    and "best_in (unat sz) a pre n best" "best \<noteq> 0 \<Longrightarrow> unat (hdr_size m best) = n"
  shows "\<exists>r k. bf_search m sz h best = Some r \<and> best_in (unat sz) a (pre @ B) k r"
  using assms
proof (induction B arbitrary: p pre h n best)
  case Nil
  then have "h = 0" by (simp add: unsigned_eq_0_iff)
  then have "bf_search m sz h best = Some best" by (subst bf_search.simps) simp
  then show ?case using Nil.prems(5) by auto
next
  case (Cons b B)
  obtain k f where b: "b = (k, f)" by force
  have h: "unat h = a + span pre" "h \<noteq> 0" using Cons.prems(2,4) by auto
  have hd: "hdr_magic m h = (if f then HEAP_MAGIC_FREE else HEAP_MAGIC_USED)" "unat (hdr_size m h) = k"
      "unat (hdr_next m h) = (if B = [] then 0 else a + span (pre @ [b]))" "hseg m (a + span pre) (a + span (pre @ [b])) B 0"
    using Cons.prems(1) by (simp_all add: hdr_defs h b add.assoc)
  have bd: "a + span ((pre @ [b]) @ B) < 2 ^ 32" using Cons.prems(3) by simp
  note IH = Cons.IH [OF hd(4) Cons.prems(2) bd hd(3)]
  show ?case
  proof (cases "fits (unat sz) b \<and> (best = 0 \<or> k < n)")
    case True
    then have f: "f" "unat sz \<le> k" by (auto simp: fits_def b)
    have step: "bf_search m sz h best = (if hdr_size m h = sz then Some h else bf_search m sz (hdr_next m h) h)"
      using True hd(1,2) h(2) f Cons.prems(6)
      by (subst bf_search.simps) (auto simp: word_le_nat_alt word_less_nat_alt)
    show ?thesis
    proof (cases "hdr_size m h = sz")
      case eq: True
      then have "b = (unat sz, True)" using hd(2) f(1) b by simp
      then have "best_in (unat sz) a (pre @ b # B) (unat sz) h" by (simp only:) (rule best_in_exact [OF refl h])
      then show ?thesis using step eq by auto
    next
      case ne: False
      have "best_in (unat sz) a (pre @ [b]) k h" using best_in_new [OF Cons.prems(5) f(2) _ h] True b f(1) by auto
      from IH [OF this hd(2)] show ?thesis using step ne by simp
    qed
  next
    case False
    then have step: "bf_search m sz h best = bf_search m sz (hdr_next m h) best"
      using hd(1,2) h(2) Cons.prems(6)
      by (subst bf_search.simps) (auto simp: fits_def b word_le_nat_alt word_less_nat_alt)
    have "best_in (unat sz) a (pre @ [b]) n best" by (rule best_in_keep [OF Cons.prems(5)]) (use False b in auto)
    from IH [OF this Cons.prems(6)] show ?thesis using step by simp
  qed
qed

section \<open>Allocation over any search\<close>

text \<open>
  The contract between the allocators and their search: on a well-formed chain the search returns, it returns \<^verbatim>\<open>NULL\<close> only when no free
  block is large enough, and otherwise a block that \<open>pick\<close> allows.
\<close>

locale fit_policy =
  fixes search :: "memory \<Rightarrow> u32 \<Rightarrow> u32 \<Rightarrow> u32 option"
    and pick :: "nat \<Rightarrow> block list \<Rightarrow> nat \<Rightarrow> block list \<Rightarrow> bool"
  assumes search: "\<lbrakk>hseg m 0 a B 0; B \<noteq> []; 0 < a; a + span B < 2 ^ 32; unat h = a\<rbrakk> \<Longrightarrow>
    \<exists>r. search m sz h = Some r \<and>
      ((r = 0 \<and> (\<forall>b\<in>set B. \<not> fits (unat sz) b)) \<or>
       (\<exists>xs n ys. B = xs @ (n, True) # ys \<and> unat sz \<le> n \<and> unat r = a + span xs \<and> pick (unat sz) xs n ys))"

definition take_block :: "nat \<Rightarrow> block list \<Rightarrow> nat \<Rightarrow> block list \<Rightarrow> block list" where
  "take_block z xs n ys = (if n < z + 24 then xs @ (n, False) # ys else xs @ (z, False) # (n - z - 16, True) # ys)"

definition ff_pick :: "nat \<Rightarrow> block list \<Rightarrow> nat \<Rightarrow> block list \<Rightarrow> bool" where
  "ff_pick z xs n ys \<longleftrightarrow> (\<forall>b\<in>set xs. \<not> fits z b)"

definition bf_pick :: "nat \<Rightarrow> block list \<Rightarrow> nat \<Rightarrow> block list \<Rightarrow> bool" where
  "bf_pick z xs n ys \<longleftrightarrow> (\<forall>b\<in>set (xs @ ys). fits z b \<longrightarrow> n \<le> fst b)"

interpretation ff: fit_policy ff_search ff_pick
  unfolding ff_pick_def
  by unfold_locales (use ff_search_law in \<open>simp only: if_False\<close>)

interpretation bf: fit_policy "\<lambda>m sz b. bf_search m sz b 0" bf_pick
proof
  fix m a B and sz h :: u32
  assume B: "hseg m 0 a B 0" "B \<noteq> []" "0 < a" "a + span B < 2 ^ 32" "unat h = a"
  have "best_in (unat sz) a [] 0 0" by (simp add: best_in_def)
  with B bf_search_law [of m 0 a "[]" B h sz 0 0] obtain r k where
    r: "bf_search m sz h 0 = Some r" "best_in (unat sz) a B k r" by auto
  then show "\<exists>r. bf_search m sz h 0 = Some r \<and>
      ((r = 0 \<and> (\<forall>b\<in>set B. \<not> fits (unat sz) b)) \<or>
       (\<exists>xs n ys. B = xs @ (n, True) # ys \<and> unat sz \<le> n \<and> unat r = a + span xs \<and> bf_pick (unat sz) xs n ys))"
    by (cases "r = 0") (auto 0 4 simp: best_in_def bf_pick_def)
qed

lemma owned_free_gap:
  "i \<in> owned a (xs @ (n, True) # ys) \<Longrightarrow> i < a + span xs \<or> a + span xs + n + 32 \<le> i"
  using owned_bounds [of i a xs] owned_bounds [of i "a + span xs + 16 + n" ys] by auto

lemma heap_split_small:
  assumes "unat (hdr_size m blk) = n" "unat sz \<le> n" "n < unat sz + 24"
  shows "heap_split blk sz m = m"
proof -
  have "unat (hdr_size m blk - sz) = n - unat sz" using assms by (simp add: unat_minus_u32 word_le_nat_alt)
  then have "hdr_size m blk - sz < BLK_MIN_SIZE" using assms(2,3) by (simp add: word_less_nat_alt)
  then show ?thesis by (simp add: heap_split_def)
qed

lemma hseg_take:
  assumes seg: "hseg m 0 a (xs @ (n, True) # ys) 0" and b: "unat blk = a + span xs" "a + span xs + 16 + n < 2 ^ 32" "0 < a" and z: "unat sz \<le> n"
  defines "m' \<equiv> set_hdr_magic blk HEAP_MAGIC_USED (heap_split blk sz m)"
  shows "hseg m' 0 a (take_block (unat sz) xs n ys) 0 \<and> unat (hdr_size m' blk) = (if n < unat sz + 24 then n else unat sz) \<and>
    (\<forall>i. i < a + span xs \<or> a + span xs + 20 + n \<le> i \<longrightarrow> m' i = m i)"
proof (cases "n < unat sz + 24")
  case True
  have sz: "unat (hdr_size m blk) = n" using seg by (simp add: hseg_append hdr_defs b(1))
  then have m': "m' = st32 (a + span xs + 12) HEAP_MAGIC_USED m"
    using heap_split_small [OF sz z True] by (simp add: m'_def hdr_defs b(1))
  have "hseg m' 0 a (xs @ (n, False) # ys) 0" using hseg_mark [OF seg refl, of False] by (simp add: m')
  moreover have "unat (hdr_size m' blk) = n" using sz by (simp add: m' hdr_defs b(1) ld32_st32_other)
  moreover have "m' i = m i" if "i < a + span xs \<or> a + span xs + 20 + n \<le> i" for i unfolding m' using that by (intro st32_other) auto
  ultimately show ?thesis using True by (simp add: take_block_def)
next
  case False
  then have z: "unat sz + 24 \<le> n" by simp
  note sp = hseg_split [OF seg refl b z]
  have m': "m' = st32 (a + span xs + 12) HEAP_MAGIC_USED (heap_split blk sz m)" by (simp add: m'_def hdr_defs b(1))
  have seg': "hseg m' 0 a (xs @ (unat sz, False) # (n - unat sz - 16, True) # ys) 0" using hseg_mark [OF sp(1) refl, of False] by (simp add: m')
  moreover from seg' have "unat (hdr_size m' blk) = unat sz" by (simp add: hseg_append hdr_defs b(1))
  moreover have "m' i = m i" if "i < a + span xs \<or> a + span xs + 20 + n \<le> i" for i
    unfolding m' using that by (intro st32_frame) (auto intro: sp(2))
  ultimately show ?thesis using False by (simp add: take_block_def)
qed

lemma take_block_props:
  assumes "z \<le> n"
  shows "span (take_block z xs n ys) = span (xs @ (n, True) # ys)"
    "used_total (take_block z xs n ys) = used_total (xs @ (n, True) # ys) + (if n < z + 24 then n else z)"
    "used_count (take_block z xs n ys) = used_count (xs @ (n, True) # ys) + 1"
    "settled (xs @ (n, True) # ys) \<Longrightarrow> settled (take_block z xs n ys)"
    "z mod 8 = 0 \<Longrightarrow> \<forall>b\<in>set (xs @ (n, True) # ys). fst b mod 8 = 0 \<Longrightarrow> \<forall>b\<in>set (take_block z xs n ys). fst b mod 8 = 0"
proof -
  show "settled (take_block z xs n ys)" if s: "settled (xs @ (n, True) # ys)"
  proof -
    have "settled (xs @ (z, False) # ys)" by (rule settled_swap [OF s])
    then have l: "settled (xs @ [(z, False)])" by (rule settled_append [THEN iffD1, THEN conjunct1])
    have "settled ((n, True) # ys)" using s by (rule settled_append [THEN iffD1, THEN conjunct2])
    then have "settled ((z, False) # (n - z - 16, True) # ys)" by (cases ys) simp_all
    with l have "settled (xs @ (z, False) # (n - z - 16, True) # ys)" by (rule settled_append [THEN iffD2, OF conjI])
    then show ?thesis using settled_swap [OF s, of n False] by (simp add: take_block_def)
  qed
  show "\<forall>b\<in>set (take_block z xs n ys). fst b mod 8 = 0" if "z mod 8 = 0" "\<forall>b\<in>set (xs @ (n, True) # ys). fst b mod 8 = 0"
  proof -
    have "8 dvd n - z - 16" using that by (intro dvd_diff_nat) auto
    then show ?thesis using that by (simp add: take_block_def)
  qed
qed (use assms in \<open>simp_all add: take_block_def\<close>)

lemma take_block_nonempty [simp]: "take_block z xs n ys \<noteq> []"
  by (simp add: take_block_def)

lemma heap_take_correct:
  assumes ok: "heap_ok h (xs @ (n, True) # ys)" and z: "unat sz \<le> n" "unat sz mod 8 = 0" and b: "unat blk = unat (hs_pool (fst h)) + span xs"
  shows "\<exists>r h'. heap_take blk sz h = (r, h') \<and> unat r = unat (hs_pool (fst h)) + span xs + 16 \<and>
    heap_ok h' (take_block (unat sz) xs n ys) \<and> hs_pool (fst h') = hs_pool (fst h) \<and>
    (\<forall>i\<in>owned (unat (hs_pool (fst h))) (xs @ (n, True) # ys). snd h' i = snd h i)"
proof -
  obtain st m where h: "h = (st, m)" by force
  define a where "a = unat (hs_pool st)"
  define m' where "m' = set_hdr_magic blk HEAP_MAGIC_USED (heap_split blk sz m)"
  have ok': "hs_initialized st" "\<not> hs_lock st" "hs_head st = hs_pool st" "unat (hs_pool st) mod 8 = 0" "unat (hs_pool st) + unat (hs_pool_size st) < 2 ^ 32"
      "span (xs @ (n, True) # ys) = unat (hs_pool_size st)" "hs_used_bytes st = of_nat (used_total (xs @ (n, True) # ys))"
      "hs_alloc_count st = of_nat (used_count (xs @ (n, True) # ys))" "\<forall>b\<in>set (xs @ (n, True) # ys). fst b mod 8 = 0" "0 < a" "hseg m 0 a (xs @ (n, True) # ys) 0"
    using ok unfolding heap_ok_def h fst_conv snd_conv a_def by blast+
  have blk: "unat blk = a + span xs" using b by (simp only: h fst_conv a_def)
  have bd: "a + span xs + 16 + n < 2 ^ 32" using ok'(5,6) by (simp add: a_def)
  note tp = take_block_props(1-3) [OF z(1)] take_block_props(5) [OF z(1) z(2) ok'(9)]
  note t = hseg_take [OF ok'(11) blk bd ok'(10) z(1), folded m'_def]
  have take: "heap_take blk sz h = (blk + 16,
      st\<lparr>hs_used_bytes := hs_used_bytes st + hdr_size m' blk, hs_alloc_count := hs_alloc_count st + 1\<rparr>, m')"
    by (simp add: heap_take_def h m'_def ptr_from_hdr_def Let_def)
  have "unat (blk + 16) = a + span xs + 16" using blk bd by (subst unat_plus_u32) simp_all
  moreover have "of_nat (unat (hdr_size m' blk)) = (of_nat (if n < unat sz + 24 then n else unat sz) :: u32)"
    by (simp only: t [THEN conjunct2, THEN conjunct1])
  then have "hdr_size m' blk = of_nat (if n < unat sz + 24 then n else unat sz)" by simp
  then have "heap_ok (st\<lparr>hs_used_bytes := hs_used_bytes st + hdr_size m' blk, hs_alloc_count := hs_alloc_count st + 1\<rparr>, m') (take_block (unat sz) xs n ys)"
    using t [THEN conjunct1] ok' tp by (simp only: heap_ok_def h fst_conv snd_conv take_block_nonempty) (simp add: a_def)
  moreover have "m' i = m i" if "i \<in> owned a (xs @ (n, True) # ys)" for i
    using owned_free_gap [OF that] t [THEN conjunct2, THEN conjunct2, rule_format, of i] by linarith
  ultimately show ?thesis unfolding take by (simp add: h flip: a_def)
qed

lemma heap_ok_unlocked: "heap_ok (st, m) B \<Longrightarrow> st\<lparr>hs_lock := False\<rparr> = st"
  by (cases st) (simp add: heap_ok_def)

context fit_policy
begin

text \<open>What an allocator over any such search does: it returns, keeps the heap well-formed and never writes a byte a caller owns.\<close>

lemma alloc:
  assumes ok: "heap_ok h B" and sz: "sz \<noteq> 0"
  defines "a \<equiv> unat (hs_pool (fst h))" and "z \<equiv> unat (HEAP_ALIGN_UP sz)"
  shows "\<exists>r h'. heap_alloc_with search sz h s = Some (r, h', s) \<and>
    (r = 0 \<and> h' = h \<and> (\<forall>b\<in>set B. \<not> fits z b) \<or>
     (\<exists>xs n ys. B = xs @ (n, True) # ys \<and> z \<le> n \<and> pick z xs n ys \<and> unat r = a + span xs + 16 \<and> heap_ok h' (take_block z xs n ys) \<and>
        hs_pool (fst h') = hs_pool (fst h) \<and> (\<forall>i\<in>owned a B. snd h' i = snd h i)))"
proof -
  obtain st m where h: "h = (st, m)" by force
  have o: "hseg m 0 a B 0" "B \<noteq> []" "0 < a" "a + span B < 2 ^ 32" "unat (hs_head st) = a" "hs_initialized st" "\<not> hs_lock st"
    using ok by (auto simp: heap_ok_def h a_def)
  obtain key l' s' where l: "vibe_spinlock_lock_irqsave (hs_lock st) s = Some (key, l', s')"
    using o(7) by (auto simp: spinlock_defs split: prod.splits)
  from search [OF o(1-5), of "HEAP_ALIGN_UP sz", folded z_def] obtain r where r: "search m (HEAP_ALIGN_UP sz) (hs_head st) = Some r"
    "(r = 0 \<and> (\<forall>b\<in>set B. \<not> fits z b)) \<or> (\<exists>xs n ys. B = xs @ (n, True) # ys \<and> z \<le> n \<and> unat r = a + span xs \<and> pick z xs n ys)"
    by (elim exE conjE) (rule that)
  have eq: "heap_alloc_with search sz h s =
      (let (p, h') = (if r \<noteq> 0 then heap_take r (HEAP_ALIGN_UP sz) (st, m) else (0, st, m)) in Some (p, ((fst h')\<lparr>hs_lock := False\<rparr>, snd h'), s))"
    by (simp add: heap_alloc_with_def h sz o(6) l r(1) irqsave_restore [OF l] case_prod_beta Let_def)
  from r(2) show ?thesis
  proof
    assume "r = 0 \<and> (\<forall>b\<in>set B. \<not> fits z b)"
    then show ?thesis unfolding eq using heap_ok_unlocked [OF ok [unfolded h]] by (simp add: h)
  next
    assume "\<exists>xs n ys. B = xs @ (n, True) # ys \<and> z \<le> n \<and> unat r = a + span xs \<and> pick z xs n ys"
    then obtain xs n ys where x: "B = xs @ (n, True) # ys" "z \<le> n" "unat r = a + span xs" "pick z xs n ys" by blast
    have "r \<noteq> 0" using x(3) o(3) by auto
    have z8: "z mod 8 = 0" using align_up_mod8 by (simp add: z_def)
    have rb: "unat r = unat (hs_pool (fst h)) + span xs" using x(3) by (simp add: a_def)
    from heap_take_correct [OF ok [unfolded x(1)] x(2) [unfolded z_def] z8 [unfolded z_def] rb, folded z_def a_def x(1)]
    obtain p h' where t: "heap_take r (HEAP_ALIGN_UP sz) h = (p, h')" "unat p = a + span xs + 16"
        "heap_ok h' (take_block z xs n ys)" "hs_pool (fst h') = hs_pool (fst h)" "\<forall>i\<in>owned a B. snd h' i = snd h i"
      by (elim exE conjE) (rule that)
    have "((fst h')\<lparr>hs_lock := False\<rparr>, snd h') = h'" using heap_ok_unlocked [of "fst h'" "snd h'"] t(3) by simp
    then have "heap_alloc_with search sz h s = Some (p, h', s)" unfolding eq using t(1) \<open>r \<noteq> 0\<close> by (simp add: h)
    then show ?thesis using t(2-5) x by blast
  qed
qed

end

section \<open>Freeing\<close>

definition join_next :: "nat \<Rightarrow> block list \<Rightarrow> nat \<times> block list" where
  "join_next n ys = (case ys of (k, True) # zs \<Rightarrow> (n + 16 + k, zs) | _ \<Rightarrow> (n, ys))"

definition free_block :: "block list \<Rightarrow> nat \<Rightarrow> block list \<Rightarrow> block list" where
  "free_block xs n ys =
     (let (n, ys) = join_next n ys in
      if xs \<noteq> [] \<and> snd (last xs) then butlast xs @ (fst (last xs) + 16 + n, True) # ys else xs @ (n, True) # ys)"

lemma hseg_join_next:
  assumes seg: "hseg m 0 a (xs @ (n, True) # ys) 0" and b: "unat blk = a + span xs" "a + span (xs @ (n, True) # ys) < 2 ^ 32"
    and j: "join_next n ys = (n', ys')"
  defines "m' \<equiv> (if hdr_next m blk \<noteq> 0 \<and> hdr_magic m (hdr_next m blk) = HEAP_MAGIC_FREE then heap_absorb blk (hdr_next m blk) m else m)"
  shows "hseg m' 0 a (xs @ (n', True) # ys') 0 \<and> span (xs @ (n', True) # ys') = span (xs @ (n, True) # ys) \<and>
    (\<forall>i\<in>owned a (xs @ (n', True) # ys'). m' i = m i)"
proof (cases ys)
  case Nil
  then have "hdr_next m blk = 0" using seg b(1) by (simp add: hseg_append hdr_defs unsigned_eq_0_iff)
  then show ?thesis using seg j Nil by (simp add: m'_def join_next_def)
next
  case (Cons c zs)
  obtain k g where c: "c = (k, g)" by force
  have nx: "unat (hdr_next m blk) = a + span xs + 16 + n" using seg b(1) by (simp add: hseg_append hdr_defs Cons)
  then have mg: "hdr_next m blk \<noteq> 0" "hdr_magic m (hdr_next m blk) = (if g then HEAP_MAGIC_FREE else HEAP_MAGIC_USED)"
    using seg by (auto simp: hseg_append hdr_magic_def Cons c)
  show ?thesis
  proof (cases g)
    case True
    have bd: "a + span xs + 32 + n + k < 2 ^ 32" using b(2) by (simp add: Cons c)
    note ab = hseg_absorb [OF seg [unfolded Cons c True] refl b(1) nx bd]
    have m': "m' = heap_absorb blk (hdr_next m blk) m" using mg True by (simp add: m'_def)
    have n': "n' = n + 16 + k" "ys' = zs" using j by (simp_all add: join_next_def Cons c True)
    have "m' i = m i" if "i \<in> owned a (xs @ (n', True) # ys')" for i
      unfolding m' using owned_free_gap [OF that] by (intro ab(2)) (auto simp: n')
    then show ?thesis using ab(1) by (simp add: m' n' Cons c)
  next
    case False
    then show ?thesis using seg j mg by (simp add: m'_def join_next_def Cons c)
  qed
qed

lemma hseg_coalesce:
  assumes seg: "hseg m 0 a (xs @ (n, True) # ys) 0" and b: "unat blk = a + span xs" "a + span (xs @ (n, True) # ys) < 2 ^ 32" "0 < a"
  defines "m' \<equiv> snd (heap_coalesce blk m)"
  shows "hseg m' 0 a (free_block xs n ys) 0 \<and> span (free_block xs n ys) = span (xs @ (n, True) # ys) \<and>
    (\<forall>i\<in>owned a (free_block xs n ys). m' i = m i)"
proof -
  obtain n' ys' where j: "join_next n ys = (n', ys')" by force
  define m1 where "m1 = (if hdr_next m blk \<noteq> 0 \<and> hdr_magic m (hdr_next m blk) = HEAP_MAGIC_FREE then heap_absorb blk (hdr_next m blk) m else m)"
  note n1 = hseg_join_next [OF seg b(1,2) j, folded m1_def]
  have m': "m' = (if hdr_prev m1 blk \<noteq> 0 \<and> hdr_magic m1 (hdr_prev m1 blk) = HEAP_MAGIC_FREE then heap_absorb (hdr_prev m1 blk) blk m1 else m1)"
    by (simp add: m'_def heap_coalesce_def m1_def Let_def)
  show ?thesis
  proof (cases xs rule: rev_cases)
    case Nil
    then have "hdr_prev m1 blk = 0" using n1 b(1) by (simp add: hdr_defs unsigned_eq_0_iff)
    then show ?thesis using n1 Nil j by (simp add: m' free_block_def)
  next
    case (snoc ws c)
    obtain k g where c: "c = (k, g)" by force
    have pv: "unat (hdr_prev m1 blk) = a + span ws" using n1 b(1) by (simp add: hseg_append hdr_defs snoc add.assoc)
    then have mg: "hdr_prev m1 blk \<noteq> 0" "hdr_magic m1 (hdr_prev m1 blk) = (if g then HEAP_MAGIC_FREE else HEAP_MAGIC_USED)"
      using n1 b(3) by (auto simp: hseg_append hdr_magic_def snoc c)
    show ?thesis
    proof (cases g)
      case True
      have seg1: "hseg m1 0 a (ws @ (k, True) # (n', True) # ys') 0" using n1 by (simp add: snoc c True)
      have bd: "a + span ws + 32 + k + n' < 2 ^ 32" using n1 b(2) by (simp add: snoc c)
      have bl: "unat blk = a + span ws + 16 + k" using b(1) by (simp add: snoc c)
      note ab = hseg_absorb [OF seg1 refl pv bl bd]
      have fb: "free_block xs n ys = ws @ (k + 16 + n', True) # ys'" by (simp add: free_block_def j snoc c True)
      have "m' i = m i" if i: "i \<in> owned a (free_block xs n ys)" for i
      proof -
        have "i \<in> owned a (xs @ (n', True) # ys')" using i [unfolded fb] by (auto simp: snoc c True ac_simps)
        then have "m1 i = m i" using n1 by blast
        moreover have "i < a + span ws \<or> a + span ws + 36 + k + n' \<le> i" using owned_free_gap [OF i [unfolded fb]] by linarith
        ultimately show ?thesis using mg True ab(2) by (simp add: m')
      qed
      moreover have "hseg m' 0 a (free_block xs n ys) 0" unfolding fb using ab(1) mg True by (simp add: m')
      moreover have "span (free_block xs n ys) = span (xs @ (n, True) # ys)" unfolding fb using n1 by (simp add: snoc c)
      ultimately show ?thesis by blast
    next
      case False
      then show ?thesis using n1 mg by (simp add: m' free_block_def j snoc c)
    qed
  qed
qed

lemma join_next_props:
  assumes "join_next n ys = (n', ys')"
  shows "used_total ys' = used_total ys" "used_count ys' = used_count ys" "settled (b # ys) \<Longrightarrow> settled ((n', True) # ys')"
    "n mod 8 = 0 \<Longrightarrow> \<forall>b\<in>set ys. fst b mod 8 = 0 \<Longrightarrow> n' mod 8 = 0 \<and> (\<forall>b\<in>set ys'. fst b mod 8 = 0)"
proof -
  consider "n' = n" "ys' = ys" "ys = [] \<or> \<not> snd (hd ys)" | k where "n' = n + 16 + k" "ys = (k, True) # ys'"
    using assms by (auto simp: join_next_def split: list.splits prod.splits bool.splits)
  note c = this
  show "used_total ys' = used_total ys" "used_count ys' = used_count ys" by (cases rule: c, simp_all)+
  show "settled ((n', True) # ys')" if "settled (b # ys)"
  proof (cases rule: c)
    case 1
    then show ?thesis using that by (cases ys) simp_all
  next
    case (2 k)
    then have "settled ((k, True) # ys')" using that by simp
    then show ?thesis by (cases ys') simp_all
  qed
  show "n' mod 8 = 0 \<and> (\<forall>b\<in>set ys'. fst b mod 8 = 0)" if "n mod 8 = 0" "\<forall>b\<in>set ys. fst b mod 8 = 0"
    by (cases rule: c) (use that in \<open>auto simp: mod_eq_0_iff_dvd\<close>)
qed

lemma free_block_props:
  shows "used_total (free_block xs n ys) = used_total (xs @ ys)" "used_count (free_block xs n ys) = used_count (xs @ ys)"
    "free_block xs n ys \<noteq> []"
    "settled (xs @ (n, False) # ys) \<Longrightarrow> settled (free_block xs n ys)"
    "\<forall>b\<in>set (xs @ (n, False) # ys). fst b mod 8 = 0 \<Longrightarrow> \<forall>b\<in>set (free_block xs n ys). fst b mod 8 = 0"
proof -
  obtain n' ys' where j: "join_next n ys = (n', ys')" by force
  note p = join_next_props [OF j]
  have fb: "free_block xs n ys = (if xs \<noteq> [] \<and> snd (last xs) then butlast xs @ (fst (last xs) + 16 + n', True) # ys' else xs @ (n', True) # ys')"
    by (simp add: free_block_def j)
  have last: "\<exists>ws k. xs = ws @ [(k, True)]" if "xs \<noteq> []" "snd (last xs)"
    using that by (metis append_butlast_last_id prod.collapse)
  show "used_total (free_block xs n ys) = used_total (xs @ ys)" "used_count (free_block xs n ys) = used_count (xs @ ys)" "free_block xs n ys \<noteq> []"
    using p(1,2) last by (auto simp: fb)
  show "settled (free_block xs n ys)" if s: "settled (xs @ (n, False) # ys)"
  proof -
    have r: "settled ((k, True) # ys')" for k using p(3) [of "(n, False)"] s settled_append [of xs "(n, False)" ys] by (cases ys') auto
    show ?thesis
    proof (cases "xs \<noteq> [] \<and> snd (last xs)")
      case True
      then obtain ws k where ws: "xs = ws @ [(k, True)]" using last by blast
      have "settled (ws @ (k, True) # (n, False) # ys)" using s by (simp add: ws)
      then have "settled (ws @ (k + 16 + n', True) # (n, False) # ys)" by (rule settled_swap)
      then have "settled (ws @ [(k + 16 + n', True)])" by (rule settled_append [THEN iffD1, THEN conjunct1])
      with r have "settled (ws @ (k + 16 + n', True) # ys')" using settled_append [THEN iffD2, OF conjI] by blast
      then show ?thesis unfolding fb by (simp add: ws)
    next
      case False
      then have "settled (xs @ [(n', True)])" using s settled_append [THEN iffD1, THEN conjunct1, OF s]
      proof (cases xs rule: rev_cases)
        case (snoc ws c)
        then have "settled (ws @ [c])" using s settled_append [of ws c "(n, False) # ys"] by simp
        then show ?thesis using False snoc settled_append [of ws c "[(n', True)]"] by simp
      qed simp
      with r have "settled (xs @ (n', True) # ys')" using settled_append [THEN iffD2, OF conjI] by blast
      then show ?thesis using False by (auto simp: fb)
    qed
  qed
  show "\<forall>b\<in>set (free_block xs n ys). fst b mod 8 = 0" if m: "\<forall>b\<in>set (xs @ (n, False) # ys). fst b mod 8 = 0"
  proof -
    have "n' mod 8 = 0 \<and> (\<forall>b\<in>set ys'. fst b mod 8 = 0)" using m by (intro p(4)) auto
    moreover have "\<forall>b\<in>set (butlast xs). fst b mod 8 = 0" using m by (auto dest: in_set_butlastD)
    moreover have "(fst (last xs) + 16 + n') mod 8 = 0" if "xs \<noteq> []" "n' mod 8 = 0"
      using m that last_in_set [OF that(1)] by (auto simp: mod_eq_0_iff_dvd)
    ultimately show ?thesis using m unfolding fb by auto
  qed
qed

lemma owned_free_block: "owned a (free_block xs n ys) = owned a (xs @ (n, True) # ys)"
proof -
  have j: "owned (b + fst (join_next n ys)) (snd (join_next n ys)) = owned (b + n) ys" for b
    by (auto simp: join_next_def ac_simps split: list.splits prod.splits bool.splits)
  show ?thesis
  proof (cases "xs \<noteq> [] \<and> snd (last xs)")
    case True
    then obtain ws k where "xs = ws @ [(k, True)]" by (metis append_butlast_last_id prod.collapse)
    then show ?thesis using j [of "a + span ws + 32 + k"] by (simp add: free_block_def case_prod_beta ac_simps)
  next
    case False
    then have "free_block xs n ys = xs @ (fst (join_next n ys), True) # snd (join_next n ys)" by (simp add: free_block_def case_prod_beta)
    then show ?thesis using j [of "a + span xs + 16"] by simp
  qed
qed

lemma heap_free_correct:
  assumes ok: "heap_ok h (xs @ (n, False) # ys)" and ptr: "unat ptr = unat (hs_pool (fst h)) + span xs + 16"
  defines "a \<equiv> unat (hs_pool (fst h))"
  shows "\<exists>h'. vibe_heap_free check ptr h s = Some (h', s) \<and> heap_ok h' (free_block xs n ys) \<and> hs_pool (fst h') = hs_pool (fst h) \<and>
    (\<forall>i\<in>owned a (free_block xs n ys). snd h' i = snd h i)"
proof -
  obtain st m where h: "h = (st, m)" by force
  let ?B = "xs @ (n, False) # ys" and ?F = "xs @ (n, True) # ys"
  define blk where "blk = ptr - 16"
  have o: "hs_initialized st" "\<not> hs_lock st" "hs_head st = hs_pool st" "a mod 8 = 0" "a + unat (hs_pool_size st) < 2 ^ 32"
      "span ?B = unat (hs_pool_size st)" "hs_used_bytes st = of_nat (used_total ?B)" "hs_alloc_count st = of_nat (used_count ?B)"
      "\<forall>b\<in>set ?B. fst b mod 8 = 0" "0 < a" "hseg m 0 a ?B 0"
    using ok unfolding heap_ok_def h fst_conv snd_conv a_def by blast+
  have ah: "unat (hs_pool st) = a" by (simp add: a_def h)
  have ub: "unat blk = a + span xs" using ptr by (simp add: blk_def a_def unat_minus_u32 word_le_nat_alt)
  have hd: "hdr_magic m blk = HEAP_MAGIC_USED" "unat (hdr_size m blk) = n" using o(11) by (simp_all add: hdr_defs ub hseg_append)
  define m1 where "m1 = st32 (a + span xs + 12) HEAP_MAGIC_FREE m"
  have seg: "hseg m1 0 a ?F 0" using hseg_mark [OF o(11) refl, of True] by (simp add: m1_def)
  have bd: "a + span ?F < 2 ^ 32" using o(5,6) by simp
  note c = hseg_coalesce [OF seg ub bd o(10)]
  obtain key l' s' where l: "vibe_spinlock_lock_irqsave (hs_lock st) s = Some (key, l', s')"
    using o(2) by (auto simp: spinlock_defs split: prod.splits)
  have p0: "ptr \<noteq> 0" using ptr by auto
  have n: "hdr_size m blk = of_nat n" using hd(2) by (metis of_nat_unat ucast_id)
  let ?st = "st\<lparr>hs_used_bytes := hs_used_bytes st - hdr_size m blk, hs_alloc_count := hs_alloc_count st - 1, hs_lock := False\<rparr>"
  have eq: "vibe_heap_free check ptr h s = Some ((?st, snd (heap_coalesce blk m1)), s)"
    using p0 hd(1) by (simp add: vibe_heap_free_def h hdr_from_ptr_def l irqsave_restore [OF l] Let_def m1_def ub set_hdr_magic_def flip: blk_def)
  have "heap_ok (?st, snd (heap_coalesce blk m1)) (free_block xs n ys)"
    using c o free_block_props(5) [OF o(9)] by (simp add: heap_ok_def free_block_props(1-3) n ah)
  moreover have "snd (heap_coalesce blk m1) i = m i" if i: "i \<in> owned a (free_block xs n ys)" for i
  proof -
    have "m1 i = m i" unfolding m1_def using owned_free_gap [of i a xs n ys] i owned_free_block by (intro st32_other) fastforce
    then show ?thesis using c i by simp
  qed
  ultimately show ?thesis unfolding eq by (auto simp: h)
qed

section \<open>The allocator's promises\<close>

text \<open>A fresh pool is one free block.\<close>

lemma heap_pool_init_ok:
  assumes p: "0 < unat (hs_pool st)" "unat (hs_pool st) mod 8 = 0" "unat (hs_pool st) + unat (hs_pool_size st) < 2 ^ 32"
    and z: "16 \<le> unat (hs_pool_size st)" "unat (hs_pool_size st) mod 8 = 0" and f: "\<not> hs_lock st" "hs_used_bytes st = 0" "hs_alloc_count st = 0"
  shows "heap_rep (heap_pool_init (st, m)) [(unat (hs_pool_size st) - 16, True)]"
proof -
  have "unat (hs_pool_size st - 16) = unat (hs_pool_size st) - 16" using z(1) by (simp add: unat_minus_u32 word_le_nat_alt)
  moreover have "8 dvd unat (hs_pool_size st) - 16" using z(2) by (intro dvd_diff_nat) auto
  ultimately show ?thesis using p z f
    by (simp add: heap_rep_def heap_ok_def heap_pool_init_def hdr_defs Let_def ld32_st32_other)
qed

text \<open>Freeing what was just carved out gives the block list back: the remainder, when there is one, is merged again.\<close>

lemma take_free_block:
  assumes "settled (xs @ (n, True) # ys)" "z \<le> n"
  shows "\<exists>k zs. take_block z xs n ys = xs @ (k, False) # zs \<and> free_block xs k zs = xs @ (n, True) # ys"
proof -
  have l: "\<not> (xs \<noteq> [] \<and> snd (last xs))"
  proof
    assume "xs \<noteq> [] \<and> snd (last xs)"
    then obtain ws k where "xs = ws @ [(k, True)]" by (metis append_butlast_last_id prod.collapse)
    then show False using assms(1) settled_append [of ws "(k, True)" "(n, True) # ys"] by simp
  qed
  have r: "join_next n ys = (n, ys)"
    using assms(1) settled_append [of xs "(n, True)" ys] by (cases ys) (auto simp: join_next_def split: prod.splits bool.splits)
  show ?thesis
  proof (cases "n < z + 24")
    case True
    then show ?thesis using l r by (auto simp: take_block_def free_block_def)
  next
    case False
    then have "free_block xs z ((n - z - 16, True) # ys) = xs @ (n, True) # ys" using l by (auto simp: free_block_def join_next_def)
    then show ?thesis using False by (auto simp: take_block_def)
  qed
qed

lemma carved_payload:
  assumes "z \<le> n" "unat sz \<le> z" "r = a + span xs + 16"
  shows "{r..<r + unat sz} \<inter> owned a (xs @ (n, True) # ys) = {} \<and> {r..<r + unat sz} \<subseteq> owned a (take_block z xs n ys)"
proof
  show "{r..<r + unat sz} \<inter> owned a (xs @ (n, True) # ys) = {}" using owned_free_gap [of _ a xs n ys] assms by fastforce
  show "{r..<r + unat sz} \<subseteq> owned a (take_block z xs n ys)" using assms by (auto simp: take_block_def)
qed

context fit_policy
begin

lemma alloc_rep:
  assumes rep: "heap_rep h B" and sz: "sz \<noteq> 0" "unat sz + 7 < 2 ^ 32"
  defines "a \<equiv> unat (hs_pool (fst h))" and "z \<equiv> unat (HEAP_ALIGN_UP sz)"
  shows "\<exists>r h'. heap_alloc_with search sz h s = Some (r, h', s) \<and>
    (r = 0 \<and> h' = h \<and> (\<forall>b\<in>set B. \<not> fits z b) \<or>
     (\<exists>xs n ys. B = xs @ (n, True) # ys \<and> z \<le> n \<and> pick z xs n ys \<and> unat r = a + span xs + 16 \<and>
        heap_rep h' (take_block z xs n ys) \<and> hs_pool (fst h') = hs_pool (fst h) \<and> (\<forall>i\<in>owned a B. snd h' i = snd h i) \<and>
        {unat r..<unat r + unat sz} \<inter> owned a B = {} \<and> {unat r..<unat r + unat sz} \<subseteq> owned a (take_block z xs n ys)))"
proof -
  have ok: "heap_ok h B" and st: "settled B" using rep by (simp_all add: heap_rep_def)
  have z: "unat sz \<le> z" using align_up_bounds [OF sz(2,1)] by (simp add: z_def)
  from alloc [OF ok sz(1), of s, folded a_def z_def]
  obtain r h' where eq: "heap_alloc_with search sz h s = Some (r, h', s)" and r: "r = 0 \<and> h' = h \<and> (\<forall>b\<in>set B. \<not> fits z b) \<or>
     (\<exists>xs n ys. B = xs @ (n, True) # ys \<and> z \<le> n \<and> pick z xs n ys \<and> unat r = a + span xs + 16 \<and> heap_ok h' (take_block z xs n ys) \<and>
        hs_pool (fst h') = hs_pool (fst h) \<and> (\<forall>i\<in>owned a B. snd h' i = snd h i))"
    by (elim exE conjE) (rule that)
  from r show ?thesis
  proof
    assume "r = 0 \<and> h' = h \<and> (\<forall>b\<in>set B. \<not> fits z b)"
    with eq show ?thesis by (intro exI conjI disjI1) auto
  next
    assume "\<exists>xs n ys. B = xs @ (n, True) # ys \<and> z \<le> n \<and> pick z xs n ys \<and> unat r = a + span xs + 16 \<and> heap_ok h' (take_block z xs n ys) \<and>
        hs_pool (fst h') = hs_pool (fst h) \<and> (\<forall>i\<in>owned a B. snd h' i = snd h i)"
    then obtain xs n ys where x: "B = xs @ (n, True) # ys" "z \<le> n" "pick z xs n ys" "unat r = a + span xs + 16" "heap_ok h' (take_block z xs n ys)"
        "hs_pool (fst h') = hs_pool (fst h)" "\<forall>i\<in>owned a B. snd h' i = snd h i"
      by (elim exE conjE) (rule that)
    have "heap_rep h' (take_block z xs n ys)" using x(5) take_block_props(4) [OF x(2)] st by (simp add: heap_rep_def x(1))
    with carved_payload [OF x(2) z x(4), of ys, folded x(1)] eq x(1-4,6,7) show ?thesis
      by (intro exI [of _ r] exI [of _ h'] exI [of _ xs] exI [of _ n] exI [of _ ys] conjI disjI2) (simp_all only:)
  qed
qed

text \<open>Freeing a fresh allocation restores the block list.\<close>

lemma alloc_free:
  assumes rep: "heap_rep h B" and sz: "sz \<noteq> 0" and al: "heap_alloc_with search sz h s = Some (r, h1, s1)" and r: "r \<noteq> 0"
  shows "\<exists>h2. vibe_heap_free check r h1 s1 = Some (h2, s) \<and> heap_rep h2 B"
proof -
  define z where "z = unat (HEAP_ALIGN_UP sz)"
  have ok: "heap_ok h B" and st: "settled B" using rep by (simp_all add: heap_rep_def)
  from alloc [OF ok sz, of s, folded z_def] al r
  obtain xs n ys where x: "B = xs @ (n, True) # ys" "z \<le> n" "unat r = unat (hs_pool (fst h)) + span xs + 16" "heap_ok h1 (take_block z xs n ys)"
      "hs_pool (fst h1) = hs_pool (fst h)" "s1 = s"
    by (elim exE conjE disjE) (simp, rule that, simp_all)
  from take_free_block [OF st [unfolded x(1)] x(2)] obtain k zs where t: "take_block z xs n ys = xs @ (k, False) # zs" "free_block xs k zs = B"
    using x(1) by blast
  from heap_free_correct [OF x(4) [unfolded t(1)], of r check s1, unfolded t(2)] x(3,5,6) st show ?thesis by (auto simp: heap_rep_def)
qed

end

text \<open>A caller writes its own payload freely.\<close>

lemma heap_ok_payload:
  assumes ok: "heap_ok (st, m) B" and B: "B = xs @ (n, False) # ys"
    and m': "\<And>i. i < unat (hs_pool st) + span xs + 16 \<or> unat (hs_pool st) + span xs + 16 + n \<le> i \<Longrightarrow> m' i = m i"
  shows "heap_ok (st, m') B"
proof -
  define b where "b = unat (hs_pool st) + span xs"
  have "hseg m' 0 (unat (hs_pool st)) xs e = hseg m 0 (unat (hs_pool st)) xs e" for e by (rule hseg_cong) (auto intro!: m')
  moreover have "hseg m' b (b + 16 + n) ys 0 = hseg m b (b + 16 + n) ys 0" by (rule hseg_cong) (auto simp: b_def intro!: m')
  moreover have "ld32 m' (b + j) = ld32 m (b + j)" if "j \<le> 12" for j by (rule ld32_cong) (use that in \<open>auto simp: b_def intro!: m'\<close>)
  from this [of 0] this [of 4] this [of 8] this [of 12] have "ld32 m' b = ld32 m b" "ld32 m' (b + 4) = ld32 m (b + 4)"
      "ld32 m' (b + 8) = ld32 m (b + 8)" "ld32 m' (b + 12) = ld32 m (b + 12)" by simp_all
  ultimately have "hseg m' 0 (unat (hs_pool st)) B 0 = hseg m 0 (unat (hs_pool st)) B 0" by (simp add: B hseg_append flip: b_def)
  then show ?thesis using ok unfolding heap_ok_def fst_conv snd_conv by blast
qed

lemma take_block_used: "z \<le> n \<Longrightarrow> \<exists>k zs. take_block z xs n ys = xs @ (k, False) # zs \<and> z \<le> k"
  by (auto simp: take_block_def)

text \<open>Carving a free block leaves every used block where it is.\<close>

lemma take_block_other:
  assumes "xs @ (n, False) # ys = xs' @ (n', True) # ys'" "z \<le> n'"
  shows "\<exists>us vs. take_block z xs' n' ys' = us @ (n, False) # vs \<and> span us = span xs"
proof -
  from assms(1) consider us where "xs = xs' @ (n', True) # us" "ys' = us @ (n, False) # ys" | us where "xs' = xs @ (n, False) # us"
    by (auto simp: append_eq_append_conv2 Cons_eq_append_conv append_eq_Cons_conv)
  then show ?thesis
  proof cases
    case 1
    then have "take_block z xs' n' ys' = take_block z xs' n' us @ (n, False) # ys" by (simp add: take_block_def)
    moreover have "span (take_block z xs' n' us) = span xs" using take_block_props(1) [OF assms(2), of xs' us] 1(1) by simp
    ultimately show ?thesis by blast
  next
    case (2 us)
    then have "take_block z xs' n' ys' = xs @ (n, False) # take_block z us n' ys'" by (simp add: take_block_def)
    then show ?thesis by blast
  qed
qed

lemma used_in_owned: "B = xs @ (n, False) # ys \<Longrightarrow> {a + span xs + 16..<a + span xs + 16 + n} \<subseteq> owned a B"
  by auto

text \<open>
  C28: On a well-formed, fully merged heap the first-fit \<^verbatim>\<open>vibe_heap_alloc\<close> returns, for every non-zero size that the alignment does not wrap. Either no free
  block can hold the aligned size, and it returns NULL and changes nothing; or it carves the lowest free block that can, the new block
  list is again well-formed and merged, the payload returned overlaps no byte a caller owns, and no owned byte changes.\<close>

theorem ff_heap_alloc_refines:
  assumes "heap_rep h B" "sz \<noteq> 0" "unat sz + 7 < 2 ^ 32"
  defines "a \<equiv> unat (hs_pool (fst h))" and "z \<equiv> unat (HEAP_ALIGN_UP sz)"
  shows "\<exists>r h'. ff_heap_alloc sz h s = Some (r, h', s) \<and>
    (r = 0 \<and> h' = h \<and> (\<forall>b\<in>set B. \<not> fits z b) \<or>
     (\<exists>xs n ys. B = xs @ (n, True) # ys \<and> z \<le> n \<and> (\<forall>b\<in>set xs. \<not> fits z b) \<and> unat r = a + span xs + 16 \<and>
        heap_rep h' (take_block z xs n ys) \<and> hs_pool (fst h') = hs_pool (fst h) \<and> (\<forall>i\<in>owned a B. snd h' i = snd h i) \<and>
        {unat r..<unat r + unat sz} \<inter> owned a B = {} \<and> {unat r..<unat r + unat sz} \<subseteq> owned a (take_block z xs n ys)))"
  using ff.alloc_rep [OF assms(1-3), of s, folded ff_heap_alloc_def a_def z_def] unfolding ff_pick_def .


text \<open>A heap of 64 bytes at address 8, freshly initialised.\<close>

definition demo_heap :: heap where
  "demo_heap = heap_pool_init (\<lparr>hs_pool = 8, hs_pool_size = 64, hs_head = 0, hs_lock = False, hs_used_bytes = 0, hs_alloc_count = 0,
     hs_initialized = False\<rparr>, \<lambda>_. 0)"

lemma demo_rep: "heap_rep demo_heap [(48, True)]"
  using heap_pool_init_ok [of "\<lparr>hs_pool = 8, hs_pool_size = 64, hs_head = 0, hs_lock = False, hs_used_bytes = 0, hs_alloc_count = 0,
     hs_initialized = False\<rparr>" "\<lambda>_. 0"] by (simp add: demo_heap_def)

lemma demo_split: "[(48, True)] = xs @ (n, True) # ys \<longleftrightarrow> xs = [] \<and> n = 48 \<and> ys = []"
  by (auto simp: Cons_eq_append_conv)

lemma align_10: "unat (HEAP_ALIGN_UP 10) = 16"
  by (simp add: align_up)

theorem ff_heap_alloc_refines_witness:
  "\<forall>cfg. \<exists>r h'. ff_heap_alloc 10 demo_heap (boot_state cfg) = Some (r, h', boot_state cfg) \<and> heap_rep h' [(16, False), (16, True)]"
proof
  fix cfg
  show "\<exists>r h'. ff_heap_alloc 10 demo_heap (boot_state cfg) = Some (r, h', boot_state cfg) \<and> heap_rep h' [(16, False), (16, True)]"
    using ff_heap_alloc_refines [OF demo_rep, of 10 "boot_state cfg"] by (simp add: align_10 demo_split fits_def take_block_def) blast
qed

text \<open>
  The best-fit \<^verbatim>\<open>vibe_heap_alloc\<close> makes the same promises, with the block it carves a smallest one among the free blocks that can hold the
  aligned size: no other free block that fits is smaller.\<close>

theorem bf_heap_alloc_refines:
  assumes "heap_rep h B" "sz \<noteq> 0" "unat sz + 7 < 2 ^ 32"
  defines "a \<equiv> unat (hs_pool (fst h))" and "z \<equiv> unat (HEAP_ALIGN_UP sz)"
  shows "\<exists>r h'. bf_heap_alloc sz h s = Some (r, h', s) \<and>
    (r = 0 \<and> h' = h \<and> (\<forall>b\<in>set B. \<not> fits z b) \<or>
     (\<exists>xs n ys. B = xs @ (n, True) # ys \<and> z \<le> n \<and> (\<forall>b\<in>set (xs @ ys). fits z b \<longrightarrow> n \<le> fst b) \<and> unat r = a + span xs + 16 \<and>
        heap_rep h' (take_block z xs n ys) \<and> hs_pool (fst h') = hs_pool (fst h) \<and> (\<forall>i\<in>owned a B. snd h' i = snd h i) \<and>
        {unat r..<unat r + unat sz} \<inter> owned a B = {} \<and> {unat r..<unat r + unat sz} \<subseteq> owned a (take_block z xs n ys)))"
  using bf.alloc_rep [OF assms(1-3), of s, folded bf_heap_alloc_def a_def z_def] unfolding bf_pick_def .

theorem bf_heap_alloc_refines_witness:
  "\<forall>cfg. \<exists>r h'. bf_heap_alloc 10 demo_heap (boot_state cfg) = Some (r, h', boot_state cfg) \<and> heap_rep h' [(16, False), (16, True)]"
proof
  fix cfg
  show "\<exists>r h'. bf_heap_alloc 10 demo_heap (boot_state cfg) = Some (r, h', boot_state cfg) \<and> heap_rep h' [(16, False), (16, True)]"
    using bf_heap_alloc_refines [OF demo_rep, of 10 "boot_state cfg"] by (simp add: align_10 demo_split fits_def take_block_def) blast
qed

lemma demo_used: "\<exists>h. ff_heap_alloc 10 demo_heap s = Some (24, h, s) \<and> heap_rep h [(16, False), (16, True)] \<and> hs_pool (fst h) = 8"
proof -
  have p: "hs_pool (fst demo_heap) = 8" by (simp add: demo_heap_def heap_pool_init_def Let_def)
  have "unat r = 24 \<longleftrightarrow> r = 24" for r :: u32 by (simp add: word_unat_eq_iff)
  then show ?thesis using ff.alloc_rep [OF demo_rep, of 10 s, folded ff_heap_alloc_def]
    by (simp add: align_10 demo_split fits_def take_block_def p) blast
qed

text \<open>
  C29: Freeing the payload pointer of an allocated block returns, merges the block with a free neighbour on either side, leaves the heap
  well-formed with no two free neighbours, and changes no byte another caller owns.\<close>

theorem heap_free_refines:
  assumes "heap_rep h (xs @ (n, False) # ys)" "unat ptr = unat (hs_pool (fst h)) + span xs + 16"
  shows "\<exists>h'. vibe_heap_free check ptr h s = Some (h', s) \<and> heap_rep h' (free_block xs n ys) \<and> settled (free_block xs n ys) \<and>
    (\<forall>i\<in>owned (unat (hs_pool (fst h))) xs \<union> owned (unat (hs_pool (fst h)) + span xs + 16 + n) ys. snd h' i = snd h i)"
  using heap_free_correct [of h xs n ys ptr check s] free_block_props(4) [of xs n ys] assms unfolding heap_rep_def
  by (auto simp: owned_free_block)

theorem heap_free_refines_witness:
  "\<forall>s. \<exists>h h'. heap_rep h [(16, False), (16, True)] \<and> vibe_heap_free True 24 h s = Some (h', s) \<and> heap_rep h' [(48, True)]"
proof
  fix s
  obtain h where h: "heap_rep h [(16, False), (16, True)]" "hs_pool (fst h) = 8" using demo_used by blast
  from heap_free_refines [of h "[]" 16 "[(16, True)]" 24 True s] h
  obtain h' where "vibe_heap_free True 24 h s = Some (h', s)" "heap_rep h' [(48, True)]" by (auto simp: free_block_def join_next_def)
  with h(1) show "\<exists>h h'. heap_rep h [(16, False), (16, True)] \<and> vibe_heap_free True 24 h s = Some (h', s) \<and> heap_rep h' [(48, True)]"
    by blast
qed

text \<open>
  An allocation followed by a free of the pointer it returned restores the heap: the same blocks, the same statistics, the same interrupt
  state. This holds for the first-fit and the best-fit allocator and with or without the corruption check.\<close>

theorem heap_alloc_free_roundtrip:
  assumes "alloc \<in> {ff_heap_alloc, bf_heap_alloc}" "heap_rep h B" "sz \<noteq> 0" "alloc sz h s = Some (r, h1, s1)" "r \<noteq> 0"
  shows "\<exists>h2. vibe_heap_free check r h1 s1 = Some (h2, s) \<and> heap_rep h2 B"
  using assms ff.alloc_free bf.alloc_free unfolding ff_heap_alloc_def bf_heap_alloc_def by blast

theorem heap_alloc_free_roundtrip_witness:
  "\<forall>s. \<exists>h1 h2. ff_heap_alloc 10 demo_heap s = Some (24, h1, s) \<and> vibe_heap_free True 24 h1 s = Some (h2, s) \<and> heap_rep h2 [(48, True)]"
proof
  fix s
  obtain h1 where "ff_heap_alloc 10 demo_heap s = Some (24, h1, s)" using demo_used by blast
  with heap_alloc_free_roundtrip [of ff_heap_alloc demo_heap "[(48, True)]" 10 s 24 h1 s True] demo_rep
  show "\<exists>h1 h2. ff_heap_alloc 10 demo_heap s = Some (24, h1, s) \<and> vibe_heap_free True 24 h1 s = Some (h2, s) \<and> heap_rep h2 [(48, True)]"
    by auto
qed

text \<open>Copying into a fresh block and freeing the old one, as \<^verbatim>\<open>vibe_heap_realloc\<close> does.\<close>

lemma realloc_move:
  assumes z: "z \<le> n'" "unat sz \<le> z" and r: "unat r = a + span xs' + 16" and ok: "heap_ok h1 (take_block z xs' n' ys')"
    and B: "xs @ (n, False) # ys = xs' @ (n', True) # ys'" and own: "\<forall>i\<in>owned a (xs @ (n, False) # ys). snd h1 i = snd h i"
    and a: "a = unat (hs_pool (fst h1))" and ptr: "unat ptr = a + span xs + 16"
  defines "m \<equiv> mem_copy (unat r) (unat ptr) (min n (unat sz)) (snd h1)"
  shows "\<exists>h' B'. vibe_heap_free check ptr (fst h1, m) s = Some (h', s) \<and> heap_ok h' B' \<and>
    (\<forall>i<min n (unat sz). snd h' (unat r + i) = snd h (unat ptr + i))"
proof -
  obtain k zs where k: "take_block z xs' n' ys' = xs' @ (k, False) # zs" "z \<le> k" using take_block_used [OF z(1)] by blast
  obtain us vs where u: "take_block z xs' n' ys' = us @ (n, False) # vs" "span us = span xs" using take_block_other [OF B z(1)] by blast
  have m: "m i = (if unat r \<le> i \<and> i < unat r + min n (unat sz) then snd h1 (unat ptr + (i - unat r)) else snd h1 i)" for i
    unfolding m_def mem_copy_def mem_write_def mem_read_def by (simp add: less_diff_conv2 add.commute del: min_less_iff_conj)
  have ok': "heap_ok (fst h1, m) (take_block z xs' n' ys')"
    by (rule heap_ok_payload [where m = "snd h1", OF _ k(1)]) (use ok r a z(2) k(2) in \<open>auto simp: m\<close>)
  have pt: "unat ptr = unat (hs_pool (fst (fst h1, m))) + span us + 16" using ptr a u(2) by simp
  from heap_free_correct [OF ok' [unfolded u(1)] pt, of check s] obtain h' where
    h': "vibe_heap_free check ptr (fst h1, m) s = Some (h', s)" "heap_ok h' (free_block us n vs)"
      "\<forall>i\<in>owned a (free_block us n vs). snd h' i = m i"
    using a by auto
  have "snd h' (unat r + i) = snd h (unat ptr + i)" if i: "i < min n (unat sz)" for i
  proof -
    have src: "unat ptr + i \<in> owned a (xs @ (n, False) # ys)" using used_in_owned [OF refl, of a xs n ys] ptr i by auto
    have "unat r + i \<in> owned a (take_block z xs' n' ys')" using used_in_owned [OF k(1), of a] r i z(2) k(2) by auto
    moreover have "unat r + i \<in> {unat r..<unat r + unat sz}" using i by simp
    then have "unat r + i \<notin> {a + span xs + 16..<a + span xs + 16 + n}"
      using carved_payload [OF z r, of ys', THEN conjunct1] used_in_owned [OF refl, of a xs n ys, unfolded B] by blast
    ultimately have "unat r + i \<in> owned a (free_block us n vs)" unfolding owned_free_block u(1) using u(2) by auto
    then show ?thesis using h'(3) own src i by (simp add: m)
  qed
  then show ?thesis using h'(1,2) by blast
qed

section \<open>\<^verbatim>\<open>vibe_heap_calloc\<close> and \<^verbatim>\<open>vibe_heap_realloc\<close>\<close>

context fit_policy
begin

lemma calloc:
  assumes ok: "heap_ok h B" and nz: "nmemb \<noteq> 0" "sz \<noteq> 0" and bd: "unat nmemb * unat sz + 7 < 2 ^ 32"
  shows "\<exists>r h'. heap_calloc_with (heap_alloc_with search) nmemb sz h s = Some (r, h', s) \<and>
    (r = 0 \<and> h' = h \<or> r \<noteq> 0 \<and> (\<exists>B'. heap_ok h' B') \<and> (\<forall>i<unat nmemb * unat sz. snd h' (unat r + i) = 0) \<and>
       (\<forall>i\<in>owned (unat (hs_pool (fst h))) B. snd h' i = snd h i))"
proof -
  have t: "unat (nmemb * sz) = unat nmemb * unat sz" using bd by (subst unat_times_u32) simp_all
  have "unat nmemb > 0" "unat sz > 0" using nz by (simp_all add: unat_gt_0)
  then have t0: "nmemb * sz \<noteq> 0" using t by (metis mult_pos_pos not_gr_zero unat_0)
  have "unat nmemb \<le> 0xFFFFFFFF div unat sz" using bd \<open>unat sz > 0\<close> by (simp add: less_eq_div_iff_mult_less_eq)
  then have g: "\<not> nmemb > 0xFFFFFFFF div sz" by (simp add: word_less_nat_alt unat_div)
  define z where "z = unat (HEAP_ALIGN_UP (nmemb * sz))"
  have z: "unat (nmemb * sz) \<le> z" using align_up_bounds [of "nmemb * sz"] t t0 bd by (simp add: z_def)
  from alloc [OF ok t0, of s, folded z_def] obtain r h1 where
    a: "heap_alloc_with search (nmemb * sz) h s = Some (r, h1, s)" and
    r: "r = 0 \<and> h1 = h \<and> (\<forall>b\<in>set B. \<not> fits z b) \<or>
     (\<exists>xs n ys. B = xs @ (n, True) # ys \<and> z \<le> n \<and> pick z xs n ys \<and> unat r = unat (hs_pool (fst h)) + span xs + 16 \<and> heap_ok h1 (take_block z xs n ys) \<and>
        hs_pool (fst h1) = hs_pool (fst h) \<and> (\<forall>i\<in>owned (unat (hs_pool (fst h))) B. snd h1 i = snd h i))"
    by (elim exE conjE) (rule that)
  let ?m = "mem_set (unat r) 0 (unat (nmemb * sz)) (snd h1)"
  have eq: "heap_calloc_with (heap_alloc_with search) nmemb sz h s = Some (r, (fst h1, if r \<noteq> 0 then ?m else snd h1), s)"
    using nz g by (simp add: heap_calloc_with_def a case_prod_beta)
  from r show ?thesis
  proof
    assume "r = 0 \<and> h1 = h \<and> (\<forall>b\<in>set B. \<not> fits z b)"
    then show ?thesis unfolding eq by simp
  next
    assume "\<exists>xs n ys. B = xs @ (n, True) # ys \<and> z \<le> n \<and> pick z xs n ys \<and> unat r = unat (hs_pool (fst h)) + span xs + 16 \<and> heap_ok h1 (take_block z xs n ys) \<and>
        hs_pool (fst h1) = hs_pool (fst h) \<and> (\<forall>i\<in>owned (unat (hs_pool (fst h))) B. snd h1 i = snd h i)"
    then obtain xs n ys where x: "B = xs @ (n, True) # ys" "z \<le> n" "unat r = unat (hs_pool (fst h)) + span xs + 16" "heap_ok h1 (take_block z xs n ys)"
        "hs_pool (fst h1) = hs_pool (fst h)" "\<forall>i\<in>owned (unat (hs_pool (fst h))) B. snd h1 i = snd h i"
      by (elim exE conjE) (rule that)
    have r0: "r \<noteq> 0" using x(3) by auto
    obtain k zs where k: "take_block z xs n ys = xs @ (k, False) # zs" "z \<le> k" using take_block_used [OF x(2)] by blast
    have "heap_ok (fst h1, ?m) (take_block z xs n ys)"
      by (rule heap_ok_payload [where m = "snd h1", OF _ k(1)]) (use x(3-5) z k(2) in \<open>auto simp: mem_set_other\<close>)
    moreover have "?m i = snd h i" if "i \<in> owned (unat (hs_pool (fst h))) B" for i
    proof -
      have "i \<notin> {unat r..<unat r + unat (nmemb * sz)}" using carved_payload [OF x(2) z x(3), of ys] that x(1) by blast
      then show ?thesis using x(6) that by (auto simp: mem_set_def)
    qed
    ultimately show ?thesis unfolding eq using r0 by (auto simp: mem_set_def t)
  qed
qed

lemma realloc:
  assumes ok: "heap_ok h (xs @ (n, False) # ys)" and ptr: "unat ptr = unat (hs_pool (fst h)) + span xs + 16"
    and sz: "sz \<noteq> 0" "unat sz + 7 < 2 ^ 32"
  shows "\<exists>r h'. heap_realloc_with (heap_alloc_with search) check ptr sz h s = Some (r, h', s) \<and>
    (r = 0 \<and> h' = h \<or> r \<noteq> 0 \<and> (\<exists>B'. heap_ok h' B') \<and> (\<forall>i<min n (unat sz). snd h' (unat r + i) = snd h (unat ptr + i)))"
proof -
  let ?B = "xs @ (n, False) # ys"
  define a where "a = unat (hs_pool (fst h))"
  define z where "z = unat (HEAP_ALIGN_UP sz)"
  have z: "unat sz \<le> z" using align_up_bounds [OF sz(2,1)] by (simp add: z_def)
  have p0: "ptr \<noteq> 0" using ptr by auto
  have blk: "unat (ptr - 16) = a + span xs" using ptr by (simp add: a_def unat_minus_u32 word_le_nat_alt)
  have old: "unat (hdr_size (snd h) (hdr_from_ptr ptr)) = n"
    using ok by (simp add: heap_ok_def hdr_from_ptr_def hdr_size_def blk hseg_append flip: a_def)
  show ?thesis
  proof (cases "z \<le> n")
    case True
    then have "heap_realloc_with (heap_alloc_with search) check ptr sz h s = Some (ptr, h, s)"
      using p0 sz(1) old by (simp add: heap_realloc_with_def word_le_nat_alt flip: z_def)
    then show ?thesis using ok p0 by auto
  next
    case False
    from alloc [OF ok sz(1), of s, folded z_def a_def] obtain r h1 where
      al: "heap_alloc_with search sz h s = Some (r, h1, s)" and
      r: "r = 0 \<and> h1 = h \<and> (\<forall>b\<in>set ?B. \<not> fits z b) \<or>
       (\<exists>xs' n' ys'. ?B = xs' @ (n', True) # ys' \<and> z \<le> n' \<and> pick z xs' n' ys' \<and> unat r = a + span xs' + 16 \<and> heap_ok h1 (take_block z xs' n' ys') \<and>
          hs_pool (fst h1) = hs_pool (fst h) \<and> (\<forall>i\<in>owned a ?B. snd h1 i = snd h i))"
      by (elim exE conjE) (rule that)
    let ?n = "unat (if hdr_size (snd h) (hdr_from_ptr ptr) < sz then hdr_size (snd h) (hdr_from_ptr ptr) else sz)"
    have n: "?n = min n (unat sz)" using old by (simp add: word_less_nat_alt)
    define m where "m = mem_copy (unat r) (unat ptr) (min n (unat sz)) (snd h1)"
    have eq: "heap_realloc_with (heap_alloc_with search) check ptr sz h s =
        (if r = 0 then Some (0, h1, s) else do { (h', s) \<leftarrow> vibe_heap_free check ptr (fst h1, m) s; Some (r, h', s) })"
      using p0 sz(1) False old n unfolding m_def
      by (simp add: heap_realloc_with_def al word_le_nat_alt case_prod_beta Let_def flip: z_def)
    from r show ?thesis
    proof
      assume "r = 0 \<and> h1 = h \<and> (\<forall>b\<in>set ?B. \<not> fits z b)"
      then show ?thesis unfolding eq by simp
    next
      assume "\<exists>xs' n' ys'. ?B = xs' @ (n', True) # ys' \<and> z \<le> n' \<and> pick z xs' n' ys' \<and> unat r = a + span xs' + 16 \<and> heap_ok h1 (take_block z xs' n' ys') \<and>
          hs_pool (fst h1) = hs_pool (fst h) \<and> (\<forall>i\<in>owned a ?B. snd h1 i = snd h i)"
      then obtain xs' n' ys' where x: "?B = xs' @ (n', True) # ys'" "z \<le> n'" "unat r = a + span xs' + 16" "heap_ok h1 (take_block z xs' n' ys')"
          "hs_pool (fst h1) = hs_pool (fst h)" "\<forall>i\<in>owned a ?B. snd h1 i = snd h i"
        by (elim exE conjE) (rule that)
      from realloc_move [OF x(2) z x(3) x(4) x(1) x(6), where ptr = ptr and check = check and s = s, folded m_def] ptr x(5)
      obtain h' B' where f: "vibe_heap_free check ptr (fst h1, m) s = Some (h', s)" "heap_ok h' B'"
          "\<forall>i<min n (unat sz). snd h' (unat r + i) = snd h (unat ptr + i)" by (auto simp: a_def)
      have "r \<noteq> 0" using x(3) by auto
      then have "heap_realloc_with (heap_alloc_with search) check ptr sz h s = Some (r, h', s)" unfolding eq using f(1) by simp
      then show ?thesis using f(2,3) \<open>r \<noteq> 0\<close> by blast
    qed
  qed
qed

end

text \<open>
  C32: \<^verbatim>\<open>vibe_heap_calloc\<close>, first-fit or best-fit: a product that does not fit 32 bits gives NULL and touches nothing; otherwise the call returns, either NULL with the
  heap unchanged or a pointer to \<^verbatim>\<open>nmemb * size\<close> zero bytes, and no byte a caller owns changes.\<close>

theorem heap_calloc_zeroes:
  assumes "calloc \<in> {ff_heap_calloc, bf_heap_calloc}" "heap_ok h B" "nmemb \<noteq> 0" "sz \<noteq> 0"
  shows "(2 ^ 32 \<le> unat nmemb * unat sz \<longrightarrow> calloc nmemb sz h s = Some (0, h, s)) \<and>
    (unat nmemb * unat sz + 7 < 2 ^ 32 \<longrightarrow>
      (\<exists>r h'. calloc nmemb sz h s = Some (r, h', s) \<and>
        (r = 0 \<and> h' = h \<or> r \<noteq> 0 \<and> (\<exists>B'. heap_ok h' B') \<and> (\<forall>i<unat nmemb * unat sz. snd h' (unat r + i) = 0) \<and>
           (\<forall>i\<in>owned (unat (hs_pool (fst h))) B. snd h' i = snd h i))))"
proof (intro conjI impI)
  assume o: "2 ^ 32 \<le> unat nmemb * unat sz"
  have "unat sz > 0" using assms(4) by (simp add: unat_gt_0)
  then have "0xFFFFFFFF div unat sz < unat nmemb" using o by (simp add: div_less_iff_less_mult)
  then have "nmemb > 0xFFFFFFFF div sz" by (simp add: word_less_nat_alt unat_div)
  then show "calloc nmemb sz h s = Some (0, h, s)" using assms(1) by (auto simp: ff_heap_calloc_def bf_heap_calloc_def heap_calloc_with_def)
next
  assume "unat nmemb * unat sz + 7 < 2 ^ 32"
  then show "\<exists>r h'. calloc nmemb sz h s = Some (r, h', s) \<and>
        (r = 0 \<and> h' = h \<or> r \<noteq> 0 \<and> (\<exists>B'. heap_ok h' B') \<and> (\<forall>i<unat nmemb * unat sz. snd h' (unat r + i) = 0) \<and>
           (\<forall>i\<in>owned (unat (hs_pool (fst h))) B. snd h' i = snd h i))"
    using ff.calloc [OF assms(2-4), of s] bf.calloc [OF assms(2-4), of s] assms(1)
    unfolding ff_heap_calloc_def bf_heap_calloc_def ff_heap_alloc_def bf_heap_alloc_def by blast
qed

theorem heap_calloc_zeroes_witness:
  "\<forall>s. ff_heap_calloc 0x10000 0x10000 demo_heap s = Some (0, demo_heap, s) \<and> (\<exists>r h'. bf_heap_calloc 2 3 demo_heap s = Some (r, h', s))"
proof
  fix s
  have ok: "heap_ok demo_heap [(48, True)]" using demo_rep by (simp add: heap_rep_def)
  show "ff_heap_calloc 0x10000 0x10000 demo_heap s = Some (0, demo_heap, s) \<and> (\<exists>r h'. bf_heap_calloc 2 3 demo_heap s = Some (r, h', s))"
    using heap_calloc_zeroes [of ff_heap_calloc demo_heap _ "0x10000" "0x10000" s, OF _ ok]
      heap_calloc_zeroes [of bf_heap_calloc demo_heap _ 2 3 s, OF _ ok] by auto
qed

text \<open>
  C28: \<^verbatim>\<open>vibe_heap_realloc\<close> of an allocated block, first-fit or best-fit, for a non-zero size that the alignment does not wrap: it returns, either NULL with the
  heap and the old block untouched, or a pointer whose first bytes are those of the old block, up to the smaller of the two sizes, in a well-formed heap.\<close>

theorem heap_realloc_keeps_content:
  assumes "realloc \<in> {ff_heap_realloc, bf_heap_realloc}" "heap_ok h (xs @ (n, False) # ys)"
    "unat ptr = unat (hs_pool (fst h)) + span xs + 16" "sz \<noteq> 0" "unat sz + 7 < 2 ^ 32"
  shows "\<exists>r h'. realloc check ptr sz h s = Some (r, h', s) \<and>
    (r = 0 \<and> h' = h \<or> r \<noteq> 0 \<and> (\<exists>B'. heap_ok h' B') \<and> (\<forall>i<min n (unat sz). snd h' (unat r + i) = snd h (unat ptr + i)))"
  using ff.realloc [OF assms(2-5), of check s] bf.realloc [OF assms(2-5), of check s] assms(1)
  unfolding ff_heap_realloc_def bf_heap_realloc_def ff_heap_alloc_def bf_heap_alloc_def by blast

theorem heap_realloc_keeps_content_witness:
  "\<forall>s. \<exists>h r h'. heap_ok h [(16, False), (16, True)] \<and> ff_heap_realloc True 24 20 h s = Some (r, h', s)"
proof
  fix s
  obtain h where h: "heap_rep h [(16, False), (16, True)]" "hs_pool (fst h) = 8" using demo_used by blast
  from heap_realloc_keeps_content [of ff_heap_realloc h "[]" 16 "[(16, True)]" 24 20 True s] h
  obtain r h' where "ff_heap_realloc True 24 20 h s = Some (r, h', s)" by (auto simp: heap_rep_def)
  with h(1) show "\<exists>h r h'. heap_ok h [(16, False), (16, True)] \<and> ff_heap_realloc True 24 20 h s = Some (r, h', s)"
    unfolding heap_rep_def by blast
qed

text \<open>
  C32: \<^verbatim>\<open>HEAP_ALIGN_UP\<close> wraps for the seven largest sizes: a request for nearly 4 GiB is rounded to 0, and the allocators answer it with a pointer whenever any block is
  free, although that block is smaller than the request.\<close>

theorem heap_alloc_wraps:
  assumes "alloc \<in> {ff_heap_alloc, bf_heap_alloc}" "heap_ok h B" "\<exists>b\<in>set B. snd b" "0xFFFFFFF9 \<le> unat sz"
  shows "HEAP_ALIGN_UP sz = 0 \<and> (\<exists>r h'. alloc sz h s = Some (r, h', s) \<and> r \<noteq> 0) \<and> span B < unat sz"
proof (intro conjI)
  have m: "(7 :: u32) = mask 3" by (simp add: mask_eq_exp_minus_1)
  have "unat (sz + 7) = (unat sz + 7) mod 2 ^ 32" by (simp add: unat_word_ariths)
  also have "\<dots> = unat sz + 7 - 2 ^ 32" using assms(4) u32_bound [of sz] by (simp add: mod_if)
  finally have "unat (sz + 7) < 8" using u32_bound [of sz] by simp
  then have "unat (HEAP_ALIGN_UP sz) = 0" unfolding HEAP_ALIGN_UP_def using unat_clear_low3 [of "sz + 7"] unfolding m by simp
  then show z: "HEAP_ALIGN_UP sz = 0" by (simp add: unsigned_eq_0_iff)
  have s0: "sz \<noteq> 0" using assms(4) by auto
  obtain b where b: "b \<in> set B" "fits 0 b" using assms(3) by (auto simp: fits_def)
  have "\<exists>r h'. heap_alloc_with ff_search sz h s = Some (r, h', s) \<and> r \<noteq> 0"
    using ff.alloc [OF assms(2) s0, of s] b by (fastforce simp: z)
  moreover have "\<exists>r h'. heap_alloc_with (\<lambda>m sz b. bf_search m sz b 0) sz h s = Some (r, h', s) \<and> r \<noteq> 0"
    using bf.alloc [OF assms(2) s0, of s] b by (fastforce simp: z)
  ultimately show "\<exists>r h'. alloc sz h s = Some (r, h', s) \<and> r \<noteq> 0"
    using assms(1) unfolding ff_heap_alloc_def bf_heap_alloc_def by blast
  have "0 < unat (hs_pool (fst h))" "unat (hs_pool (fst h)) mod 8 = 0" using assms(2) by (simp_all add: heap_ok_def)
  then have "8 \<le> unat (hs_pool (fst h))" by presburger
  then show "span B < unat sz" using assms(2,4) by (simp add: heap_ok_def)
qed

theorem heap_alloc_wraps_witness: "\<forall>s. \<exists>r h'. ff_heap_alloc 0xFFFFFFFF demo_heap s = Some (r, h', s) \<and> r \<noteq> 0"
proof
  fix s
  have ok: "heap_ok demo_heap [(48, True)]" using demo_rep by (simp add: heap_rep_def)
  show "\<exists>r h'. ff_heap_alloc 0xFFFFFFFF demo_heap s = Some (r, h', s) \<and> r \<noteq> 0"
    using heap_alloc_wraps [OF _ ok, of ff_heap_alloc "0xFFFFFFFF" s] by simp
qed

end
