(* ===== verification/Vibe_Tlsf.thy ===== *)
theory Vibe_Tlsf
  imports Vibe_Heap
begin

text \<open>
  The two-level segregated fit heap (\<^verbatim>\<open>lib/heap/heap_tlsf.c\<close>), the default allocator. Block headers live in the managed memory, at their C offsets:
  \<^verbatim>\<open>prev_phys\<close> 0, \<^verbatim>\<open>size_flags\<close> 4, \<^verbatim>\<open>next_free\<close> 8, \<^verbatim>\<open>prev_free\<close> 12; the payload starts at 8. So does the null block, at its place in
  the control structure. The bitmaps and list heads of the control structure are a record, and an index outside
  its arrays is \<^term>\<open>None\<close>.
\<close>

section \<open>Blocks\<close>

definition BLOCK_IS_FREE :: u32 where "BLOCK_IS_FREE = 1"

definition BLOCK_PREV_FREE :: u32 where "BLOCK_PREV_FREE = 2"

definition BLOCK_SIZE_MASK :: u32 where "BLOCK_SIZE_MASK = NOT (BLOCK_IS_FREE OR BLOCK_PREV_FREE)"

definition BLOCK_PAYLOAD_MIN :: u32 where "BLOCK_PAYLOAD_MIN = 8"

definition BLOCK_HDR_OFFSET :: u32 where "BLOCK_HDR_OFFSET = 8"

definition FL_INDEX_COUNT :: nat where "FL_INDEX_COUNT = 20"

definition SL_INDEX_COUNT :: nat where "SL_INDEX_COUNT = 8"

definition prev_phys :: "memory \<Rightarrow> u32 \<Rightarrow> u32" where "prev_phys m b = ld32 m (unat b)"

definition size_flags :: "memory \<Rightarrow> u32 \<Rightarrow> u32" where "size_flags m b = ld32 m (unat b + 4)"

definition next_free :: "memory \<Rightarrow> u32 \<Rightarrow> u32" where "next_free m b = ld32 m (unat b + 8)"

definition prev_free :: "memory \<Rightarrow> u32 \<Rightarrow> u32" where "prev_free m b = ld32 m (unat b + 12)"

definition set_prev_phys :: "u32 \<Rightarrow> u32 \<Rightarrow> memory \<Rightarrow> memory" where "set_prev_phys b v m = st32 (unat b) v m"

definition set_size_flags :: "u32 \<Rightarrow> u32 \<Rightarrow> memory \<Rightarrow> memory" where "set_size_flags b v m = st32 (unat b + 4) v m"

definition set_next_free :: "u32 \<Rightarrow> u32 \<Rightarrow> memory \<Rightarrow> memory" where "set_next_free b v m = st32 (unat b + 8) v m"

definition set_prev_free :: "u32 \<Rightarrow> u32 \<Rightarrow> memory \<Rightarrow> memory" where "set_prev_free b v m = st32 (unat b + 12) v m"

lemmas field_defs = prev_phys_def size_flags_def next_free_def prev_free_def
  set_prev_phys_def set_size_flags_def set_next_free_def set_prev_free_def

definition block_size :: "memory \<Rightarrow> u32 \<Rightarrow> u32" where
  "block_size m b = size_flags m b AND BLOCK_SIZE_MASK"

definition block_set_size :: "u32 \<Rightarrow> u32 \<Rightarrow> memory \<Rightarrow> memory" where
  "block_set_size b sz m = set_size_flags b ((size_flags m b AND NOT BLOCK_SIZE_MASK) OR (sz AND BLOCK_SIZE_MASK)) m"

definition block_is_free :: "memory \<Rightarrow> u32 \<Rightarrow> bool" where
  "block_is_free m b \<longleftrightarrow> size_flags m b AND BLOCK_IS_FREE \<noteq> 0"

definition block_set_free :: "u32 \<Rightarrow> memory \<Rightarrow> memory" where
  "block_set_free b m = set_size_flags b (size_flags m b OR BLOCK_IS_FREE) m"

definition block_set_used :: "u32 \<Rightarrow> memory \<Rightarrow> memory" where
  "block_set_used b m = set_size_flags b (size_flags m b AND NOT BLOCK_IS_FREE) m"

definition block_prev_is_free :: "memory \<Rightarrow> u32 \<Rightarrow> bool" where
  "block_prev_is_free m b \<longleftrightarrow> size_flags m b AND BLOCK_PREV_FREE \<noteq> 0"

definition block_set_prev_free :: "u32 \<Rightarrow> memory \<Rightarrow> memory" where
  "block_set_prev_free b m = set_size_flags b (size_flags m b OR BLOCK_PREV_FREE) m"

definition block_set_prev_used :: "u32 \<Rightarrow> memory \<Rightarrow> memory" where
  "block_set_prev_used b m = set_size_flags b (size_flags m b AND NOT BLOCK_PREV_FREE) m"

definition block_next :: "memory \<Rightarrow> u32 \<Rightarrow> u32" where
  "block_next m b = b + BLOCK_HDR_OFFSET + block_size m b"

definition block_to_ptr :: "u32 \<Rightarrow> u32" where
  "block_to_ptr b = b + BLOCK_HDR_OFFSET"

definition ptr_to_block :: "u32 \<Rightarrow> u32" where
  "ptr_to_block p = p - BLOCK_HDR_OFFSET"

section \<open>Size classes\<close>

definition mapping :: "u32 \<Rightarrow> nat \<times> nat" where
  "mapping sz =
     (if sz < BIT (3 + 3) then (0, unat (drop_bit 3 sz))
      else
        (let fl = 31 - builtin_clz sz;
             sl = unat (drop_bit (fl - 3) sz - of_nat SL_INDEX_COUNT)
         in (fl - 3, sl)))"

definition round_up_size :: "u32 \<Rightarrow> u32" where
  "round_up_size sz =
     (if sz < BIT (3 + 3) then sz
      else
        (let fl = 31 - builtin_clz sz;
             round = BIT (fl - 3) - 1
         in (sz + round) AND NOT round))"

section \<open>Free lists\<close>

record tlsf_ctl_t =
  fl_bitmap :: u32
  sl_bitmap :: "nat \<Rightarrow> u32"
  free_head :: "nat \<Rightarrow> nat \<Rightarrow> u32"

type_synonym tlsf_mem = "tlsf_ctl_t \<times> memory"

definition in_table :: "nat \<Rightarrow> nat \<Rightarrow> bool" where
  "in_table fl sl \<longleftrightarrow> fl < FL_INDEX_COUNT \<and> sl < SL_INDEX_COUNT"

text \<open>\<open>nb\<close> is \<^verbatim>\<open>&ctl->null_block\<close>.\<close>

definition free_list_insert :: "u32 \<Rightarrow> u32 \<Rightarrow> tlsf_mem \<Rightarrow> tlsf_mem option" where
  "free_list_insert nb blk cm =
     (let (ctl, m) = cm;
          (fl, sl) = mapping (block_size m blk)
      in if \<not> in_table fl sl then None
         else
           (let head = free_head ctl fl sl;
                m = set_next_free blk head m;
                m = set_prev_free blk nb m;
                m = (if head \<noteq> nb then set_prev_free head blk m else m);
                ctl = ctl\<lparr>free_head := (free_head ctl)(fl := (free_head ctl fl)(sl := blk))\<rparr>;
                ctl = ctl\<lparr>fl_bitmap := fl_bitmap ctl OR BIT fl\<rparr>;
                ctl = ctl\<lparr>sl_bitmap := (sl_bitmap ctl)(fl := sl_bitmap ctl fl OR BIT sl)\<rparr>
            in Some (ctl, m)))"

definition free_list_remove :: "u32 \<Rightarrow> u32 \<Rightarrow> tlsf_mem \<Rightarrow> tlsf_mem option" where
  "free_list_remove nb blk cm =
     (let (ctl, m) = cm;
          (fl, sl) = mapping (block_size m blk);
          m = set_next_free (prev_free m blk) (next_free m blk) m;
          m = set_prev_free (next_free m blk) (prev_free m blk) m
      in if \<not> in_table fl sl then None
         else if free_head ctl fl sl = blk then
           (let ctl = ctl\<lparr>free_head := (free_head ctl)(fl := (free_head ctl fl)(sl := next_free m blk))\<rparr>
            in if next_free m blk = nb then
                 (let ctl = ctl\<lparr>sl_bitmap := (sl_bitmap ctl)(fl := sl_bitmap ctl fl AND NOT (BIT sl))\<rparr>
                  in if sl_bitmap ctl fl = 0 then Some (ctl\<lparr>fl_bitmap := fl_bitmap ctl AND NOT (BIT fl)\<rparr>, m) else Some (ctl, m))
               else Some (ctl, m))
         else Some (ctl, m))"

text \<open>The result 0 is \<^verbatim>\<open>NULL\<close>.\<close>

definition locate_free :: "u32 \<Rightarrow> u32 \<Rightarrow> tlsf_ctl_t \<Rightarrow> u32 option" where
  "locate_free nb sz ctl =
     (if sz = 0 then Some 0
      else
        (let (fl, sl) = mapping (round_up_size sz) in
         if \<not> in_table fl sl then None
         else
           (let sl_map = sl_bitmap ctl fl AND push_bit sl (- 1) in
            if sl_map = 0 then
              (let fl_map = fl_bitmap ctl AND push_bit (fl + 1) (- 1) in
               if fl_map = 0 then Some 0
               else
                 (let fl = builtin_ctz fl_map;
                      sl_map = (if fl < FL_INDEX_COUNT then sl_bitmap ctl fl else 0);
                      sl = builtin_ctz sl_map
                  in if sl_map = 0 \<or> \<not> in_table fl sl then None
                     else Some (if free_head ctl fl sl \<noteq> nb then free_head ctl fl sl else 0)))
            else
              (let sl = builtin_ctz sl_map in
               if \<not> in_table fl sl then None
               else Some (if free_head ctl fl sl \<noteq> nb then free_head ctl fl sl else 0)))))"

section \<open>Merging and splitting\<close>

definition merge_prev :: "u32 \<Rightarrow> u32 \<Rightarrow> tlsf_mem \<Rightarrow> (u32 \<times> tlsf_mem) option" where
  "merge_prev nb blk cm =
     (if block_prev_is_free (snd cm) blk then
        do {
          let prev = prev_phys (snd cm) blk;
          (ctl, m) \<leftarrow> free_list_remove nb prev cm;
          let m = set_size_flags prev ((size_flags m prev AND NOT BLOCK_SIZE_MASK) OR (block_size m prev + BLOCK_HDR_OFFSET + block_size m blk)) m;
          let m = set_prev_phys (block_next m prev) prev m;
          Some (prev, ctl, m)
        }
      else Some (blk, cm))"

definition merge_next :: "u32 \<Rightarrow> u32 \<Rightarrow> tlsf_mem \<Rightarrow> (u32 \<times> tlsf_mem) option" where
  "merge_next nb blk cm =
     (let nxt = block_next (snd cm) blk in
      if block_is_free (snd cm) nxt then
        do {
          (ctl, m) \<leftarrow> free_list_remove nb nxt cm;
          let m = block_set_size blk (block_size m blk + BLOCK_HDR_OFFSET + block_size m nxt) m;
          let m = set_prev_phys (block_next m blk) blk m;
          Some (blk, ctl, m)
        }
      else Some (blk, cm))"

definition block_split :: "u32 \<Rightarrow> u32 \<Rightarrow> memory \<Rightarrow> u32 \<times> memory" where
  "block_split blk sz m =
     (let rem = block_to_ptr blk + sz;
          rem_size = block_size m blk - sz - BLOCK_HDR_OFFSET;
          m = set_size_flags rem rem_size m;
          m = set_prev_phys rem blk m;
          m = block_set_size blk sz m;
          after = block_next m rem
      in (rem, set_prev_phys after rem m))"

section \<open>The pool\<close>

record tlsf_t =
  tl_pool :: u32
  CONFIG_HEAP_SIZE :: u32
  tl_lock :: vibe_spinlock_t
  g_ctl :: "tlsf_ctl_t option"

type_synonym tlsf = "tlsf_t \<times> memory"

definition SIZEOF_CTL :: nat where "SIZEOF_CTL = 740"

text \<open>\<^verbatim>\<open>&ctl->null_block\<close> for a control structure at the start of the pool.\<close>

definition null_block :: "tlsf_t \<Rightarrow> u32" where
  "null_block st = tl_pool st + 724"

definition tlsf_init :: "tlsf \<Rightarrow> tlsf option" where
  "tlsf_init h =
     (let (st, m) = h;
          nb = null_block st;
          m = mem_set (unat (tl_pool st)) 0 SIZEOF_CTL m;
          m = set_next_free nb nb m;
          m = set_prev_free nb nb m;
          m = set_size_flags nb 0 m;
          ctl = \<lparr>fl_bitmap = 0, sl_bitmap = (\<lambda>_. 0), free_head = (\<lambda>_ _. nb)\<rparr>;
          pool_start = tl_pool st + HEAP_ALIGN_UP (of_nat SIZEOF_CTL);
          pool_end = tl_pool st + CONFIG_HEAP_SIZE st;
          sentinel = pool_end - BLOCK_HDR_OFFSET;
          m = set_size_flags sentinel (0 OR BLOCK_PREV_FREE) m;
          m = set_prev_phys sentinel 0 m;
          main_blk = pool_start;
          main_size = pool_end - pool_start - BLOCK_HDR_OFFSET - BLOCK_HDR_OFFSET;
          m = set_size_flags main_blk (main_size OR BLOCK_IS_FREE) m;
          m = set_prev_phys main_blk 0 m;
          m = set_prev_phys sentinel main_blk m;
          m = block_set_prev_free sentinel m
      in do { (ctl, m) \<leftarrow> free_list_insert nb main_blk (ctl, m); Some (st\<lparr>g_ctl := Some ctl\<rparr>, m) })"

text \<open>The body of \<^verbatim>\<open>vibe_heap_alloc\<close> under the lock, for a block that was found.\<close>

definition tlsf_take :: "u32 \<Rightarrow> u32 \<Rightarrow> u32 \<Rightarrow> tlsf_mem \<Rightarrow> (u32 \<times> tlsf_mem) option" where
  "tlsf_take nb blk sz cm =
     do {
       (ctl, m) \<leftarrow> free_list_remove nb blk cm;
       let rem_size = block_size m blk - sz;
       (ctl, m) \<leftarrow>
         (if rem_size \<ge> BLOCK_HDR_OFFSET + BLOCK_PAYLOAD_MIN then
            (let (rem, m) = block_split blk sz m;
                 m = block_set_prev_used rem m
             in free_list_insert nb rem (ctl, m))
          else Some (ctl, m));
       let m = block_set_used blk m;
       let m = block_set_prev_free (block_next m blk) m;
       let m = block_set_prev_used (block_next m blk) m;
       Some (block_to_ptr blk, ctl, m)
     }"

definition tlsf_heap_alloc :: "u32 \<Rightarrow> tlsf \<Rightarrow> kstate \<Rightarrow> (u32 \<times> tlsf \<times> kstate) option" where
  "tlsf_heap_alloc sz h s =
     (if sz = 0 then Some (0, h, s)
      else
        (let sz = HEAP_ALIGN_UP sz;
             sz = (if sz < BLOCK_PAYLOAD_MIN then BLOCK_PAYLOAD_MIN else sz);
             (st, m) = h
         in do {
              (key, l, s) \<leftarrow> vibe_spinlock_lock_irqsave (tl_lock st) s;
              (st, m) \<leftarrow> (if g_ctl st = None then tlsf_init (st, m) else Some (st, m));
              ctl \<leftarrow> g_ctl st;
              blk \<leftarrow> locate_free (null_block st) sz ctl;
              (ret, ctl, m) \<leftarrow> (if blk \<noteq> 0 then tlsf_take (null_block st) blk sz (ctl, m) else Some (0, ctl, m));
              let (l, s) = vibe_spinlock_unlock_irqrestore l key s;
              Some (ret, (st\<lparr>g_ctl := Some ctl, tl_lock := l\<rparr>, m), s)
            }))"

text \<open>The body of \<^verbatim>\<open>vibe_heap_free\<close> under the lock, for a block just marked free.\<close>

definition tlsf_put :: "u32 \<Rightarrow> u32 \<Rightarrow> tlsf_mem \<Rightarrow> tlsf_mem option" where
  "tlsf_put nb blk cm =
     do {
       (blk, ctl, m) \<leftarrow> merge_prev nb blk cm;
       (blk, ctl, m) \<leftarrow> merge_next nb blk (ctl, m);
       let m = block_set_prev_free (block_next m blk) m;
       free_list_insert nb blk (ctl, m)
     }"

text \<open>A double free that is noticed prints a message and does nothing. A free before the first allocation goes through a NULL control pointer.\<close>

definition tlsf_heap_free :: "u32 \<Rightarrow> tlsf \<Rightarrow> kstate \<Rightarrow> (tlsf \<times> kstate) option" where
  "tlsf_heap_free ptr h s =
     (if ptr = 0 then Some (h, s)
      else
        (let blk = ptr_to_block ptr;
             (st, m) = h
         in do {
              (key, l, s) \<leftarrow> vibe_spinlock_lock_irqsave (tl_lock st) s;
              if block_is_free m blk then
                (let (l, s) = vibe_spinlock_unlock_irqrestore l key s in Some ((st\<lparr>tl_lock := l\<rparr>, m), s))
              else do {
                let m = block_set_free blk m;
                ctl \<leftarrow> g_ctl st;
                (ctl, m) \<leftarrow> tlsf_put (null_block st) blk (ctl, m);
                let (l, s) = vibe_spinlock_unlock_irqrestore l key s;
                Some ((st\<lparr>g_ctl := Some ctl, tl_lock := l\<rparr>, m), s)
              }
            }))"

definition tlsf_heap_realloc :: "u32 \<Rightarrow> u32 \<Rightarrow> tlsf \<Rightarrow> kstate \<Rightarrow> (u32 \<times> tlsf \<times> kstate) option" where
  "tlsf_heap_realloc ptr sz h s =
     (if ptr = 0 then tlsf_heap_alloc sz h s
      else if sz = 0 then do { (h, s) \<leftarrow> tlsf_heap_free ptr h s; Some (0, h, s) }
      else
        (let blk = ptr_to_block ptr;
             cur_size = block_size (snd h) blk;
             new_size = HEAP_ALIGN_UP sz
         in if new_size \<le> cur_size then Some (ptr, h, s)
            else do {
              (np, (st, m), s) \<leftarrow> tlsf_heap_alloc sz h s;
              if np = 0 then Some (0, (st, m), s)
              else do {
                let m = mem_copy (unat np) (unat ptr) (unat (if cur_size < sz then cur_size else sz)) m;
                (h, s) \<leftarrow> tlsf_heap_free ptr (st, m) s;
                Some (np, h, s)
              }
            }))"

definition tlsf_heap_calloc :: "u32 \<Rightarrow> u32 \<Rightarrow> tlsf \<Rightarrow> kstate \<Rightarrow> (u32 \<times> tlsf \<times> kstate) option" where
  "tlsf_heap_calloc nmemb sz h s =
     (if nmemb = 0 \<or> sz = 0 then Some (0, h, s)
      else if nmemb > 0xFFFFFFFF div sz then Some (0, h, s)
      else do {
        let total = nmemb * sz;
        (p, (st, m), s) \<leftarrow> tlsf_heap_alloc total h s;
        let m = (if p \<noteq> 0 then mem_set (unat p) 0 (unat total) m else m);
        Some (p, (st, m), s)
      })"

partial_function (option) tlsf_walk :: "memory \<Rightarrow> u32 \<Rightarrow> vibe_heap_stats_t \<Rightarrow> vibe_heap_stats_t option" where
  "tlsf_walk m cur out =
     (let bsz = block_size m cur in
      if bsz = 0 then Some out
      else tlsf_walk m (cur + (BLOCK_HDR_OFFSET + bsz))
        (if block_is_free m cur
         then out\<lparr>st_free := st_free out + bsz, st_free_count := st_free_count out + 1,
                  st_largest_free := (if bsz > st_largest_free out then bsz else st_largest_free out)\<rparr>
         else out\<lparr>st_used := st_used out + bsz, st_alloc_count := st_alloc_count out + 1\<rparr>))"

definition tlsf_heap_stats :: "bool \<Rightarrow> tlsf \<Rightarrow> kstate \<Rightarrow> (vibe_heap_stats_t \<times> tlsf \<times> kstate) option" where
  "tlsf_heap_stats enabled h s =
     (let out = \<lparr>st_total = 0, st_used = 0, st_free = 0, st_largest_free = 0, st_alloc_count = 0, st_free_count = 0\<rparr>;
          (st, m) = h
      in if enabled then do {
           let out = out\<lparr>st_total := CONFIG_HEAP_SIZE st\<rparr>;
           (key, l, s) \<leftarrow> vibe_spinlock_lock_irqsave (tl_lock st) s;
           out \<leftarrow> (case g_ctl st of
                    None \<Rightarrow> Some (out\<lparr>st_free := CONFIG_HEAP_SIZE st\<rparr>)
                  | Some ctl \<Rightarrow> tlsf_walk m (tl_pool st + HEAP_ALIGN_UP (of_nat SIZEOF_CTL)) out);
           let (l, s) = vibe_spinlock_unlock_irqrestore l key s;
           Some (out, (st\<lparr>tl_lock := l\<rparr>, m), s)
         }
         else Some (out, h, s))"

section \<open>Good fit\<close>

lemma unat_drop_u32: "unat (drop_bit k w :: u32) = unat w div 2 ^ k"
proof -
  have "unat (drop_bit k w) = drop_bit k (take_bit 32 (unat w))" using unsigned_drop_bit_eq [where 'a = nat, of k w] by simp
  then show ?thesis using u32_bound [of w] by (simp only: take_bit_nat_eq_self drop_bit_eq_div)
qed

lemma unat_p2: "k < 32 \<Longrightarrow> unat (2 ^ k :: u32) = 2 ^ k"
proof -
  assume "k < 32"
  then have "(2 :: nat) ^ k < 2 ^ 32" by (intro power_strict_increasing) simp_all
  then show ?thesis using unat_of_nat_u32 [of "2 ^ k"] by simp
qed

lemma unat_clear_low:
  assumes "k < 32"
  shows "unat (w AND NOT (mask k) :: u32) = unat w div 2 ^ k * 2 ^ k"
proof -
  have "w AND NOT (mask k) = push_bit k (drop_bit k w)"
    by (rule bit_word_eqI) (auto simp: bit_and_iff bit_not_iff bit_mask_iff bit_push_bit_iff bit_drop_bit_eq not_less)
  then have eq: "w AND NOT (mask k) = drop_bit k w * 2 ^ k" by (simp only: push_bit_eq_mult)
  have p: "unat (2 ^ k :: u32) = 2 ^ k" using assms by (simp add: unat_p2)
  have "unat (drop_bit k w) * unat (2 ^ k :: u32) \<le> unat w" by (simp add: unat_drop_u32 p)
  then have "unat (drop_bit k w) * unat (2 ^ k :: u32) < 2 ^ 32" using u32_bound [of w] by linarith
  then have "unat (drop_bit k w * 2 ^ k) = unat (drop_bit k w) * unat (2 ^ k :: u32)" by (rule unat_times_u32)
  then show ?thesis by (simp only: eq p unat_drop_u32)
qed

text \<open>The position of the highest bit.\<close>

lemma clz_log2:
  assumes "v \<noteq> (0 :: u32)"
  shows "2 ^ (31 - builtin_clz v) \<le> unat v" "unat v < 2 ^ Suc (31 - builtin_clz v)" "31 - builtin_clz v < 32"
proof -
  let ?k = "31 - builtin_clz v"
  note top = builtin_clz_top [OF assms]
  have "drop_bit (Suc ?k) v = 0"
    by (rule bit_word_eqI) (use top(3) in \<open>fastforce simp: bit_drop_bit_eq\<close>)
  then have "unat v div 2 ^ Suc ?k = 0" using unat_drop_u32 [of "Suc ?k" v] by simp
  then show "unat v < 2 ^ Suc ?k" by (simp add: div_eq_0_iff)
  have "bit (unat v) ?k" using top(2) by (simp add: bit_unsigned_iff)
  then have "odd (unat v div 2 ^ ?k)" by (simp add: bit_iff_odd)
  then show "2 ^ ?k \<le> unat v" by (metis div_eq_0_iff even_zero not_le)
  show "?k < 32" by simp
qed

text \<open>The class of a size and the smallest size of a class.\<close>

definition cls :: "nat \<Rightarrow> nat \<times> nat" where
  "cls n = mapping (of_nat n)"

fun class_low :: "nat \<times> nat \<Rightarrow> nat" where
  "class_low (fl, sl) = (if fl = 0 then 8 * sl else (8 + sl) * 2 ^ fl)"

lemma cls_small: "n < 64 \<Longrightarrow> cls n = (0, n div 8)"
proof -
  assume n: "n < 64"
  then have "unat (of_nat n :: u32) = n" by (intro unat_of_nat_u32) simp
  then show ?thesis using n by (simp add: cls_def mapping_def BIT_def word_less_nat_alt drop_bit_eq_div unat_div)
qed

lemma cls_large:
  assumes "64 \<le> n" "n < 2 ^ 32"
  obtains k where "3 \<le> k" "k < 29" "8 * 2 ^ k \<le> n" "n < 16 * 2 ^ k" "cls n = (k, n div 2 ^ k - 8)" "31 - builtin_clz (of_nat n) = k + 3"
proof -
  let ?v = "of_nat n :: u32" and ?j = "31 - builtin_clz (of_nat n :: u32)"
  have v: "unat ?v = n" using assms(2) by (rule unat_of_nat_u32)
  then have nz: "?v \<noteq> 0" using assms(1) by auto
  note b = clz_log2 [OF nz, unfolded v]
  have j: "6 \<le> ?j"
  proof (rule ccontr)
    assume "\<not> 6 \<le> ?j"
    then have "(2 :: nat) ^ Suc ?j \<le> 2 ^ 6" by (intro power_increasing) auto
    then show False using b(2) assms(1) by simp
  qed
  define k where "k = ?j - 3"
  have k: "?j = k + 3" "3 \<le> k" "k < 29" using j b(3) by (auto simp: k_def)
  have p: "8 * 2 ^ k \<le> n" "n < 16 * 2 ^ k" using b(1,2) unfolding k(1) by (simp_all add: power_add)
  then have "8 \<le> n div 2 ^ k" by (metis div_le_mono nonzero_mult_div_cancel_right power_not_zero zero_neq_numeral)
  moreover have "unat (drop_bit k ?v) = n div 2 ^ k" by (simp add: unat_drop_u32 v)
  ultimately have "unat (drop_bit k ?v - 8) = n div 2 ^ k - 8" by (simp add: unat_minus_u32 word_le_nat_alt)
  then have "cls n = (k, n div 2 ^ k - 8)"
    using assms(1) by (simp add: cls_def mapping_def BIT_def word_less_nat_alt v k(1) SL_INDEX_COUNT_def)
  with k p show thesis using that by blast
qed

lemma cls_in_table: "n < 2 ^ 23 \<Longrightarrow> in_table (fst (cls n)) (snd (cls n))"
proof (cases "n < 64")
  case False
  assume n: "n < 2 ^ 23"
  obtain k where k: "8 * 2 ^ k \<le> n" "n < 16 * 2 ^ k" "cls n = (k, n div 2 ^ k - 8)" using cls_large [of n] False n by auto
  have "k < 20"
  proof (rule ccontr)
    assume "\<not> k < 20"
    then have "(2 :: nat) ^ 20 \<le> 2 ^ k" by (intro power_increasing) auto
    then show False using k(1) n by simp
  qed
  moreover have "n div 2 ^ k < 16" using k(2) by (simp add: less_mult_imp_div_less)
  ultimately show ?thesis by (simp add: k(3) in_table_def FL_INDEX_COUNT_def SL_INDEX_COUNT_def)
qed (auto simp: cls_small in_table_def FL_INDEX_COUNT_def SL_INDEX_COUNT_def)

lemma class_low_le: "n < 2 ^ 32 \<Longrightarrow> class_low (cls n) \<le> n"
proof (cases "n < 64")
  case False
  assume n: "n < 2 ^ 32"
  obtain k where k: "3 \<le> k" "8 * 2 ^ k \<le> n" "cls n = (k, n div 2 ^ k - 8)" using cls_large [of n] False n by auto
  then have "8 \<le> n div 2 ^ k" by (metis div_le_mono nonzero_mult_div_cancel_right power_not_zero zero_neq_numeral)
  then show ?thesis using k(1) by (simp add: k(3) div_times_less_eq_dividend)
qed (simp add: cls_small)

text \<open>A larger class starts above every size of a smaller one.\<close>

definition cls_le :: "nat \<times> nat \<Rightarrow> nat \<times> nat \<Rightarrow> bool" where
  "cls_le c d \<longleftrightarrow> fst c < fst d \<or> fst c = fst d \<and> snd c \<le> snd d"

lemma cls_mono:
  assumes "b \<le> n" "n < 2 ^ 32"
  shows "cls_le (cls b) (cls n)"
proof -
  consider "n < 64" | "b < 64" "64 \<le> n" | "64 \<le> b" using assms(1) by linarith
  then show ?thesis
  proof cases
    case 1
    then show ?thesis using assms(1) by (simp add: cls_small cls_le_def div_le_mono)
  next
    case 2
    obtain k where "3 \<le> k" "cls n = (k, n div 2 ^ k - 8)" using cls_large [OF 2(2) assms(2)] .
    then show ?thesis using 2(1) by (simp add: cls_small cls_le_def)
  next
    case 3
    obtain j where j: "8 * 2 ^ j \<le> b" "cls b = (j, b div 2 ^ j - 8)" using cls_large [of b] 3 assms by auto
    obtain k where k: "n < 16 * 2 ^ k" "cls n = (k, n div 2 ^ k - 8)" using cls_large [of n] 3 assms by auto
    have "j \<le> k"
    proof (rule ccontr)
      assume "\<not> j \<le> k"
      then have "(2 :: nat) ^ Suc k \<le> 2 ^ j" by (intro power_increasing) auto
      then show False using j(1) k(1) assms(1) by simp
    qed
    then show ?thesis using assms(1) by (cases "j = k") (simp_all add: cls_le_def j(2) k(2) div_le_mono diff_le_mono)
  qed
qed

text \<open>Rounding up: the result is the start of its class.\<close>

lemma round_up_class:
  assumes "n mod 8 = 0" "n < 2 ^ 31"
  defines "r \<equiv> unat (round_up_size (of_nat n))"
  shows "n \<le> r" "class_low (cls r) = r" "r < 2 ^ 32" "r \<le> n + n div 8"
proof -
  have v: "unat (of_nat n :: u32) = n" using assms(2) by (intro unat_of_nat_u32) simp
  have "n \<le> r \<and> class_low (cls r) = r \<and> r < 2 ^ 32 \<and> r \<le> n + n div 8"
  proof (cases "n < 64")
    case True
    then have r: "r = n" by (simp add: r_def round_up_size_def BIT_def word_less_nat_alt v)
    have "8 * (n div 8) = n" using assms(1) by (auto simp: mod_eq_0_iff_dvd)
    then show ?thesis using True by (simp add: r cls_small)
  next
    case False
    then obtain k where k: "3 \<le> k" "k < 29" "8 * 2 ^ k \<le> n" "n < 16 * 2 ^ k" "31 - builtin_clz (of_nat n) = k + 3"
      using cls_large [of n] assms(2) by auto
    let ?p = "(2 :: nat) ^ k"
    have p: "?p \<le> n div 8" using k(3) by (simp add: less_eq_div_iff_mult_less_eq mult.commute)
    have sum: "n + (?p - 1) < 2 ^ 32" using p assms(2) by simp
    have bp: "unat (BIT k) = ?p" using k(2) by (simp add: BIT_def push_bit_eq_mult unat_p2)
    have msk: "BIT k - 1 = (mask k :: u32)" "unat (mask k :: u32) = ?p - 1"
      using k(2) by (simp_all add: BIT_def push_bit_eq_mult mask_eq_exp_minus_1 unat_minus_u32 unat_p2 word_le_nat_alt)
    have "round_up_size (of_nat n) = (of_nat n + mask k) AND NOT (mask k)"
      using False k(5) by (simp add: round_up_size_def word_less_nat_alt v BIT_def [of 6] msk(1) Let_def)
    moreover have "unat (of_nat n + mask k :: u32) = n + (?p - 1)" using sum by (simp add: unat_plus_u32 v msk(2))
    ultimately have r: "r = (n + (?p - 1)) div ?p * ?p" using k(2) by (simp add: r_def unat_clear_low)
    have lo: "n \<le> r" using r dividend_less_div_times [of ?p "n + (?p - 1)"] by simp
    have hi: "r \<le> n + (?p - 1)" unfolding r by (rule div_times_less_eq_dividend)
    have b: "r < 2 ^ 32" "64 \<le> r" "?p dvd r" using hi sum lo False by (linarith, linarith, simp add: r)
    obtain j where j: "3 \<le> j" "8 * 2 ^ j \<le> r" "r < 16 * 2 ^ j" "cls r = (j, r div 2 ^ j - 8)" using cls_large [OF b(2,1)] .
    have "(2 :: nat) ^ j dvd r"
    proof (cases "j \<le> k")
      case True
      then show ?thesis using b(3) by (meson dvd_trans le_imp_power_dvd)
    next
      case f: False
      then have "16 * ?p \<le> r" using j(2) power_increasing [of "Suc k" j "2 :: nat"] by simp
      moreover have "r < 17 * ?p" using hi k(4) by simp
      ultimately have "r = 16 * ?p" using b(3) by (auto elim!: dvdE)
      moreover have "j = Suc k"
      proof (rule ccontr)
        assume "j \<noteq> Suc k"
        then have "Suc (Suc k) \<le> j" using f by simp
        then have "(2 :: nat) ^ Suc (Suc k) \<le> 2 ^ j" by (intro power_increasing) simp_all
        moreover have "0 < (2 :: nat) ^ k" by simp
        ultimately show False using j(2) \<open>r = 16 * ?p\<close> by simp
      qed
      ultimately show ?thesis by simp
    qed
    then have "class_low (cls r) = r" using j(1,2) by (auto simp: j(4) elim!: dvdE)
    then show ?thesis using lo hi p b(1) by simp
  qed
  then show "n \<le> r" "class_low (cls r) = r" "r < 2 ^ 32" "r \<le> n + n div 8" by auto
qed

text \<open>Every block of a class at or above that of the rounded size is large enough, and every block at least as large as the rounded size is in such a class.\<close>

lemma good_fit:
  assumes "n mod 8 = 0" "n < 2 ^ 31" "b < 2 ^ 32"
  shows "cls_le (mapping (round_up_size (of_nat n))) (cls b) \<Longrightarrow> n \<le> b"
    "unat (round_up_size (of_nat n)) \<le> b \<Longrightarrow> cls_le (mapping (round_up_size (of_nat n))) (cls b)"
proof -
  let ?r = "unat (round_up_size (of_nat n))"
  note r = round_up_class [OF assms(1,2)]
  have m: "mapping (round_up_size (of_nat n)) = cls ?r" by (simp add: cls_def)
  show "cls_le (mapping (round_up_size (of_nat n))) (cls b)" if "?r \<le> b" unfolding m by (rule cls_mono [OF that assms(3)])
  assume a: "cls_le (mapping (round_up_size (of_nat n))) (cls b)"
  show "n \<le> b"
  proof (rule ccontr)
    assume "\<not> n \<le> b"
    then have b: "b < ?r" using r(1) by simp
    then have "cls_le (cls b) (cls ?r)" using r(3) by (intro cls_mono) simp_all
    then have "cls b = cls ?r" using a unfolding m cls_le_def by (auto simp: prod_eq_iff)
    then show False using class_low_le [OF assms(3)] r(2) b by simp
  qed
qed

section \<open>Free lists in memory\<close>

text \<open>Addresses of block headers: word aligned and at least 16 bytes apart. The fields of different headers do not overlap.\<close>

definition spaced :: "u32 set \<Rightarrow> bool" where
  "spaced D \<longleftrightarrow> (\<forall>x\<in>D. unat x mod 4 = 0) \<and> (\<forall>x\<in>D. \<forall>y\<in>D. unat x < unat y \<longrightarrow> unat x + 16 \<le> unat y)"

lemma ld32_st32_word: "a mod 4 = 0 \<Longrightarrow> b mod 4 = 0 \<Longrightarrow> ld32 (st32 a v m) b = (if a = b then v else ld32 m b)"
proof (cases "a = b")
  case False
  assume "a mod 4 = 0" "b mod 4 = 0"
  then have "b + 4 \<le> a \<or> a + 4 \<le> b" using False by presburger
  then show ?thesis using False by (simp add: ld32_st32_other)
qed simp

lemma fld_word:
  assumes "spaced D" "x \<in> D" "y \<in> D" "i \<in> {0, 4, 8, 12}" "j \<in> {0, 4, 8, 12}"
  shows "ld32 (st32 (unat y + i) v m) (unat x + j) = (if x = y \<and> i = j then v else ld32 m (unat x + j))"
proof -
  have "unat x mod 4 = 0" "unat y mod 4 = 0" using assms(1-3) by (simp_all add: spaced_def)
  then have "(unat y + i) mod 4 = 0" "(unat x + j) mod 4 = 0" using assms(4,5) by auto
  moreover have "unat y + i = unat x + j \<longleftrightarrow> x = y \<and> i = j"
  proof (cases "x = y")
    case False
    then have "unat x + 16 \<le> unat y \<or> unat y + 16 \<le> unat x" using assms(1-3) unfolding spaced_def by (metis linorder_neqE_nat word_unat_eq_iff)
    then show ?thesis using False assms(4,5) by auto
  qed auto
  ultimately show ?thesis by (simp add: ld32_st32_word)
qed

lemma fld_rules:
  assumes "spaced D" "x \<in> D" "y \<in> D"
  shows "prev_phys (set_prev_phys y v m) x = (if x = y then v else prev_phys m x)" "size_flags (set_prev_phys y v m) x = size_flags m x"
    "next_free (set_prev_phys y v m) x = next_free m x" "prev_free (set_prev_phys y v m) x = prev_free m x"
    "prev_phys (set_size_flags y v m) x = prev_phys m x" "size_flags (set_size_flags y v m) x = (if x = y then v else size_flags m x)"
    "next_free (set_size_flags y v m) x = next_free m x" "prev_free (set_size_flags y v m) x = prev_free m x"
    "prev_phys (set_next_free y v m) x = prev_phys m x" "size_flags (set_next_free y v m) x = size_flags m x"
    "next_free (set_next_free y v m) x = (if x = y then v else next_free m x)" "prev_free (set_next_free y v m) x = prev_free m x"
    "prev_phys (set_prev_free y v m) x = prev_phys m x" "size_flags (set_prev_free y v m) x = size_flags m x"
    "next_free (set_prev_free y v m) x = next_free m x" "prev_free (set_prev_free y v m) x = (if x = y then v else prev_free m x)"
  unfolding field_defs using fld_word [OF assms, where i = 0 and v = v and m = m] fld_word [OF assms, where i = 4 and v = v and m = m]
    fld_word [OF assms, where i = 8 and v = v and m = m] fld_word [OF assms, where i = 12 and v = v and m = m]
  by fastforce+

text \<open>A doubly linked run of blocks: \<open>p\<close> before the first, \<open>e\<close> after the last.\<close>

definition first :: "u32 \<Rightarrow> u32 list \<Rightarrow> u32" where
  "first e xs = (case xs of [] \<Rightarrow> e | x # _ \<Rightarrow> x)"

definition final :: "u32 \<Rightarrow> u32 list \<Rightarrow> u32" where
  "final p xs = (if xs = [] then p else last xs)"

lemma first_simps [simp]: "first e [] = e" "first e (x # xs) = x" "first e (xs @ ys) = first (first e ys) xs"
  by (simp_all add: first_def split: list.split)

lemma final_simps [simp]: "final p [] = p" "final p (xs @ [x]) = x" "final p (x # xs) = final x xs"
  by (simp_all add: final_def)

lemma first_in: "first e xs = e \<or> first e xs \<in> set xs"
  by (cases xs) auto

lemma final_in: "final p xs = p \<or> final p xs \<in> set xs"
  by (simp add: final_def)

primrec fseg :: "memory \<Rightarrow> u32 \<Rightarrow> u32 list \<Rightarrow> u32 \<Rightarrow> bool" where
  "fseg m p [] e \<longleftrightarrow> True"
| "fseg m p (x # xs) e \<longleftrightarrow> prev_free m x = p \<and> next_free m x = first e xs \<and> fseg m x xs e"

lemma fseg_append: "fseg m p (xs @ ys) e \<longleftrightarrow> fseg m p xs (first e ys) \<and> fseg m (final p xs) ys e"
  by (induction xs arbitrary: p) auto

lemma fseg_cong:
  "(\<And>x. x \<in> set xs \<Longrightarrow> next_free m' x = next_free m x \<and> prev_free m' x = prev_free m x) \<Longrightarrow> fseg m' p xs e = fseg m p xs e"
  by (induction xs arbitrary: p) auto

text \<open>Changing what stands before or after a run changes one field of its first or last block.\<close>

lemma fseg_set_before:
  assumes "spaced D" "set (x # xs) \<subseteq> D" "distinct (x # xs)"
  shows "fseg (set_prev_free x q m) q (x # xs) e = fseg m (prev_free m x) (x # xs) e"
proof -
  have "fseg (set_prev_free x q m) x xs e = fseg m x xs e"
    using assms by (intro fseg_cong) (auto simp: fld_rules [OF assms(1)])
  then show ?thesis using assms by (simp add: fld_rules [OF assms(1)])
qed

lemma fseg_set_after:
  assumes "spaced D" "set (xs @ [x]) \<subseteq> D" "distinct (xs @ [x])"
  shows "fseg (set_next_free x q m) p (xs @ [x]) q = fseg m p (xs @ [x]) (next_free m x)"
proof -
  have "fseg (set_next_free x q m) p xs x = fseg m p xs x"
    using assms by (intro fseg_cong) (auto simp: fld_rules [OF assms(1)])
  then show ?thesis using assms by (simp add: fseg_append fld_rules [OF assms(1)])
qed

text \<open>The free lists \<open>F\<close> that a control structure and a memory represent.\<close>

type_synonym lists = "nat \<Rightarrow> nat \<Rightarrow> u32 list"

definition put_list :: "nat \<Rightarrow> nat \<Rightarrow> u32 list \<Rightarrow> lists \<Rightarrow> lists" where
  "put_list fl sl xs F = F(fl := (F fl)(sl := xs))"

lemma put_list_apply [simp]: "put_list fl sl xs F i j = (if i = fl \<and> j = sl then xs else F i j)"
  by (simp add: put_list_def)

definition maps_ok :: "tlsf_ctl_t \<Rightarrow> lists \<Rightarrow> bool" where
  "maps_ok ctl F \<longleftrightarrow>
     (\<forall>fl j. bit (sl_bitmap ctl fl) j \<longleftrightarrow> fl < FL_INDEX_COUNT \<and> j < SL_INDEX_COUNT \<and> F fl j \<noteq> []) \<and>
     (\<forall>fl. bit (fl_bitmap ctl) fl \<longleftrightarrow> fl < FL_INDEX_COUNT \<and> sl_bitmap ctl fl \<noteq> 0)"

definition lists_ok :: "u32 \<Rightarrow> tlsf_mem \<Rightarrow> lists \<Rightarrow> bool" where
  "lists_ok nb cm F \<longleftrightarrow> maps_ok (fst cm) F \<and>
     (\<forall>fl sl. in_table fl sl \<longrightarrow> fseg (snd cm) nb (F fl sl) nb \<and> free_head (fst cm) fl sl = first nb (F fl sl))"

text \<open>The blocks on the lists: headers other than the null block, each on one list.\<close>

definition placed :: "u32 set \<Rightarrow> u32 \<Rightarrow> lists \<Rightarrow> bool" where
  "placed D nb F \<longleftrightarrow> spaced D \<and> nb \<in> D \<and>
     (\<forall>fl sl. in_table fl sl \<longrightarrow> distinct (F fl sl) \<and> set (F fl sl) \<subseteq> D - {nb}) \<and>
     (\<forall>fl sl fl' sl'. in_table fl sl \<longrightarrow> in_table fl' sl' \<longrightarrow> (fl, sl) \<noteq> (fl', sl') \<longrightarrow> set (F fl sl) \<inter> set (F fl' sl') = {})"

definition on_list :: "lists \<Rightarrow> u32 \<Rightarrow> bool" where
  "on_list F x \<longleftrightarrow> (\<exists>fl sl. in_table fl sl \<and> x \<in> set (F fl sl))"

text \<open>A list operation leaves everything but the link fields of the blocks on the lists, and of the null block, alone.\<close>

definition links_only :: "u32 set \<Rightarrow> memory \<Rightarrow> memory \<Rightarrow> bool" where
  "links_only X m m' \<longleftrightarrow> (\<forall>i. (\<forall>x\<in>X. i < unat x + 8 \<or> unat x + 16 \<le> i) \<longrightarrow> m' i = m i)"

lemma links_only_refl [simp]: "links_only X m m"
  by (simp add: links_only_def)

lemma links_only_trans: "links_only X m m' \<Longrightarrow> links_only X m' m'' \<Longrightarrow> links_only X m m''"
  by (simp add: links_only_def)

lemma links_only_set:
  "x \<in> X \<Longrightarrow> links_only X m (set_next_free x v m)" "x \<in> X \<Longrightarrow> links_only X m (set_prev_free x v m)"
  unfolding links_only_def field_defs by (force intro!: st32_other)+

lemma maps_ok_insert:
  assumes "maps_ok ctl F" "in_table fl sl" "xs \<noteq> []"
  shows "maps_ok (ctl\<lparr>free_head := h, fl_bitmap := fl_bitmap ctl OR BIT fl, sl_bitmap := (sl_bitmap ctl)(fl := sl_bitmap ctl fl OR BIT sl)\<rparr>)
    (put_list fl sl xs F)"
proof -
  have b: "fl < 20" "sl < 8" "fl < 32" "sl < 32" using assms(2) by (simp_all add: in_table_def FL_INDEX_COUNT_def SL_INDEX_COUNT_def)
  have "sl_bitmap ctl fl OR BIT sl \<noteq> 0"
  proof
    assume "sl_bitmap ctl fl OR BIT sl = 0"
    then have "\<not> bit (sl_bitmap ctl fl OR BIT sl) sl" by (simp only: bit_0_eq bot_apply bool_simps) simp
    then show False using b by (simp add: bit_or_iff)
  qed
  then show ?thesis using assms b unfolding maps_ok_def
    by (auto simp: FL_INDEX_COUNT_def SL_INDEX_COUNT_def)
qed

lemma maps_ok_remove:
  assumes ok: "maps_ok ctl F" and tb: "in_table fl sl"
  defines "sm \<equiv> (sl_bitmap ctl)(fl := sl_bitmap ctl fl AND NOT (BIT sl))"
  shows "maps_ok (ctl\<lparr>free_head := h, sl_bitmap := sm, fl_bitmap := (if sm fl = 0 then fl_bitmap ctl AND NOT (BIT fl) else fl_bitmap ctl)\<rparr>) (put_list fl sl [] F)"
proof -
  have b: "fl < 20" "sl < 8" "fl < 32" "sl < 32" using tb by (simp_all add: in_table_def FL_INDEX_COUNT_def SL_INDEX_COUNT_def)
  have s: "bit (sm i) j \<longleftrightarrow> i < FL_INDEX_COUNT \<and> j < SL_INDEX_COUNT \<and> put_list fl sl [] F i j \<noteq> []" for i j
    using ok b by (auto simp: maps_ok_def sm_def)
  have "sm fl \<noteq> 0 \<Longrightarrow> sl_bitmap ctl fl \<noteq> 0" by (auto simp: sm_def)
  then have "bit (if sm fl = 0 then fl_bitmap ctl AND NOT (BIT fl) else fl_bitmap ctl) i \<longleftrightarrow> i < FL_INDEX_COUNT \<and> sm i \<noteq> 0" for i
    using ok b by (cases "i = fl") (auto simp: maps_ok_def sm_def)
  with s show ?thesis unfolding maps_ok_def by simp
qed

lemma maps_ok_keep: "maps_ok ctl F \<Longrightarrow> F fl sl \<noteq> [] \<Longrightarrow> xs \<noteq> [] \<Longrightarrow> maps_ok (ctl\<lparr>free_head := h\<rparr>) (put_list fl sl xs F)"
  by (auto simp: maps_ok_def)

lemma placedD:
  assumes "placed D nb F"
  shows "spaced D" "nb \<in> D" "in_table fl sl \<Longrightarrow> distinct (F fl sl)" "in_table fl sl \<Longrightarrow> set (F fl sl) \<subseteq> D - {nb}"
    "in_table fl sl \<Longrightarrow> in_table fl' sl' \<Longrightarrow> (fl, sl) \<noteq> (fl', sl') \<Longrightarrow> set (F fl sl) \<inter> set (F fl' sl') = {}"
  using assms unfolding placed_def by blast+

lemma placed_sub:
  assumes pl: "placed D nb F" and tb: "in_table fl sl" and xs: "distinct xs" "set xs \<subseteq> set (F fl sl)"
  shows "placed D nb (put_list fl sl xs F)"
proof -
  have sub: "set (put_list fl sl xs F i j) \<subseteq> set (F i j)" for i j using xs(2) by simp
  show ?thesis unfolding placed_def
  proof (intro conjI allI impI)
    fix i j assume t: "in_table i j"
    show "distinct (put_list fl sl xs F i j)" using placedD(3) [OF pl t] xs(1) by simp
    show "set (put_list fl sl xs F i j) \<subseteq> D - {nb}" using placedD(4) [OF pl t] sub by blast
    fix i' j' assume "in_table i' j'" "(i, j) \<noteq> (i', j')"
    from placedD(5) [OF pl t this] sub [of i j] sub [of i' j']
    show "set (put_list fl sl xs F i j) \<inter> set (put_list fl sl xs F i' j') = {}" by blast
  qed (rule placedD(1,2) [OF pl])+
qed

lemma lists_okD:
  assumes "lists_ok nb (ctl, m) F" "in_table fl sl"
  shows "maps_ok ctl F" "fseg m nb (F fl sl) nb" "free_head ctl fl sl = first nb (F fl sl)"
  using assms by (auto simp: lists_ok_def)

lemma insert_lists:
  assumes pl: "placed D nb F" and ok: "lists_ok nb (ctl, m) F" and x: "x \<in> D" "x \<noteq> nb" "\<not> on_list F x"
    and c: "mapping (block_size m x) = (fl, sl)" "in_table fl sl"
  shows "\<exists>ctl' m'. free_list_insert nb x (ctl, m) = Some (ctl', m') \<and> lists_ok nb (ctl', m') (put_list fl sl (x # F fl sl) F) \<and>
    placed D nb (put_list fl sl (x # F fl sl) F) \<and> links_only (insert x ({nb} \<union> set (F fl sl))) m m' \<and>
    (\<forall>y\<in>D. prev_phys m' y = prev_phys m y \<and> size_flags m' y = size_flags m y)"
proof -
  note fs = fld_rules [OF placedD(1) [OF pl]]
  let ?xs = "F fl sl" and ?h = "free_head ctl fl sl"
  have h: "?h = first nb ?xs" using ok c(2) by (simp add: lists_ok_def)
  have xs: "distinct ?xs" "set ?xs \<subseteq> D - {nb}" "x \<notin> set ?xs" using placedD(3,4) [OF pl c(2)] x(3) c(2) by (auto simp: on_list_def)
  have hD: "?h \<in> D" "?h \<noteq> nb \<Longrightarrow> ?h \<in> set ?xs" "?h \<noteq> x" using first_in [of nb ?xs] xs placedD(2) [OF pl] x(2) unfolding h by auto
  define m1 where "m1 = set_prev_free x nb (set_next_free x ?h m)"
  define m' where "m' = (if ?h \<noteq> nb then set_prev_free ?h x m1 else m1)"
  define ctl' where "ctl' = ctl\<lparr>free_head := (free_head ctl)(fl := (free_head ctl fl)(sl := x)), fl_bitmap := fl_bitmap ctl OR BIT fl,
    sl_bitmap := (sl_bitmap ctl)(fl := sl_bitmap ctl fl OR BIT sl)\<rparr>"
  have run: "free_list_insert nb x (ctl, m) = Some (ctl', m')"
    using c by (simp add: free_list_insert_def m'_def m1_def ctl'_def Let_def)
  have fr: "prev_phys m' y = prev_phys m y \<and> size_flags m' y = size_flags m y" if "y \<in> D" for y
    using that x hD by (auto simp: m'_def m1_def fs)
  have keep: "next_free m' y = next_free m y \<and> prev_free m' y = prev_free m y" if "y \<in> D" "y \<noteq> x" "y \<noteq> ?h" for y
    using that x hD by (auto simp: m'_def m1_def fs)
  have xl: "prev_free m' x = nb" "next_free m' x = ?h" using x hD by (auto simp: m'_def m1_def fs)
  have seg: "fseg m' x ?xs nb"
  proof (cases ?xs)
    case (Cons y ys)
    then have y: "?h = y" "y \<noteq> nb" using h xs(2) by auto
    have "fseg m' y ys nb = fseg m y ys nb" using Cons xs x(3) y by (intro fseg_cong keep) auto
    moreover have "next_free m' y = next_free m y" "prev_free m' y = x" using y hD x by (auto simp: m'_def m1_def fs)
    moreover note lists_okD(2) [OF ok c(2)]
    ultimately show ?thesis by (simp add: Cons)
  qed simp
  have other: "fseg m' nb (F i j) nb = fseg m nb (F i j) nb" if "in_table i j" "(i, j) \<noteq> (fl, sl)" for i j
  proof (rule fseg_cong, rule keep)
    fix y assume y: "y \<in> set (F i j)"
    then show "y \<in> D" "y \<noteq> x" using placedD(4) [OF pl that(1)] x(3) that(1) by (auto simp: on_list_def)
    show "y \<noteq> ?h" using y placedD(4) [OF pl that(1)] placedD(5) [OF pl that(1) c(2) that(2)] hD(2) by auto
  qed
  have "maps_ok ctl' (put_list fl sl (x # ?xs) F)"
    using maps_ok_insert [of ctl F fl sl "x # ?xs"] ok c(2) by (simp add: lists_ok_def ctl'_def)
  moreover have "fseg m' nb (put_list fl sl (x # ?xs) F i j) nb \<and> free_head ctl' i j = first nb (put_list fl sl (x # ?xs) F i j)" if "in_table i j" for i j
    using that other [OF that] ok seg xl h by (auto simp: lists_ok_def ctl'_def)
  ultimately have "lists_ok nb (ctl', m') (put_list fl sl (x # ?xs) F)" by (simp add: lists_ok_def)
  moreover have "placed D nb (put_list fl sl (x # ?xs) F)"
    using pl x c(2) xs unfolding placed_def on_list_def by (auto 0 3)
  moreover have "links_only (insert x ({nb} \<union> set ?xs)) m m'"
    using hD(2) by (auto simp: m'_def m1_def intro!: links_only_trans [OF links_only_trans [OF links_only_set(1) links_only_set(2)] links_only_set(2)]
      links_only_trans [OF links_only_set(1) links_only_set(2)])
  ultimately show ?thesis using run fr by blast
qed

text \<open>Unlinking a block from the run it is in.\<close>

lemma fseg_unlink:
  assumes sp: "spaced D" and D: "set (xs @ x # ys) \<subseteq> D - {nb}" "nb \<in> D" "distinct (xs @ x # ys)" and seg: "fseg m nb (xs @ x # ys) nb"
  defines "p \<equiv> prev_free m x" and "q \<equiv> next_free m x"
  defines "m' \<equiv> set_prev_free q p (set_next_free p q m)"
  shows "p = final nb xs" "q = first nb ys" "fseg m' nb (xs @ ys) nb" "next_free m' x = q" "prev_free m' x = p"
proof -
  note fs = fld_rules [OF sp]
  show p: "p = final nb xs" and q: "q = first nb ys" using seg by (simp_all add: fseg_append p_def q_def)
  have pD: "p \<in> D" "p \<noteq> x" "p = nb \<or> p \<in> set xs" and qD: "q \<in> D" "q \<noteq> x" "q = nb \<or> q \<in> set ys"
    using final_in [of nb xs] first_in [of nb ys] D unfolding p q by auto
  have x: "x \<in> D" using D by simp
  show "next_free m' x = q" "prev_free m' x = p" using x pD qD by (simp_all add: m'_def fs p_def q_def)
  have seg1: "fseg m nb xs x" "fseg m x ys nb" using seg by (simp_all add: fseg_append)
  have "fseg m' nb xs q"
  proof (cases xs rule: rev_exhaust)
    case (snoc zs z)
    then have z: "p = z" using p by simp
    have zs: "z \<in> D" "z \<noteq> nb" "set zs \<subseteq> D" "z \<notin> set zs" "q \<noteq> z" "q \<notin> set zs" using D qD(3) snoc by auto
    have "fseg m' nb zs z = fseg m nb zs z"
      by (rule fseg_cong) (use zs pD qD z in \<open>auto simp: m'_def fs\<close>)
    moreover have "prev_free m' z = prev_free m z" "next_free m' z = q" using zs z qD(1) by (auto simp: m'_def fs)
    ultimately show ?thesis using seg1(1) by (simp add: snoc fseg_append)
  qed simp
  moreover have "fseg m' p ys nb"
  proof (cases ys)
    case (Cons z zs)
    then have z: "q = z" using q by simp
    have zs: "z \<in> D" "z \<noteq> nb" "set zs \<subseteq> D" "z \<notin> set zs" "p \<noteq> z" "p \<notin> set zs" using D pD(3) Cons by auto
    have "fseg m' z zs nb = fseg m z zs nb"
      by (rule fseg_cong) (use zs pD qD z in \<open>auto simp: m'_def fs\<close>)
    moreover have "prev_free m' z = p" "next_free m' z = next_free m z" using zs z pD(1) by (auto simp: m'_def fs)
    ultimately show ?thesis using seg1(2) by (simp add: Cons)
  qed simp
  ultimately show "fseg m' nb (xs @ ys) nb" by (simp add: fseg_append p q)
qed

lemma remove_lists:
  assumes pl: "placed D nb F" and ok: "lists_ok nb (ctl, m) F"
    and c: "mapping (block_size m x) = (fl, sl)" "in_table fl sl" "x \<in> set (F fl sl)"
  shows "\<exists>ctl' m'. free_list_remove nb x (ctl, m) = Some (ctl', m') \<and> lists_ok nb (ctl', m') (put_list fl sl (remove1 x (F fl sl)) F) \<and>
    placed D nb (put_list fl sl (remove1 x (F fl sl)) F) \<and> links_only ({nb} \<union> set (F fl sl)) m m' \<and>
    (\<forall>y\<in>D. prev_phys m' y = prev_phys m y \<and> size_flags m' y = size_flags m y)"
proof -
  note fs = fld_rules [OF placedD(1) [OF pl]]
  obtain xs ys where s: "F fl sl = xs @ x # ys" using c(3) by (auto dest: split_list)
  note d = placedD(3) [OF pl c(2)] and D = placedD(4) [OF pl c(2)]
  have seg: "fseg m nb (xs @ x # ys) nb" and h: "free_head ctl fl sl = first nb (xs @ x # ys)" using lists_okD(2,3) [OF ok c(2)] by (simp_all add: s)
  let ?p = "prev_free m x" and ?q = "next_free m x"
  define m' where "m' = set_prev_free ?q ?p (set_next_free ?p ?q m)"
  note u = fseg_unlink [OF placedD(1) [OF pl] D [unfolded s] placedD(2) [OF pl] d [unfolded s] seg, folded m'_def]
  have r: "remove1 x (F fl sl) = xs @ ys" using d by (simp add: s remove1_append)
  have pq: "?p \<in> {nb} \<union> set (F fl sl)" "?q \<in> {nb} \<union> set (F fl sl)" "?p \<noteq> x" "?q \<noteq> x"
    using final_in [of nb xs] first_in [of nb ys] D d unfolding u(1,2) s by auto
  have pqD: "?p \<in> D" "?q \<in> D" "x \<in> D" using pq(1,2) D placedD(2) [OF pl] c(3) by auto
  have m1: "prev_free (set_next_free ?p ?q m) x = ?p" "next_free (set_next_free ?p ?q m) x = ?q" using pq pqD by (auto simp: fs)
  have m2: "set_prev_free (next_free (set_next_free ?p ?q m) x) (prev_free (set_next_free ?p ?q m) x) (set_next_free ?p ?q m) = m'"
    by (simp only: m1 m'_def)
  have hx: "free_head ctl fl sl = x \<longleftrightarrow> xs = []" using h d s by (cases xs) auto
  let ?fh = "(free_head ctl)(fl := (free_head ctl fl)(sl := ?q))"
  let ?sm = "(sl_bitmap ctl)(fl := sl_bitmap ctl fl AND NOT (BIT sl))"
  define ctl' where "ctl' = (if xs = [] then if ?q = nb then ctl\<lparr>free_head := ?fh, sl_bitmap := ?sm, fl_bitmap := (if ?sm fl = 0 then fl_bitmap ctl AND NOT (BIT fl) else fl_bitmap ctl)\<rparr>
     else ctl\<lparr>free_head := ?fh\<rparr> else ctl)"
  have run: "free_list_remove nb x (ctl, m) = Some (ctl', m')"
    unfolding free_list_remove_def Let_def prod.case c(1) m2 u(4) using c(2) hx by (simp add: ctl'_def)
  have fr: "prev_phys m' y = prev_phys m y \<and> size_flags m' y = size_flags m y" if "y \<in> D" for y
    using that pqD by (auto simp: m'_def fs)
  have keep: "next_free m' y = next_free m y \<and> prev_free m' y = prev_free m y" if "y \<in> D" "y \<noteq> ?p" "y \<noteq> ?q" for y
    using that pqD by (auto simp: m'_def fs)
  have other: "fseg m' nb (F i j) nb = fseg m nb (F i j) nb" if "in_table i j" "(i, j) \<noteq> (fl, sl)" for i j
  proof (rule fseg_cong, rule keep)
    fix y assume y: "y \<in> set (F i j)"
    then have "y \<in> D - {nb}" "y \<notin> set (F fl sl)" using placedD(4) [OF pl that(1)] placedD(5) [OF pl that(1) c(2) that(2)] by auto
    then show "y \<in> D" "y \<noteq> ?p" "y \<noteq> ?q" using pq by auto
  qed
  have "?q = nb \<longleftrightarrow> ys = []" using first_in [of nb ys] D unfolding u(2) s by (cases ys) auto
  then have "maps_ok ctl' (put_list fl sl (xs @ ys) F)"
    using ok c(2) maps_ok_remove [of ctl F fl sl ?fh] maps_ok_keep [of ctl F fl sl "xs @ ys" "free_head ctl'"] s by (auto simp: lists_ok_def ctl'_def)
  moreover have "fseg m' nb (put_list fl sl (xs @ ys) F i j) nb \<and> free_head ctl' i j = first nb (put_list fl sl (xs @ ys) F i j)" if "in_table i j" for i j
  proof (cases "(i, j) = (fl, sl)")
    case True
    have "free_head ctl' fl sl = first nb (xs @ ys)" using u(2) h by (cases xs) (simp_all add: ctl'_def)
    then show ?thesis using True u(3) by simp
  next
    case False
    moreover have "free_head ctl' i j = free_head ctl i j" using False by (auto simp: ctl'_def)
    ultimately show ?thesis using other [OF that False] lists_okD(2,3) [OF ok that] by auto
  qed
  ultimately have "lists_ok nb (ctl', m') (put_list fl sl (remove1 x (F fl sl)) F)" by (simp add: lists_ok_def r)
  moreover have "placed D nb (put_list fl sl (remove1 x (F fl sl)) F)"
    using set_remove1_subset d by (intro placed_sub [OF pl c(2)]) auto
  moreover have "links_only ({nb} \<union> set (F fl sl)) m m'"
    unfolding m'_def by (rule links_only_trans [OF links_only_set(1) [OF pq(1)] links_only_set(2) [OF pq(2)]])
  ultimately show ?thesis using run fr by blast
qed

section \<open>The search\<close>

text \<open>The search looks at the lists of the classes from that of the rounded size on and returns the first block of the first list that is not empty.\<close>

lemma bit_shift_ones: "bit (NOT (mask s) :: u32) j \<longleftrightarrow> s \<le> j \<and> j < 32"
  by (auto simp: bit_not_iff bit_mask_iff)

lemma locate_finds:
  assumes pl: "placed D nb F" "0 \<notin> D" and ok: "lists_ok nb (ctl, m) F" and sz: "sz \<noteq> 0"
    and c: "mapping (round_up_size sz) = (f, s)" "in_table f s"
  shows "locate_free nb sz ctl = Some 0 \<and> (\<forall>fl sl. in_table fl sl \<longrightarrow> cls_le (f, s) (fl, sl) \<longrightarrow> F fl sl = []) \<or>
    (\<exists>fl sl x. locate_free nb sz ctl = Some x \<and> x \<noteq> 0 \<and> in_table fl sl \<and> cls_le (f, s) (fl, sl) \<and> x \<in> set (F fl sl))"
proof -
  have mo: "bit (sl_bitmap ctl fl) j \<longleftrightarrow> in_table fl j \<and> F fl j \<noteq> []" "bit (fl_bitmap ctl) fl \<longleftrightarrow> fl < FL_INDEX_COUNT \<and> sl_bitmap ctl fl \<noteq> 0" for fl j
    using lists_okD(1) [OF ok c(2)] by (auto simp: maps_ok_def in_table_def)
  have hd: "free_head ctl fl j \<in> set (F fl j)" "free_head ctl fl j \<noteq> nb" "free_head ctl fl j \<noteq> 0" if "bit (sl_bitmap ctl fl) j" for fl j
  proof -
    have i: "in_table fl j" "F fl j \<noteq> []" using that by (simp_all add: mo)
    then have "free_head ctl fl j = hd (F fl j)" using lists_okD(3) [OF ok i(1)] by (cases "F fl j") auto
    then show "free_head ctl fl j \<in> set (F fl j)" using i(2) by simp
    then show "free_head ctl fl j \<noteq> nb" "free_head ctl fl j \<noteq> 0" using placedD(4) [OF pl(1) i(1)] pl(2) by auto
  qed
  let ?sm = "sl_bitmap ctl f AND push_bit s (- 1)" and ?fm = "fl_bitmap ctl AND push_bit (f + 1) (- 1)"
  show ?thesis
  proof (cases "?sm = 0")
    case False
    note z = builtin_ctz_low(1,2) [OF False]
    then have b: "bit (sl_bitmap ctl f) (builtin_ctz ?sm)" "s \<le> builtin_ctz ?sm" by (simp_all add: bit_and_iff bit_shift_ones)
    then have "locate_free nb sz ctl = Some (free_head ctl f (builtin_ctz ?sm))"
      using sz c False hd(2) [OF b(1)] by (simp add: locate_free_def mo Let_def)
    then show ?thesis using hd [OF b(1)] b mo(1) by (auto simp: cls_le_def)
  next
    case sm: True
    show ?thesis
    proof (cases "?fm = 0")
      case True
      have "F fl sl = []" if "in_table fl sl" "cls_le (f, s) (fl, sl)" for fl sl
      proof (rule ccontr)
        assume ne: "F fl sl \<noteq> []"
        then have b: "bit (sl_bitmap ctl fl) sl" using that(1) by (simp add: mo)
        then have lt: "sl < 32" "fl < 20" "sl_bitmap ctl fl \<noteq> 0" using that(1) by (auto simp: in_table_def FL_INDEX_COUNT_def SL_INDEX_COUNT_def)
        then have "bit (fl_bitmap ctl) fl" by (simp add: mo(2) FL_INDEX_COUNT_def)
        then have "fl \<noteq> f \<Longrightarrow> bit ?fm fl" using that(2) lt by (simp add: cls_le_def bit_and_iff bit_shift_ones)
        moreover have "fl = f \<Longrightarrow> bit ?sm sl" using b that(2) lt by (simp add: cls_le_def bit_and_iff bit_shift_ones)
        ultimately show False using sm True by (cases "fl = f") simp_all
      qed
      then show ?thesis using sz c sm True by (simp add: locate_free_def Let_def)
    next
      case False
      note z = builtin_ctz_low(2) [OF False]
      let ?fl = "builtin_ctz ?fm"
      have f: "f < ?fl" "?fl < FL_INDEX_COUNT" "sl_bitmap ctl ?fl \<noteq> 0" using z by (auto simp: bit_and_iff bit_shift_ones mo(2))
      note b = builtin_ctz_low(2) [OF f(3)]
      then have "locate_free nb sz ctl = Some (free_head ctl ?fl (builtin_ctz (sl_bitmap ctl ?fl)))"
        using sz c sm False f hd(2) [OF b] by (simp add: locate_free_def Let_def mo(1))
      then show ?thesis using hd [OF b] b f(1) mo(1) by (auto simp: cls_le_def)
    qed
  qed
qed

end
