(* ===== verification/Vibe_Tlsf_Pool.thy ===== *)
theory Vibe_Tlsf_Pool
  imports Vibe_Tlsf
begin

text \<open>
  The pool of the two-level segregated fit heap: the chain of blocks in memory, the free lists over it, and what allocation and release do to both.
\<close>

section \<open>Headers\<close>

text \<open>A block: payload size, whether it is on a free list, and its \<^verbatim>\<open>BLOCK_IS_FREE\<close> flag, which the code does not set on the remainder of a split.\<close>

type_synonym tblock = "nat \<times> bool \<times> bool"

definition hw :: "nat \<Rightarrow> bool \<Rightarrow> bool \<Rightarrow> u32" where
  "hw n flag pfree = of_nat n OR (if flag then 1 else 0) OR (if pfree then 2 else 0)"

lemma bit_u32_1_2: "bit (1 :: u32) i \<longleftrightarrow> i = 0" "bit (2 :: u32) i \<longleftrightarrow> i = 1"
  using bit_BIT [of 0 i] bit_BIT [of 1 i] by (simp_all add: BIT_def)

lemma bit_size_mask: "bit BLOCK_SIZE_MASK i \<longleftrightarrow> 2 \<le> i \<and> i < 32"
  unfolding BLOCK_SIZE_MASK_def BLOCK_IS_FREE_def BLOCK_PREV_FREE_def bit_not_iff bit_or_iff bit_u32_1_2 by auto

lemma bit_aligned:
  assumes "n mod 4 = 0" "bit (of_nat n :: u32) i"
  shows "2 \<le> i"
proof -
  have "take_bit 2 (of_nat n :: u32) = of_nat (take_bit 2 n)" by (simp add: take_bit_of_nat)
  also have "\<dots> = 0" using assms(1) by (simp add: take_bit_eq_mod)
  finally have "\<not> bit (take_bit 2 (of_nat n :: u32)) i" by (simp only: bit_0_eq bot_apply bool_simps) simp
  then show ?thesis using assms(2) by (auto simp: bit_take_bit_iff)
qed

lemma bit_hw: "n mod 4 = 0 \<Longrightarrow> bit (hw n f p) i \<longleftrightarrow> (if i = 0 then f else if i = 1 then p else bit (of_nat n :: u32) i)"
proof -
  assume n: "n mod 4 = 0"
  have "bit (if f then 1 else 0 :: u32) i \<longleftrightarrow> f \<and> i = 0" "bit (if p then 2 else 0 :: u32) i \<longleftrightarrow> p \<and> i = 1"
    using bit_u32_1_2 [of i] by (cases f; cases p; simp)+
  then show ?thesis using bit_aligned [OF n, of i] unfolding hw_def bit_or_iff by auto
qed

lemma hw_ops:
  assumes "n mod 4 = 0"
  shows "hw n f p AND BLOCK_SIZE_MASK = of_nat n" "hw n f p AND BLOCK_IS_FREE \<noteq> 0 \<longleftrightarrow> f" "hw n f p AND BLOCK_PREV_FREE \<noteq> 0 \<longleftrightarrow> p"
    "hw n f p OR BLOCK_IS_FREE = hw n True p" "hw n f p AND NOT BLOCK_IS_FREE = hw n False p"
    "hw n f p OR BLOCK_PREV_FREE = hw n f True" "hw n f p AND NOT BLOCK_PREV_FREE = hw n f False"
    "k mod 4 = 0 \<Longrightarrow> (hw n f p AND NOT BLOCK_SIZE_MASK) OR of_nat k = hw k f p"
    "k mod 4 = 0 \<Longrightarrow> (hw n f p AND NOT BLOCK_SIZE_MASK) OR (of_nat k AND BLOCK_SIZE_MASK) = hw k f p"
proof -
  note b = bit_hw [OF assms] bit_and_iff bit_or_iff bit_not_iff bit_u32_1_2 bit_size_mask
  show "hw n f p AND BLOCK_SIZE_MASK = of_nat n"
    by (rule bit_word_eqI; unfold b) (use bit_aligned [OF assms, of 0] bit_aligned [OF assms, of 1] in auto)
  have "bit (hw n f p AND BLOCK_IS_FREE) i \<longleftrightarrow> i = 0 \<and> f" "bit (hw n f p AND BLOCK_PREV_FREE) i \<longleftrightarrow> i = 1 \<and> p" for i
    unfolding BLOCK_IS_FREE_def BLOCK_PREV_FREE_def b by auto
  then show "hw n f p AND BLOCK_IS_FREE \<noteq> 0 \<longleftrightarrow> f" "hw n f p AND BLOCK_PREV_FREE \<noteq> 0 \<longleftrightarrow> p" by (auto simp: word_nonzero_bit)
  show "hw n f p OR BLOCK_IS_FREE = hw n True p" "hw n f p AND NOT BLOCK_IS_FREE = hw n False p"
    "hw n f p OR BLOCK_PREV_FREE = hw n f True" "hw n f p AND NOT BLOCK_PREV_FREE = hw n f False"
    unfolding BLOCK_IS_FREE_def BLOCK_PREV_FREE_def by (rule bit_word_eqI; unfold b; auto)+
  assume k: "k mod 4 = 0"
  show "(hw n f p AND NOT BLOCK_SIZE_MASK) OR of_nat k = hw k f p" "(hw n f p AND NOT BLOCK_SIZE_MASK) OR (of_nat k AND BLOCK_SIZE_MASK) = hw k f p"
    by (rule bit_word_eqI; unfold b bit_hw [OF k]; use bit_aligned [OF k, of 0] bit_aligned [OF k, of 1] in auto)+
qed

section \<open>The physical chain\<close>

abbreviation bsize :: "tblock \<Rightarrow> nat" where "bsize b \<equiv> fst b"

abbreviation bfree :: "tblock \<Rightarrow> bool" where "bfree b \<equiv> fst (snd b)"

abbreviation bflag :: "tblock \<Rightarrow> bool" where "bflag b \<equiv> snd (snd b)"

primrec tspan :: "tblock list \<Rightarrow> nat" where
  "tspan [] = 0"
| "tspan (b # B) = 8 + bsize b + tspan B"

lemma tspan_append [simp]: "tspan (xs @ ys) = tspan xs + tspan ys"
  by (induction xs) auto

text \<open>The address behind the blocks \<open>xs\<close> that start at \<open>a\<close>.\<close>

definition behind :: "u32 \<Rightarrow> tblock list \<Rightarrow> u32" where
  "behind a xs = a + of_nat (tspan xs)"

lemma behind_simps [simp]: "behind a [] = a" "behind a (b # xs) = behind (a + 8 + of_nat (bsize b)) xs"
    "behind a (xs @ ys) = behind (behind a xs) ys"
  by (simp_all add: behind_def algebra_simps)

lemma unat_behind: "unat a + tspan xs < 2 ^ 32 \<Longrightarrow> unat (behind a xs) = unat a + tspan xs"
  unfolding behind_def by (simp add: unat_plus_u32 unat_of_nat_u32)

primrec heads :: "u32 \<Rightarrow> tblock list \<Rightarrow> u32 set" where
  "heads a [] = {}"
| "heads a (b # B) = insert a (heads (a + 8 + of_nat (bsize b)) B)"

primrec frees :: "u32 \<Rightarrow> tblock list \<Rightarrow> (u32 \<times> nat) set" where
  "frees a [] = {}"
| "frees a (b # B) = (if bfree b then {(a, bsize b)} else {}) \<union> frees (a + 8 + of_nat (bsize b)) B"

text \<open>The payload bytes of the blocks in use.\<close>

primrec payload :: "nat \<Rightarrow> tblock list \<Rightarrow> nat set" where
  "payload a [] = {}"
| "payload a (b # B) = (if bfree b then {} else {a + 8..<a + 8 + bsize b}) \<union> payload (a + 8 + bsize b) B"

lemma heads_append [simp]: "heads a (xs @ ys) = heads a xs \<union> heads (behind a xs) ys"
  by (induction xs arbitrary: a) auto

lemma frees_append [simp]: "frees a (xs @ ys) = frees a xs \<union> frees (behind a xs) ys"
  by (induction xs arbitrary: a) auto

lemma payload_append [simp]: "payload a (xs @ ys) = payload a xs \<union> payload (a + tspan xs) ys"
  by (induction xs arbitrary: a) (auto simp: algebra_simps)

lemma unat_step: "unat (a :: u32) + tspan (b # B) \<le> 2 ^ 32 \<Longrightarrow> B \<noteq> [] \<Longrightarrow> unat (a + 8 + of_nat (bsize b)) = unat a + 8 + bsize b"
  using unat_behind [of a "[b]"] by (cases B) auto

lemma heads_bounds: "unat a + tspan B \<le> 2 ^ 32 \<Longrightarrow> z \<in> heads a B \<Longrightarrow> unat a \<le> unat z \<and> unat z + 8 \<le> unat a + tspan B"
proof (induction B arbitrary: a)
  case (Cons b B)
  show ?case
  proof (cases "z = a")
    case False
    then have z: "z \<in> heads (a + 8 + of_nat (bsize b)) B" "B \<noteq> []" using Cons.prems by auto
    note u = unat_step [OF Cons.prems(1) z(2)]
    from Cons.IH [OF _ z(1)] Cons.prems(1) show ?thesis unfolding u by simp
  qed simp
qed simp

lemma frees_heads: "(z, n) \<in> frees a B \<Longrightarrow> z \<in> heads a B"
  by (induction B arbitrary: a) (auto split: if_splits)

lemma frees_bounds: "unat a + tspan B \<le> 2 ^ 32 \<Longrightarrow> (z, n) \<in> frees a B \<Longrightarrow> unat a \<le> unat z \<and> unat z + 8 + n \<le> unat a + tspan B"
proof (induction B arbitrary: a)
  case (Cons b B)
  show ?case
  proof (cases "(z, n) = (a, bsize b)")
    case False
    then have z: "(z, n) \<in> frees (a + 8 + of_nat (bsize b)) B" "B \<noteq> []" using Cons.prems by (auto split: if_splits)
    note u = unat_step [OF Cons.prems(1) z(2)]
    from Cons.IH [OF _ z(1)] Cons.prems(1) show ?thesis unfolding u by simp
  qed simp
qed simp

lemma payload_bounds: "i \<in> payload a B \<Longrightarrow> a + 8 \<le> i \<and> i < a + tspan B"
proof (induction B arbitrary: a)
  case (Cons b B)
  then consider "i \<in> payload (a + 8 + bsize b) B" | "a + 8 \<le> i" "i < a + 8 + bsize b" by (auto split: if_splits)
  then show ?case by cases (use Cons.IH [of "a + 8 + bsize b"] in \<open>auto simp: add.assoc\<close>)
qed simp

text \<open>No header and no free block overlaps the payload of a block in use.\<close>

lemma payload_apart:
  assumes "unat a + tspan B \<le> 2 ^ 32" "i \<in> payload (unat a) B"
  shows "z \<in> heads a B \<Longrightarrow> i < unat z \<or> unat z + 8 \<le> i" "(z, n) \<in> frees a B \<Longrightarrow> i < unat z \<or> unat z + 8 + n \<le> i"
proof -
  have "(z \<in> heads a B \<longrightarrow> i < unat z \<or> unat z + 8 \<le> i) \<and> ((z, n) \<in> frees a B \<longrightarrow> i < unat z \<or> unat z + 8 + n \<le> i)"
    using assms
  proof (induction B arbitrary: a)
    case (Cons b B)
    let ?a = "a + 8 + of_nat (bsize b)"
    show ?case
    proof (cases "B = []")
      case True
      then show ?thesis using Cons.prems(2) by (auto split: if_splits)
    next
      case False
      note u = unat_step [OF Cons.prems(1) False]
      have b: "unat ?a + tspan B \<le> 2 ^ 32" using Cons.prems(1) by (simp add: u)
      consider "i \<in> payload (unat ?a) B" | "\<not> bfree b" "unat a + 8 \<le> i" "i < unat ?a"
        using Cons.prems(2) by (auto simp: u split: if_splits)
      then show ?thesis
      proof cases
        case 1
        then have "unat ?a + 8 \<le> i" using payload_bounds by blast
        with Cons.IH [OF b 1] show ?thesis by (auto simp: u split: if_splits)
      next
        case 2
        have "unat ?a \<le> unat z" if "z \<in> heads ?a B" using heads_bounds [OF b that] by blast
        moreover have "unat ?a \<le> unat z" if "(z, n) \<in> frees ?a B" using frees_bounds [OF b that] by blast
        ultimately show ?thesis using 2 by (auto split: if_splits dest: leD)
      qed
    qed
  qed simp
  then show "z \<in> heads a B \<Longrightarrow> i < unat z \<or> unat z + 8 \<le> i" "(z, n) \<in> frees a B \<Longrightarrow> i < unat z \<or> unat z + 8 + n \<le> i" by auto
qed

text \<open>Sizes are multiples of 8, and only the sentinel is empty.\<close>

definition sizes_ok :: "tblock list \<Rightarrow> bool" where
  "sizes_ok B \<longleftrightarrow> (\<forall>b\<in>set B. bsize b mod 8 = 0 \<and> 8 \<le> bsize b)"

abbreviation sentinel :: tblock where "sentinel \<equiv> (0, False, False)"

lemma spaced_heads:
  assumes "sizes_ok B" "unat a + tspan B + 8 \<le> 2 ^ 32" "unat a mod 4 = 0"
  shows "spaced (heads a (B @ [sentinel]))"
  using assms
proof (induction B arbitrary: a)
  case Nil
  then show ?case by (simp add: spaced_def)
next
  case (Cons b B)
  let ?a = "a + 8 + of_nat (bsize b)"
  have b: "bsize b mod 8 = 0" "8 \<le> bsize b" "sizes_ok B" using Cons.prems(1) by (simp_all add: sizes_ok_def)
  have u: "unat ?a = unat a + 8 + bsize b" using unat_step [of a b "B @ [sentinel]"] Cons.prems(2) by simp
  have "(unat a + 8 + bsize b) mod 4 = 0" using Cons.prems(3) b(1) by presburger
  then have sp: "spaced (heads ?a (B @ [sentinel]))" using Cons.prems(2) b(3) u by (intro Cons.IH) simp_all
  have "unat a + 16 \<le> unat z" if "z \<in> heads ?a (B @ [sentinel])" for z
    using heads_bounds [of ?a "B @ [sentinel]" z] that b(2) Cons.prems(2) u by simp
  then show ?case using sp Cons.prems(3) by (fastforce simp: spaced_def)
qed

text \<open>
  \<open>tseg m p pf a B\<close>: from \<open>a\<close> on, memory holds the headers of the blocks \<open>B\<close>; \<open>p\<close> is the block before and \<open>pf\<close> says whether it is free. The
  \<^verbatim>\<open>BLOCK_PREV_FREE\<close> flag is exact.
\<close>

primrec tseg :: "memory \<Rightarrow> u32 \<Rightarrow> bool \<Rightarrow> u32 \<Rightarrow> tblock list \<Rightarrow> bool" where
  "tseg m p pf a [] \<longleftrightarrow> True"
| "tseg m p pf a (b # B) \<longleftrightarrow> prev_phys m a = p \<and> size_flags m a = hw (bsize b) (bflag b) pf \<and> tseg m a (bfree b) (a + 8 + of_nat (bsize b)) B"

primrec last_head :: "u32 \<Rightarrow> u32 \<Rightarrow> tblock list \<Rightarrow> u32" where
  "last_head p a [] = p"
| "last_head p a (b # B) = last_head a (a + 8 + of_nat (bsize b)) B"

primrec last_free :: "bool \<Rightarrow> tblock list \<Rightarrow> bool" where
  "last_free pf [] = pf"
| "last_free pf (b # B) = last_free (bfree b) B"

lemma tseg_append: "tseg m p pf a (xs @ ys) \<longleftrightarrow> tseg m p pf a xs \<and> tseg m (last_head p a xs) (last_free pf xs) (behind a xs) ys"
  by (induction xs arbitrary: p pf a) auto

lemma last_snoc [simp]: "last_head p a (xs @ [b]) = behind a xs" "last_free pf (xs @ [b]) = bfree b"
  by (induction xs arbitrary: p a pf) auto

lemma tseg_cong:
  "(\<And>z. z \<in> heads a B \<Longrightarrow> prev_phys m' z = prev_phys m z \<and> size_flags m' z = size_flags m z) \<Longrightarrow> tseg m' p pf a B = tseg m p pf a B"
  by (induction B arbitrary: p pf a) auto

text \<open>A pool: the null block below the first block \<open>P\<close>, the blocks, the sentinel.\<close>

definition layout :: "u32 \<Rightarrow> u32 \<Rightarrow> tblock list \<Rightarrow> bool" where
  "layout nb P B \<longleftrightarrow> unat P mod 8 = 0 \<and> unat nb mod 4 = 0 \<and> nb \<noteq> 0 \<and> unat nb + 16 \<le> unat P \<and> unat P + tspan B + 8 \<le> 2 ^ 32 \<and>
     tspan B < 2 ^ 23 \<and> sizes_ok B"

definition hdrs :: "u32 \<Rightarrow> u32 \<Rightarrow> tblock list \<Rightarrow> u32 set" where
  "hdrs nb P B = insert nb (heads P (B @ [sentinel]))"

lemma layout_spaced:
  assumes "layout nb P B"
  shows "spaced (hdrs nb P B)" "0 \<notin> hdrs nb P B"
proof -
  have "unat P mod 8 = 0" using assms by (simp add: layout_def)
  then have "unat P mod 4 = 0" by presburger
  then have l: "unat P mod 4 = 0" "unat P + tspan B + 8 \<le> 2 ^ 32" "sizes_ok B" "unat nb + 16 \<le> unat P" "unat nb mod 4 = 0" "nb \<noteq> 0"
    using assms by (simp_all add: layout_def)
  have sp: "spaced (heads P (B @ [sentinel]))" using l by (intro spaced_heads)
  have lo: "unat P \<le> unat z" if "z \<in> heads P (B @ [sentinel])" for z using heads_bounds [of P "B @ [sentinel]" z] that l(2) by simp
  show "spaced (hdrs nb P B)" using sp l(4,5) lo by (fastforce simp: spaced_def hdrs_def)
  show "0 \<notin> hdrs nb P B" using lo [of 0] l(4,6) by (auto simp: hdrs_def)
qed

definition listed :: "u32 \<Rightarrow> tblock list \<Rightarrow> lists \<Rightarrow> bool" where
  "listed P B F \<longleftrightarrow> (\<forall>fl sl. in_table fl sl \<longrightarrow> set (F fl sl) = {x. \<exists>n. (x, n) \<in> frees P B \<and> cls n = (fl, sl)})"

definition tl_ok :: "u32 \<Rightarrow> u32 \<Rightarrow> tlsf_mem \<Rightarrow> tblock list \<Rightarrow> lists \<Rightarrow> bool" where
  "tl_ok nb P cm B F \<longleftrightarrow> layout nb P B \<and> placed (hdrs nb P B) nb F \<and> lists_ok nb cm F \<and> tseg (snd cm) 0 False P (B @ [sentinel]) \<and>
     listed P B F \<and> (\<forall>b\<in>set B. bflag b \<longrightarrow> bfree b)"

lemma tl_okD:
  assumes "tl_ok nb P (ctl, m) B F"
  shows "layout nb P B" "placed (hdrs nb P B) nb F" "lists_ok nb (ctl, m) F" "tseg m 0 False P (B @ [sentinel])" "listed P B F" "b \<in> set B \<Longrightarrow> bflag b \<Longrightarrow> bfree b"
  using assms by (auto simp: tl_ok_def)

lemma tseg_hdrs:
  assumes "\<forall>z\<in>hdrs nb P B. prev_phys m' z = prev_phys m z \<and> size_flags m' z = size_flags m z" "tseg m p pf P (B @ [sentinel])"
  shows "tseg m' p pf P (B @ [sentinel])"
proof -
  have "tseg m' p pf P (B @ [sentinel]) = tseg m p pf P (B @ [sentinel])" by (rule tseg_cong) (use assms(1) in \<open>auto simp: hdrs_def\<close>)
  then show ?thesis using assms(2) by simp
qed

lemma mod8_mod4: "(k :: nat) mod 8 = 0 \<Longrightarrow> k mod 4 = 0"
  by presburger

text \<open>A block in the middle, with the header behind it.\<close>

lemma next_header: "\<exists>c zs. ys @ [sentinel] = c # zs"
  by (cases ys) auto

lemma mid_addresses:
  assumes l: "layout nb P (xs @ b # ys)" and c: "ys @ [sentinel] = c # zs"
  defines "x \<equiv> behind P xs"
  defines "y \<equiv> x + 8 + of_nat (bsize b)"
  shows "unat x = unat P + tspan xs" "unat y = unat x + 8 + bsize b" "bsize b mod 8 = 0" "8 \<le> bsize b" "bsize b < 2 ^ 23"
    "hdrs nb P (xs @ b # ys) = insert nb (heads P xs \<union> {x, y} \<union> heads (y + 8 + of_nat (bsize c)) zs)"
    "z \<in> heads P xs \<Longrightarrow> unat z + 16 \<le> unat x" "z \<in> heads (y + 8 + of_nat (bsize c)) zs \<Longrightarrow> unat y + 16 \<le> unat z"
    "(z, n) \<in> frees P xs \<Longrightarrow> unat z < unat x" "(z, n) \<in> frees y ys \<Longrightarrow> unat y \<le> unat z" "unat x + 8 + bsize b + 8 \<le> 2 ^ 32"
proof -
  have s: "tspan ys + 8 = tspan (c # zs)" using arg_cong [OF c, of tspan] by simp
  have t: "unat P + tspan xs + (8 + bsize b) + tspan (c # zs) \<le> 2 ^ 32" using l s by (simp add: layout_def)
  have sz: "sizes_ok (xs @ b # ys)" "tspan (xs @ b # ys) < 2 ^ 23" using l by (simp_all add: layout_def)
  show b: "bsize b mod 8 = 0" "8 \<le> bsize b" "bsize b < 2 ^ 23" using sz by (simp_all add: sizes_ok_def)
  show x: "unat x = unat P + tspan xs" unfolding x_def by (rule unat_behind) (use t in simp)
  show y: "unat y = unat x + 8 + bsize b" unfolding y_def using unat_behind [of x "[b]"] t x by simp
  show "unat x + 8 + bsize b + 8 \<le> 2 ^ 32" using t x by simp
  show h: "hdrs nb P (xs @ b # ys) = insert nb (heads P xs \<union> {x, y} \<union> heads (y + 8 + of_nat (bsize c)) zs)"
    by (auto simp: hdrs_def c x_def y_def)
  note sp = layout_spaced(1) [OF l, unfolded h]
  show "unat z + 16 \<le> unat x" if "z \<in> heads P xs"
  proof -
    have "unat z < unat x" using heads_bounds [of P xs z] that t x by simp
    then show ?thesis using sp that by (simp add: spaced_def)
  qed
  show "unat y + 16 \<le> unat z" if z: "z \<in> heads (y + 8 + of_nat (bsize c)) zs"
  proof -
    have "zs \<noteq> []" using z by auto
    then have "unat (y + 8 + of_nat (bsize c)) = unat y + 8 + bsize c" using t x y by (intro unat_step) simp_all
    then have "unat y < unat z" using heads_bounds [OF _ z] t x y by simp
    then show ?thesis using sp z by (simp add: spaced_def)
  qed
  show "unat z < unat x" if "(z, n) \<in> frees P xs" using frees_bounds [OF _ that] t x by simp
  show "unat y \<le> unat z" if "(z, n) \<in> frees y ys" using frees_bounds [OF _ that] t x y s by simp
qed

lemma mid_tseg:
  assumes "tseg m 0 False P (xs @ b # ys @ [sentinel])" "ys @ [sentinel] = c # zs"
  defines "x \<equiv> behind P xs"
  defines "y \<equiv> x + 8 + of_nat (bsize b)"
  shows "tseg m 0 False P xs" "prev_phys m x = last_head 0 P xs" "size_flags m x = hw (bsize b) (bflag b) (last_free False xs)"
    "prev_phys m y = x" "size_flags m y = hw (bsize c) (bflag c) (bfree b)" "tseg m y (bfree c) (y + 8 + of_nat (bsize c)) zs"
  using assms(1) unfolding assms(2) by (simp_all add: tseg_append x_def y_def)

section \<open>Taking a block off its list and putting it on\<close>

lemma hdrs_flags: "hdrs nb P (xs @ (n, a, f) # ys) = hdrs nb P (xs @ (n, b, g) # ys)"
  by (simp add: hdrs_def)

lemma layout_flags: "layout nb P (xs @ (n, a, f) # ys) = layout nb P (xs @ (n, b, g) # ys)"
  by (simp add: layout_def sizes_ok_def)

text \<open>The addresses of the free blocks: link fields that the list operations may change.\<close>

definition link_blocks :: "u32 \<Rightarrow> u32 \<Rightarrow> tblock list \<Rightarrow> u32 set" where
  "link_blocks nb P B = insert nb (fst ` frees P B)"

lemma links_only_mono: "links_only X m m' \<Longrightarrow> X \<subseteq> Y \<Longrightarrow> links_only Y m m'"
  by (auto simp: links_only_def)

lemma listed_links: "listed P B F \<Longrightarrow> in_table fl sl \<Longrightarrow> {nb} \<union> set (F fl sl) \<subseteq> link_blocks nb P B"
  by (force simp: listed_def link_blocks_def)

lemma unlist:
  assumes l: "layout nb P (xs @ (n, True, f) # ys)" and pl: "placed (hdrs nb P (xs @ (n, True, f) # ys)) nb F" and ok: "lists_ok nb (ctl, m) F"
    and li: "listed P (xs @ (n, True, f) # ys) F" and sz: "block_size m (behind P xs) = of_nat n"
  shows "\<exists>ctl' m' F'. free_list_remove nb (behind P xs) (ctl, m) = Some (ctl', m') \<and> lists_ok nb (ctl', m') F' \<and>
    placed (hdrs nb P (xs @ (n, True, f) # ys)) nb F' \<and> listed P (xs @ (n, False, f) # ys) F' \<and> links_only (link_blocks nb P (xs @ (n, True, f) # ys)) m m' \<and>
    (\<forall>y\<in>hdrs nb P (xs @ (n, True, f) # ys). prev_phys m' y = prev_phys m y \<and> size_flags m' y = size_flags m y)"
proof -
  let ?x = "behind P xs" and ?B = "xs @ (n, True, f) # ys"
  obtain c zs where c: "ys @ [sentinel] = c # zs" using next_header by blast
  note ma = mid_addresses [OF l c]
  obtain fl sl where cl: "cls n = (fl, sl)" by fastforce
  have tb: "in_table fl sl" using cls_in_table [of n] ma(5) cl by simp
  have x: "?x \<in> set (F fl sl)" using li tb cl by (auto simp: listed_def)
  have mp: "mapping (block_size m ?x) = (fl, sl)" using cl by (simp add: sz cls_def)
  from remove_lists [OF pl ok mp tb x] obtain ctl' m' where
    r: "free_list_remove nb ?x (ctl, m) = Some (ctl', m')" "lists_ok nb (ctl', m') (put_list fl sl (remove1 ?x (F fl sl)) F)"
      "placed (hdrs nb P ?B) nb (put_list fl sl (remove1 ?x (F fl sl)) F)" "links_only ({nb} \<union> set (F fl sl)) m m'"
      "\<forall>y\<in>hdrs nb P ?B. prev_phys m' y = prev_phys m y \<and> size_flags m' y = size_flags m y" by blast
  define G where "G = frees P xs \<union> frees (?x + 8 + of_nat n) ys"
  have G: "frees P ?B = insert (?x, n) G" "frees P (xs @ (n, False, f) # ys) = G" by (auto simp: G_def)
  have others: "z \<noteq> ?x" if "(z, k) \<in> G" for z k
    using that ma(9) [of z k] ma(10) [of z k] ma(2,4) by (auto simp: G_def)
  have "set (put_list fl sl (remove1 ?x (F fl sl)) F i j) = {z. \<exists>k. (z, k) \<in> G \<and> cls k = (i, j)}" if t: "in_table i j" for i j
  proof -
    have Fij: "set (F i j) = {z. \<exists>k. (z, k) \<in> insert (?x, n) G \<and> cls k = (i, j)}" using li t by (simp only: listed_def G)
    show ?thesis
    proof (cases "(i, j) = (fl, sl)")
      case True
      have "set (remove1 ?x (F i j)) = {z. \<exists>k. (z, k) \<in> insert (?x, n) G \<and> cls k = (i, j)} - {?x}"
        using placedD(3) [OF pl t] by (simp only: set_remove1_eq Fij)
      also have "\<dots> = {z. \<exists>k. (z, k) \<in> G \<and> cls k = (i, j)}" using others by blast
      finally show ?thesis using True by simp
    next
      case False
      then show ?thesis using Fij cl by auto
    qed
  qed
  then have "listed P (xs @ (n, False, f) # ys) (put_list fl sl (remove1 ?x (F fl sl)) F)" by (simp only: listed_def G) blast
  with r(1-3,5) links_only_mono [OF r(4) listed_links [OF li tb]] show ?thesis by blast
qed

lemma relist:
  assumes l: "layout nb P (xs @ (n, True, f) # ys)" and pl: "placed (hdrs nb P (xs @ (n, True, f) # ys)) nb F" and ok: "lists_ok nb (ctl, m) F"
    and li: "listed P (xs @ (n, False, f) # ys) F" and sz: "block_size m (behind P xs) = of_nat n"
  shows "\<exists>ctl' m' F'. free_list_insert nb (behind P xs) (ctl, m) = Some (ctl', m') \<and> lists_ok nb (ctl', m') F' \<and>
    placed (hdrs nb P (xs @ (n, True, f) # ys)) nb F' \<and> listed P (xs @ (n, True, f) # ys) F' \<and> links_only (link_blocks nb P (xs @ (n, True, f) # ys)) m m' \<and>
    (\<forall>y\<in>hdrs nb P (xs @ (n, True, f) # ys). prev_phys m' y = prev_phys m y \<and> size_flags m' y = size_flags m y)"
proof -
  let ?x = "behind P xs" and ?B = "xs @ (n, True, f) # ys"
  obtain c zs where c: "ys @ [sentinel] = c # zs" using next_header by blast
  note ma = mid_addresses [OF l c]
  obtain fl sl where cl: "cls n = (fl, sl)" by fastforce
  have tb: "in_table fl sl" using cls_in_table [of n] ma(5) cl by simp
  have mp: "mapping (block_size m ?x) = (fl, sl)" using cl by (simp add: sz cls_def)
  have others: "z \<noteq> ?x" if "(z, k) \<in> frees P xs \<or> (z, k) \<in> frees (?x + 8 + of_nat n) ys" for z k
    using that ma(9) [of z k] ma(10) [of z k] ma(2,4) by auto
  have x: "?x \<in> hdrs nb P ?B" "?x \<noteq> nb" "\<not> on_list F ?x"
    using ma(1) l others li by (auto simp: hdrs_def layout_def on_list_def listed_def)
  from insert_lists [OF pl ok x mp tb] obtain ctl' m' where
    r: "free_list_insert nb ?x (ctl, m) = Some (ctl', m')" "lists_ok nb (ctl', m') (put_list fl sl (?x # F fl sl) F)"
      "placed (hdrs nb P ?B) nb (put_list fl sl (?x # F fl sl) F)" "links_only (insert ?x ({nb} \<union> set (F fl sl))) m m'"
      "\<forall>y\<in>hdrs nb P ?B. prev_phys m' y = prev_phys m y \<and> size_flags m' y = size_flags m y" by blast
  have "listed P ?B (put_list fl sl (?x # F fl sl) F)" using li cl by (auto simp: listed_def)
  moreover have "insert ?x ({nb} \<union> set (F fl sl)) \<subseteq> link_blocks nb P ?B"
    using listed_links [OF li tb, of nb] by (auto simp: link_blocks_def)
  ultimately show ?thesis using r(1-3,5) links_only_mono [OF r(4)] by blast
qed

section \<open>Allocation\<close>

lemma links_payload:
  assumes "layout nb P B" "links_only (link_blocks nb P B) m m'" "i \<in> payload (unat P) B"
  shows "m' i = m i"
proof -
  have l: "unat P + tspan B \<le> 2 ^ 32" "unat nb + 16 \<le> unat P" "sizes_ok B" using assms(1) by (simp_all add: layout_def)
  have big: "8 \<le> n" if "(z, n) \<in> frees a B" for z n a
    using that l(3) by (induction B arbitrary: a) (auto simp: sizes_ok_def split: if_splits)
  have "i < unat z + 8 \<or> unat z + 16 \<le> i" if z: "z \<in> link_blocks nb P B" for z
  proof (cases "z = nb")
    case True
    then show ?thesis using payload_bounds [OF assms(3)] l(2) by simp
  next
    case False
    then obtain n where n: "(z, n) \<in> frees P B" using z by (auto simp: link_blocks_def)
    then show ?thesis using payload_apart(2) [OF l(1) assms(3) n] big [OF n] by auto
  qed
  then show ?thesis using assms(2) by (simp add: links_only_def)
qed

lemma header_payload:
  assumes "layout nb P B" "z \<in> hdrs nb P B" "i \<in> payload (unat P) B"
  shows "set_prev_phys z v m i = m i" "set_size_flags z v m i = m i"
proof -
  have l: "unat P + tspan (B @ [sentinel]) \<le> 2 ^ 32" "unat nb + 16 \<le> unat P" using assms(1) by (simp_all add: layout_def)
  have "i < unat z \<or> unat z + 8 \<le> i"
  proof (cases "z = nb")
    case True
    then show ?thesis using payload_bounds [OF assms(3)] l(2) by simp
  next
    case False
    then show ?thesis using payload_apart(1) [OF l(1), of i z] assms(2,3) by (simp add: hdrs_def)
  qed
  then show "set_prev_phys z v m i = m i" "set_size_flags z v m i = m i" unfolding field_defs by (auto intro!: st32_other)
qed

lemma lists_ok_cong:
  assumes "lists_ok nb (ctl, m) F" "placed D nb F" "\<And>z. z \<in> D \<Longrightarrow> next_free m' z = next_free m z \<and> prev_free m' z = prev_free m z"
  shows "lists_ok nb (ctl, m') F"
proof -
  have "fseg m' nb (F fl sl) nb = fseg m nb (F fl sl) nb" if "in_table fl sl" for fl sl
    by (rule fseg_cong) (use placedD(4) [OF assms(2) that] assms(3) in blast)
  then show ?thesis using assms(1) by (simp add: lists_ok_def)
qed

lemma placed_change:
  assumes "placed D nb F" "spaced D'" "nb \<in> D'" "\<And>fl sl. in_table fl sl \<Longrightarrow> set (F fl sl) \<subseteq> D'"
  shows "placed D' nb F"
  using assms unfolding placed_def by blast

text \<open>What the header operations do to a header word.\<close>

lemma hw_block:
  assumes "size_flags m z = hw n f p" "n mod 8 = 0"
  shows "block_size m z = of_nat n" "block_is_free m z \<longleftrightarrow> f" "block_prev_is_free m z \<longleftrightarrow> p"
    "block_set_free z m = set_size_flags z (hw n True p) m" "block_set_used z m = set_size_flags z (hw n False p) m"
    "block_set_prev_free z m = set_size_flags z (hw n f True) m" "block_set_prev_used z m = set_size_flags z (hw n f False) m"
    "k mod 8 = 0 \<Longrightarrow> block_set_size z (of_nat k) m = set_size_flags z (hw k f p) m"
    "block_next m z = z + 8 + of_nat n"
proof -
  have n: "n mod 4 = 0" using assms(2) by presburger
  have k: "k mod 8 = 0 \<Longrightarrow> k mod 4 = 0" by presburger
  show "block_size m z = of_nat n" "block_is_free m z \<longleftrightarrow> f" "block_prev_is_free m z \<longleftrightarrow> p"
    "block_set_free z m = set_size_flags z (hw n True p) m" "block_set_used z m = set_size_flags z (hw n False p) m"
    "block_set_prev_free z m = set_size_flags z (hw n f True) m" "block_set_prev_used z m = set_size_flags z (hw n f False) m"
    "k mod 8 = 0 \<Longrightarrow> block_set_size z (of_nat k) m = set_size_flags z (hw k f p) m" "block_next m z = z + 8 + of_nat n"
    unfolding block_size_def block_is_free_def block_prev_is_free_def block_set_free_def block_set_used_def block_set_prev_free_def block_set_prev_used_def
      block_set_size_def block_next_def BLOCK_HDR_OFFSET_def assms(1) by (simp_all add: hw_ops [OF n] k)
qed

lemma hw_plain: "hw n False False = of_nat n"
  by (simp add: hw_def)

text \<open>The pool after \<open>k\<close> bytes were taken from the free block between \<open>xs\<close> and \<open>ys\<close>.\<close>

definition tl_take :: "nat \<Rightarrow> tblock list \<Rightarrow> nat \<Rightarrow> tblock list \<Rightarrow> tblock list" where
  "tl_take k xs n ys = xs @ (if k + 16 \<le> n then (k, False, False) # (n - k - 8, True, False) # ys else (n, False, False) # ys)"

lemma rem_room: "k \<le> n \<Longrightarrow> n < 2 ^ 32 \<Longrightarrow> BLOCK_HDR_OFFSET + BLOCK_PAYLOAD_MIN \<le> of_nat n - of_nat k \<longleftrightarrow> k + 16 \<le> n"
proof -
  assume k: "k \<le> n" "n < 2 ^ 32"
  have "(of_nat n - of_nat k :: u32) = of_nat (n - k)" using k(1) by (simp add: of_nat_diff)
  moreover have "unat (of_nat (n - k) :: u32) = n - k" using k(2) by (intro unat_of_nat_u32) simp
  moreover have "unat (BLOCK_HDR_OFFSET + BLOCK_PAYLOAD_MIN) = 16" by (simp add: BLOCK_HDR_OFFSET_def BLOCK_PAYLOAD_MIN_def)
  ultimately show ?thesis using k(1) by (simp only: word_le_nat_alt) linarith
qed

lemma take_whole:
  assumes ok: "tl_ok nb P (ctl, m) (xs @ (n, True, f) # ys) F" and k: "k mod 8 = 0" "k \<le> n" "n < k + 16"
  shows "\<exists>ctl' m' F'. tlsf_take nb (behind P xs) (of_nat k) (ctl, m) = Some (behind P xs + 8, ctl', m') \<and>
    tl_ok nb P (ctl', m') (xs @ (n, False, False) # ys) F' \<and> (\<forall>i\<in>payload (unat P) (xs @ (n, True, f) # ys). m' i = m i)"
proof -
  let ?B = "xs @ (n, True, f) # ys" and ?pf = "last_free False xs" and ?D = "hdrs nb P (xs @ (n, True, f) # ys)"
  define x where "x = behind P xs"
  define y where "y = x + 8 + of_nat n"
  obtain c zs where c: "ys @ [sentinel] = c # zs" using next_header by blast
  note d = tl_okD [OF ok] and ma = mid_addresses [OF tl_okD(1) [OF ok] c, unfolded fst_conv, folded x_def, folded y_def]
  note mt = mid_tseg [OF d(4) [unfolded append_assoc append_Cons] c, unfolded fst_conv snd_conv, folded x_def, folded y_def]
  note fs = fld_rules [OF layout_spaced(1) [OF d(1)]]
  have cs: "bsize c mod 8 = 0" using d(1) c by (cases ys) (auto simp: layout_def sizes_ok_def)
  from unlist [OF d(1,2,3,5), folded x_def, OF hw_block(1) [OF mt(3) ma(3)]] obtain ctl1 m1 F1 where
    r: "free_list_remove nb x (ctl, m) = Some (ctl1, m1)" "lists_ok nb (ctl1, m1) F1" "placed ?D nb F1" "listed P (xs @ (n, False, f) # ys) F1"
      "links_only (link_blocks nb P ?B) m m1" "\<forall>z\<in>?D. prev_phys m1 z = prev_phys m z \<and> size_flags m1 z = size_flags m z" by blast
  have xy: "x \<noteq> y" using arg_cong [of x y unat] ma(2) by linarith
  have D: "x \<in> ?D" "y \<in> ?D" "heads P xs \<subseteq> ?D" "heads (y + 8 + of_nat (bsize c)) zs \<subseteq> ?D" "x \<noteq> y" using xy unfolding ma(6) by blast+
  have m1x: "size_flags m1 x = hw n f ?pf" "size_flags m1 y = hw (bsize c) (bflag c) True" using r(6) D(1,2) mt(3,5) by auto
  define m2 where "m2 = set_size_flags x (hw n False ?pf) m1"
  define m3 where "m3 = set_size_flags y (hw (bsize c) (bflag c) True) m2"
  define m4 where "m4 = set_size_flags y (hw (bsize c) (bflag c) False) m3"
  have m2x: "size_flags m2 x = hw n False ?pf" "size_flags m2 y = hw (bsize c) (bflag c) True" using D m1x by (auto simp: m2_def fs)
  have m3x: "size_flags m3 x = hw n False ?pf" "size_flags m3 y = hw (bsize c) (bflag c) True" using D m2x by (auto simp: m3_def fs)
  have "\<not> (BLOCK_HDR_OFFSET + BLOCK_PAYLOAD_MIN \<le> of_nat n - of_nat k)" using rem_room [of k n] k ma(5) by simp
  then have run: "tlsf_take nb x (of_nat k) (ctl, m) = Some (x + 8, ctl1, m4)"
    unfolding tlsf_take_def r(1)
    using hw_block(1,5) [OF m1x(1) ma(3)] hw_block(9) [OF m2x(1) ma(3), folded y_def] hw_block(6) [OF m2x(2) cs] hw_block(9) [OF m3x(1) ma(3), folded y_def] hw_block(7) [OF m3x(2) cs]
    by (simp add: block_to_ptr_def BLOCK_HDR_OFFSET_def flip: m2_def m3_def m4_def)
  have lk: "next_free m4 z = next_free m1 z \<and> prev_free m4 z = prev_free m1 z" if "z \<in> ?D" for z
    using that D by (auto simp: m2_def m3_def m4_def fs)
  have hd: "prev_phys m4 z = prev_phys m z" "size_flags m4 z = (if z = x then hw n False ?pf else if z = y then hw (bsize c) (bflag c) False else size_flags m z)"
    if "z \<in> ?D" for z using that D r(6) by (auto simp: m2_def m3_def m4_def fs)
  have ne: "z \<noteq> x \<and> z \<noteq> y" if "z \<in> heads P xs \<or> z \<in> heads (y + 8 + of_nat (bsize c)) zs" for z
    using that ma(7,8) [of z] ma(2) by auto
  have "tseg m4 0 False P xs" "tseg m4 y (bfree c) (y + 8 + of_nat (bsize c)) zs"
    using mt(1,6) D(3,4) ne hd by (simp_all add: tseg_cong [of P xs m4 m] tseg_cong [of _ zs m4 m] subset_iff)
  then have "tseg m4 0 False P ((xs @ (n, False, False) # ys) @ [sentinel])"
    using hd [OF D(1)] hd [OF D(2)] D(5) mt(2,4) c by (simp add: tseg_append flip: x_def y_def)
  moreover have "listed P (xs @ (n, False, False) # ys) F1" using r(4) by (simp add: listed_def)
  moreover have "layout nb P (xs @ (n, False, False) # ys)" "hdrs nb P (xs @ (n, False, False) # ys) = ?D"
    using d(1) layout_flags [of nb P xs n] hdrs_flags [of nb P xs n] by metis+
  ultimately have "tl_ok nb P (ctl1, m4) (xs @ (n, False, False) # ys) F1"
    using r(3) lists_ok_cong [OF r(2,3) lk] d(6) by (auto simp: tl_ok_def)
  moreover have "m4 i = m i" if "i \<in> payload (unat P) ?B" for i
    using links_payload [OF d(1) r(5) that] header_payload [OF d(1) _ that] D by (simp add: m2_def m3_def m4_def)
  ultimately show ?thesis using run unfolding x_def by blast
qed

text \<open>
  The split alone: the remainder gets a header of its own, without the free flag, and the block behind it points back to it. The lists know nothing of
  it yet.
\<close>

lemma split_block:
  assumes l2: "layout nb P (xs @ (k, True, f) # (r, True, False) # ys)" and c: "ys @ [sentinel] = c # zs"
    and ts: "tseg m 0 False P (xs @ (k + 8 + r, True, f) # ys @ [sentinel])"
  defines "D \<equiv> hdrs nb P (xs @ (k, True, f) # (r, True, False) # ys)"
  defines "x \<equiv> behind P xs" and "w \<equiv> behind P xs + 8 + of_nat k"
  shows "\<exists>m'. block_split x (of_nat k) m = (w, m') \<and> tseg m' 0 False P (xs @ (k, False, f) # (r, True, False) # ys @ [sentinel]) \<and>
    (\<forall>z\<in>D. next_free m' z = next_free m z \<and> prev_free m' z = prev_free m z) \<and>
    (\<forall>i\<in>payload (unat P) (xs @ (k, True, f) # (r, True, False) # ys). m' i = m i)"
proof -
  define y where "y = w + 8 + of_nat r"
  let ?pf = "last_free False xs"
  have wx: "w = x + 8 + of_nat k" by (simp add: w_def x_def)
  note fs = fld_rules [OF layout_spaced(1) [OF l2, folded D_def]]
  have c2: "((r, True, False) # ys) @ [sentinel] = (r, True, False) # c # zs" by (simp add: c)
  note ma = mid_addresses [OF l2 c2, unfolded fst_conv, folded x_def, folded wx, folded y_def]
  have l2': "layout nb P ((xs @ [(k, True, f)]) @ (r, True, False) # ys)" using l2 by simp
  have "behind P (xs @ [(k, True, f)]) = w" by (simp add: w_def)
  note mb = mid_addresses [OF l2' c, unfolded fst_conv this, folded y_def]
  have yx: "x + 8 + of_nat (k + 8 + r) = y" by (simp add: y_def w_def x_def algebra_simps)
  have t': "tseg m 0 False P (xs @ (k + 8 + r, True, f) # ys @ [sentinel])" using ts .
  note mt = mid_tseg [OF t' c, unfolded fst_conv snd_conv, folded x_def, unfolded yx]
  note k8 = ma(3) and r8 = mb(3)
  then have kr8: "(k + 8 + r) mod 8 = 0" by presburger
  note kr = kr8 k8 r8
  have D: "x \<in> D" "w \<in> D" "y \<in> D" "heads P xs \<subseteq> D" "heads (y + 8 + of_nat (bsize c)) zs \<subseteq> D"
    unfolding D_def ma(6) heads.simps by blast+
  have ne: "x \<noteq> w" "w \<noteq> y" "x \<noteq> y"
    using arg_cong [of x w unat] arg_cong [of w y unat] arg_cong [of x y unat] ma(2) mb(2) by linarith+
  have nz: "z \<noteq> x \<and> z \<noteq> w \<and> z \<noteq> y" if "z \<in> heads P xs \<or> z \<in> heads (y + 8 + of_nat (bsize c)) zs" for z
    using that ma(7) [of z] mb(8) [of z] ma(2) mb(2) by auto
  have sz: "(of_nat (k + 8 + r) - of_nat k - 8 :: u32) = of_nat r" by simp
  define m1 where "m1 = set_prev_phys w x (set_size_flags w (of_nat r) m)"
  define m2 where "m2 = set_size_flags x (hw k f ?pf) m1"
  define m' where "m' = set_prev_phys y w m2"
  have m1x: "size_flags m1 x = hw (k + 8 + r) f ?pf" using D ne mt(3) by (auto simp: m1_def fs)
  have m2w: "size_flags m2 w = hw r False False" using D ne by (auto simp: m2_def m1_def fs hw_plain)
  have run: "block_split x (of_nat k) m = (w, m')"
    unfolding block_split_def Let_def hw_block(1) [OF mt(3) kr(1)] BLOCK_HDR_OFFSET_def sz block_to_ptr_def wx [symmetric]
    unfolding m1_def [symmetric] hw_block(8) [OF m1x kr(1,2)] m2_def [symmetric] hw_block(9) [OF m2w kr(3)] y_def [symmetric] m'_def [symmetric] ..
  have hd: "prev_phys m' z = (if z = w then x else if z = y then w else prev_phys m z)"
      "size_flags m' z = (if z = x then hw k f ?pf else if z = w then hw r False False else size_flags m z)" if "z \<in> D" for z
    using that D ne by (auto simp: m'_def m2_def m1_def fs hw_plain)
  have "tseg m' 0 False P xs" "tseg m' y (bfree c) (y + 8 + of_nat (bsize c)) zs"
    using mt(1,6) D(4,5) nz hd by (simp_all add: tseg_cong [of P xs m' m] tseg_cong [of _ zs m' m] subset_iff)
  then have "tseg m' 0 False P (xs @ (k, False, f) # (r, True, False) # ys @ [sentinel])"
    using hd [OF D(1)] hd [OF D(2)] hd [OF D(3)] ne mt(2,5) c by (simp add: tseg_append wx [symmetric] y_def [symmetric] flip: x_def)
  moreover have "next_free m' z = next_free m z \<and> prev_free m' z = prev_free m z" if "z \<in> D" for z
    using that D by (auto simp: m'_def m2_def m1_def fs)
  moreover have "m' i = m i" if "i \<in> payload (unat P) (xs @ (k, True, f) # (r, True, False) # ys)" for i
    using header_payload [OF l2 _ that] D by (simp add: m'_def m2_def m1_def D_def)
  ultimately show ?thesis using run by blast
qed

lemma take_split:
  assumes ok: "tl_ok nb P (ctl, m) (xs @ (k + 8 + r, True, f) # ys) F" and k: "k mod 8 = 0" "8 \<le> k" "8 \<le> r"
  shows "\<exists>ctl' m' F'. tlsf_take nb (behind P xs) (of_nat k) (ctl, m) = Some (behind P xs + 8, ctl', m') \<and>
    tl_ok nb P (ctl', m') (xs @ (k, False, False) # (r, True, False) # ys) F' \<and> (\<forall>i\<in>payload (unat P) (xs @ (k + 8 + r, True, f) # ys). m' i = m i)"
proof -
  let ?B = "xs @ (k + 8 + r, True, f) # ys" and ?B2 = "xs @ (k, True, f) # (r, True, False) # ys" and ?pf = "last_free False xs"
  define x where "x = behind P xs"
  define w where "w = behind P xs + 8 + of_nat k"
  have wx: "w = x + 8 + of_nat k" by (simp add: w_def x_def)
  obtain c zs where c: "ys @ [sentinel] = c # zs" using next_header by blast
  note d = tl_okD [OF ok] and ma = mid_addresses [OF tl_okD(1) [OF ok] c, unfolded fst_conv, folded x_def]
  have r8: "r mod 8 = 0" using ma(3) k(1) by presburger
  have l2: "layout nb P ?B2" using d(1) k r8 by (simp add: layout_def sizes_ok_def)
  define D where "D = hdrs nb P ?B2"
  have D: "x \<in> D" "w \<in> D" "hdrs nb P ?B \<subseteq> D" "x \<in> hdrs nb P ?B" by (auto simp: D_def hdrs_def x_def w_def algebra_simps)
  note fs = fld_rules [OF layout_spaced(1) [OF l2, folded D_def]]
  note mt = mid_tseg [OF d(4) [unfolded append_assoc append_Cons] c, unfolded fst_conv snd_conv, folded x_def]
  from unlist [OF d(1,2,3,5), folded x_def, OF hw_block(1) [OF mt(3) ma(3)]] obtain ctl1 m1 F1 where
    r1: "free_list_remove nb x (ctl, m) = Some (ctl1, m1)" "lists_ok nb (ctl1, m1) F1" "placed (hdrs nb P ?B) nb F1" "listed P (xs @ (k + 8 + r, False, f) # ys) F1"
      "links_only (link_blocks nb P ?B) m m1" "\<forall>z\<in>hdrs nb P ?B. prev_phys m1 z = prev_phys m z \<and> size_flags m1 z = size_flags m z" by blast
  have t1: "tseg m1 0 False P (xs @ (k + 8 + r, True, f) # ys @ [sentinel])" using tseg_hdrs [OF r1(6) d(4)] by simp
  from split_block [OF l2 c t1, folded x_def D_def w_def] obtain m2 where
    m2: "block_split x (of_nat k) m1 = (w, m2)" "tseg m2 0 False P (xs @ (k, False, f) # (r, True, False) # ys @ [sentinel])"
      "\<forall>z\<in>D. next_free m2 z = next_free m1 z \<and> prev_free m2 z = prev_free m1 z" "\<forall>i\<in>payload (unat P) ?B2. m2 i = m1 i" by blast
  have m2f: "size_flags m2 x = hw k f ?pf" "size_flags m2 w = hw r False False" using m2(2) by (simp_all add: tseg_append wx flip: x_def)
  define m3 where "m3 = set_size_flags w (hw r False False) m2"
  have m3f: "prev_phys m3 z = prev_phys m2 z \<and> size_flags m3 z = size_flags m2 z \<and> next_free m3 z = next_free m1 z \<and> prev_free m3 z = prev_free m1 z" if "z \<in> D" for z
    using that D m2(3) m2f(2) by (auto simp: m3_def fs)
  have "set (F1 fl sl) \<subseteq> D" if "in_table fl sl" for fl sl using placedD(4) [OF r1(3) that] D(3) by blast
  then have pl1: "placed D nb F1" using layout_spaced(1) [OF l2, folded D_def] D(3) by (intro placed_change [OF r1(3)]) (auto simp: hdrs_def)
  have lo3: "lists_ok nb (ctl1, m3) F1" using m3f by (intro lists_ok_cong [OF r1(2) pl1]) blast
  have li3: "listed P ((xs @ [(k, False, f)]) @ (r, False, False) # ys) F1" using r1(4) by (simp add: listed_def add.assoc add.left_commute)
  have l3: "layout nb P ((xs @ [(k, False, f)]) @ (r, True, False) # ys)" "hdrs nb P ((xs @ [(k, False, f)]) @ (r, True, False) # ys) = D"
    using l2 by (simp_all add: layout_def sizes_ok_def D_def hdrs_def)
  have w3: "behind P (xs @ [(k, False, f)]) = w" by (simp add: w_def)
  have s3: "size_flags m3 w = hw r False False" using m3f [OF D(2)] m2f by simp
  from relist [OF l3(1), unfolded l3(2) w3, OF pl1 lo3 li3 hw_block(1) [OF s3 r8]] obtain ctl4 m4 F4 where
    r4: "free_list_insert nb w (ctl1, m3) = Some (ctl4, m4)" "lists_ok nb (ctl4, m4) F4" "placed D nb F4" "listed P ((xs @ [(k, False, f)]) @ (r, True, False) # ys) F4"
      "links_only (link_blocks nb P ((xs @ [(k, False, f)]) @ (r, True, False) # ys)) m3 m4" "\<forall>z\<in>D. prev_phys m4 z = prev_phys m3 z \<and> size_flags m4 z = size_flags m3 z"
    by blast
  have c2: "((r, True, False) # ys) @ [sentinel] = (r, True, False) # c # zs" by (simp add: c)
  note mb = mid_addresses [OF l2 c2, unfolded fst_conv, folded x_def, folded wx D_def]
  have xw: "x \<noteq> w" using arg_cong [of x w unat] mb(2) by linarith
  have m4f: "size_flags m4 x = hw k f ?pf" "size_flags m4 w = hw r False False" using r4(6) m3f m2f D(1,2) by auto
  define m5 where "m5 = set_size_flags x (hw k False ?pf) m4"
  define m6 where "m6 = set_size_flags w (hw r False True) m5"
  define m7 where "m7 = set_size_flags w (hw r False False) m6"
  have m5f: "size_flags m5 x = hw k False ?pf" "size_flags m5 w = hw r False False" using D m4f xw by (auto simp: m5_def fs)
  have m6f: "size_flags m6 x = hw k False ?pf" "size_flags m6 w = hw r False True" using D m5f xw by (auto simp: m6_def fs)
  have "BLOCK_HDR_OFFSET + BLOCK_PAYLOAD_MIN \<le> of_nat (k + 8 + r) - of_nat k" using rem_room [of k "k + 8 + r"] k(3) ma(5) by simp
  moreover have "size_flags m1 x = hw (k + 8 + r) f ?pf" using r1(6) D(4) mt(3) by simp
  ultimately have run: "tlsf_take nb x (of_nat k) (ctl, m) = Some (x + 8, ctl4, m7)"
    unfolding tlsf_take_def r1(1)
    using hw_block(1) [of m1 x, OF _ ma(3)] m2(1) hw_block(7) [OF m2f(2) r8, folded m3_def] r4(1) hw_block(5) [OF m4f(1) k(1), folded m5_def]
      hw_block(9) [OF m5f(1) k(1), folded wx] hw_block(6) [OF m5f(2) r8, folded m6_def] hw_block(9) [OF m6f(1) k(1), folded wx] hw_block(7) [OF m6f(2) r8, folded m7_def]
    by (simp add: block_to_ptr_def BLOCK_HDR_OFFSET_def)
  have hd: "prev_phys m7 z = prev_phys m2 z \<and> size_flags m7 z = (if z = x then hw k False ?pf else size_flags m2 z)" if "z \<in> D" for z
    using that D xw r4(6) m3f m2f by (auto simp: m7_def m6_def m5_def fs)
  have lk: "next_free m7 z = next_free m4 z \<and> prev_free m7 z = prev_free m4 z" if "z \<in> D" for z
    using that D by (auto simp: m7_def m6_def m5_def fs)
  have sub: "heads P xs \<subseteq> D" "heads (w + 8 + of_nat r) (ys @ [sentinel]) \<subseteq> D" unfolding c by (simp_all add: mb(6) subset_iff)
  have ne: "z \<noteq> x" if "z \<in> heads P xs \<or> z \<in> heads (w + 8 + of_nat r) (ys @ [sentinel])" for z
    using that mb(7) [of z] mb(8) [of z] mb(2) unfolding c by auto
  have "tseg m7 0 False P xs = tseg m2 0 False P xs"
      "tseg m7 w True (w + 8 + of_nat r) (ys @ [sentinel]) = tseg m2 w True (w + 8 + of_nat r) (ys @ [sentinel])"
    by (rule tseg_cong; use hd sub ne in auto)+
  then have "tseg m7 0 False P ((xs @ (k, False, False) # (r, True, False) # ys) @ [sentinel])"
    using m2(2) hd [OF D(1)] hd [OF D(2)] xw by (simp add: tseg_append wx [symmetric] flip: x_def)
  moreover have "listed P (xs @ (k, False, False) # (r, True, False) # ys) F4" using r4(4) by (simp add: listed_def)
  moreover have "layout nb P (xs @ (k, False, False) # (r, True, False) # ys)" "hdrs nb P (xs @ (k, False, False) # (r, True, False) # ys) = D"
    using l2 by (simp_all add: layout_def sizes_ok_def D_def hdrs_def)
  ultimately have "tl_ok nb P (ctl4, m7) (xs @ (k, False, False) # (r, True, False) # ys) F4"
    using r4(3) lists_ok_cong [OF r4(2,3) lk] d(6) by (auto simp: tl_ok_def)
  moreover have "m7 i = m i" if i: "i \<in> payload (unat P) ?B" for i
  proof -
    have i2: "i \<in> payload (unat P) ?B2" "i \<in> payload (unat P) ((xs @ [(k, False, f)]) @ (r, True, False) # ys)"
      using i by (auto simp: algebra_simps)
    note hp = header_payload(2) [OF l2 _ i2(1), folded D_def]
    have "m7 i = m4 i" using D by (simp add: m7_def m6_def m5_def hp)
    also have "\<dots> = m3 i" by (rule links_payload [OF l3(1) r4(5) i2(2)])
    also have "\<dots> = m1 i" using m2(4) i2(1) D by (simp add: m3_def hp)
    also have "\<dots> = m i" by (rule links_payload [OF d(1) r1(5) i])
    finally show ?thesis .
  qed
  ultimately show ?thesis using run unfolding x_def by blast
qed

end
