(* ===== verification/Vibe_Tlsf_Free.thy ===== *)
theory Vibe_Tlsf_Free
  imports Vibe_Tlsf_Pool
begin

text \<open>
  Release of a block of the two-level segregated fit heap: merging with the free neighbours, and the list the result goes on.
\<close>

section \<open>Release\<close>

text \<open>Two neighbours become one: the header of the first takes the size of both, and the block behind points back to it.\<close>

lemma absorb_block:
  assumes l: "layout nb P (xs @ (a, ta, fa) # (b, tb, fb) # ys)" and c: "ys @ [sentinel] = c # zs"
    and ts: "tseg m 0 False P (xs @ (a, ta, fa) # (b, tb, fb) # ys @ [sentinel])"
  defines "D \<equiv> hdrs nb P (xs @ (a, ta, fa) # (b, tb, fb) # ys)" and "x \<equiv> behind P xs"
  defines "m' \<equiv> set_prev_phys (x + 8 + of_nat (a + 8 + b)) x (set_size_flags x (hw (a + 8 + b) fa (last_free False xs)) m)"
  shows "tseg m' 0 False P (xs @ (a + 8 + b, tb, fa) # ys @ [sentinel])"
    "z \<in> D \<Longrightarrow> next_free m' z = next_free m z \<and> prev_free m' z = prev_free m z"
    "i \<in> payload (unat P) (xs @ (a, ta, fa) # (b, tb, fb) # ys) \<Longrightarrow> m' i = m i"
    "layout nb P (xs @ (a + 8 + b, t, f) # ys)" "hdrs nb P (xs @ (a + 8 + b, t, f) # ys) \<subseteq> D" "x \<in> D"
proof -
  let ?pf = "last_free False xs"
  define w where "w = x + 8 + of_nat a"
  define y where "y = w + 8 + of_nat b"
  note fs = fld_rules [OF layout_spaced(1) [OF l, folded D_def]]
  have yx: "x + 8 + of_nat (a + 8 + b) = y" by (simp add: y_def w_def algebra_simps)
  have c2: "((b, tb, fb) # ys) @ [sentinel] = (b, tb, fb) # c # zs" by (simp add: c)
  note ma = mid_addresses [OF l c2, unfolded fst_conv, folded x_def, folded w_def, folded y_def]
  have l': "layout nb P ((xs @ [(a, ta, fa)]) @ (b, tb, fb) # ys)" using l by simp
  have bw: "behind P (xs @ [(a, ta, fa)]) = w" by (simp add: w_def x_def)
  note mb = mid_addresses [OF l' c, unfolded fst_conv bw, folded y_def]
  have D: "x \<in> D" "w \<in> D" "y \<in> D" "heads P xs \<subseteq> D" "heads (y + 8 + of_nat (bsize c)) zs \<subseteq> D"
    unfolding D_def ma(6) heads.simps by blast+
  have ne: "x \<noteq> w" "w \<noteq> y" "x \<noteq> y"
    using arg_cong [of x w unat] arg_cong [of w y unat] arg_cong [of x y unat] ma(2) mb(2) by linarith+
  have nz: "z \<noteq> x \<and> z \<noteq> w \<and> z \<noteq> y" if "z \<in> heads P xs \<or> z \<in> heads (y + 8 + of_nat (bsize c)) zs" for z
    using that ma(7) [of z] mb(8) [of z] ma(2) mb(2) by auto
  have t: "tseg m 0 False P xs" "prev_phys m x = last_head 0 P xs" "size_flags m y = hw (bsize c) (bflag c) tb" "tseg m y (bfree c) (y + 8 + of_nat (bsize c)) zs"
    using ts c by (simp_all add: tseg_append w_def y_def x_def)
  have hd: "prev_phys m' z = (if z = y then x else prev_phys m z)"
      "size_flags m' z = (if z = x then hw (a + 8 + b) fa ?pf else size_flags m z)" if "z \<in> D" for z
    using that D ne unfolding m'_def yx by (auto simp: fs)
  have "tseg m' 0 False P xs" "tseg m' y (bfree c) (y + 8 + of_nat (bsize c)) zs"
    using t(1,4) D(4,5) nz hd by (simp_all add: tseg_cong [of P xs m' m] tseg_cong [of _ zs m' m] subset_iff)
  then show "tseg m' 0 False P (xs @ (a + 8 + b, tb, fa) # ys @ [sentinel])"
    using hd [OF D(1)] hd [OF D(3)] ne t(2,3) c yx by (simp add: tseg_append flip: x_def)
  show "next_free m' z = next_free m z \<and> prev_free m' z = prev_free m z" if "z \<in> D"
    using that D unfolding m'_def yx by (auto simp: fs)
  show "m' i = m i" if "i \<in> payload (unat P) (xs @ (a, ta, fa) # (b, tb, fb) # ys)"
    using header_payload [OF l _ that] D unfolding m'_def yx by (simp add: D_def)
  have "a mod 8 = 0" "b mod 8 = 0" using ma(3) mb(3) by simp_all
  then have "(a + 8 + b) mod 8 = 0" by presburger
  then show "layout nb P (xs @ (a + 8 + b, t, f) # ys)" using l by (simp add: layout_def sizes_ok_def)
  show "hdrs nb P (xs @ (a + 8 + b, t, f) # ys) \<subseteq> D" using yx by (auto simp: D_def hdrs_def w_def y_def x_def algebra_simps)
  show "x \<in> D" by (rule D)
qed

text \<open>
  Between the steps of a release the chain and the lists disagree on the block in hand: \<open>tf\<close> is what the \<^verbatim>\<open>BLOCK_PREV_FREE\<close> flag behind it says, and it is
  on no list.
\<close>

definition tl_hand :: "u32 \<Rightarrow> u32 \<Rightarrow> tlsf_mem \<Rightarrow> tblock list \<Rightarrow> nat \<Rightarrow> bool \<Rightarrow> bool \<Rightarrow> tblock list \<Rightarrow> lists \<Rightarrow> bool" where
  "tl_hand nb P cm xs n tf f ys F \<longleftrightarrow> layout nb P (xs @ (n, tf, f) # ys) \<and> placed (hdrs nb P (xs @ (n, tf, f) # ys)) nb F \<and> lists_ok nb cm F \<and>
     tseg (snd cm) 0 False P (xs @ (n, tf, f) # ys @ [sentinel]) \<and> listed P (xs @ (n, False, f) # ys) F"

lemma tl_handD:
  assumes "tl_hand nb P (ctl, m) xs n tf f ys F"
  shows "layout nb P (xs @ (n, tf, f) # ys)" "placed (hdrs nb P (xs @ (n, tf, f) # ys)) nb F" "lists_ok nb (ctl, m) F"
    "tseg m 0 False P (xs @ (n, tf, f) # ys @ [sentinel])" "listed P (xs @ (n, False, f) # ys) F"
  using assms by (auto simp: tl_hand_def)

text \<open>The payload that other callers own: the block in hand counts as free.\<close>

abbreviation others :: "u32 \<Rightarrow> tblock list \<Rightarrow> nat \<Rightarrow> tblock list \<Rightarrow> nat set" where
  "others P xs n ys \<equiv> payload (unat P) (xs @ (n, True, True) # ys)"

lemma others_flags: "others P xs n ys \<subseteq> payload (unat P) (xs @ (n, t, f) # ys)" "others P xs n ys = payload (unat P) (xs @ (n, True, f) # ys)"
  by auto

text \<open>Both merges: a free block \<open>(a, True, fa)\<close> or \<open>(b, True, fb)\<close> is unlinked and the two become one block in hand.\<close>

lemma absorb_hand:
  assumes l: "layout nb P (xs @ (a, ta, fa) # (b, tb, fb) # ys)"
    and ts: "tseg m 0 False P (xs @ (a, ta, fa) # (b, tb, fb) # ys @ [sentinel])"
    and pl: "placed (hdrs nb P (xs @ (a, ta, fa) # (b, tb, fb) # ys)) nb F" and lo: "lists_ok nb (ctl, m) F"
    and li: "listed P (xs @ (a, False, fa) # (b, False, fb) # ys) F"
  defines "x \<equiv> behind P xs"
  defines "m' \<equiv> set_prev_phys (x + 8 + of_nat (a + 8 + b)) x (set_size_flags x (hw (a + 8 + b) fa (last_free False xs)) m)"
  shows "tl_hand nb P (ctl, m') xs (a + 8 + b) tb fa ys F"
    "i \<in> others P xs (a + 8 + b) ys \<Longrightarrow> m' i = m i"
proof -
  obtain c zs where c: "ys @ [sentinel] = c # zs" using next_header by blast
  note ab = absorb_block [OF l c ts, folded x_def, folded m'_def]
  let ?D = "hdrs nb P (xs @ (a, ta, fa) # (b, tb, fb) # ys)"
  let ?B = "xs @ (a + 8 + b, tb, fa) # ys"
  have li': "listed P (xs @ (a + 8 + b, False, fa) # ys) F" using li by (simp add: listed_def add.assoc add.left_commute)
  have "lists_ok nb (ctl, m') F" by (rule lists_ok_cong [OF lo pl]) (rule ab(2))
  moreover have "placed (hdrs nb P ?B) nb F"
  proof (rule placed_change [OF pl layout_spaced(1) [OF ab(4)]])
    show "nb \<in> hdrs nb P ?B" by (simp add: hdrs_def)
    fix fl sl assume "in_table fl sl"
    then have "set (F fl sl) \<subseteq> fst ` frees P (xs @ (a + 8 + b, False, fa) # ys)" using li' by (force simp: listed_def)
    also have "\<dots> \<subseteq> heads P (xs @ (a + 8 + b, False, fa) # ys)" using frees_heads by fastforce
    finally show "set (F fl sl) \<subseteq> hdrs nb P ?B" by (auto simp: hdrs_def)
  qed
  ultimately show "tl_hand nb P (ctl, m') xs (a + 8 + b) tb fa ys F" using ab(1,4) li' by (simp add: tl_hand_def)
  show "m' i = m i" if "i \<in> others P xs (a + 8 + b) ys"
    using that by (intro ab(3)) (auto simp: algebra_simps)
qed

lemma merge_prev_free:
  assumes h: "tl_hand nb P (ctl, m) (xs @ [(p, True, g)]) n False f ys F"
  shows "\<exists>ctl' m' F'. merge_prev nb (behind P (xs @ [(p, True, g)])) (ctl, m) = Some (behind P xs, ctl', m') \<and>
    tl_hand nb P (ctl', m') xs (p + 8 + n) False g ys F' \<and> (\<forall>i\<in>others P xs (p + 8 + n) ys. m' i = m i)"
proof -
  let ?B = "xs @ (p, True, g) # (n, False, f) # ys" and ?pf = "last_free False xs"
  note d = tl_handD [OF h, unfolded append_assoc append_Cons append_Nil]
  define x where "x = behind P xs"
  define w where "w = x + 8 + of_nat p"
  have bw: "behind P (xs @ [(p, True, g)]) = w" by (simp add: w_def x_def)
  obtain c zs where c: "ys @ [sentinel] = c # zs" using next_header by blast
  have c2: "((n, False, f) # ys) @ [sentinel] = (n, False, f) # c # zs" by (simp add: c)
  note ma = mid_addresses [OF d(1) c2, unfolded fst_conv, folded x_def, folded w_def]
  have n8: "n mod 8 = 0" using d(1) by (simp add: layout_def sizes_ok_def)
  then have pn8: "(p + 8 + n) mod 8 = 0" using ma(3) by presburger
  have t: "size_flags m x = hw p g ?pf" "prev_phys m w = x" "size_flags m w = hw n f True"
    using d(4) by (simp_all add: tseg_append w_def x_def)
  from unlist [OF d(1,2,3,5), folded x_def, OF hw_block(1) [OF t(1) ma(3)]] obtain ctl1 m1 F1 where
    r: "free_list_remove nb x (ctl, m) = Some (ctl1, m1)" "lists_ok nb (ctl1, m1) F1" "placed (hdrs nb P ?B) nb F1" "listed P (xs @ (p, False, g) # (n, False, f) # ys) F1"
      "links_only (link_blocks nb P ?B) m m1" "\<forall>z\<in>hdrs nb P ?B. prev_phys m1 z = prev_phys m z \<and> size_flags m1 z = size_flags m z" by blast
  have D: "x \<in> hdrs nb P ?B" "w \<in> hdrs nb P ?B" unfolding ma(6) by blast+
  have s1: "size_flags m1 x = hw p g ?pf" "size_flags m1 w = hw n f True" using r(6) D t by auto
  define m2 where "m2 = set_size_flags x (hw (p + 8 + n) g ?pf) m1"
  define m' where "m' = set_prev_phys (x + 8 + of_nat (p + 8 + n)) x m2"
  have s2: "size_flags m2 x = hw (p + 8 + n) g ?pf" using fld_rules(6) [OF layout_spaced(1) [OF d(1)] D(1) D(1)] by (simp add: m2_def)
  have bn: "set_prev_phys (block_next m2 x) x m2 = m'" by (simp only: m'_def hw_block(9) [OF s2 pn8])
  have "(size_flags m1 x AND NOT BLOCK_SIZE_MASK) OR (block_size m1 x + BLOCK_HDR_OFFSET + block_size m1 w) = hw (p + 8 + n) g ?pf"
    using hw_ops(8) [of p "p + 8 + n" g ?pf] ma(3) pn8 s1 hw_block(1) [OF s1(1) ma(3)] hw_block(1) [OF s1(2) n8] by (simp add: BLOCK_HDR_OFFSET_def mod8_mod4)
  then have run: "merge_prev nb w (ctl, m) = Some (x, ctl1, m')"
    using hw_block(3) [OF t(3) n8] t(2) r(1) bn by (simp add: merge_prev_def Let_def flip: m2_def)
  have ts: "tseg m1 0 False P (xs @ (p, True, g) # (n, False, f) # ys @ [sentinel])" using tseg_hdrs [OF r(6), of 0 False] d(4) by simp
  note ah = absorb_hand [OF d(1) ts r(3,2,4), folded x_def, folded m2_def, folded m'_def]
  have "m' i = m i" if i: "i \<in> others P xs (p + 8 + n) ys" for i
    using ah(2) [OF i] links_payload [OF d(1) r(5), of i] i by (auto simp: algebra_simps)
  then show ?thesis using run ah(1) unfolding bw x_def by blast
qed

lemma merge_next_free:
  assumes h: "tl_hand nb P (ctl, m) xs n False f ((b, True, True) # ys) F"
  shows "\<exists>ctl' m' F'. merge_next nb (behind P xs) (ctl, m) = Some (behind P xs, ctl', m') \<and>
    tl_hand nb P (ctl', m') xs (n + 8 + b) True f ys F' \<and> (\<forall>i\<in>others P xs (n + 8 + b) ys. m' i = m i)"
proof -
  let ?B = "xs @ (n, False, f) # (b, True, True) # ys" and ?pf = "last_free False xs"
  note d = tl_handD [OF h, unfolded append_Cons]
  define x where "x = behind P xs"
  define w where "w = x + 8 + of_nat n"
  have bw: "behind P (xs @ [(n, False, f)]) = w" by (simp add: w_def x_def)
  obtain c zs where c: "ys @ [sentinel] = c # zs" using next_header by blast
  have c2: "((b, True, True) # ys) @ [sentinel] = (b, True, True) # c # zs" by (simp add: c)
  note ma = mid_addresses [OF d(1) c2, unfolded fst_conv, folded x_def, folded w_def]
  have b8: "b mod 8 = 0" using d(1) by (simp add: layout_def sizes_ok_def)
  then have nb8: "(n + 8 + b) mod 8 = 0" using ma(3) by presburger
  have t: "size_flags m x = hw n f ?pf" "size_flags m w = hw b True False"
    using d(4) by (simp_all add: tseg_append w_def x_def)
  have d': "layout nb P ((xs @ [(n, False, f)]) @ (b, True, True) # ys)" "placed (hdrs nb P ((xs @ [(n, False, f)]) @ (b, True, True) # ys)) nb F"
      "listed P ((xs @ [(n, False, f)]) @ (b, True, True) # ys) F" using d by simp_all
  from unlist [OF d'(1,2) d(3) d'(3), unfolded bw, OF hw_block(1) [OF t(2) b8]] obtain ctl1 m1 F1 where
    r: "free_list_remove nb w (ctl, m) = Some (ctl1, m1)" "lists_ok nb (ctl1, m1) F1" "placed (hdrs nb P ?B) nb F1" "listed P (xs @ (n, False, f) # (b, False, True) # ys) F1"
      "links_only (link_blocks nb P ?B) m m1" "\<forall>z\<in>hdrs nb P ?B. prev_phys m1 z = prev_phys m z \<and> size_flags m1 z = size_flags m z" by auto
  have D: "x \<in> hdrs nb P ?B" "w \<in> hdrs nb P ?B" unfolding ma(6) by blast+
  have s1: "size_flags m1 x = hw n f ?pf" "size_flags m1 w = hw b True False" using r(6) D t by auto
  define m2 where "m2 = set_size_flags x (hw (n + 8 + b) f ?pf) m1"
  define m' where "m' = set_prev_phys (x + 8 + of_nat (n + 8 + b)) x m2"
  have s2: "size_flags m2 x = hw (n + 8 + b) f ?pf" using fld_rules(6) [OF layout_spaced(1) [OF d(1)] D(1) D(1)] by (simp add: m2_def)
  have bn: "set_prev_phys (block_next m2 x) x m2 = m'" by (simp only: m'_def hw_block(9) [OF s2 nb8])
  have "block_set_size x (block_size m1 x + BLOCK_HDR_OFFSET + block_size m1 w) m1 = m2"
    using hw_block(8) [OF s1(1) ma(3) nb8] hw_block(1) [OF s1(1) ma(3)] hw_block(1) [OF s1(2) b8] by (simp add: BLOCK_HDR_OFFSET_def m2_def)
  then have run: "merge_next nb x (ctl, m) = Some (x, ctl1, m')"
    using hw_block(9) [OF t(1) ma(3), folded w_def] hw_block(2) [OF t(2) b8] r(1) bn by (simp add: merge_next_def Let_def)
  have ts: "tseg m1 0 False P (xs @ (n, False, f) # (b, True, True) # ys @ [sentinel])" using tseg_hdrs [OF r(6), of 0 False] d(4) by simp
  note ah = absorb_hand [OF d(1) ts r(3,2,4), folded x_def, folded m2_def, folded m'_def]
  have "m' i = m i" if i: "i \<in> others P xs (n + 8 + b) ys" for i
    using ah(2) [OF i] links_payload [OF d(1) r(5), of i] i by (auto simp: algebra_simps)
  then show ?thesis using run ah(1) unfolding x_def by blast
qed

text \<open>The last steps: the flag of the block behind, and the list.\<close>

lemma hand_in:
  assumes h: "tl_hand nb P (ctl, m) xs n tf f ys F"
  defines "x \<equiv> behind P xs"
  shows "\<exists>ctl' m' F'. free_list_insert nb x (ctl, block_set_prev_free (block_next m x) m) = Some (ctl', m') \<and> layout nb P (xs @ (n, True, f) # ys) \<and>
    placed (hdrs nb P (xs @ (n, True, f) # ys)) nb F' \<and> lists_ok nb (ctl', m') F' \<and> tseg m' 0 False P ((xs @ (n, True, f) # ys) @ [sentinel]) \<and>
    listed P (xs @ (n, True, f) # ys) F' \<and> (\<forall>i\<in>others P xs n ys. m' i = m i)"
proof -
  let ?B = "xs @ (n, True, f) # ys" and ?D = "hdrs nb P (xs @ (n, True, f) # ys)"
  note d = tl_handD [OF h]
  define y where "y = x + 8 + of_nat n"
  obtain c zs where c: "ys @ [sentinel] = c # zs" using next_header by blast
  have l: "layout nb P ?B" "placed ?D nb F" using d(1,2) by (simp_all add: layout_def sizes_ok_def hdrs_def)
  note ma = mid_addresses [OF l(1) c, unfolded fst_conv, folded x_def, folded y_def]
  note mt = mid_tseg [OF d(4) c, unfolded fst_conv snd_conv, folded x_def, folded y_def]
  note fs = fld_rules [OF layout_spaced(1) [OF l(1)]]
  have c8: "bsize c mod 8 = 0" using l(1) c by (cases ys) (auto simp: layout_def sizes_ok_def)
  define m1 where "m1 = set_size_flags y (hw (bsize c) (bflag c) True) m"
  have run: "block_set_prev_free (block_next m x) m = m1"
    by (simp only: hw_block(9) [OF mt(3) ma(3), folded y_def] hw_block(6) [OF mt(5) c8] m1_def)
  have xy: "x \<noteq> y" using arg_cong [of x y unat] ma(2) by linarith
  have D: "x \<in> ?D" "y \<in> ?D" "heads P xs \<subseteq> ?D" "heads (y + 8 + of_nat (bsize c)) zs \<subseteq> ?D" unfolding ma(6) by blast+
  have ne: "z \<noteq> y" if "z \<in> heads P xs \<or> z \<in> heads (y + 8 + of_nat (bsize c)) zs" for z
    using that ma(7,8) [of z] ma(2) by auto
  have hd: "prev_phys m1 z = prev_phys m z" "size_flags m1 z = (if z = y then hw (bsize c) (bflag c) True else size_flags m z)"
      "next_free m1 z = next_free m z \<and> prev_free m1 z = prev_free m z" if "z \<in> ?D" for z
    using that D by (auto simp: m1_def fs)
  have "tseg m1 0 False P xs" "tseg m1 y (bfree c) (y + 8 + of_nat (bsize c)) zs"
    using mt(1,6) D(3,4) ne hd by (simp_all add: tseg_cong [of P xs m1 m] tseg_cong [of _ zs m1 m] subset_iff)
  then have ts: "tseg m1 0 False P (?B @ [sentinel])"
    using hd [OF D(1)] hd [OF D(2)] xy mt(2,3,4) c by (simp add: tseg_append y_def flip: x_def)
  have s1: "block_size m1 x = of_nat n" using hw_block(1) [OF _ ma(3)] hd(2) [OF D(1)] xy mt(3) by simp
  have lo: "lists_ok nb (ctl, m1) F" by (rule lists_ok_cong [OF d(3) l(2)]) (rule hd(3))
  from relist [OF l lo d(5), folded x_def, OF s1] obtain ctl' m' F' where
    r: "free_list_insert nb x (ctl, m1) = Some (ctl', m')" "lists_ok nb (ctl', m') F'" "placed ?D nb F'" "listed P ?B F'"
      "links_only (link_blocks nb P ?B) m1 m'" "\<forall>z\<in>?D. prev_phys m' z = prev_phys m1 z \<and> size_flags m' z = size_flags m1 z" by blast
  have "m' i = m i" if i: "i \<in> payload (unat P) ?B" for i
    using links_payload [OF l(1) r(5) i] header_payload(2) [OF l(1) D(2) i] by (simp add: m1_def)
  then show ?thesis using r(1-4) l(1) tseg_hdrs [OF r(6) ts] unfolding run by auto
qed

text \<open>
  The blocks after the block between \<open>xs\<close> and \<open>ys\<close> is released. A free block in front is always merged and keeps its own flag; a free block behind is merged
  when it carries the flag.
\<close>

definition join_prev :: "tblock list \<Rightarrow> nat \<Rightarrow> tblock list \<times> nat \<times> bool" where
  "join_prev xs n = (if last_free False xs then (butlast xs, bsize (last xs) + 8 + n, bflag (last xs)) else (xs, n, True))"

definition join_after :: "nat \<Rightarrow> tblock list \<Rightarrow> nat \<times> tblock list" where
  "join_after n ys = (case ys of b # zs \<Rightarrow> if bflag b then (n + 8 + bsize b, zs) else (n, ys) | [] \<Rightarrow> (n, ys))"

definition tl_free :: "tblock list \<Rightarrow> nat \<Rightarrow> tblock list \<Rightarrow> tblock list" where
  "tl_free xs n ys = (let (us, k, f) = join_prev xs n; (k, vs) = join_after k ys in us @ (k, True, f) # vs)"

lemma merge_prev_hand:
  assumes h: "tl_hand nb P (ctl, m) xs n False True ys F"
  shows "\<exists>us k f ctl' m' F'. join_prev xs n = (us, k, f) \<and> merge_prev nb (behind P xs) (ctl, m) = Some (behind P us, ctl', m') \<and>
    tl_hand nb P (ctl', m') us k False f ys F' \<and> set us \<subseteq> set xs \<and> others P us k ys = others P xs n ys \<and> (\<forall>i\<in>others P xs n ys. m' i = m i)"
proof (cases "last_free False xs")
  case True
  then obtain us p g where u: "xs = us @ [(p, True, g)]" by (cases xs rule: rev_cases) auto
  have "others P us (p + 8 + n) ys = others P xs n ys" by (auto simp: u algebra_simps)
  then show ?thesis using merge_prev_free [OF h [unfolded u]] by (auto simp: join_prev_def u)
next
  case False
  note d = tl_handD [OF h]
  obtain c zs where c: "ys @ [sentinel] = c # zs" using next_header by blast
  have "\<not> block_prev_is_free m (behind P xs)"
    using hw_block(3) [OF mid_tseg(3) [OF d(4) c, unfolded fst_conv snd_conv] mid_addresses(3) [OF d(1) c, unfolded fst_conv]] False by simp
  then show ?thesis using h False by (auto simp: join_prev_def merge_prev_def)
qed

lemma merge_next_hand:
  assumes h: "tl_hand nb P (ctl, m) xs n False f ys F" and fl: "\<And>b. b \<in> set ys \<Longrightarrow> bflag b \<Longrightarrow> bfree b"
  shows "\<exists>k vs tf ctl' m' F'. join_after n ys = (k, vs) \<and> merge_next nb (behind P xs) (ctl, m) = Some (behind P xs, ctl', m') \<and>
    tl_hand nb P (ctl', m') xs k tf f vs F' \<and> set vs \<subseteq> set ys \<and> others P xs k vs = others P xs n ys \<and> (\<forall>i\<in>others P xs n ys. m' i = m i)"
proof (cases "ys \<noteq> [] \<and> bflag (hd ys)")
  case True
  then obtain b vs where y: "ys = (b, True, True) # vs" using fl [of "hd ys"] by (cases ys) auto
  have "others P xs (n + 8 + b) vs = others P xs n ys" by (auto simp: y algebra_simps)
  then show ?thesis using merge_next_free [OF h [unfolded y]] by (fastforce simp: join_after_def y)
next
  case False
  note d = tl_handD [OF h]
  obtain c zs where c: "ys @ [sentinel] = c # zs" using next_header by blast
  have c8: "bsize c mod 8 = 0" using d(1) c by (cases ys) (auto simp: layout_def sizes_ok_def)
  note mt = mid_tseg [OF d(4) c, unfolded fst_conv snd_conv] and n8 = mid_addresses(3) [OF d(1) c, unfolded fst_conv]
  have "\<not> bflag c" using False c by (cases ys) auto
  then have "merge_next nb (behind P xs) (ctl, m) = Some (behind P xs, ctl, m)"
    using hw_block(2) [OF mt(5) c8] by (simp add: merge_next_def Let_def hw_block(9) [OF mt(3) n8])
  moreover have "join_after n ys = (n, ys)" using False by (cases ys) (auto simp: join_after_def)
  ultimately show ?thesis using h by auto
qed

lemma set_free_hand:
  assumes ok: "tl_ok nb P (ctl, m) (xs @ (n, False, False) # ys) F"
  defines "m' \<equiv> block_set_free (behind P xs) m"
  shows "tl_hand nb P (ctl, m') xs n False True ys F" "i \<in> others P xs n ys \<Longrightarrow> m' i = m i" "\<not> block_is_free m (behind P xs)"
proof -
  let ?B = "xs @ (n, False, False) # ys" and ?pf = "last_free False xs"
  define x where "x = behind P xs"
  define y where "y = x + 8 + of_nat n"
  note d = tl_okD [OF ok]
  obtain c zs where c: "ys @ [sentinel] = c # zs" using next_header by blast
  note ma = mid_addresses [OF d(1) c, unfolded fst_conv, folded x_def, folded y_def]
  have t: "tseg m 0 False P (xs @ (n, False, False) # ys @ [sentinel])" using d(4) by simp
  note mt = mid_tseg [OF t c, unfolded fst_conv snd_conv, folded x_def, folded y_def]
  note fs = fld_rules [OF layout_spaced(1) [OF d(1)]]
  show "\<not> block_is_free m (behind P xs)" using hw_block(2) [OF mt(3) ma(3)] by (simp add: x_def)
  have m': "m' = set_size_flags x (hw n True ?pf) m" unfolding m'_def x_def [symmetric] by (rule hw_block(4) [OF mt(3) ma(3)])
  have xy: "x \<noteq> y" using arg_cong [of x y unat] ma(2) by linarith
  have D: "x \<in> hdrs nb P ?B" "y \<in> hdrs nb P ?B" "heads P xs \<subseteq> hdrs nb P ?B" "heads (y + 8 + of_nat (bsize c)) zs \<subseteq> hdrs nb P ?B" unfolding ma(6) by blast+
  have ne: "z \<noteq> x" if "z \<in> heads P xs \<or> z \<in> heads (y + 8 + of_nat (bsize c)) zs" for z
    using that ma(7,8) [of z] ma(2) by auto
  have hd: "prev_phys m' z = prev_phys m z" "size_flags m' z = (if z = x then hw n True ?pf else size_flags m z)"
      "next_free m' z = next_free m z \<and> prev_free m' z = prev_free m z" if "z \<in> hdrs nb P ?B" for z
    using that D by (auto simp: m' fs)
  have "tseg m' 0 False P xs" "tseg m' y (bfree c) (y + 8 + of_nat (bsize c)) zs"
    using mt(1,6) D(3,4) ne hd by (simp_all add: tseg_cong [of P xs m' m] tseg_cong [of _ zs m' m] subset_iff)
  then have "tseg m' 0 False P (xs @ (n, False, True) # ys @ [sentinel])"
    using hd [OF D(1)] hd [OF D(2)] xy mt(2,4,5) c by (simp add: tseg_append y_def flip: x_def)
  moreover have "lists_ok nb (ctl, m') F" by (rule lists_ok_cong [OF d(3,2)]) (rule hd(3))
  moreover have "layout nb P (xs @ (n, False, True) # ys)" "placed (hdrs nb P (xs @ (n, False, True) # ys)) nb F" "listed P (xs @ (n, False, True) # ys) F"
    using d(1,2,5) by (simp_all add: layout_def sizes_ok_def hdrs_def listed_def)
  ultimately show "tl_hand nb P (ctl, m') xs n False True ys F" by (simp add: tl_hand_def)
  show "m' i = m i" if "i \<in> others P xs n ys" using that by (auto simp: m' intro!: header_payload(2) [OF d(1) D(1)])
qed

lemma put_block:
  assumes ok: "tl_ok nb P (ctl, m) (xs @ (n, False, False) # ys) F"
  shows "\<exists>ctl' m' F'. tlsf_put nb (behind P xs) (ctl, block_set_free (behind P xs) m) = Some (ctl', m') \<and> tl_ok nb P (ctl', m') (tl_free xs n ys) F' \<and>
    payload (unat P) (tl_free xs n ys) = others P xs n ys \<and> (\<forall>i\<in>others P xs n ys. m' i = m i)"
proof -
  let ?m = "block_set_free (behind P xs) m"
  note d = tl_okD [OF ok] and s = set_free_hand [OF ok]
  from merge_prev_hand [OF s(1)] obtain us k f ctl1 m1 F1 where
    p: "join_prev xs n = (us, k, f)" "merge_prev nb (behind P xs) (ctl, ?m) = Some (behind P us, ctl1, m1)" "tl_hand nb P (ctl1, m1) us k False f ys F1"
      "set us \<subseteq> set xs" "others P us k ys = others P xs n ys" "\<forall>i\<in>others P xs n ys. m1 i = ?m i" by blast
  have "bfree b" if "b \<in> set ys" "bflag b" for b using d(6) [of b] that by simp
  from merge_next_hand [OF p(3) this] obtain j vs tf ctl2 m2 F2 where
    q: "join_after k ys = (j, vs)" "merge_next nb (behind P us) (ctl1, m1) = Some (behind P us, ctl2, m2)" "tl_hand nb P (ctl2, m2) us j tf f vs F2"
      "set vs \<subseteq> set ys" "others P us j vs = others P us k ys" "\<forall>i\<in>others P us k ys. m2 i = m1 i" by blast
  from hand_in [OF q(3)] obtain ctl3 m3 F3 where
    r: "free_list_insert nb (behind P us) (ctl2, block_set_prev_free (block_next m2 (behind P us)) m2) = Some (ctl3, m3)" "layout nb P (us @ (j, True, f) # vs)"
      "placed (hdrs nb P (us @ (j, True, f) # vs)) nb F3" "lists_ok nb (ctl3, m3) F3" "tseg m3 0 False P ((us @ (j, True, f) # vs) @ [sentinel])"
      "listed P (us @ (j, True, f) # vs) F3" "\<forall>i\<in>others P us j vs. m3 i = m2 i" by blast
  have t: "tl_free xs n ys = us @ (j, True, f) # vs" by (simp add: tl_free_def p(1) q(1))
  have "tlsf_put nb (behind P xs) (ctl, ?m) = Some (ctl3, m3)" by (simp add: tlsf_put_def p(2) q(2) r(1) Let_def)
  moreover have "\<forall>b\<in>set xs \<union> set ys. bflag b \<longrightarrow> bfree b" using ok by (simp add: tl_ok_def ball_Un)
  then have "\<forall>b\<in>set (us @ (j, True, f) # vs). bflag b \<longrightarrow> bfree b" using p(4) q(4) by (simp add: ball_Un) blast
  then have "tl_ok nb P (ctl3, m3) (tl_free xs n ys) F3" using r(2-6) by (simp add: tl_ok_def t)
  moreover have "m3 i = m i" if "i \<in> others P xs n ys" for i using that r(7) q(5,6) p(5,6) s(2) by simp
  moreover have "payload (unat P) (tl_free xs n ys) = others P xs n ys" unfolding t using others_flags(2) [of P us j vs f] q(5) p(5) by simp
  ultimately show ?thesis by blast
qed

end
