(* ===== verification/Vibe_Tlsf_Heap.thy ===== *)
theory Vibe_Tlsf_Heap
  imports Vibe_Tlsf_Free
begin

text \<open>
  What \<^verbatim>\<open>vibe_heap_alloc\<close>, \<^verbatim>\<open>vibe_heap_free\<close>, \<^verbatim>\<open>vibe_heap_realloc\<close>, \<^verbatim>\<open>vibe_heap_calloc\<close> and \<^verbatim>\<open>vibe_heap_stats\<close> of
  \<^verbatim>\<open>lib/heap/heap_tlsf.c\<close> promise their callers.
\<close>

section \<open>The heap and its blocks\<close>

text \<open>The first block of the pool, behind the control structure.\<close>

definition tl_first :: "tlsf_t \<Rightarrow> u32" where
  "tl_first st = tl_pool st + 744"

definition tlsf_rep :: "tlsf \<Rightarrow> tblock list \<Rightarrow> bool" where
  "tlsf_rep h B \<longleftrightarrow> \<not> tl_lock (fst h) \<and> (\<exists>ctl F. g_ctl (fst h) = Some ctl \<and> tl_ok (null_block (fst h)) (tl_first (fst h)) (ctl, snd h) B F)"

lemma align_740: "HEAP_ALIGN_UP (of_nat SIZEOF_CTL) = 744"
proof -
  have "unat (HEAP_ALIGN_UP (of_nat SIZEOF_CTL)) = 744" by (simp add: align_up SIZEOF_CTL_def)
  then show ?thesis by (simp add: word_unat_eq_iff)
qed

text \<open>A pool before its first use: aligned, a multiple of 8 long, room for the control structure, one block and the sentinel.\<close>

definition tlsf_fresh :: "tlsf_t \<Rightarrow> bool" where
  "tlsf_fresh st \<longleftrightarrow> g_ctl st = None \<and> \<not> tl_lock st \<and> unat (tl_pool st) mod 8 = 0 \<and> unat (CONFIG_HEAP_SIZE st) mod 8 = 0 \<and>
     768 \<le> unat (CONFIG_HEAP_SIZE st) \<and> unat (CONFIG_HEAP_SIZE st) < 2 ^ 23 \<and> unat (tl_pool st) + unat (CONFIG_HEAP_SIZE st) \<le> 2 ^ 32"

lemma fresh_layout:
  assumes "tlsf_fresh st"
  defines "n \<equiv> unat (CONFIG_HEAP_SIZE st) - 760"
  shows "layout (null_block st) (tl_first st) [(n, t, f)]" "unat (tl_first st) = unat (tl_pool st) + 744"
    "tl_first st + 8 + of_nat n = tl_pool st + CONFIG_HEAP_SIZE st - 8"
proof -
  have a: "unat (tl_pool st) mod 8 = 0" "unat (CONFIG_HEAP_SIZE st) mod 8 = 0" "768 \<le> unat (CONFIG_HEAP_SIZE st)" "unat (CONFIG_HEAP_SIZE st) < 2 ^ 23"
      "unat (tl_pool st) + unat (CONFIG_HEAP_SIZE st) \<le> 2 ^ 32" using assms by (simp_all add: tlsf_fresh_def)
  show u: "unat (tl_first st) = unat (tl_pool st) + 744" unfolding tl_first_def by (subst unat_plus_u32) (use a in simp_all)
  have v: "unat (null_block st) = unat (tl_pool st) + 724" unfolding null_block_def by (subst unat_plus_u32) (use a in simp_all)
  have n: "n + 760 = unat (CONFIG_HEAP_SIZE st)" using a(3) by (simp add: n_def)
  then have "n mod 8 = 0" "8 \<le> n" using a(2,3) by presburger+
  moreover have "unat (tl_pool st + 744) mod 8 = 0" "unat (null_block st) mod 4 = 0" using a(1) u v unfolding tl_first_def by presburger+
  moreover have "null_block st \<noteq> 0" using v by auto
  ultimately show "layout (null_block st) (tl_first st) [(n, t, f)]" using a(4,5) n u v by (simp add: layout_def sizes_ok_def tl_first_def)
  have "CONFIG_HEAP_SIZE st = of_nat (n + 760)" by (simp only: n) simp
  then show "tl_first st + 8 + of_nat n = tl_pool st + CONFIG_HEAP_SIZE st - 8" by (simp add: tl_first_def)
qed

lemma tlsf_init_rep:
  assumes fr: "tlsf_fresh st"
  shows "\<exists>st' m'. tlsf_init (st, m) = Some (st', m') \<and> tlsf_rep (st', m') [(unat (CONFIG_HEAP_SIZE st) - 760, True, True)] \<and>
    st' = st\<lparr>g_ctl := g_ctl st'\<rparr>"
proof -
  define n where "n = unat (CONFIG_HEAP_SIZE st) - 760"
  define nb where "nb = null_block st"
  define P where "P = tl_first st"
  define S where "S = P + 8 + of_nat n"
  let ?B = "[(n, True, True)] :: tblock list" and ?F = "\<lambda>_ _. [] :: u32 list"
  note fl = fresh_layout [OF fr, folded n_def nb_def P_def, folded S_def]
  have l: "layout nb P ([] @ (n, True, True) # [])" using fl(1) by simp
  note sp = layout_spaced [OF l]
  have D: "hdrs nb P ([] @ (n, True, True) # []) = {nb, P, S}" by (simp add: hdrs_def S_def)
  note fs = fld_rules [OF sp(1), unfolded D]
  have n8: "n mod 8 = 0" using l by (simp add: layout_def sizes_ok_def)
  have neq: "P \<noteq> S" "nb \<noteq> P" "nb \<noteq> S"
  proof -
    have "unat S = unat P + 8 + n" using mid_addresses(2) [OF l, of sentinel "[]"] by (simp add: S_def)
    moreover have "unat nb + 16 \<le> unat P" using l by (simp add: layout_def)
    ultimately show "P \<noteq> S" "nb \<noteq> P" "nb \<noteq> S" using arg_cong [of P S unat] arg_cong [of nb P unat] arg_cong [of nb S unat] by linarith+
  qed
  have sz: "tl_pool st + CONFIG_HEAP_SIZE st - P - 8 - 8 = of_nat n"
    using fl(3) unfolding S_def P_def tl_first_def by (simp add: algebra_simps)
  define m1 where "m1 = set_size_flags S 2 (set_size_flags nb 0 (set_prev_free nb nb (set_next_free nb nb (mem_set (unat (tl_pool st)) 0 SIZEOF_CTL m))))"
  define m2 where "m2 = set_prev_phys S P (set_prev_phys P 0 (set_size_flags P (of_nat n OR 1) (set_prev_phys S 0 m1)))"
  define m3 where "m3 = block_set_prev_free S m2"
  let ?ctl = "\<lparr>fl_bitmap = 0, sl_bitmap = (\<lambda>_. 0), free_head = (\<lambda>_ _. nb)\<rparr>"
  have m2: "size_flags m2 S = hw 0 False True" "size_flags m2 P = hw n True False" "prev_phys m2 P = 0" "prev_phys m2 S = P"
    using neq by (simp_all add: m2_def m1_def fs hw_def)
  have m3: "m3 = set_size_flags S (hw 0 False True) m2" unfolding m3_def by (rule hw_block(6) [OF m2(1)]) simp
  have ts: "tseg m3 0 False P (([] @ (n, True, True) # []) @ [sentinel])" using m2 neq by (simp add: m3 fs S_def [symmetric])
  have lo: "lists_ok nb (?ctl, m3) ?F" by (simp add: lists_ok_def maps_ok_def)
  have pl: "placed (hdrs nb P ([] @ (n, True, True) # [])) nb ?F" using sp(1) D by (simp add: placed_def)
  have li: "listed P ([] @ (n, False, True) # []) ?F" by (simp add: listed_def)
  have "size_flags m3 P = hw n True False" using m2 neq by (simp add: m3 fs)
  then have bs: "block_size m3 (behind P []) = of_nat n" using n8 by (simp add: hw_block(1))
  from relist [OF l pl lo li bs] obtain ctl' m' F' where
    r: "free_list_insert nb P (?ctl, m3) = Some (ctl', m')" "lists_ok nb (ctl', m') F'" "placed (hdrs nb P ([] @ (n, True, True) # [])) nb F'"
      "listed P ([] @ (n, True, True) # []) F'" "\<forall>z\<in>hdrs nb P ([] @ (n, True, True) # []). prev_phys m' z = prev_phys m3 z \<and> size_flags m' z = size_flags m3 z"
    by auto
  have flags: "0 OR BLOCK_PREV_FREE = 2" "BLOCK_IS_FREE = 1" by (simp_all add: BLOCK_PREV_FREE_def BLOCK_IS_FREE_def)
  have "tlsf_init (st, m) = Some (st\<lparr>g_ctl := Some ctl'\<rparr>, m')"
    unfolding tlsf_init_def Let_def prod.case nb_def [symmetric] align_740 tl_first_def [symmetric] P_def [symmetric] BLOCK_HDR_OFFSET_def fl(3) [symmetric] sz flags
      m1_def [symmetric] m2_def [symmetric] m3_def [symmetric] r(1) by simp
  moreover have "tl_ok nb P (ctl', m') ?B F'" using r(2-4) l tseg_hdrs [OF r(5) ts] by (simp add: tl_ok_def)
  then have "tlsf_rep (st\<lparr>g_ctl := Some ctl'\<rparr>, m') ?B" using fr by (auto simp: tlsf_rep_def tlsf_fresh_def null_block_def tl_first_def nb_def P_def)
  ultimately show ?thesis by (simp add: n_def)
qed

section \<open>Allocation from the pool\<close>

lemma frees_split: "(x, n) \<in> frees a B \<Longrightarrow> \<exists>xs f ys. B = xs @ (n, True, f) # ys \<and> x = behind a xs"
proof (induction B arbitrary: a)
  case (Cons b B)
  show ?case
  proof (cases "bfree b \<and> (x, n) = (a, bsize b)")
    case True
    then have "b # B = [] @ (n, True, bflag b) # B" by (cases b) simp
    then show ?thesis using True by (metis behind_simps(1) fst_conv)
  next
    case False
    then have "(x, n) \<in> frees (a + 8 + of_nat (bsize b)) B" using Cons.prems by (auto split: if_splits)
    from Cons.IH [OF this] obtain xs f ys where "B = xs @ (n, True, f) # ys" "x = behind (a + 8 + of_nat (bsize b)) xs" by blast
    then have "b # B = (b # xs) @ (n, True, f) # ys" "x = behind a (b # xs)" by simp_all
    then show ?thesis by blast
  qed
qed simp

lemma free_in_frees: "(n, True, f) \<in> set B \<Longrightarrow> \<exists>x. (x, n) \<in> frees a B"
  by (induction B arbitrary: a) auto

lemma search_pool:
  assumes ok: "tl_ok nb P (ctl, m) B F" and k: "k mod 8 = 0" "8 \<le> k" "k < 2 ^ 31"
  defines "r \<equiv> unat (round_up_size (of_nat k))"
  assumes r: "r < 2 ^ 23"
  shows "locate_free nb (of_nat k) ctl = Some 0 \<and> (\<forall>b\<in>set B. bfree b \<longrightarrow> bsize b < r) \<or>
    (\<exists>xs n f ys. B = xs @ (n, True, f) # ys \<and> k \<le> n \<and> locate_free nb (of_nat k) ctl = Some (behind P xs) \<and> behind P xs \<noteq> 0)"
proof -
  note d = tl_okD [OF ok]
  have sz: "(of_nat k :: u32) \<noteq> 0" using k(2) unat_of_nat_u32 [of k] k(3) by auto
  have small: "n < 2 ^ 23" if "(n, t, f) \<in> set B" for n t f
  proof -
    have "n \<le> tspan B" using that by (induction B) auto
    then show ?thesis using d(1) by (simp add: layout_def)
  qed
  obtain fl sl where c: "mapping (round_up_size (of_nat k)) = (fl, sl)" by fastforce
  then have tb: "in_table fl sl" using cls_in_table [OF r] by (simp add: cls_def r_def)
  have li: "set (F i j) = {x. \<exists>n. (x, n) \<in> frees P B \<and> cls n = (i, j)}" if "in_table i j" for i j using d(5) that by (simp add: listed_def)
  from locate_finds [OF d(2) layout_spaced(2) [OF d(1)] d(3) sz c tb] show ?thesis
  proof (elim disjE conjE exE)
    assume z: "locate_free nb (of_nat k) ctl = Some 0" and e: "\<forall>i j. in_table i j \<longrightarrow> cls_le (fl, sl) (i, j) \<longrightarrow> F i j = []"
    have "bsize b < r" if b: "b \<in> set B" "bfree b" for b
    proof (rule ccontr)
      assume "\<not> bsize b < r"
      obtain n f where bn: "b = (n, True, f)" using b(2) by (cases b) auto
      then have n: "n < 2 ^ 23" "r \<le> n" using b(1) small \<open>\<not> bsize b < r\<close> by auto
      obtain i j where ij: "cls n = (i, j)" by fastforce
      have "in_table i j" using cls_in_table [OF n(1)] ij by simp
      moreover have "cls_le (fl, sl) (i, j)" using good_fit(2) [OF k(1,3), of n] n c ij by (simp add: r_def)
      ultimately have "F i j = []" using e by blast
      then show False using li [OF \<open>in_table i j\<close>] free_in_frees [of n f B P] b(1) bn ij by auto
    qed
    then show ?thesis using z by blast
  next
    fix i j x
    assume x: "locate_free nb (of_nat k) ctl = Some x" "x \<noteq> 0" "in_table i j" "cls_le (fl, sl) (i, j)" "x \<in> set (F i j)"
    then obtain n where n: "(x, n) \<in> frees P B" "cls n = (i, j)" using li by blast
    obtain xs f ys where s: "B = xs @ (n, True, f) # ys" "x = behind P xs" using frees_split [OF n(1)] by blast
    have "n < 2 ^ 23" using small [of n True f] s(1) by simp
    then have "k \<le> n" using good_fit(1) [OF k(1,3), of n] c x(4) n(2) by simp
    then show ?thesis using s x(1,2) by blast
  qed
qed

lemma take_block:
  assumes ok: "tl_ok nb P (ctl, m) (xs @ (n, True, f) # ys) F" and k: "k mod 8 = 0" "8 \<le> k" "k \<le> n"
  shows "\<exists>ctl' m' F'. tlsf_take nb (behind P xs) (of_nat k) (ctl, m) = Some (behind P xs + 8, ctl', m') \<and>
    tl_ok nb P (ctl', m') (tl_take k xs n ys) F' \<and> (\<forall>i\<in>payload (unat P) (xs @ (n, True, f) # ys). m' i = m i)"
proof (cases "k + 16 \<le> n")
  case True
  define r where "r = n - k - 8"
  have r: "n = k + 8 + r" "8 \<le> r" using True by (simp_all add: r_def)
  show ?thesis using take_split [OF ok [unfolded r(1)] k(1,2) r(2)] True by (simp add: tl_take_def r(1))
next
  case False
  then show ?thesis using take_whole [OF ok k(1,3)] by (simp add: tl_take_def)
qed

text \<open>The payload of the block that was taken.\<close>

lemma taken_payload:
  assumes "k \<le> n"
  shows "{a + tspan xs + 8..<a + tspan xs + 8 + k} \<inter> payload a (xs @ (n, True, f) # ys) = {}"
    "{a + tspan xs + 8..<a + tspan xs + 8 + k} \<subseteq> payload a (tl_take k xs n ys)" "payload a (xs @ (n, True, f) # ys) \<subseteq> payload a (tl_take k xs n ys)"
proof -
  have "i < a + tspan xs" if "i \<in> payload a xs" for i using payload_bounds [OF that] by simp
  moreover have "a + tspan xs + 8 + n \<le> i" if "i \<in> payload (a + tspan xs + 8 + n) ys" for i using payload_bounds [OF that] by simp
  ultimately show "{a + tspan xs + 8..<a + tspan xs + 8 + k} \<inter> payload a (xs @ (n, True, f) # ys) = {}" using assms by fastforce
  show "{a + tspan xs + 8..<a + tspan xs + 8 + k} \<subseteq> payload a (tl_take k xs n ys)" "payload a (xs @ (n, True, f) # ys) \<subseteq> payload a (tl_take k xs n ys)"
    using assms by (auto simp: tl_take_def algebra_simps)
qed

section \<open>\<^verbatim>\<open>vibe_heap_alloc\<close>\<close>

text \<open>
  What \<^verbatim>\<open>vibe_heap_alloc\<close> promises for \<open>k\<close> bytes, a multiple of 8: NULL and no change when no free block has 9/8 of the size, or the payload of a free
  block with at least \<open>k\<close> bytes. No byte that a caller owns changes, and the new payload overlaps none of them.
\<close>

definition alloc_outcome :: "tlsf \<Rightarrow> tblock list \<Rightarrow> nat \<Rightarrow> u32 \<Rightarrow> tlsf \<Rightarrow> bool" where
  "alloc_outcome h B k r h' \<longleftrightarrow>
     (let a = unat (tl_first (fst h)) in
      r = 0 \<and> h' = h \<and> (\<forall>b\<in>set B. bfree b \<longrightarrow> bsize b < k + k div 8) \<or>
      (\<exists>xs n f ys. B = xs @ (n, True, f) # ys \<and> k \<le> n \<and> unat r = a + tspan xs + 8 \<and> tlsf_rep h' (tl_take k xs n ys) \<and>
         tl_pool (fst h') = tl_pool (fst h) \<and> (\<forall>i\<in>payload a B. snd h' i = snd h i) \<and>
         {unat r..<unat r + k} \<inter> payload a B = {} \<and> {unat r..<unat r + k} \<subseteq> payload a (tl_take k xs n ys)))"

lemma request_size:
  assumes "sz \<noteq> 0" "unat sz \<le> 2 ^ 22"
  defines "k \<equiv> unat (HEAP_ALIGN_UP sz)"
  shows "unat sz \<le> k" "k < unat sz + 8" "k mod 8 = 0" "8 \<le> k" "k < 2 ^ 31" "unat (round_up_size (of_nat k)) < 2 ^ 23" "unat (round_up_size (of_nat k)) \<le> k + k div 8"
    "(if HEAP_ALIGN_UP sz < BLOCK_PAYLOAD_MIN then BLOCK_PAYLOAD_MIN else HEAP_ALIGN_UP sz) = of_nat k"
proof -
  have "unat sz + 7 < 2 ^ 32" using assms(2) by simp
  from align_up_bounds [OF this assms(1)] show k: "unat sz \<le> k" "k < unat sz + 8" "k mod 8 = 0" "8 \<le> k" by (simp_all add: k_def)
  show k31: "k < 2 ^ 31" using k(2) assms(2) by simp
  show r: "unat (round_up_size (of_nat k)) \<le> k + k div 8" using round_up_class(4) [OF k(3) k31] .
  have "k \<le> 2 ^ 22 + 7" using k(2) assms(2) by simp
  then show "unat (round_up_size (of_nat k)) < 2 ^ 23" using r by simp
  show "(if HEAP_ALIGN_UP sz < BLOCK_PAYLOAD_MIN then BLOCK_PAYLOAD_MIN else HEAP_ALIGN_UP sz) = of_nat k"
    using k(4) by (simp add: k_def BLOCK_PAYLOAD_MIN_def word_less_nat_alt)
qed

lemma lock_free: "\<exists>key s'. vibe_spinlock_lock_irqsave False s = Some (key, True, s')"
  by (auto simp: spinlock_defs split: prod.splits)

lemma tlsf_alloc:
  assumes rep: "tlsf_rep h B" and sz: "sz \<noteq> 0" "unat sz \<le> 2 ^ 22"
  shows "\<exists>r h'. tlsf_heap_alloc sz h s = Some (r, h', s) \<and> alloc_outcome h B (unat (HEAP_ALIGN_UP sz)) r h'"
proof -
  obtain st m where h: "h = (st, m)" by fastforce
  define k where "k = unat (HEAP_ALIGN_UP sz)"
  note k = request_size [OF sz, folded k_def]
  define nb where "nb = null_block st"
  define P where "P = tl_first st"
  obtain ctl F where ok: "g_ctl st = Some ctl" "tl_ok nb P (ctl, m) B F" "\<not> tl_lock st" using rep by (auto simp: tlsf_rep_def h nb_def P_def)
  obtain key s' where lk: "vibe_spinlock_lock_irqsave (tl_lock st) s = Some (key, True, s')" using lock_free [of s] ok(3) by auto
  note un = irqsave_restore [OF lk]
  have same: "st\<lparr>g_ctl := Some ctl, tl_lock := False\<rparr> = st" using ok(1,3) by simp
  from search_pool [OF ok(2) k(3-6)] show ?thesis
  proof (elim disjE conjE exE)
    assume z: "locate_free nb (of_nat k) ctl = Some 0" and e: "\<forall>b\<in>set B. bfree b \<longrightarrow> bsize b < unat (round_up_size (of_nat k))"
    have "tlsf_heap_alloc sz h s = Some (0, h, s)"
      using sz(1) ok(1) z un same unfolding tlsf_heap_alloc_def Let_def k(8) by (simp add: h lk nb_def)
    moreover have "\<forall>b\<in>set B. bfree b \<longrightarrow> bsize b < k + k div 8" using e k(7) by (meson less_le_trans)
    ultimately show ?thesis by (simp add: alloc_outcome_def k_def)
  next
    fix xs n f ys
    assume B: "B = xs @ (n, True, f) # ys" and kn: "k \<le> n" and x: "locate_free nb (of_nat k) ctl = Some (behind P xs)" "behind P xs \<noteq> 0"
    from take_block [OF ok(2) [unfolded B] k(3,4) kn] obtain ctl' m' F' where
      t: "tlsf_take nb (behind P xs) (of_nat k) (ctl, m) = Some (behind P xs + 8, ctl', m')" "tl_ok nb P (ctl', m') (tl_take k xs n ys) F'"
        "\<forall>i\<in>payload (unat P) B. m' i = m i" unfolding B by blast
    define h' where "h' = (st\<lparr>g_ctl := Some ctl', tl_lock := False\<rparr>, m')"
    have run: "tlsf_heap_alloc sz h s = Some (behind P xs + 8, h', s)"
      using sz(1) ok(1) x un t(1) unfolding tlsf_heap_alloc_def Let_def k(8) by (simp add: h lk nb_def h'_def)
    obtain c zs where c: "ys @ [sentinel] = c # zs" using next_header by blast
    note ma = mid_addresses [OF tl_okD(1) [OF ok(2) [unfolded B]] c, unfolded fst_conv]
    have u: "unat (behind P xs + 8) = unat P + tspan xs + 8" using ma(1,11) unat_plus_u32 [of "behind P xs" 8] by simp
    have "tlsf_rep h' (tl_take k xs n ys)" using t(2) by (auto simp: tlsf_rep_def h'_def null_block_def tl_first_def nb_def P_def)
    then have "alloc_outcome h B k (behind P xs + 8) h'"
      using t(3) B kn u taken_payload(1,2) [OF kn, of "unat P" xs] unfolding alloc_outcome_def Let_def
      by (intro disjI2 exI [of _ xs] exI [of _ n] exI [of _ f] exI [of _ ys]) (simp add: h h'_def P_def)
    then show ?thesis using run by (auto simp: k_def)
  qed
qed

text \<open>The first call initialises the pool.\<close>

lemma tlsf_alloc_first:
  assumes fr: "tlsf_fresh st"
  shows "\<exists>h0. tlsf_rep h0 [(unat (CONFIG_HEAP_SIZE st) - 760, True, True)] \<and> tl_pool (fst h0) = tl_pool st \<and>
    (sz \<noteq> 0 \<longrightarrow> tlsf_heap_alloc sz (st, m) s = tlsf_heap_alloc sz h0 s)"
proof -
  from tlsf_init_rep [OF fr, of m] obtain st' m' where
    i: "tlsf_init (st, m) = Some (st', m')" "tlsf_rep (st', m') [(unat (CONFIG_HEAP_SIZE st) - 760, True, True)]" "st' = st\<lparr>g_ctl := g_ctl st'\<rparr>" by blast
  have g: "g_ctl st = None" "\<exists>ctl. g_ctl st' = Some ctl" using fr i(2) by (auto simp: tlsf_fresh_def tlsf_rep_def)
  have "tl_lock st' = tl_lock st" "tl_pool st' = tl_pool st" by (subst i(3); simp)+
  then have "tl_pool (fst (st', m')) = tl_pool st" "sz \<noteq> 0 \<Longrightarrow> tlsf_heap_alloc sz (st, m) s = tlsf_heap_alloc sz (st', m') s"
    using g i(1) unfolding tlsf_heap_alloc_def Let_def by auto
  then show ?thesis using i(2) by blast
qed

section \<open>\<^verbatim>\<open>vibe_heap_free\<close>\<close>

lemma ptr_of_block:
  assumes ok: "tl_ok nb P (ctl, m) (xs @ (n, False, False) # ys) F" and p: "unat ptr = unat P + tspan xs + 8"
  shows "ptr = behind P xs + 8" "ptr \<noteq> 0" "ptr_to_block ptr = behind P xs"
proof -
  obtain c zs where c: "ys @ [sentinel] = c # zs" using next_header by blast
  note ma = mid_addresses [OF tl_okD(1) [OF ok] c, unfolded fst_conv]
  have "unat (behind P xs + 8) = unat P + tspan xs + 8" using ma(1,11) unat_plus_u32 [of "behind P xs" 8] by simp
  then show e: "ptr = behind P xs + 8" using p by (simp add: word_unat_eq_iff)
  show "ptr \<noteq> 0" using p by auto
  show "ptr_to_block ptr = behind P xs" by (simp add: e ptr_to_block_def BLOCK_HDR_OFFSET_def)
qed

lemma tlsf_free:
  assumes rep: "tlsf_rep h (xs @ (n, False, False) # ys)" and p: "unat ptr = unat (tl_first (fst h)) + tspan xs + 8"
  shows "\<exists>h'. tlsf_heap_free ptr h s = Some (h', s) \<and> tlsf_rep h' (tl_free xs n ys) \<and> tl_pool (fst h') = tl_pool (fst h) \<and>
    (\<forall>i\<in>payload (unat (tl_first (fst h))) (tl_free xs n ys). snd h' i = snd h i) \<and>
    payload (unat (tl_first (fst h))) (tl_free xs n ys) = payload (unat (tl_first (fst h))) (xs @ (n, True, True) # ys)"
proof -
  obtain st m where h: "h = (st, m)" by fastforce
  define nb where "nb = null_block st"
  define P where "P = tl_first st"
  obtain ctl F where ok: "g_ctl st = Some ctl" "tl_ok nb P (ctl, m) (xs @ (n, False, False) # ys) F" "\<not> tl_lock st"
    using rep by (auto simp: tlsf_rep_def h nb_def P_def)
  obtain key s' where lk: "vibe_spinlock_lock_irqsave (tl_lock st) s = Some (key, True, s')" using lock_free [of s] ok(3) by auto
  note un = irqsave_restore [OF lk]
  note pb = ptr_of_block [OF ok(2), of ptr] p [unfolded h fst_conv, folded P_def]
  from put_block [OF ok(2)] obtain ctl' m' F' where
    t: "tlsf_put nb (behind P xs) (ctl, block_set_free (behind P xs) m) = Some (ctl', m')" "tl_ok nb P (ctl', m') (tl_free xs n ys) F'"
      "payload (unat P) (tl_free xs n ys) = others P xs n ys" "\<forall>i\<in>others P xs n ys. m' i = m i" by blast
  define h' where "h' = (st\<lparr>g_ctl := Some ctl', tl_lock := False\<rparr>, m')"
  have "tlsf_heap_free ptr h s = Some (h', s)"
    using pb ok(1) un t(1) set_free_hand(3) [OF ok(2)] unfolding tlsf_heap_free_def Let_def by (simp add: h lk nb_def h'_def)
  moreover have "tlsf_rep h' (tl_free xs n ys)" using t(2) by (auto simp: tlsf_rep_def h'_def null_block_def tl_first_def nb_def P_def)
  ultimately show ?thesis using t(3,4) by (auto simp: h h'_def P_def)
qed

section \<open>Requests that are too large\<close>

lemma cls_out_of_table:
  assumes "2 ^ 23 \<le> n" "n < 2 ^ 32"
  shows "\<not> in_table (fst (cls n)) (snd (cls n))"
proof -
  obtain k where k: "n < 16 * 2 ^ k" "cls n = (k, n div 2 ^ k - 8)" using cls_large [of n] assms by auto
  have "20 \<le> k"
  proof (rule ccontr)
    assume "\<not> 20 \<le> k"
    then have "(2 :: nat) ^ k \<le> 2 ^ 19" by (intro power_increasing) auto
    then show False using k(1) assms(1) by simp
  qed
  then show ?thesis by (simp add: k(2) in_table_def FL_INDEX_COUNT_def)
qed

lemma tlsf_alloc_huge:
  assumes rep: "tlsf_rep h B" and sz: "2 ^ 23 \<le> unat sz" "unat sz + 8 \<le> 2 ^ 31"
  shows "tlsf_heap_alloc sz h s = None"
proof -
  obtain st m where h: "h = (st, m)" by fastforce
  define k where "k = unat (HEAP_ALIGN_UP sz)"
  obtain ctl where ok: "g_ctl st = Some ctl" "\<not> tl_lock st" using rep by (auto simp: tlsf_rep_def h)
  obtain key s' where lk: "vibe_spinlock_lock_irqsave (tl_lock st) s = Some (key, True, s')" using lock_free [of s] ok(2) by auto
  have nz: "sz \<noteq> 0" using sz(1) by auto
  have b: "unat sz + 7 < 2 ^ 32" using sz(2) by simp
  have k: "k mod 8 = 0" "k < 2 ^ 31" "2 ^ 23 \<le> k" using align_up_bounds [OF b nz] sz by (simp_all add: k_def)
  have c: "(if HEAP_ALIGN_UP sz < BLOCK_PAYLOAD_MIN then BLOCK_PAYLOAD_MIN else HEAP_ALIGN_UP sz) = of_nat k"
    using k(3) by (simp add: k_def BLOCK_PAYLOAD_MIN_def word_less_nat_alt)
  have k0: "(of_nat k :: u32) \<noteq> 0" using k(2,3) unat_of_nat_u32 [of k] by auto
  note r = round_up_class [OF k(1,2)]
  have "\<not> in_table (fst (mapping (round_up_size (of_nat k)))) (snd (mapping (round_up_size (of_nat k))))"
    using cls_out_of_table [of "unat (round_up_size (of_nat k))"] r(1,3) k(3) by (simp add: cls_def)
  then have "locate_free (null_block st) (of_nat k) ctl = None" using k0 by (simp add: locate_free_def case_prod_beta)
  then show ?thesis using nz ok(1) unfolding tlsf_heap_alloc_def Let_def c by (simp add: h lk)
qed

section \<open>\<^verbatim>\<open>vibe_heap_stats\<close>\<close>

definition flagged :: "bool \<Rightarrow> tblock list \<Rightarrow> nat list" where
  "flagged v B = map bsize (filter (\<lambda>b. bflag b = v) B)"

lemma flagged_simps [simp]: "flagged v [] = []" "flagged v (b # B) = (if bflag b = v then bsize b # flagged v B else flagged v B)"
  by (simp_all add: flagged_def)

text \<open>The walk ends at the sentinel.\<close>

lemma walk_chain:
  assumes "tseg m p pf a (B @ [sentinel])" "sizes_ok B" "\<forall>b\<in>set B. bsize b < 2 ^ 32"
  shows "\<exists>out'. tlsf_walk m a out = Some out' \<and> st_total out' = st_total out \<and>
    st_free out' = st_free out + of_nat (sum_list (flagged True B)) \<and> st_free_count out' = st_free_count out + of_nat (length (flagged True B)) \<and>
    st_used out' = st_used out + of_nat (sum_list (flagged False B)) \<and> st_alloc_count out' = st_alloc_count out + of_nat (length (flagged False B)) \<and>
    unat (st_largest_free out') = Max (set (unat (st_largest_free out) # flagged True B))"
  using assms
proof (induction B arbitrary: p pf a out)
  case Nil
  then have "block_size m a = 0" using hw_block(1) [of m a 0 False pf] by simp
  then show ?case by (simp add: tlsf_walk.simps)
next
  case (Cons b B)
  let ?a = "a + 8 + of_nat (bsize b)"
  have b: "bsize b mod 8 = 0" "8 \<le> bsize b" "sizes_ok B" "bsize b < 2 ^ 32" using Cons.prems(2,3) by (simp_all add: sizes_ok_def)
  have sf: "size_flags m a = hw (bsize b) (bflag b) pf" and t: "tseg m a (bfree b) ?a (B @ [sentinel])" using Cons.prems(1) by simp_all
  have u: "unat (of_nat (bsize b) :: u32) = bsize b" by (rule unat_of_nat_u32 [OF b(4)])
  then have nz: "block_size m a \<noteq> 0" using b(2) hw_block(1) [OF sf b(1)] by auto
  define o' where "o' = (if bflag b
         then out\<lparr>st_free := st_free out + of_nat (bsize b), st_free_count := st_free_count out + 1,
                  st_largest_free := (if of_nat (bsize b) > st_largest_free out then of_nat (bsize b) else st_largest_free out)\<rparr>
         else out\<lparr>st_used := st_used out + of_nat (bsize b), st_alloc_count := st_alloc_count out + 1\<rparr>)"
  have step: "tlsf_walk m a out = tlsf_walk m ?a o'"
    using nz by (subst tlsf_walk.simps) (simp add: hw_block(1) [OF sf b(1)] hw_block(2) [OF sf b(1)] o'_def BLOCK_HDR_OFFSET_def add.assoc Let_def)
  have bd: "\<forall>b\<in>set B. bsize b < 2 ^ 32" using Cons.prems(3) by simp
  from Cons.IH [OF t b(3) bd, of o', folded step] obtain out' where o2: "tlsf_walk m a out = Some out'" "st_total out' = st_total o'"
      "st_free out' = st_free o' + of_nat (sum_list (flagged True B))" "st_free_count out' = st_free_count o' + of_nat (length (flagged True B))"
      "st_used out' = st_used o' + of_nat (sum_list (flagged False B))" "st_alloc_count out' = st_alloc_count o' + of_nat (length (flagged False B))"
      "unat (st_largest_free out') = Max (set (unat (st_largest_free o') # flagged True B))"
    by (elim exE conjE) (rule that)
  have "unat (st_largest_free o') = (if bflag b then max (unat (st_largest_free out)) (bsize b) else unat (st_largest_free out))"
    by (simp add: o'_def word_less_nat_alt u max_def)
  then have "unat (st_largest_free out') = Max (set (unat (st_largest_free out) # flagged True (b # B)))"
    using o2(7) by (cases "flagged True B = []") (simp_all add: Max_insert max.assoc)
  then show ?case using o2(1-6) by (simp add: o'_def)
qed

lemma flagged_sums: "sum_list (flagged v B) \<le> tspan B" "length (flagged v B) \<le> tspan B"
  by (induction B) auto

lemma tlsf_stats:
  assumes rep: "tlsf_rep h B"
  shows "\<exists>out. tlsf_heap_stats True h s = Some (out, h, s) \<and> st_total out = CONFIG_HEAP_SIZE (fst h) \<and>
    unat (st_free out) = sum_list (flagged True B) \<and> unat (st_free_count out) = length (flagged True B) \<and>
    unat (st_used out) = sum_list (flagged False B) \<and> unat (st_alloc_count out) = length (flagged False B) \<and>
    unat (st_largest_free out) = Max (set (0 # flagged True B))"
proof -
  obtain st m where h: "h = (st, m)" by fastforce
  obtain ctl F where ok: "g_ctl st = Some ctl" "tl_ok (null_block st) (tl_first st) (ctl, m) B F" "\<not> tl_lock st" using rep by (auto simp: tlsf_rep_def h)
  obtain key s' where lk: "vibe_spinlock_lock_irqsave (tl_lock st) s = Some (key, True, s')" using lock_free [of s] ok(3) by auto
  note un = irqsave_restore [OF lk] and d = tl_okD [OF ok(2)]
  have sp: "tspan B < 2 ^ 23" "sizes_ok B" using d(1) by (simp_all add: layout_def)
  have "bsize b \<le> tspan B" if "b \<in> set B" for b using that by (induction B) auto
  then have bd: "\<forall>b\<in>set B. bsize b < 2 ^ 32" using sp(1) by fastforce
  let ?o = "\<lparr>st_total = CONFIG_HEAP_SIZE st, st_used = 0, st_free = 0, st_largest_free = 0, st_alloc_count = 0, st_free_count = 0\<rparr>"
  from walk_chain [OF d(4) sp(2) bd, of ?o] obtain out where w: "tlsf_walk m (tl_first st) ?o = Some out"
    "st_total out = CONFIG_HEAP_SIZE st" "st_free out = of_nat (sum_list (flagged True B))" "st_free_count out = of_nat (length (flagged True B))"
    "st_used out = of_nat (sum_list (flagged False B))" "st_alloc_count out = of_nat (length (flagged False B))"
    "unat (st_largest_free out) = Max (set (0 # flagged True B))" by auto
  have "st\<lparr>tl_lock := False\<rparr> = st" using ok(3) by simp
  then have "tlsf_heap_stats True h s = Some (out, h, s)"
    using w(1) ok(1) un by (simp add: tlsf_heap_stats_def h lk align_740 Let_def flip: tl_first_def)
  moreover have "unat (of_nat (sum_list (flagged v B)) :: u32) = sum_list (flagged v B)" "unat (of_nat (length (flagged v B)) :: u32) = length (flagged v B)" for v
    using flagged_sums [of v B] sp(1) by (simp_all add: unat_of_nat_u32)
  ultimately show ?thesis using w(2-7) by (simp add: h)
qed

section \<open>\<^verbatim>\<open>vibe_heap_calloc\<close> and \<^verbatim>\<open>vibe_heap_realloc\<close>\<close>

text \<open>Writing to the payload of a block in use changes nothing that the heap depends on.\<close>

lemma tlsf_rep_payload:
  assumes rep: "tlsf_rep (st, m) B" and w: "\<And>i. i \<notin> payload (unat (tl_first st)) B \<Longrightarrow> m' i = m i"
  shows "tlsf_rep (st, m') B"
proof -
  define nb where "nb = null_block st"
  define P where "P = tl_first st"
  obtain ctl F where ok: "g_ctl st = Some ctl" "tl_ok nb P (ctl, m) B F" "\<not> tl_lock st" using rep by (auto simp: tlsf_rep_def nb_def P_def)
  note d = tl_okD [OF ok(2)]
  have l: "unat P + tspan (B @ [sentinel]) \<le> 2 ^ 32" "unat nb + 16 \<le> unat P" "sizes_ok B" "unat P + tspan B \<le> 2 ^ 32" using d(1) by (simp_all add: layout_def)
  have hd: "prev_phys m' z = prev_phys m z \<and> size_flags m' z = size_flags m z" if z: "z \<in> hdrs nb P B" for z
  proof -
    have "m' i = m i" if i: "unat z \<le> i" "i < unat z + 8" for i
    proof (rule w, fold P_def)
      have "i < unat z \<or> unat z + 8 \<le> i" if "z \<noteq> nb" "i \<in> payload (unat P) B"
        using payload_apart(1) [OF l(1), of i z] z that by (simp add: hdrs_def)
      then show "i \<notin> payload (unat P) B" using i payload_bounds [of i "unat P" B] l(2) by (cases "z = nb") force+
    qed
    then have "ld32 m' (unat z) = ld32 m (unat z)" "ld32 m' (unat z + 4) = ld32 m (unat z + 4)" by (auto intro!: ld32_cong)
    then show ?thesis by (simp add: field_defs)
  qed
  have lk: "next_free m' z = next_free m z \<and> prev_free m' z = prev_free m z" if z: "(z, n) \<in> frees P B" for z n
  proof -
    obtain xs f ys where "B = xs @ (n, True, f) # ys" using frees_split [OF z] by blast
    then have "8 \<le> n" using l(3) by (simp add: sizes_ok_def)
    then have "m' i = m i" if i: "unat z + 8 \<le> i" "i < unat z + 16" for i
      using payload_apart(2) [OF l(4) _ z, of i] i by (intro w) (force simp flip: P_def)
    then have "ld32 m' (unat z + 8) = ld32 m (unat z + 8)" "ld32 m' (unat z + 12) = ld32 m (unat z + 12)" by (auto intro!: ld32_cong)
    then show ?thesis by (simp add: field_defs)
  qed
  have "fseg m' nb (F fl sl) nb = fseg m nb (F fl sl) nb" if "in_table fl sl" for fl sl
    using d(5) that lk by (intro fseg_cong) (auto simp: listed_def)
  then have "lists_ok nb (ctl, m') F" using d(3) by (simp add: lists_ok_def)
  moreover have "tseg m' 0 False P (B @ [sentinel])" by (rule tseg_hdrs [OF _ d(4), of nb]) (use hd in blast)
  ultimately have "tl_ok nb P (ctl, m') B F" using ok(2) by (simp add: tl_ok_def)
  then show ?thesis using ok by (auto simp: tlsf_rep_def nb_def P_def)
qed

lemma tlsf_calloc:
  assumes rep: "tlsf_rep h B" and nz: "nmemb \<noteq> 0" "sz \<noteq> 0" and bd: "unat nmemb * unat sz \<le> 2 ^ 22"
  defines "a \<equiv> unat (tl_first (fst h))"
  shows "\<exists>r h'. tlsf_heap_calloc nmemb sz h s = Some (r, h', s) \<and>
    (r = 0 \<and> h' = h \<or> (\<exists>B'. tlsf_rep h' B' \<and> {unat r..<unat r + unat nmemb * unat sz} \<subseteq> payload a B' - payload a B) \<and>
       (\<forall>i<unat nmemb * unat sz. snd h' (unat r + i) = 0) \<and> (\<forall>i\<in>payload a B. snd h' i = snd h i))"
proof -
  have t: "unat (nmemb * sz) = unat nmemb * unat sz" using bd by (subst unat_times_u32) simp_all
  have p: "unat nmemb > 0" "unat sz > 0" using nz by (simp_all add: unat_gt_0)
  then have t0: "nmemb * sz \<noteq> 0" using t by (metis mult_pos_pos not_gr_zero unat_0)
  have "unat nmemb \<le> 0xFFFFFFFF div unat sz" using bd p(2) by (simp add: less_eq_div_iff_mult_less_eq)
  then have g: "\<not> nmemb > 0xFFFFFFFF div sz" by (simp add: word_less_nat_alt unat_div)
  have tb: "unat (nmemb * sz) \<le> 2 ^ 22" using t bd by simp
  define k where "k = unat (HEAP_ALIGN_UP (nmemb * sz))"
  have k: "unat nmemb * unat sz \<le> k" using request_size(1) [OF t0 tb] t by (simp add: k_def)
  from tlsf_alloc [OF rep t0 tb, of s] obtain r h1 where
    al: "tlsf_heap_alloc (nmemb * sz) h s = Some (r, h1, s)" "alloc_outcome h B k r h1" by (auto simp: k_def)
  let ?m = "mem_set (unat r) 0 (unat (nmemb * sz)) (snd h1)"
  have eq: "tlsf_heap_calloc nmemb sz h s = Some (r, (fst h1, if r \<noteq> 0 then ?m else snd h1), s)"
    using nz g by (simp add: tlsf_heap_calloc_def al(1) Let_def case_prod_beta)
  from al(2) show ?thesis unfolding alloc_outcome_def Let_def a_def [symmetric]
  proof (elim disjE exE conjE)
    assume "r = 0" "h1 = h"
    then show ?thesis unfolding eq by simp
  next
    fix xs n f ys
    assume x: "unat r = a + tspan xs + 8" "tlsf_rep h1 (tl_take k xs n ys)" "tl_pool (fst h1) = tl_pool (fst h)" "\<forall>i\<in>payload a B. snd h1 i = snd h i"
        "{unat r..<unat r + k} \<inter> payload a B = {}" "{unat r..<unat r + k} \<subseteq> payload a (tl_take k xs n ys)"
    have r0: "r \<noteq> 0" using x(1) by auto
    have a1: "unat (tl_first (fst h1)) = a" using x(3) by (simp add: a_def tl_first_def)
    have sub: "{unat r..<unat r + unat nmemb * unat sz} \<subseteq> {unat r..<unat r + k}" using k by auto
    have "tlsf_rep (fst h1, ?m) (tl_take k xs n ys)"
    proof (rule tlsf_rep_payload [where m = "snd h1"])
      show "tlsf_rep (fst h1, snd h1) (tl_take k xs n ys)" using x(2) by simp
      fix i assume "i \<notin> payload (unat (tl_first (fst h1))) (tl_take k xs n ys)"
      then have "i \<notin> {unat r..<unat r + unat nmemb * unat sz}" using sub x(6) a1 by blast
      then show "?m i = snd h1 i" by (auto simp: mem_set_def t)
    qed
    moreover have "?m i = snd h i" if "i \<in> payload a B" for i
    proof -
      have "i \<notin> {unat r..<unat r + unat nmemb * unat sz}" using sub x(5) that by blast
      then show ?thesis using x(4) that by (auto simp: mem_set_def t)
    qed
    moreover have "{unat r..<unat r + unat nmemb * unat sz} \<subseteq> payload a (tl_take k xs n ys) - payload a B" using sub x(5,6) by blast
    ultimately show ?thesis unfolding eq using r0 by (auto simp: mem_set_def t)
  qed
qed

lemma take_other:
  assumes B: "xs @ (n, False, False) # ys = xs' @ (n', True, f) # ys'" and k: "k \<le> n'"
  shows "\<exists>us vs. tl_take k xs' n' ys' = us @ (n, False, False) # vs \<and> tspan us = tspan xs"
  using B unfolding append_eq_append_conv2
proof (elim exE disjE conjE)
  fix zs assume z: "xs = xs' @ zs" "zs @ (n, False, False) # ys = (n', True, f) # ys'"
  then obtain ws where w: "zs = (n', True, f) # ws" "ws @ (n, False, False) # ys = ys'" by (cases zs) auto
  define us where "us = xs' @ (if k + 16 \<le> n' then [(k, False, False), (n' - k - 8, True, False)] else [(n', False, False)]) @ ws"
  have "tl_take k xs' n' ys' = us @ (n, False, False) # ys" using w(2) by (auto simp: tl_take_def us_def)
  moreover have "tspan us = tspan xs" by (simp add: us_def z(1) w(1))
  ultimately show ?thesis by blast
next
  fix zs assume z: "xs @ zs = xs'" "(n, False, False) # ys = zs @ (n', True, f) # ys'"
  then obtain ws where w: "zs = (n, False, False) # ws" by (cases zs) auto
  then have "tl_take k xs' n' ys' = xs @ (n, False, False) # tl_take k ws n' ys'" using z(1) by (auto simp: tl_take_def)
  then show ?thesis by blast
qed

lemma payload_freed:
  "payload a (us @ (n, True, True) # vs) = payload a (us @ (n, False, False) # vs) - {a + tspan us + 8..<a + tspan us + 8 + n}"
  "{a + tspan us + 8..<a + tspan us + 8 + n} \<subseteq> payload a (us @ (n, False, False) # vs)"
proof -
  have "i < a + tspan us" if "i \<in> payload a us" for i using payload_bounds [OF that] by simp
  moreover have "a + tspan us + 8 + n \<le> i" if "i \<in> payload (a + tspan us + 8 + n) vs" for i using payload_bounds [OF that] by simp
  ultimately show "payload a (us @ (n, True, True) # vs) = payload a (us @ (n, False, False) # vs) - {a + tspan us + 8..<a + tspan us + 8 + n}"
    by fastforce
  show "{a + tspan us + 8..<a + tspan us + 8 + n} \<subseteq> payload a (us @ (n, False, False) # vs)" by auto
qed

lemma taken_sub:
  assumes "B = xs @ (n, True, f) # ys" "k \<le> n"
  shows "payload a B \<subseteq> payload a (tl_take k xs n ys)"
  using taken_payload(3) [OF assms(2)] unfolding assms(1) .

lemma tlsf_move:
  assumes rep: "tlsf_rep h1 B1" and fr: "unat (tl_first (fst h1)) = a" and B1: "B1 = us @ (n, False, False) # vs" "tspan us = tspan xs"
    and r: "{unat r..<unat r + k} \<subseteq> payload a B1" "{unat r..<unat r + k} \<inter> payload a (xs @ (n, False, False) # ys) = {}" "n \<le> k"
    and p: "unat ptr = a + tspan xs + 8" and own: "\<forall>i\<in>payload a (xs @ (n, False, False) # ys). snd h1 i = m i"
    and sub: "payload a (xs @ (n, False, False) # ys) \<subseteq> payload a B1"
  shows "\<exists>h' B'. tlsf_heap_free ptr (fst h1, mem_copy (unat r) (unat ptr) n (snd h1)) s = Some (h', s) \<and> tlsf_rep h' B' \<and>
    {unat r..<unat r + k} \<subseteq> payload a B' \<and> (\<forall>i<n. snd h' (unat r + i) = m (unat ptr + i)) \<and> (\<forall>i\<in>payload a (xs @ (n, True, True) # ys). snd h' i = m i)"
proof -
  let ?m = "mem_copy (unat r) (unat ptr) n (snd h1)" and ?B = "xs @ (n, False, False) # ys" and ?old = "{unat ptr..<unat ptr + n}"
  have mc: "?m i = (if unat r \<le> i \<and> i < unat r + n then snd h1 (unat ptr + (i - unat r)) else snd h1 i)" for i
    unfolding mem_copy_def mem_write_def mem_read_def by (simp add: less_diff_conv2 add.commute)
  have rn: "{unat r..<unat r + n} \<subseteq> {unat r..<unat r + k}" using r(3) by auto
  have old: "?old \<subseteq> payload a ?B" using payload_freed(2) [of a xs n ys] p by simp
  have "tlsf_rep (fst h1, ?m) B1"
  proof (rule tlsf_rep_payload [where m = "snd h1"])
    show "tlsf_rep (fst h1, snd h1) B1" using rep by simp
    fix i assume "i \<notin> payload (unat (tl_first (fst h1))) B1"
    then have "i \<notin> {unat r..<unat r + n}" using rn r(1) fr by blast
    then show "?m i = snd h1 i" by (auto simp: mc)
  qed
  moreover have "unat ptr = unat (tl_first (fst (fst h1, ?m))) + tspan us + 8" using p fr B1(2) by simp
  ultimately obtain h' where h': "tlsf_heap_free ptr (fst h1, ?m) s = Some (h', s)" "tlsf_rep h' (tl_free us n vs)"
      "\<forall>i\<in>payload a (tl_free us n vs). snd h' i = ?m i" "payload a (tl_free us n vs) = payload a (us @ (n, True, True) # vs)"
    using tlsf_free [of "(fst h1, ?m)" us n vs ptr s] fr unfolding B1(1) by auto
  have pay: "payload a (tl_free us n vs) = payload a B1 - ?old" using h'(4) payload_freed(1) [of a us n vs] B1 p by simp
  have new: "{unat r..<unat r + k} \<subseteq> payload a (tl_free us n vs)" unfolding pay using r(1,2) old by blast
  have "snd h' (unat r + i) = m (unat ptr + i)" if i: "i < n" for i
  proof -
    have "unat r + i \<in> {unat r..<unat r + k}" "unat ptr + i \<in> ?old" using i r(3) by auto
    then have "snd h' (unat r + i) = ?m (unat r + i)" "snd h1 (unat ptr + i) = m (unat ptr + i)" using h'(3) new own old by blast+
    then show ?thesis using i by (simp add: mc)
  qed
  moreover have "snd h' i = m i" if i: "i \<in> payload a (xs @ (n, True, True) # ys)" for i
  proof -
    have i': "i \<in> payload a ?B" "i \<notin> ?old" using i payload_freed(1) [of a xs n ys] p by auto
    then have "snd h' i = ?m i" using h'(3) sub unfolding pay by blast
    moreover have "i \<notin> {unat r..<unat r + n}" using i'(1) r(2) rn by blast
    ultimately show ?thesis using own i'(1) by (auto simp: mc)
  qed
  ultimately show ?thesis using h'(1,2) new by blast
qed

lemma tlsf_realloc:
  assumes rep: "tlsf_rep h (xs @ (n, False, False) # ys)" and sz: "sz \<noteq> 0" "unat sz \<le> 2 ^ 22"
  defines "a \<equiv> unat (tl_first (fst h))"
  assumes p: "unat ptr = a + tspan xs + 8"
  shows "\<exists>r h'. tlsf_heap_realloc ptr sz h s = Some (r, h', s) \<and>
    (r = 0 \<and> h' = h \<or> r = ptr \<and> h' = h \<and> unat sz \<le> n \<or>
     (\<exists>B'. tlsf_rep h' B' \<and> {unat r..<unat r + unat sz} \<subseteq> payload a B') \<and> (\<forall>i<n. snd h' (unat r + i) = snd h (unat ptr + i)) \<and>
       (\<forall>i\<in>payload a (xs @ (n, True, True) # ys). snd h' i = snd h i))"
proof -
  let ?B = "xs @ (n, False, False) # ys"
  define k where "k = unat (HEAP_ALIGN_UP sz)"
  note k = request_size [OF sz, folded k_def]
  obtain ctl F where ok: "tl_ok (null_block (fst h)) (tl_first (fst h)) (ctl, snd h) ?B F" using rep by (auto simp: tlsf_rep_def)
  note pb = ptr_of_block [OF ok p [unfolded a_def]]
  obtain c zs where c: "ys @ [sentinel] = c # zs" using next_header by blast
  note ma = mid_addresses [OF tl_okD(1) [OF ok] c, unfolded fst_conv]
  have t: "tseg (snd h) 0 False (tl_first (fst h)) (xs @ (n, False, False) # ys @ [sentinel])" using tl_okD(4) [OF ok] by simp
  have bs: "block_size (snd h) (ptr_to_block ptr) = of_nat n"
    using hw_block(1) [OF mid_tseg(3) [OF t c, unfolded fst_conv snd_conv] ma(3)] by (simp add: pb(3))
  have un: "unat (of_nat n :: u32) = n" using ma(5) by (intro unat_of_nat_u32) simp
  show ?thesis
  proof (cases "k \<le> n")
    case True
    then have "tlsf_heap_realloc ptr sz h s = Some (ptr, h, s)"
      using pb(2) sz(1) un by (simp add: tlsf_heap_realloc_def bs word_le_nat_alt flip: k_def)
    then show ?thesis using True k(1) by auto
  next
    case False
    from tlsf_alloc [OF rep sz, of s] obtain r h1 where al: "tlsf_heap_alloc sz h s = Some (r, h1, s)" "alloc_outcome h ?B k r h1" by (auto simp: k_def)
    have nsz: "n < unat sz" using False k(2,3) ma(3) by presburger
    then have cp: "of_nat n < sz" using un by (simp add: word_less_nat_alt)
    have run: "tlsf_heap_realloc ptr sz h s = (if r = 0 then Some (0, h1, s)
        else do { (h, s) \<leftarrow> tlsf_heap_free ptr (fst h1, mem_copy (unat r) (unat ptr) n (snd h1)) s; Some (r, h, s) })"
      using pb(2) sz(1) un False cp by (simp add: tlsf_heap_realloc_def bs word_le_nat_alt al(1) case_prod_beta Let_def flip: k_def)
    from al(2) show ?thesis unfolding alloc_outcome_def Let_def a_def [symmetric]
    proof (elim disjE exE conjE)
      assume "r = 0" "h1 = h"
      then show ?thesis unfolding run by simp
    next
      fix xs' n' f ys'
      assume x: "?B = xs' @ (n', True, f) # ys'" "k \<le> n'" "unat r = a + tspan xs' + 8" "tlsf_rep h1 (tl_take k xs' n' ys')" "tl_pool (fst h1) = tl_pool (fst h)"
        "\<forall>i\<in>payload a ?B. snd h1 i = snd h i" "{unat r..<unat r + k} \<inter> payload a ?B = {}" "{unat r..<unat r + k} \<subseteq> payload a (tl_take k xs' n' ys')"
      have r0: "r \<noteq> 0" using x(3) by auto
      have a1: "unat (tl_first (fst h1)) = a" using x(5) by (simp add: a_def tl_first_def)
      obtain us vs where u: "tl_take k xs' n' ys' = us @ (n, False, False) # vs" "tspan us = tspan xs" using take_other [OF x(1,2)] by blast
      have nk: "n \<le> k" using False by simp
      from tlsf_move [OF x(4) a1 u x(8,7) nk p x(6) taken_sub [OF x(1,2)], of s] obtain h' B' where
        f: "tlsf_heap_free ptr (fst h1, mem_copy (unat r) (unat ptr) n (snd h1)) s = Some (h', s)" "tlsf_rep h' B'" "{unat r..<unat r + k} \<subseteq> payload a B'"
          "\<forall>i<n. snd h' (unat r + i) = snd h (unat ptr + i)" "\<forall>i\<in>payload a (xs @ (n, True, True) # ys). snd h' i = snd h i" by blast
      have "{unat r..<unat r + unat sz} \<subseteq> payload a B'" using f(3) k(1) by (auto simp: subset_iff)
      then show ?thesis unfolding run using r0 f(1,2,4,5) by auto
    qed
  qed
qed

section \<open>What the heap promises\<close>

text \<open>A pool of 1024 bytes at address 8, initialised.\<close>

definition demo_pool :: tlsf_t where
  "demo_pool = \<lparr>tl_pool = 8, CONFIG_HEAP_SIZE = 1024, tl_lock = False, g_ctl = None\<rparr>"

definition demo_tlsf :: tlsf where
  "demo_tlsf = the (tlsf_init (demo_pool, \<lambda>_. 0))"

lemma demo_pool_fresh: "tlsf_fresh demo_pool"
  by (simp add: tlsf_fresh_def demo_pool_def)

lemma demo_tlsf_rep: "tlsf_rep demo_tlsf [(264, True, True)]" "tl_first (fst demo_tlsf) = 752"
proof -
  obtain st' m' where i: "tlsf_init (demo_pool, \<lambda>_. 0) = Some (st', m')" "tlsf_rep (st', m') [(264, True, True)]" "st' = demo_pool\<lparr>g_ctl := g_ctl st'\<rparr>"
    using tlsf_init_rep [OF demo_pool_fresh, of "\<lambda>_. 0"] by (auto simp: demo_pool_def)
  then show "tlsf_rep demo_tlsf [(264, True, True)]" by (simp add: demo_tlsf_def)
  have "tl_pool st' = 8" by (subst i(3)) (simp add: demo_pool_def)
  then show "tl_first (fst demo_tlsf) = 752" by (simp add: demo_tlsf_def i(1) tl_first_def)
qed

lemma demo_one: "[(264, True, True)] = xs @ (n, True, f) # ys \<longleftrightarrow> xs = [] \<and> n = 264 \<and> f \<and> ys = []"
  by (auto simp: Cons_eq_append_conv)

text \<open>
  C23: On a well-formed pool \<^verbatim>\<open>vibe_heap_alloc\<close> of the default allocator returns, for every size from 1 byte to 4 MiB. It answers NULL, without any
  change, only if no free block has 9/8 of the aligned size. Otherwise it carves a free block that can hold the size: the pool is well-formed again, bitmaps,
  lists and headers included, the payload returned overlaps no byte a caller owns, and no such byte changes.
\<close>

theorem tlsf_alloc_refines:
  assumes "tlsf_rep h B" "sz \<noteq> 0" "unat sz \<le> 2 ^ 22"
  defines "a \<equiv> unat (tl_first (fst h))" and "k \<equiv> unat (HEAP_ALIGN_UP sz)"
  shows "\<exists>r h'. tlsf_heap_alloc sz h s = Some (r, h', s) \<and>
    (r = 0 \<and> h' = h \<and> (\<forall>b\<in>set B. bfree b \<longrightarrow> bsize b < k + k div 8) \<or>
     (\<exists>xs n f ys. B = xs @ (n, True, f) # ys \<and> k \<le> n \<and> unat r = a + tspan xs + 8 \<and> tlsf_rep h' (tl_take k xs n ys) \<and>
        tl_pool (fst h') = tl_pool (fst h) \<and> (\<forall>i\<in>payload a B. snd h' i = snd h i) \<and>
        {unat r..<unat r + k} \<inter> payload a B = {} \<and> {unat r..<unat r + k} \<subseteq> payload a (tl_take k xs n ys)))"
  using tlsf_alloc [OF assms(1-3), of s] unfolding alloc_outcome_def Let_def a_def k_def .

theorem tlsf_alloc_refines_witness:
  "\<forall>s. \<exists>r h'. tlsf_heap_alloc 10 demo_tlsf s = Some (r, h', s) \<and> unat r = 760 \<and> tlsf_rep h' [(16, False, False), (240, True, False)]"
proof
  fix s
  show "\<exists>r h'. tlsf_heap_alloc 10 demo_tlsf s = Some (r, h', s) \<and> unat r = 760 \<and> tlsf_rep h' [(16, False, False), (240, True, False)]"
    using tlsf_alloc_refines [OF demo_tlsf_rep(1), of 10 s] by (simp add: align_10 demo_one tl_take_def demo_tlsf_rep(2)) blast
qed

lemma demo_tlsf_used:
  "\<exists>h'. tlsf_heap_alloc 10 demo_tlsf s = Some (760, h', s) \<and> tlsf_rep h' [(16, False, False), (240, True, False)] \<and> tl_first (fst h') = 752"
proof -
  have "unat r = 760 \<longleftrightarrow> r = 760" for r :: u32 by (simp add: word_unat_eq_iff)
  then show ?thesis using tlsf_alloc [OF demo_tlsf_rep(1), of 10 s] demo_tlsf_rep(2)
    by (simp add: alloc_outcome_def align_10 demo_one tl_take_def tl_first_def) blast
qed

text \<open>
  C24: Freeing the payload pointer of an allocated block returns and puts the block back: a free block in front is merged, a free block behind is merged if it carries
  the free flag, the result is on the list of its size, the pool is well-formed, and no byte that another caller owns changes.
\<close>

theorem tlsf_free_refines:
  assumes "tlsf_rep h (xs @ (n, False, False) # ys)" "unat ptr = unat (tl_first (fst h)) + tspan xs + 8"
  defines "a \<equiv> unat (tl_first (fst h))"
  shows "\<exists>h'. tlsf_heap_free ptr h s = Some (h', s) \<and> tlsf_rep h' (tl_free xs n ys) \<and>
    payload a (tl_free xs n ys) = payload a xs \<union> payload (a + tspan xs + 8 + n) ys \<and> (\<forall>i\<in>payload a (tl_free xs n ys). snd h' i = snd h i)"
  using tlsf_free [OF assms(1,2), of s] by (auto simp: a_def add.assoc)

theorem tlsf_free_refines_witness:
  "\<forall>s. \<exists>h h'. tlsf_rep h [(16, False, False), (240, True, False)] \<and> tlsf_heap_free 760 h s = Some (h', s) \<and> tlsf_rep h' [(16, True, True), (240, True, False)]"
proof
  fix s
  obtain h where h: "tlsf_rep h [(16, False, False), (240, True, False)]" "tl_first (fst h) = 752" using demo_tlsf_used by blast
  from tlsf_free_refines [of h "[]" 16 "[(240, True, False)]" 760 s] h obtain h' where
    "tlsf_heap_free 760 h s = Some (h', s)" "tlsf_rep h' [(16, True, True), (240, True, False)]" by (auto simp: tl_free_def join_prev_def join_after_def)
  with h(1) show "\<exists>h h'. tlsf_rep h [(16, False, False), (240, True, False)] \<and> tlsf_heap_free 760 h s = Some (h', s) \<and> tlsf_rep h' [(16, True, True), (240, True, False)]" by blast
qed

text \<open>
  C25: The remainder of a split never gets the free flag, so freeing the block in front of it does not merge the two. After one allocation from
  a fresh pool and its release, nothing is in use, yet the memory stays split in two blocks, and every request larger than both is refused.
\<close>

theorem tlsf_remainder_not_merged:
  assumes "tlsf_fresh st" "sz \<noteq> 0" "unat sz \<le> 2 ^ 22"
  defines "k \<equiv> unat (HEAP_ALIGN_UP sz)" and "n \<equiv> unat (CONFIG_HEAP_SIZE st) - 760"
  assumes "k + k div 8 \<le> n" "k + 16 \<le> n"
  shows "\<exists>r h1 h2. tlsf_heap_alloc sz (st, m) s = Some (r, h1, s) \<and> r \<noteq> 0 \<and> tlsf_heap_free r h1 s = Some (h2, s) \<and>
    tlsf_rep h2 [(k, True, True), (n - k - 8, True, False)] \<and>
    (\<forall>big. unat big \<le> 2 ^ 22 \<longrightarrow> k < unat big \<longrightarrow> n - k - 8 < unat big \<longrightarrow> tlsf_heap_alloc big h2 s = Some (0, h2, s))"
proof -
  obtain h0 where h0: "tlsf_rep h0 [(n, True, True)]" "tlsf_heap_alloc sz (st, m) s = tlsf_heap_alloc sz h0 s"
    using tlsf_alloc_first [OF assms(1), of sz m s] assms(2) by (auto simp: n_def)
  have one: "[(n, True, True)] = xs @ (n', True, f) # ys \<longleftrightarrow> xs = [] \<and> n' = n \<and> f \<and> ys = []" for xs n' f ys by (auto simp: Cons_eq_append_conv)
  obtain r h1 where al: "tlsf_heap_alloc sz h0 s = Some (r, h1, s)" "alloc_outcome h0 [(n, True, True)] k r h1"
    using tlsf_alloc [OF h0(1) assms(2,3), of s] by (auto simp: k_def)
  then have r: "unat r = unat (tl_first (fst h1)) + 8" "tlsf_rep h1 ([] @ (k, False, False) # [(n - k - 8, True, False)])"
    using assms(6,7) by (auto simp: alloc_outcome_def one tl_take_def tl_first_def Let_def)
  have "tl_free [] k [(n - k - 8, True, False)] = [(k, True, True), (n - k - 8, True, False)]"
    by (simp add: tl_free_def join_prev_def join_after_def)
  then obtain h2 where fr: "tlsf_heap_free r h1 s = Some (h2, s)" "tlsf_rep h2 [(k, True, True), (n - k - 8, True, False)]"
    using tlsf_free [OF r(2), of r s] r(1) by auto
  have "tlsf_heap_alloc big h2 s = Some (0, h2, s)" if b: "unat big \<le> 2 ^ 22" "k < unat big" "n - k - 8 < unat big" for big
  proof -
    have nz: "big \<noteq> 0" using b(2) by auto
    have "unat big \<le> unat (HEAP_ALIGN_UP big)" using request_size(1) [OF nz b(1)] .
    moreover have "n' = k \<or> n' = n - k - 8" if "[(k, True, True), (n - k - 8, True, False)] = xs @ (n', True, f) # ys" for xs n' f ys
      using that by (auto simp: Cons_eq_append_conv)
    ultimately show ?thesis using tlsf_alloc [OF fr(2) nz b(1), of s] b(2,3) unfolding alloc_outcome_def Let_def by fastforce
  qed
  moreover have "r \<noteq> 0" using r(1) by auto
  moreover have "tlsf_heap_alloc sz (st, m) s = Some (r, h1, s)" using h0(2) al(1) by simp
  ultimately show ?thesis using fr by blast
qed

theorem tlsf_remainder_not_merged_witness:
  "\<forall>s. \<exists>r h1 h2. tlsf_heap_alloc 10 (demo_pool, \<lambda>_. 0) s = Some (r, h1, s) \<and> tlsf_heap_free r h1 s = Some (h2, s) \<and>
     tlsf_rep h2 [(16, True, True), (240, True, False)] \<and> tlsf_heap_alloc 248 h2 s = Some (0, h2, s)"
proof
  fix s
  have c: "CONFIG_HEAP_SIZE demo_pool = 1024" by (simp add: demo_pool_def)
  from tlsf_remainder_not_merged [OF demo_pool_fresh, of 10 "\<lambda>_. 0" s] obtain r h1 h2 where
    "tlsf_heap_alloc 10 (demo_pool, \<lambda>_. 0) s = Some (r, h1, s)" "tlsf_heap_free r h1 s = Some (h2, s)" "tlsf_rep h2 [(16, True, True), (240, True, False)]"
    "\<forall>big. unat big \<le> 2 ^ 22 \<longrightarrow> 16 < unat big \<longrightarrow> 240 < unat big \<longrightarrow> tlsf_heap_alloc big h2 s = Some (0, h2, s)"
    by (auto simp: align_10 c)
  then show "\<exists>r h1 h2. tlsf_heap_alloc 10 (demo_pool, \<lambda>_. 0) s = Some (r, h1, s) \<and> tlsf_heap_free r h1 s = Some (h2, s) \<and>
     tlsf_rep h2 [(16, True, True), (240, True, False)] \<and> tlsf_heap_alloc 248 h2 s = Some (0, h2, s)" by (intro exI conjI) auto
qed

text \<open>
  C26: A request of 8 MiB or more, up to 2 GiB, is not answered with NULL: its size class lies outside the bitmap array of the control structure, and the search reads past
  its end.
\<close>

theorem tlsf_alloc_out_of_bounds:
  assumes "tlsf_rep h B" "2 ^ 23 \<le> unat sz" "unat sz + 8 \<le> 2 ^ 31"
  shows "tlsf_heap_alloc sz h s = None"
  by (rule tlsf_alloc_huge [OF assms])

theorem tlsf_alloc_out_of_bounds_witness: "\<forall>s. tlsf_heap_alloc 0x1000000 demo_tlsf s = None"
proof
  fix s
  show "tlsf_heap_alloc 0x1000000 demo_tlsf s = None" by (rule tlsf_alloc_out_of_bounds [OF demo_tlsf_rep(1)]) simp_all
qed

text \<open>
  C27: \<^verbatim>\<open>vibe_heap_realloc\<close> of an allocated block, for a size from 1 byte to 4 MiB: it returns NULL and changes nothing, or the same pointer when
  the block is large enough, or a new block that holds the old content; in every case the bytes of the other callers stay as they were.
\<close>

theorem tlsf_realloc_keeps_content:
  assumes "tlsf_rep h (xs @ (n, False, False) # ys)" "sz \<noteq> 0" "unat sz \<le> 2 ^ 22"
  defines "a \<equiv> unat (tl_first (fst h))"
  assumes "unat ptr = a + tspan xs + 8"
  shows "\<exists>r h'. tlsf_heap_realloc ptr sz h s = Some (r, h', s) \<and>
    (r = 0 \<and> h' = h \<or> r = ptr \<and> h' = h \<and> unat sz \<le> n \<or>
     (\<exists>B'. tlsf_rep h' B' \<and> {unat r..<unat r + unat sz} \<subseteq> payload a B') \<and> (\<forall>i<n. snd h' (unat r + i) = snd h (unat ptr + i)) \<and>
       (\<forall>i\<in>payload a (xs @ (n, True, True) # ys). snd h' i = snd h i))"
  using tlsf_realloc [OF assms(1-3), of ptr s] assms(5) unfolding a_def by blast

theorem tlsf_realloc_keeps_content_witness:
  "\<forall>s. \<exists>h r h'. tlsf_rep h [(16, False, False), (240, True, False)] \<and> tlsf_heap_realloc 760 100 h s = Some (r, h', s) \<and>
     (r = 0 \<and> h' = h \<or> (\<forall>i<16. snd h' (unat r + i) = snd h (760 + i)))"
proof
  fix s
  obtain h where h: "tlsf_rep h [(16, False, False), (240, True, False)]" "tl_first (fst h) = 752" using demo_tlsf_used by blast
  from tlsf_realloc_keeps_content [of h "[]" 16 "[(240, True, False)]" 100 760 s] h obtain r h' where
    "tlsf_heap_realloc 760 100 h s = Some (r, h', s)" "r = 0 \<and> h' = h \<or> (\<forall>i<16. snd h' (unat r + i) = snd h (760 + i))" by auto
  with h(1) show "\<exists>h r h'. tlsf_rep h [(16, False, False), (240, True, False)] \<and> tlsf_heap_realloc 760 100 h s = Some (r, h', s) \<and>
     (r = 0 \<and> h' = h \<or> (\<forall>i<16. snd h' (unat r + i) = snd h (760 + i)))" by blast
qed

end
