(* ===== verification/Vibe_Heap_Api.thy ===== *)
theory Vibe_Heap_Api
  imports Vibe_Tlsf_Heap
begin

text \<open>
  The contract of \<^verbatim>\<open>include/vibe/heap.h\<close> that the three allocators share, as a locale, and what a client may conclude from it: the heap is a store of
  independent buffers. The first-fit, the best-fit and the two-level segregated fit allocator interpret it.
\<close>

section \<open>The contract\<close>

definition bytes :: "(nat \<times> nat) set \<Rightarrow> nat set" where
  "bytes U = (\<Union>(a, n)\<in>U. {a..<a + n})"

text \<open>\<open>rep h B\<close>: the heap is well-formed with the blocks \<open>B\<close>; \<open>used st B\<close>: address and length of the payloads that are handed out.\<close>

locale heap_api =
  fixes alloc :: "u32 \<Rightarrow> 'st \<times> memory \<Rightarrow> kstate \<Rightarrow> (u32 \<times> ('st \<times> memory) \<times> kstate) option"
    and free :: "u32 \<Rightarrow> 'st \<times> memory \<Rightarrow> kstate \<Rightarrow> (('st \<times> memory) \<times> kstate) option"
    and rep :: "'st \<times> memory \<Rightarrow> 'b \<Rightarrow> bool"
    and used :: "'st \<Rightarrow> 'b \<Rightarrow> (nat \<times> nat) set"
  assumes alloc_zero: "alloc 0 h s = Some (0, h, s)"
    and alloc_law: "\<lbrakk>rep h B; sz \<noteq> 0; unat sz \<le> 2 ^ 22\<rbrakk> \<Longrightarrow> \<exists>r h'. alloc sz h s = Some (r, h', s) \<and>
      (r = 0 \<and> h' = h \<or> (\<exists>n B'. r \<noteq> 0 \<and> unat sz \<le> n \<and> rep h' B' \<and> used (fst h') B' = insert (unat r, n) (used (fst h) B) \<and>
         unat r \<notin> fst ` used (fst h) B \<and> (\<forall>i\<in>bytes (used (fst h) B). snd h' i = snd h i)))"
    and free_law: "\<lbrakk>rep h B; (unat p, n) \<in> used (fst h) B\<rbrakk> \<Longrightarrow> \<exists>h' B'. free p h s = Some (h', s) \<and> rep h' B' \<and>
      used (fst h') B' = used (fst h) B - {(unat p, n)} \<and> (\<forall>i\<in>bytes (used (fst h') B'). snd h' i = snd h i)"
    and write_law: "\<lbrakk>rep h B; i \<in> bytes (used (fst h) B)\<rbrakk> \<Longrightarrow> rep (fst h, (snd h)(i := v)) B"
    and apart: "\<lbrakk>rep h B; (a, n) \<in> used (fst h) B; (b, k) \<in> used (fst h) B; a \<noteq> b\<rbrakk> \<Longrightarrow> {a..<a + n} \<inter> {b..<b + k} = {}"
    and unique: "\<lbrakk>rep h B; (a, n) \<in> used (fst h) B; (a, k) \<in> used (fst h) B\<rbrakk> \<Longrightarrow> n = k"

section \<open>A client\<close>

text \<open>
  What a client does: allocate, release one of its buffers, write a byte of one of them. The list holds its buffers with the bytes it expects in them.
\<close>

datatype heap_op = Alloc u32 | Release nat | Write nat nat u8

type_synonym buffers = "(u32 \<times> u8 list) list"

fun heap_step :: "(u32 \<Rightarrow> 'st \<times> memory \<Rightarrow> kstate \<Rightarrow> (u32 \<times> ('st \<times> memory) \<times> kstate) option) \<Rightarrow>
    (u32 \<Rightarrow> 'st \<times> memory \<Rightarrow> kstate \<Rightarrow> (('st \<times> memory) \<times> kstate) option) \<Rightarrow>
    heap_op \<Rightarrow> ('st \<times> memory) \<times> buffers \<times> kstate \<Rightarrow> (('st \<times> memory) \<times> buffers \<times> kstate) option" where
  "heap_step alloc free (Alloc sz) (h, L, s) =
     do { (r, h, s) \<leftarrow> alloc sz h s; Some (h, if r = 0 then L else (r, mem_read (snd h) (unat r) (unat sz)) # L, s) }"
| "heap_step alloc free (Release i) (h, L, s) =
     (if i < length L then do { (h, s) \<leftarrow> free (fst (L ! i)) h s; Some (h, take i L @ drop (Suc i) L, s) } else Some (h, L, s))"
| "heap_step alloc free (Write i j v) (h, L, s) =
     Some (if i < length L \<and> j < length (snd (L ! i))
           then ((fst h, (snd h)(unat (fst (L ! i)) + j := v)), L[i := (fst (L ! i), (snd (L ! i))[j := v])], s) else (h, L, s))"

primrec heap_run :: "(u32 \<Rightarrow> 'st \<times> memory \<Rightarrow> kstate \<Rightarrow> (u32 \<times> ('st \<times> memory) \<times> kstate) option) \<Rightarrow>
    (u32 \<Rightarrow> 'st \<times> memory \<Rightarrow> kstate \<Rightarrow> (('st \<times> memory) \<times> kstate) option) \<Rightarrow>
    heap_op list \<Rightarrow> ('st \<times> memory) \<times> buffers \<times> kstate \<Rightarrow> (('st \<times> memory) \<times> buffers \<times> kstate) option" where
  "heap_run alloc free [] c = Some c"
| "heap_run alloc free (x # xs) c = do { c \<leftarrow> heap_step alloc free x c; heap_run alloc free xs c }"

fun op_ok :: "heap_op \<Rightarrow> bool" where
  "op_ok (Alloc sz) \<longleftrightarrow> unat sz \<le> 2 ^ 22"
| "op_ok _ \<longleftrightarrow> True"

text \<open>Every buffer holds the bytes expected, and no two overlap.\<close>

definition reads_back :: "memory \<Rightarrow> buffers \<Rightarrow> bool" where
  "reads_back m L \<longleftrightarrow> (\<forall>(r, c)\<in>set L. mem_read m (unat r) (length c) = c)"

definition disjoint_buffers :: "buffers \<Rightarrow> bool" where
  "disjoint_buffers L \<longleftrightarrow> (\<forall>(r, c)\<in>set L. \<forall>(q, d)\<in>set L. r \<noteq> q \<longrightarrow> {unat r..<unat r + length c} \<inter> {unat q..<unat q + length d} = {}) \<and>
     distinct (map fst L)"

lemma mem_read_eq: "mem_read m a (length c) = c \<longleftrightarrow> (\<forall>i<length c. m (a + i) = c ! i)"
proof
  assume c: "mem_read m a (length c) = c"
  have "m (a + i) = c ! i" if "i < length c" for i
  proof -
    have "mem_read m a (length c) ! i = m (a + i)" using that by (simp add: mem_read_def)
    then show ?thesis unfolding c by simp
  qed
  then show "\<forall>i<length c. m (a + i) = c ! i" by blast
next
  assume "\<forall>i<length c. m (a + i) = c ! i"
  then show "mem_read m a (length c) = c" by (intro nth_equalityI) (simp_all add: mem_read_def)
qed

context heap_api
begin

definition holds :: "('st \<times> memory) \<Rightarrow> buffers \<Rightarrow> 'b \<Rightarrow> bool" where
  "holds h L B \<longleftrightarrow> rep h B \<and> distinct (map fst L) \<and>
     (\<forall>(r, c)\<in>set L. (\<exists>n. (unat r, n) \<in> used (fst h) B \<and> length c \<le> n) \<and> mem_read (snd h) (unat r) (length c) = c)"

lemma holdsD:
  assumes "holds h L B" "(r, c) \<in> set L"
  obtains n where "(unat r, n) \<in> used (fst h) B" "length c \<le> n" "\<And>i. i < length c \<Longrightarrow> snd h (unat r + i) = c ! i"
proof -
  have "\<exists>n. (unat r, n) \<in> used (fst h) B \<and> length c \<le> n" "\<forall>i<length c. snd h (unat r + i) = c ! i"
    using bspec [OF conjunct2 [OF conjunct2 [OF assms(1) [unfolded holds_def]]] assms(2)] unfolding prod.case mem_read_eq by blast+
  then show thesis using that by blast
qed

lemma in_bytes: "(a, n) \<in> U \<Longrightarrow> i < n \<Longrightarrow> a + i \<in> bytes U"
  unfolding bytes_def by (rule UN_I [of "(a, n)"]) simp_all

lemma holds_disjoint:
  assumes "holds h L B"
  shows "reads_back (snd h) L" "disjoint_buffers L"
proof -
  show "reads_back (snd h) L" using assms by (auto simp: holds_def reads_back_def)
  have "{unat r..<unat r + length c} \<inter> {unat q..<unat q + length d} = {}" if i: "(r, c) \<in> set L" "(q, d) \<in> set L" "r \<noteq> q" for r c q d
  proof -
    obtain n where n: "(unat r, n) \<in> used (fst h) B" "length c \<le> n" using holdsD [OF assms i(1)] by metis
    obtain k where k: "(unat q, k) \<in> used (fst h) B" "length d \<le> k" using holdsD [OF assms i(2)] by metis
    have "{unat r..<unat r + n} \<inter> {unat q..<unat q + k} = {}" using apart [OF _ n(1) k(1)] assms i(3) unfolding holds_def word_unat_eq_iff [of r q] by blast
    then show ?thesis using n(2) k(2) by fastforce
  qed
  then show "disjoint_buffers L" using assms by (auto simp: disjoint_buffers_def holds_def)
qed

text \<open>A change of the heap that keeps the blocks and the bytes of the buffers.\<close>

lemma holds_keep:
  assumes h: "holds h L B" and r: "rep h' B'" and d: "distinct (map fst L')" "set L' \<subseteq> set L"
    and u: "\<And>r c n. (r, c) \<in> set L' \<Longrightarrow> (unat r, n) \<in> used (fst h) B \<Longrightarrow> (unat r, n) \<in> used (fst h') B'"
    and m: "\<And>r c n i. (r, c) \<in> set L' \<Longrightarrow> (unat r, n) \<in> used (fst h') B' \<Longrightarrow> i < n \<Longrightarrow> snd h' (unat r + i) = snd h (unat r + i)"
  shows "holds h' L' B'"
  unfolding holds_def
proof (intro conjI ballI r d(1), clarify)
  fix r c assume rc: "(r, c) \<in> set L'"
  then obtain n where n: "(unat r, n) \<in> used (fst h) B" "length c \<le> n" "\<And>i. i < length c \<Longrightarrow> snd h (unat r + i) = c ! i"
    using holdsD [OF h] d(2) by blast
  then show "(\<exists>n. (unat r, n) \<in> used (fst h') B' \<and> length c \<le> n) \<and> mem_read (snd h') (unat r) (length c) = c"
    unfolding mem_read_eq using u [OF rc n(1)] m [OF rc] by force
qed

lemma alloc_step:
  assumes h: "holds h L B" and x: "unat sz \<le> 2 ^ 22"
  shows "\<exists>h' L' B'. heap_step alloc free (Alloc sz) (h, L, s) = Some (h', L', s) \<and> holds h' L' B'"
proof (cases "sz = 0")
  case True
  then show ?thesis using h by (auto simp: alloc_zero)
next
  case False
  have rep: "rep h B" using h by (simp add: holds_def)
  have b: "unat sz \<le> 2 ^ 22" using x .
  obtain r h' where a: "alloc sz h s = Some (r, h', s)" and
    c: "r = 0 \<and> h' = h \<or> (\<exists>n B'. r \<noteq> 0 \<and> unat sz \<le> n \<and> rep h' B' \<and> used (fst h') B' = insert (unat r, n) (used (fst h) B) \<and>
       unat r \<notin> fst ` used (fst h) B \<and> (\<forall>i\<in>bytes (used (fst h) B). snd h' i = snd h i))"
    using alloc_law [OF rep False b, of s] by (elim exE conjE) (rule that)
  from c show ?thesis
  proof (elim disjE exE conjE)
    assume "r = 0" "h' = h"
    then show ?thesis using h a by auto
  next
    fix n B' assume r: "r \<noteq> 0" "unat sz \<le> n" "rep h' B'" "used (fst h') B' = insert (unat r, n) (used (fst h) B)"
       "unat r \<notin> fst ` used (fst h) B" "\<forall>i\<in>bytes (used (fst h) B). snd h' i = snd h i"
    have old: "unat q \<noteq> unat r" if q: "(q, d) \<in> set L" for q d
    proof -
      obtain k where "(unat q, k) \<in> used (fst h) B" using holdsD [OF h q] by metis
      then show ?thesis using r(5) image_eqI [of "unat q" fst "(unat q, k)"] by auto
    qed
    have "holds h' L B'"
    proof (rule holds_keep [OF h r(3)])
      show "distinct (map fst L)" using h by (simp add: holds_def)
      fix q d k assume q: "(q, d) \<in> set L"
      show "(unat q, k) \<in> used (fst h') B'" if "(unat q, k) \<in> used (fst h) B" using that by (simp add: r(4))
      show "snd h' (unat q + i) = snd h (unat q + i)" if k: "(unat q, k) \<in> used (fst h') B'" "i < k" for i
      proof -
        have "(unat q, k) \<in> used (fst h) B" using k(1) old [OF q] by (simp add: r(4))
        then show ?thesis using r(6) in_bytes k(2) by blast
      qed
    qed simp
    moreover have "r \<notin> fst ` set L" using old [of r] by auto
    ultimately have "holds h' ((r, mem_read (snd h') (unat r) (unat sz)) # L) B'"
      using r(2,4) unfolding holds_def by (simp only: list.set list.map ball_simps prod.case length_mem_read distinct.simps fst_conv set_map) blast
    then show ?thesis using a r(1) by auto
  qed
qed

lemma release_step:
  assumes h: "holds h L B"
  shows "\<exists>h' L' B'. heap_step alloc free (Release i) (h, L, s) = Some (h', L', s) \<and> holds h' L' B'"
proof (cases "i < length L")
  case True
  obtain p c where pc: "L ! i = (p, c)" by fastforce
  then have "(p, c) \<in> set L" using True nth_mem by metis
  then obtain n where n: "(unat p, n) \<in> used (fst h) B" using holdsD [OF h] by blast
  have rep: "rep h B" and d: "distinct (map fst L)" using h by (simp_all add: holds_def)
  from free_law [OF rep n, of s] obtain h' B' where
    f: "free p h s = Some (h', s)" "rep h' B'" "used (fst h') B' = used (fst h) B - {(unat p, n)}" "\<forall>i\<in>bytes (used (fst h') B'). snd h' i = snd h i" by blast
  let ?L = "take i L @ drop (Suc i) L"
  have L: "L = take i L @ (p, c) # drop (Suc i) L" using id_take_nth_drop [OF True] pc by simp
  then have d': "distinct (map fst (take i L @ (p, c) # drop (Suc i) L))" using d by simp
  have np: "p \<notin> fst ` set ?L" using d' by auto
  have "holds h' ?L B'"
  proof (rule holds_keep [OF h f(2)])
    show "distinct (map fst ?L)" using d' by auto
    show "set ?L \<subseteq> set L" using set_take_subset [of i L] set_drop_subset [of "Suc i" L] by auto
    fix q d k assume q: "(q, d) \<in> set ?L"
    have "q \<noteq> p" using np q image_eqI [of q fst "(q, d)" "set ?L"] by auto
    then have "unat q \<noteq> unat p" by (simp add: word_unat_eq_iff)
    then show "(unat q, k) \<in> used (fst h') B'" if "(unat q, k) \<in> used (fst h) B" using that by (simp add: f(3))
    show "snd h' (unat q + i) = snd h (unat q + i)" if "(unat q, k) \<in> used (fst h') B'" "i < k" for i
      using f(4) in_bytes [OF that] by blast
  qed
  then show ?thesis using True f(1) pc by auto
qed (use h in auto)

lemma write_step:
  assumes h: "holds h L B"
  shows "\<exists>h' L' B'. heap_step alloc free (Write i j v) (h, L, s) = Some (h', L', s) \<and> holds h' L' B'"
proof (cases "i < length L \<and> j < length (snd (L ! i))")
  case True
  obtain p c where pc: "L ! i = (p, c)" by fastforce
  have il: "i < length L" and jc: "j < length c" using True pc by auto
  have mem: "(p, c) \<in> set L" using il pc nth_mem by metis
  obtain n where n: "(unat p, n) \<in> used (fst h) B" "length c \<le> n" "\<And>i. i < length c \<Longrightarrow> snd h (unat p + i) = c ! i" using holdsD [OF h mem] by blast
  let ?h = "(fst h, (snd h)(unat p + j := v))" and ?L = "L[i := (p, c[j := v])]"
  have rep: "rep h B" and d: "distinct (map fst L)" using h by (simp_all add: holds_def)
  define us where "us = take i L"
  define vs where "vs = drop (Suc i) L"
  have L: "L = us @ (p, c) # vs" "?L = us @ (p, c[j := v]) # vs"
    using id_take_nth_drop [OF il] pc upd_conv_take_nth_drop [OF il] by (simp_all add: us_def vs_def)
  have dd: "distinct (map fst (us @ (p, c) # vs))" using d L(1) by simp
  have "rep ?h B" using write_law [OF rep in_bytes [OF n(1)], of j v] jc n(2) by simp
  moreover have "distinct (map fst ?L)" using dd unfolding L(2) by simp
  moreover have "(\<exists>n. (unat r, n) \<in> used (fst ?h) B \<and> length e \<le> n) \<and> mem_read (snd ?h) (unat r) (length e) = e" if re: "(r, e) \<in> set ?L" for r e
  proof (cases "r = p")
    case True
    have "p \<notin> fst ` set us" "p \<notin> fst ` set vs" using dd by auto
    then have "(p, e) \<notin> set us \<union> set vs" by force
    then have "e = c[j := v]" using re True unfolding L(2) by auto
    then show ?thesis using True n jc unfolding mem_read_eq by (auto simp: nth_list_update)
  next
    case False
    then have "(r, e) \<in> set L" using re unfolding L(2) by (subst L(1)) auto
    then obtain k where k: "(unat r, k) \<in> used (fst h) B" "length e \<le> k" "\<And>i. i < length e \<Longrightarrow> snd h (unat r + i) = e ! i" using holdsD [OF h] by blast
    have "{unat r..<unat r + k} \<inter> {unat p..<unat p + n} = {}" using apart [OF rep k(1) n(1)] False by (simp add: word_unat_eq_iff)
    moreover have "unat p + j \<in> {unat p..<unat p + n}" using jc n(2) by simp
    ultimately have "unat p + j \<notin> {unat r..<unat r + k}" by blast
    then have "unat r + i \<noteq> unat p + j" if "i < length e" for i using that k(2) by auto
    then show ?thesis using k unfolding mem_read_eq by auto
  qed
  ultimately have "holds ?h ?L B" unfolding holds_def by blast
  then show ?thesis using True pc by auto
next
  case False
  then show ?thesis using h by (cases h) auto
qed

lemma step_ok:
  assumes "holds h L B" "op_ok x"
  shows "\<exists>h' L' B'. heap_step alloc free x (h, L, s) = Some (h', L', s) \<and> holds h' L' B'"
  using assms alloc_step release_step write_step by (cases x) (simp_all only: op_ok.simps)

lemma run_ok:
  assumes "holds h L B" "\<forall>x\<in>set xs. op_ok x"
  shows "\<exists>h' L' B'. heap_run alloc free xs (h, L, s) = Some (h', L', s) \<and> holds h' L' B'"
  using assms
proof (induction xs arbitrary: h L B)
  case (Cons x xs)
  then show ?case using step_ok [OF Cons.prems(1), of x s] by fastforce
qed auto

text \<open>Every program of allocations, releases and writes returns, and its buffers hold what was written to them.\<close>

lemma program_ok:
  assumes "rep h B" "\<forall>x\<in>set xs. op_ok x"
  shows "\<exists>h' L' B'. heap_run alloc free xs (h, [], s) = Some (h', L', s) \<and> rep h' B' \<and> reads_back (snd h') L' \<and> disjoint_buffers L'"
proof -
  have "holds h [] B" using assms(1) by (simp add: holds_def)
  from run_ok [OF this assms(2), of s] show ?thesis using holds_disjoint by (auto simp: holds_def) 
qed

end

section \<open>The blocks in use\<close>

text \<open>Payload address and length of the blocks in use, for headers of \<open>H\<close> bytes; a block is its size and whether it is free.\<close>

primrec extent :: "nat \<Rightarrow> (nat \<times> bool) list \<Rightarrow> nat" where
  "extent H [] = 0"
| "extent H (b # B) = H + fst b + extent H B"

primrec spots :: "nat \<Rightarrow> nat \<Rightarrow> (nat \<times> bool) list \<Rightarrow> (nat \<times> nat) set" where
  "spots H a [] = {}"
| "spots H a (b # B) = (if snd b then {} else {(a + H, fst b)}) \<union> spots H (a + H + fst b) B"

lemma extent_append [simp]: "extent H (xs @ ys) = extent H xs + extent H ys"
  by (induction xs) auto

lemma spots_append [simp]: "spots H a (xs @ ys) = spots H a xs \<union> spots H (a + extent H xs) ys"
  by (induction xs arbitrary: a) (auto simp: add.assoc)

lemma spots_bounds: "(p, n) \<in> spots H a B \<Longrightarrow> a + H \<le> p \<and> p + n \<le> a + extent H B"
proof (induction B arbitrary: a)
  case (Cons b B)
  then consider "(p, n) = (a + H, fst b)" | "(p, n) \<in> spots H (a + H + fst b) B" by (auto split: if_splits)
  then show ?case by cases (use Cons.IH [of "a + H + fst b"] in \<open>auto simp: add.assoc\<close>)
qed simp

lemma spots_split: "(p, n) \<in> spots H a B \<Longrightarrow> \<exists>xs ys. B = xs @ (n, False) # ys \<and> p = a + extent H xs + H"
proof (induction B arbitrary: a)
  case (Cons b B)
  show ?case
  proof (cases "\<not> snd b \<and> (p, n) = (a + H, fst b)")
    case True
    then have "b # B = [] @ (n, False) # B" by (cases b) simp
    then show ?thesis using True by (metis Pair_inject add_0_right extent.simps(1))
  next
    case False
    then have "(p, n) \<in> spots H (a + H + fst b) B" using Cons.prems by (auto split: if_splits)
    from Cons.IH [OF this] obtain xs ys where "B = xs @ (n, False) # ys" "p = a + H + fst b + extent H xs + H" by blast
    then have "b # B = (b # xs) @ (n, False) # ys" "p = a + extent H (b # xs) + H" by simp_all
    then show ?thesis by blast
  qed
qed simp

text \<open>Around one block.\<close>

lemma spots_mid:
  assumes "0 < H"
  shows "spots H a (xs @ (n, False) # ys) = insert (a + extent H xs + H, n) (spots H a (xs @ (n, True) # ys))"
    "a + extent H xs + H \<notin> fst ` spots H a (xs @ (n, True) # ys)"
    "(q, k) \<in> spots H a (xs @ (n, True) # ys) \<Longrightarrow> q + k \<le> a + extent H xs \<or> a + extent H xs + H + n \<le> q"
proof -
  show "spots H a (xs @ (n, False) # ys) = insert (a + extent H xs + H, n) (spots H a (xs @ (n, True) # ys))" by auto
  show s: "q + k \<le> a + extent H xs \<or> a + extent H xs + H + n \<le> q" if "(q, k) \<in> spots H a (xs @ (n, True) # ys)" for q k
    using that spots_bounds [of q k H a xs] spots_bounds [of q k H "a + extent H xs + H + n" ys] by (auto simp: ac_simps)
  have "q \<noteq> a + extent H xs + H" if "(q, k) \<in> spots H a (xs @ (n, True) # ys)" for q k
    using that spots_bounds [of q k H a xs] spots_bounds [of q k H "a + extent H xs + H + n" ys] assms by (auto simp: ac_simps)
  then show "a + extent H xs + H \<notin> fst ` spots H a (xs @ (n, True) # ys)" by force
qed

lemma spots_apart:
  assumes "0 < H" "(p, n) \<in> spots H a B" "(q, k) \<in> spots H a B"
  shows "p \<noteq> q \<Longrightarrow> {p..<p + n} \<inter> {q..<q + k} = {}" "p = q \<Longrightarrow> n = k"
proof -
  obtain xs ys where B: "B = xs @ (n, False) # ys" "p = a + extent H xs + H" using spots_split [OF assms(2)] by blast
  have "(q, k) = (p, n) \<or> (q, k) \<in> spots H a (xs @ (n, True) # ys)" using assms(3) spots_mid(1) [OF assms(1), of a xs n ys] unfolding B by simp
  then have "(q, k) = (p, n) \<or> q \<noteq> p \<and> (q + k \<le> a + extent H xs \<or> p + n \<le> q)"
    using spots_mid(2) [OF assms(1), of a xs n ys] spots_mid(3) [OF assms(1), of q k a xs n ys] unfolding B(2) by force
  then show "p \<noteq> q \<Longrightarrow> {p..<p + n} \<inter> {q..<q + k} = {}" "p = q \<Longrightarrow> n = k" using B(2) by auto
qed

lemma spots_bytes: "i \<in> bytes (spots H a B) \<longleftrightarrow> (\<exists>xs n ys. B = xs @ (n, False) # ys \<and> a + extent H xs + H \<le> i \<and> i < a + extent H xs + H + n)"
proof
  assume "i \<in> bytes (spots H a B)"
  then obtain p n where "(p, n) \<in> spots H a B" "p \<le> i" "i < p + n" by (auto simp: bytes_def)
  then show "\<exists>xs n ys. B = xs @ (n, False) # ys \<and> a + extent H xs + H \<le> i \<and> i < a + extent H xs + H + n" using spots_split by blast
qed (force simp: bytes_def)

section \<open>First fit and best fit\<close>

definition heap_used :: "heap_state_t \<Rightarrow> block list \<Rightarrow> (nat \<times> nat) set" where
  "heap_used st B = spots 16 (unat (hs_pool st)) B"

lemma span_extent: "span B = extent 16 B"
  by (induction B) auto

lemma bytes_simps [simp]: "bytes {} = {}" "bytes (insert (a, n) U) = {a..<a + n} \<union> bytes U" "bytes (U \<union> V) = bytes U \<union> bytes V"
  by (auto simp: bytes_def)

lemma owned_bytes: "owned a B = bytes (spots 16 a B)"
  by (induction B arbitrary: a) auto

lemma spots_take_block:
  "z \<le> n \<Longrightarrow> spots 16 a (take_block z xs n ys) = insert (a + span xs + 16, if n < z + 24 then n else z) (spots 16 a (xs @ (n, True) # ys))"
  by (auto simp: take_block_def span_extent ac_simps)

lemma spots_free_block: "spots 16 a (free_block xs n ys) = spots 16 a (xs @ (n, True) # ys)"
proof -
  have j: "spots 16 (b + fst (join_next n ys)) (snd (join_next n ys)) = spots 16 (b + n) ys" for b
    by (auto simp: join_next_def ac_simps split: list.splits prod.splits bool.splits)
  show ?thesis
  proof (cases "xs \<noteq> [] \<and> snd (last xs)")
    case True
    then obtain ws k where "xs = ws @ [(k, True)]" by (metis append_butlast_last_id prod.collapse)
    then show ?thesis using j [of "a + extent 16 ws + 32 + k"] by (simp add: free_block_def case_prod_beta ac_simps)
  next
    case False
    then show ?thesis using j [of "a + extent 16 xs + 16"] by (auto simp: free_block_def case_prod_beta ac_simps)
  qed
qed

lemma heap_rep_write: "heap_rep h B \<Longrightarrow> i \<in> bytes (heap_used (fst h) B) \<Longrightarrow> heap_rep (fst h, (snd h)(i := v)) B"
proof -
  assume rep: "heap_rep h B" and "i \<in> bytes (heap_used (fst h) B)"
  then obtain xs n ys where B: "B = xs @ (n, False) # ys" and i: "unat (hs_pool (fst h)) + span xs + 16 \<le> i" "i < unat (hs_pool (fst h)) + span xs + 16 + n"
    unfolding heap_used_def spots_bytes by (auto simp: span_extent)
  have "heap_ok (fst h, snd h) B" using rep by (simp add: heap_rep_def)
  then have "heap_ok (fst h, (snd h)(i := v)) B" by (rule heap_ok_payload [OF _ B]) (use i in auto)
  then show ?thesis using rep by (simp add: heap_rep_def)
qed

lemma heap_free_used:
  assumes rep: "heap_rep h B" and p: "(unat p, n) \<in> heap_used (fst h) B"
  shows "\<exists>h' B'. vibe_heap_free check p h s = Some (h', s) \<and> heap_rep h' B' \<and> heap_used (fst h') B' = heap_used (fst h) B - {(unat p, n)} \<and>
    (\<forall>i\<in>bytes (heap_used (fst h') B'). snd h' i = snd h i)"
proof -
  let ?a = "unat (hs_pool (fst h))"
  obtain xs ys where B: "B = xs @ (n, False) # ys" "unat p = ?a + span xs + 16" using spots_split p unfolding heap_used_def span_extent by blast
  have ok: "heap_ok h (xs @ (n, False) # ys)" "settled (xs @ (n, False) # ys)" using rep B by (simp_all add: heap_rep_def)
  from heap_free_correct [OF ok(1) B(2), of check s] obtain h' where
    f: "vibe_heap_free check p h s = Some (h', s)" "heap_ok h' (free_block xs n ys)" "hs_pool (fst h') = hs_pool (fst h)"
      "\<forall>i\<in>owned ?a (free_block xs n ys). snd h' i = snd h i" by blast
  have "heap_rep h' (free_block xs n ys)" using f(2) free_block_props(4) [OF ok(2)] by (simp add: heap_rep_def)
  moreover have u: "heap_used (fst h') (free_block xs n ys) = spots 16 ?a (xs @ (n, True) # ys)" by (simp only: heap_used_def f(3) spots_free_block)
  have "heap_used (fst h) B = insert (unat p, n) (spots 16 ?a (xs @ (n, True) # ys))" "unat p \<notin> fst ` spots 16 ?a (xs @ (n, True) # ys)"
    using spots_mid(1,2) [of 16 ?a xs n ys] unfolding heap_used_def B span_extent by simp_all
  then have "heap_used (fst h') (free_block xs n ys) = heap_used (fst h) B - {(unat p, n)}" unfolding u by force
  moreover have "\<forall>i\<in>bytes (heap_used (fst h') (free_block xs n ys)). snd h' i = snd h i"
    using f(4) by (simp only: heap_used_def f(3) owned_bytes)
  ultimately show ?thesis using f(1) by blast
qed

context fit_policy
begin

lemma alloc_used:
  assumes rep: "heap_rep h B" and sz: "sz \<noteq> 0" "unat sz \<le> 2 ^ 22"
  shows "\<exists>r h'. heap_alloc_with search sz h s = Some (r, h', s) \<and>
      (r = 0 \<and> h' = h \<or> (\<exists>n B'. r \<noteq> 0 \<and> unat sz \<le> n \<and> heap_rep h' B' \<and> heap_used (fst h') B' = insert (unat r, n) (heap_used (fst h) B) \<and>
         unat r \<notin> fst ` heap_used (fst h) B \<and> (\<forall>i\<in>bytes (heap_used (fst h) B). snd h' i = snd h i)))"
proof -
  let ?a = "unat (hs_pool (fst h))"
  have b: "unat sz + 7 < 2 ^ 32" using sz(2) by simp
  define z where "z = unat (HEAP_ALIGN_UP sz)"
  have z: "unat sz \<le> z" using align_up_bounds [OF b sz(1)] by (simp add: z_def)
  from alloc_rep [OF rep sz(1) b, of s, folded z_def] obtain r h' where eq: "heap_alloc_with search sz h s = Some (r, h', s)" and
    c: "r = 0 \<and> h' = h \<and> (\<forall>b\<in>set B. \<not> fits z b) \<or>
     (\<exists>xs n ys. B = xs @ (n, True) # ys \<and> z \<le> n \<and> pick z xs n ys \<and> unat r = ?a + span xs + 16 \<and>
        heap_rep h' (take_block z xs n ys) \<and> hs_pool (fst h') = hs_pool (fst h) \<and> (\<forall>i\<in>owned ?a B. snd h' i = snd h i) \<and>
        {unat r..<unat r + unat sz} \<inter> owned ?a B = {} \<and> {unat r..<unat r + unat sz} \<subseteq> owned ?a (take_block z xs n ys))"
    by (elim exE conjE) (rule that)
  from c show ?thesis
  proof (elim disjE exE conjE)
    assume "r = 0" "h' = h"
    then show ?thesis using eq by simp
  next
    fix xs n ys
    assume x: "B = xs @ (n, True) # ys" "z \<le> n" "unat r = ?a + span xs + 16" "heap_rep h' (take_block z xs n ys)" "hs_pool (fst h') = hs_pool (fst h)"
      "\<forall>i\<in>owned ?a B. snd h' i = snd h i"
    have "heap_used (fst h') (take_block z xs n ys) = insert (unat r, if n < z + 24 then n else z) (heap_used (fst h) B)"
      by (simp only: heap_used_def x(5) spots_take_block [OF x(2)] x(1,3))
    moreover have "unat r \<notin> fst ` heap_used (fst h) B" unfolding heap_used_def x(1,3) span_extent by (rule spots_mid(2)) simp
    moreover have "\<forall>i\<in>bytes (heap_used (fst h) B). snd h' i = snd h i" using x(6) by (simp only: heap_used_def owned_bytes)
    moreover have "unat sz \<le> (if n < z + 24 then n else z)" using z x(2) by simp
    moreover have "r \<noteq> 0" using x(3) by auto
    ultimately show ?thesis using eq x(4) by blast
  qed
qed

end

lemma heap_used_apart:
  assumes "(a, n) \<in> heap_used st B" "(b, k) \<in> heap_used st B"
  shows "a \<noteq> b \<Longrightarrow> {a..<a + n} \<inter> {b..<b + k} = {}" "a = b \<Longrightarrow> n = k"
  using spots_apart [OF _ assms [unfolded heap_used_def]] by simp_all

interpretation ff_api: heap_api ff_heap_alloc "vibe_heap_free check" heap_rep heap_used for check
proof (unfold_locales, goal_cases)
  case (2 h B sz s)
  then show ?case unfolding ff_heap_alloc_def by (rule ff.alloc_used)
next
  case (3 h B p n s)
  then show ?case by (rule heap_free_used)
qed (auto simp: ff_heap_alloc_def heap_alloc_with_def heap_rep_write dest: heap_used_apart)

interpretation bf_api: heap_api bf_heap_alloc "vibe_heap_free check" heap_rep heap_used for check
proof (unfold_locales, goal_cases)
  case (2 h B sz s)
  then show ?case unfolding bf_heap_alloc_def by (rule bf.alloc_used)
next
  case (3 h B p n s)
  then show ?case by (rule heap_free_used)
qed (auto simp: bf_heap_alloc_def heap_alloc_with_def heap_rep_write dest: heap_used_apart)

section \<open>Two-level segregated fit\<close>

abbreviation shape :: "tblock list \<Rightarrow> (nat \<times> bool) list" where
  "shape B \<equiv> map (\<lambda>b. (bsize b, bfree b)) B"

definition tlsf_used :: "tlsf_t \<Rightarrow> tblock list \<Rightarrow> (nat \<times> nat) set" where
  "tlsf_used st B = spots 8 (unat (tl_first st)) (shape B)"

lemma tspan_extent: "tspan B = extent 8 (shape B)"
  by (induction B) auto

lemma payload_bytes: "payload a B = bytes (spots 8 a (shape B))"
  by (induction B arbitrary: a) auto

lemma spots_tl_take:
  "k \<le> n \<Longrightarrow> spots 8 a (shape (tl_take k xs n ys)) = insert (a + tspan xs + 8, if k + 16 \<le> n then k else n) (spots 8 a (shape (xs @ (n, True, f) # ys)))"
  by (auto simp: tl_take_def tspan_extent ac_simps)

lemma spots_tl_free: "spots 8 a (shape (tl_free xs n ys)) = spots 8 a (shape (xs @ (n, True, f) # ys))"
  if "\<forall>b\<in>set ys. bflag b \<longrightarrow> bfree b"
proof -
  obtain us k g where p: "join_prev xs n = (us, k, g)" by (metis prod_cases3)
  obtain j vs where q: "join_after k ys = (j, vs)" by fastforce
  have a: "spots 8 (b + j) (shape vs) = spots 8 (b + k) (shape ys)" for b
    using q that by (cases ys) (auto simp: join_after_def ac_simps split: if_splits)
  have e: "spots 8 a (shape us) = spots 8 a (shape xs)" "a + extent 8 (shape us) + 8 + k = a + extent 8 (shape xs) + 8 + n"
    using p by (cases xs rule: rev_cases; auto simp: join_prev_def split: if_splits)+
  have "spots 8 (a + extent 8 (shape us) + 8 + j) (shape vs) = spots 8 (a + extent 8 (shape xs) + 8 + n) (shape ys)" by (simp only: a e(2))
  then show ?thesis by (simp add: tl_free_def p q e(1))
qed

lemma tlsf_rep_flags: "tlsf_rep h B \<Longrightarrow> \<forall>b\<in>set B. bflag b \<longrightarrow> bfree b"
  by (auto simp: tlsf_rep_def tl_ok_def)

lemma shape_split: "shape B = xs @ (n, False) # ys \<Longrightarrow> \<exists>us f vs. B = us @ (n, False, f) # vs \<and> xs = shape us"
  by (auto simp: map_eq_append_conv map_eq_Cons_conv) blast

lemma tlsf_free_used:
  assumes rep: "tlsf_rep h B" and p: "(unat p, n) \<in> tlsf_used (fst h) B"
  shows "\<exists>h' B'. tlsf_heap_free p h s = Some (h', s) \<and> tlsf_rep h' B' \<and> tlsf_used (fst h') B' = tlsf_used (fst h) B - {(unat p, n)} \<and>
    (\<forall>i\<in>bytes (tlsf_used (fst h') B'). snd h' i = snd h i)"
proof -
  let ?a = "unat (tl_first (fst h))"
  obtain xs ys where s: "shape B = xs @ (n, False) # ys" "unat p = ?a + extent 8 xs + 8" using spots_split p unfolding tlsf_used_def by blast
  obtain us f vs where u: "B = us @ (n, False, f) # vs" "xs = shape us" using shape_split [OF s(1)] by blast
  have fl: "f = False" "\<forall>b\<in>set vs. bflag b \<longrightarrow> bfree b" using tlsf_rep_flags [OF rep] unfolding u(1) by auto
  have ptr: "unat p = ?a + tspan us + 8" using s(2) u(2) by (simp add: tspan_extent)
  from tlsf_free [OF rep [unfolded u(1) fl(1)] ptr, of s] obtain h' where
    f: "tlsf_heap_free p h s = Some (h', s)" "tlsf_rep h' (tl_free us n vs)" "tl_pool (fst h') = tl_pool (fst h)"
      "\<forall>i\<in>payload ?a (tl_free us n vs). snd h' i = snd h i" by blast
  have a: "unat (tl_first (fst h')) = ?a" using f(3) by (simp add: tl_first_def)
  have t: "tlsf_used (fst h') (tl_free us n vs) = spots 8 ?a (shape us @ (n, True) # shape vs)"
    using spots_tl_free [OF fl(2), of ?a us n f] by (simp add: tlsf_used_def a)
  have "tlsf_used (fst h) B = insert (unat p, n) (spots 8 ?a (shape us @ (n, True) # shape vs))" "unat p \<notin> fst ` spots 8 ?a (shape us @ (n, True) # shape vs)"
    using spots_mid(1,2) [of 8 ?a "shape us" n "shape vs"] unfolding tlsf_used_def u(1) ptr tspan_extent by simp_all
  then have "tlsf_used (fst h') (tl_free us n vs) = tlsf_used (fst h) B - {(unat p, n)}" unfolding t by force
  moreover have "\<forall>i\<in>bytes (tlsf_used (fst h') (tl_free us n vs)). snd h' i = snd h i" using f(4) by (simp only: tlsf_used_def a payload_bytes)
  ultimately show ?thesis using f(1,2) by blast
qed

lemma tlsf_alloc_used:
  assumes rep: "tlsf_rep h B" and sz: "sz \<noteq> 0" "unat sz \<le> 2 ^ 22"
  shows "\<exists>r h'. tlsf_heap_alloc sz h s = Some (r, h', s) \<and>
      (r = 0 \<and> h' = h \<or> (\<exists>n B'. r \<noteq> 0 \<and> unat sz \<le> n \<and> tlsf_rep h' B' \<and> tlsf_used (fst h') B' = insert (unat r, n) (tlsf_used (fst h) B) \<and>
         unat r \<notin> fst ` tlsf_used (fst h) B \<and> (\<forall>i\<in>bytes (tlsf_used (fst h) B). snd h' i = snd h i)))"
proof -
  let ?a = "unat (tl_first (fst h))"
  define k where "k = unat (HEAP_ALIGN_UP sz)"
  have k: "unat sz \<le> k" using request_size(1) [OF sz] by (simp add: k_def)
  from tlsf_alloc [OF rep sz, of s, folded k_def] obtain r h' where al: "tlsf_heap_alloc sz h s = Some (r, h', s)" "alloc_outcome h B k r h'" by (elim exE conjE) (rule that)
  from al(2) show ?thesis unfolding alloc_outcome_def Let_def
  proof (elim disjE exE conjE)
    assume "r = 0" "h' = h"
    then show ?thesis using al(1) by simp
  next
    fix xs n f ys
    assume x: "B = xs @ (n, True, f) # ys" "k \<le> n" "unat r = ?a + tspan xs + 8" "tlsf_rep h' (tl_take k xs n ys)" "tl_pool (fst h') = tl_pool (fst h)"
      "\<forall>i\<in>payload ?a B. snd h' i = snd h i"
    have a: "unat (tl_first (fst h')) = ?a" using x(5) by (simp add: tl_first_def)
    have "tlsf_used (fst h') (tl_take k xs n ys) = insert (unat r, if k + 16 \<le> n then k else n) (tlsf_used (fst h) B)"
      by (simp only: tlsf_used_def a spots_tl_take [OF x(2), of _ _ _ f] x(1,3))
    moreover have "unat r \<notin> fst ` tlsf_used (fst h) B"
      using spots_mid(2) [of 8 ?a "shape xs" n "shape ys"] unfolding tlsf_used_def x(1,3) tspan_extent by simp
    moreover have "\<forall>i\<in>bytes (tlsf_used (fst h) B). snd h' i = snd h i" using x(6) by (simp only: tlsf_used_def payload_bytes)
    moreover have "unat sz \<le> (if k + 16 \<le> n then k else n)" using k x(2) by simp
    moreover have "r \<noteq> 0" using x(3) by auto
    ultimately show ?thesis using al(1) x(4) by blast
  qed
qed

lemma tlsf_used_apart:
  assumes "(a, n) \<in> tlsf_used st B" "(b, k) \<in> tlsf_used st B"
  shows "a \<noteq> b \<Longrightarrow> {a..<a + n} \<inter> {b..<b + k} = {}" "a = b \<Longrightarrow> n = k"
  using spots_apart [OF _ assms [unfolded tlsf_used_def]] by simp_all

interpretation tlsf_api: heap_api tlsf_heap_alloc tlsf_heap_free tlsf_rep tlsf_used
proof (unfold_locales, goal_cases)
  case (2 h B sz s)
  then show ?case by (rule tlsf_alloc_used)
next
  case (3 h B p n s)
  then show ?case by (rule tlsf_free_used)
next
  case (4 h B i v)
  have "tlsf_rep (fst h, snd h) B" using 4(1) by simp
  then show ?case
  proof (rule tlsf_rep_payload)
    fix j assume "j \<notin> payload (unat (tl_first (fst h))) B"
    then have "j \<noteq> i" using 4(2) unfolding tlsf_used_def payload_bytes by blast
    then show "((snd h)(i := v)) j = snd h j" by simp
  qed
next
  case (5 h B a n b k)
  then show ?case using tlsf_used_apart(1) by blast
next
  case (6 h B a n k)
  then show ?case using tlsf_used_apart(2) by blast
qed (simp add: tlsf_heap_alloc_def)

section \<open>Programs over the heap\<close>

text \<open>
  C22: Take any program of allocations of up to 4 MiB, releases of live buffers and writes to live buffers, over any of the three allocators, on a well-formed heap. Every call
  returns, with the interrupt state it found; the heap stays well-formed; no two live buffers overlap; and every buffer reads back the
  bytes last written to it, whatever the other operations did.
\<close>

theorem heap_programs_safe:
  assumes "\<forall>x\<in>set xs. op_ok x"
  shows "(\<forall>h B check. heap_rep h B \<longrightarrow> (\<forall>alloc\<in>{ff_heap_alloc, bf_heap_alloc}.
      \<exists>h' L B'. heap_run alloc (vibe_heap_free check) xs (h, [], s) = Some (h', L, s) \<and> heap_rep h' B' \<and> reads_back (snd h') L \<and> disjoint_buffers L)) \<and>
    (\<forall>h B. tlsf_rep h B \<longrightarrow>
      (\<exists>h' L B'. heap_run tlsf_heap_alloc tlsf_heap_free xs (h, [], s) = Some (h', L, s) \<and> tlsf_rep h' B' \<and> reads_back (snd h') L \<and> disjoint_buffers L))"
  using ff_api.program_ok [OF _ assms, of _ _ _ s] bf_api.program_ok [OF _ assms, of _ _ _ s] tlsf_api.program_ok [OF _ assms, of _ _ s] by blast

theorem heap_programs_safe_witness:
  "\<forall>s. (\<exists>h' L B'. heap_run bf_heap_alloc (vibe_heap_free True) [Alloc 10, Write 0 3 7, Alloc 5, Release 1] (demo_heap, [], s) = Some (h', L, s) \<and>
       heap_rep h' B' \<and> reads_back (snd h') L \<and> disjoint_buffers L) \<and>
     (\<exists>h' L B'. heap_run tlsf_heap_alloc tlsf_heap_free [Alloc 10, Write 0 3 7, Alloc 5, Release 1] (demo_tlsf, [], s) = Some (h', L, s) \<and>
       tlsf_rep h' B' \<and> reads_back (snd h') L \<and> disjoint_buffers L)"
proof
  fix s
  have ok: "\<forall>x\<in>set [Alloc 10, Write 0 3 7, Alloc 5, Release 1]. op_ok x" by simp
  show "(\<exists>h' L B'. heap_run bf_heap_alloc (vibe_heap_free True) [Alloc 10, Write 0 3 7, Alloc 5, Release 1] (demo_heap, [], s) = Some (h', L, s) \<and>
       heap_rep h' B' \<and> reads_back (snd h') L \<and> disjoint_buffers L) \<and>
     (\<exists>h' L B'. heap_run tlsf_heap_alloc tlsf_heap_free [Alloc 10, Write 0 3 7, Alloc 5, Release 1] (demo_tlsf, [], s) = Some (h', L, s) \<and>
       tlsf_rep h' B' \<and> reads_back (snd h') L \<and> disjoint_buffers L)"
    using heap_programs_safe [OF ok, of s] demo_rep demo_tlsf_rep(1) by blast
qed

end
