(* ===== verification/Vibe_Jobs.thy ===== *)
theory Vibe_Jobs
  imports Vibe_Prelude
begin

text \<open>
  The cooperative job scheduler (\<^verbatim>\<open>lib/job_scheduler\<close>) over Duff's-device coroutines (\<^verbatim>\<open>lib/async/async.h\<close>). A coroutine is a function of
  its context pointer and of the slot that holds its resume point; it may change the scheduler itself, for it may submit and cancel jobs. One
  call of \<^verbatim>\<open>vibe_sched_run\<close> is \<open>job_phase1\<close> followed by \<open>job_phase2\<close>.
\<close>

section \<open>Jobs\<close>

datatype async_status_t = ASYNC_DONE | ASYNC_RUNNING | ASYNC_BLOCKED

datatype job_state_t = JOB_IDLE | JOB_READY | JOB_BLOCKED

record vibe_job_t =
  jb_fn :: u32
  jb_ctx :: u32
  jb_co :: int
  jb_state :: job_state_t
  jb_prio :: u8
  jb_run_count :: u32

record vibe_sched_stats_t =
  ss_submitted :: u32
  ss_completed :: u32
  ss_active :: u32
  ss_ticks :: u32

record vibe_job_sched_t =
  js_jobs :: "nat \<Rightarrow> vibe_job_t"
  js_capacity :: u8
  js_stats :: vibe_sched_stats_t

type_synonym 'e jworld = "vibe_job_sched_t \<times> 'e"
type_synonym 'e async_fn_t = "u32 \<Rightarrow> u32 \<Rightarrow> nat \<Rightarrow> 'e jworld \<Rightarrow> async_status_t \<times> 'e jworld"

definition async_init :: int where "async_init = 0"

definition async_is_done :: "int \<Rightarrow> bool" where "async_is_done co \<longleftrightarrow> co < 0"

definition upd_job :: "nat \<Rightarrow> (vibe_job_t \<Rightarrow> vibe_job_t) \<Rightarrow> vibe_job_sched_t \<Rightarrow> vibe_job_sched_t" where
  "upd_job i f s = s\<lparr>js_jobs := (js_jobs s)(i := f (js_jobs s i))\<rparr>"

definition upd_stats :: "bool \<Rightarrow> (vibe_sched_stats_t \<Rightarrow> vibe_sched_stats_t) \<Rightarrow> vibe_job_sched_t \<Rightarrow> vibe_job_sched_t" where
  "upd_stats stats f s = (if stats then s\<lparr>js_stats := f (js_stats s)\<rparr> else s)"

text \<open>\<open>stats\<close> is \<^verbatim>\<open>CONFIG_JOB_SCHEDULER_STATS\<close>.\<close>

definition job_exec :: "bool \<Rightarrow> 'e async_fn_t \<Rightarrow> nat \<Rightarrow> 'e jworld \<Rightarrow> 'e jworld" where
  "job_exec stats run i w =
     (let j = js_jobs (fst w) i;
          (st, s, e) = run (jb_fn j) (jb_ctx j) i w;
          s = (if stats then upd_job i (\<lambda>j. j\<lparr>jb_run_count := jb_run_count j + 1\<rparr>) s else s)
      in case st of
           ASYNC_DONE \<Rightarrow>
             (upd_stats stats (\<lambda>t. t\<lparr>ss_completed := ss_completed t + 1, ss_active := ss_active t - 1\<rparr>)
               (upd_job i (\<lambda>j. j\<lparr>jb_state := JOB_IDLE\<rparr>) s), e)
         | ASYNC_BLOCKED \<Rightarrow> (upd_job i (\<lambda>j. j\<lparr>jb_state := JOB_BLOCKED\<rparr>) s, e)
         | ASYNC_RUNNING \<Rightarrow> (upd_job i (\<lambda>j. j\<lparr>jb_state := JOB_READY\<rparr>) s, e))"

definition job_idle :: vibe_job_t where
  "job_idle = \<lparr>jb_fn = 0, jb_ctx = 0, jb_co = 0, jb_state = JOB_IDLE, jb_prio = 0, jb_run_count = 0\<rparr>"

definition vibe_sched_init :: "u8 \<Rightarrow> vibe_job_sched_t" where
  "vibe_sched_init max_jobs =
     \<lparr>js_jobs = \<lambda>_. job_idle, js_capacity = max_jobs, js_stats = \<lparr>ss_submitted = 0, ss_completed = 0, ss_active = 0, ss_ticks = 0\<rparr>\<rparr>"

definition vibe_sched_submit :: "bool \<Rightarrow> u32 \<Rightarrow> u32 \<Rightarrow> u8 \<Rightarrow> vibe_job_sched_t \<Rightarrow> nat option \<times> vibe_job_sched_t" where
  "vibe_sched_submit stats fn ctx prio s =
     (case find (\<lambda>i. jb_state (js_jobs s i) = JOB_IDLE) [0..<unat (js_capacity s)] of
        None \<Rightarrow> (None, s)
      | Some i \<Rightarrow>
          (let s = upd_job i (\<lambda>j. j\<lparr>jb_fn := fn, jb_ctx := ctx, jb_prio := prio, jb_state := JOB_READY, jb_co := async_init\<rparr>) s;
               s = (if stats then upd_job i (\<lambda>j. j\<lparr>jb_run_count := 0\<rparr>) s else s)
           in (Some i, upd_stats stats (\<lambda>t. t\<lparr>ss_submitted := ss_submitted t + 1, ss_active := ss_active t + 1\<rparr>) s)))"

definition vibe_sched_defer :: "bool \<Rightarrow> u32 \<Rightarrow> u32 \<Rightarrow> vibe_job_sched_t \<Rightarrow> nat option \<times> vibe_job_sched_t" where
  "vibe_sched_defer stats fn ctx s = vibe_sched_submit stats fn ctx 0 s"

definition vibe_sched_cancel :: "bool \<Rightarrow> nat option \<Rightarrow> vibe_job_sched_t \<Rightarrow> vibe_job_sched_t" where
  "vibe_sched_cancel stats job s =
     (case job of
        None \<Rightarrow> s
      | Some i \<Rightarrow>
          if jb_state (js_jobs s i) = JOB_IDLE then s
          else upd_job i (\<lambda>j. j\<lparr>jb_state := JOB_IDLE\<rparr>) (upd_stats stats (\<lambda>t. t\<lparr>ss_active := ss_active t - 1\<rparr>) s))"

text \<open>The selection scan: the best slot so far (\<open>-1\<close> for none) and its priority.\<close>

definition job_scan_step :: "64 word \<Rightarrow> vibe_job_sched_t \<Rightarrow> nat \<Rightarrow> int \<times> u8 \<Rightarrow> int \<times> u8" where
  "job_scan_step dn s i b =
     (if dn AND push_bit i 1 \<noteq> 0 then b
      else if jb_state (js_jobs s i) \<noteq> JOB_READY then b
      else if fst b < 0 \<or> jb_prio (js_jobs s i) > snd b then (int i, jb_prio (js_jobs s i))
      else b)"

definition job_best :: "nat \<Rightarrow> 64 word \<Rightarrow> vibe_job_sched_t \<Rightarrow> int" where
  "job_best n dn s = fst (fold (job_scan_step dn s) [0..<n] (-1, 0))"

partial_function (option) job_phase1 ::
    "bool \<Rightarrow> 'e async_fn_t \<Rightarrow> nat \<Rightarrow> 64 word \<Rightarrow> int \<Rightarrow> 'e jworld \<Rightarrow> (int \<times> 'e jworld) option" where
  "job_phase1 stats run n dn cnt w =
     (if job_best n dn (fst w) < 0 then Some (cnt, w)
      else job_phase1 stats run n (dn OR push_bit (nat (job_best n dn (fst w))) 1) (cnt + 1)
        (job_exec stats run (nat (job_best n dn (fst w))) w))"

definition job_phase2_step :: "bool \<Rightarrow> 'e async_fn_t \<Rightarrow> nat \<Rightarrow> int \<times> 'e jworld \<Rightarrow> int \<times> 'e jworld" where
  "job_phase2_step stats run i a =
     (if jb_state (js_jobs (fst (snd a)) i) \<noteq> JOB_BLOCKED then a else (fst a + 1, job_exec stats run i (snd a)))"

definition job_phase2 :: "bool \<Rightarrow> 'e async_fn_t \<Rightarrow> nat \<Rightarrow> int \<times> 'e jworld \<Rightarrow> int \<times> 'e jworld" where
  "job_phase2 stats run n a = fold (job_phase2_step stats run) [0..<n] a"

definition vibe_sched_run :: "bool \<Rightarrow> 'e async_fn_t \<Rightarrow> 'e jworld \<Rightarrow> (int \<times> 'e jworld) option" where
  "vibe_sched_run stats run w =
     (let n = unat (js_capacity (fst w));
          w = (upd_stats stats (\<lambda>t. t\<lparr>ss_ticks := ss_ticks t + 1\<rparr>) (fst w), snd w)
      in map_option (job_phase2 stats run n) (job_phase1 stats run n 0 0 w))"

definition vibe_sched_is_idle :: "vibe_job_sched_t \<Rightarrow> bool" where
  "vibe_sched_is_idle s = list_all (\<lambda>i. jb_state (js_jobs s i) \<noteq> JOB_READY) [0..<unat (js_capacity s)]"

definition vibe_sched_active_count :: "vibe_job_sched_t \<Rightarrow> int" where
  "vibe_sched_active_count s = fold (\<lambda>i c. if jb_state (js_jobs s i) \<noteq> JOB_IDLE then c + 1 else c) [0..<unat (js_capacity s)] 0"

definition vibe_sched_get_stats :: "vibe_job_sched_t \<Rightarrow> vibe_sched_stats_t" where
  "vibe_sched_get_stats s = js_stats s"

section \<open>The scan finds the next job\<close>

text \<open>Higher priority first, lower slot first among equals: the order of a stable sort by this key.\<close>

definition job_key :: "vibe_job_sched_t \<Rightarrow> nat \<Rightarrow> nat" where
  "job_key s i = 255 - unat (jb_prio (js_jobs s i))"

definition job_todo :: "nat \<Rightarrow> 64 word \<Rightarrow> vibe_job_sched_t \<Rightarrow> nat list" where
  "job_todo n dn s = sort_key (job_key s) (filter (\<lambda>i. jb_state (js_jobs s i) = JOB_READY \<and> \<not> bit dn i) [0..<n])"

lemma job_key_less: "job_key s i < job_key s j \<longleftrightarrow> jb_prio (js_jobs s j) < jb_prio (js_jobs s i)"
proof -
  have "unat (w :: u8) < 256" for w using unsigned_less [of w] by simp
  from this [of "jb_prio (js_jobs s i)"] this [of "jb_prio (js_jobs s j)"] show ?thesis
    by (auto simp: job_key_def word_less_nat_alt)
qed

lemma job_scan_step_eq:
  "job_scan_step dn s i b =
     (if bit dn i \<or> jb_state (js_jobs s i) \<noteq> JOB_READY \<or> 0 \<le> fst b \<and> jb_prio (js_jobs s i) \<le> snd b then b else (int i, jb_prio (js_jobs s i)))"
  by (auto simp: job_scan_step_def and_exp_eq_0_iff_not_bit)

lemma sort_key_hd:
  "sort_key f (x # xs) \<noteq> [] \<and> hd (sort_key f (x # xs)) = (if sort_key f xs = [] \<or> f x \<le> f (hd (sort_key f xs)) then x else hd (sort_key f xs))"
  by (cases "sort_key f xs") auto

lemma scan_from:
  "fold (job_scan_step dn s) xs (int b, jb_prio (js_jobs s b)) =
    (let L = sort_key (job_key s) (filter (\<lambda>i. jb_state (js_jobs s i) = JOB_READY \<and> \<not> bit dn i) xs);
         c = (if L = [] \<or> job_key s b \<le> job_key s (hd L) then b else hd L)
     in (int c, jb_prio (js_jobs s c)))"
proof (induction xs arbitrary: b)
  case (Cons x xs)
  let ?P = "\<lambda>i. jb_state (js_jobs s i) = JOB_READY \<and> \<not> bit dn i"
  let ?L = "sort_key (job_key s) (filter ?P xs)"
  show ?case
  proof (cases "?P x")
    case True
    have st: "job_scan_step dn s x (int b, jb_prio (js_jobs s b)) = (if job_key s x < job_key s b then (int x, jb_prio (js_jobs s x)) else (int b, jb_prio (js_jobs s b)))"
      using True by (auto simp: job_scan_step_eq job_key_less not_le)
    show ?thesis
    proof (cases "job_key s x < job_key s b")
      case lt: True
      then show ?thesis using Cons.IH [of x] sort_key_hd [of "job_key s" x "filter ?P xs"] st True by (auto simp: Let_def)
    next
      case False
      then show ?thesis using Cons.IH [of b] sort_key_hd [of "job_key s" x "filter ?P xs"] st True by (auto simp: Let_def)
    qed
  next
    case False
    then have "job_scan_step dn s x a = a" for a by (auto simp: job_scan_step_eq)
    then show ?thesis using Cons.IH [of b] False by auto
  qed
qed simp

lemma job_best_todo: "job_best n dn s = (case job_todo n dn s of [] \<Rightarrow> -1 | i # _ \<Rightarrow> int i)"
proof -
  let ?P = "\<lambda>i. jb_state (js_jobs s i) = JOB_READY \<and> \<not> bit dn i"
  have "fst (fold (job_scan_step dn s) xs (-1, 0)) = (case sort_key (job_key s) (filter ?P xs) of [] \<Rightarrow> -1 | i # _ \<Rightarrow> int i)" for xs
  proof (induction xs)
    case (Cons x xs)
    show ?case
    proof (cases "?P x")
      case True
      then have "job_scan_step dn s x (-1, 0) = (int x, jb_prio (js_jobs s x))" by (auto simp: job_scan_step_eq)
      then show ?thesis using scan_from [of dn s xs x] sort_key_hd [of "job_key s" x "filter ?P xs"] True
        by (cases "insort_key (job_key s) x (sort_key (job_key s) (filter ?P xs))") (auto simp: Let_def)
    next
      case False
      then have "job_scan_step dn s x (-1, 0) = (-1, 0)" by (auto simp: job_scan_step_eq)
      then show ?thesis using Cons.IH False by auto
    qed
  qed simp
  then show ?thesis by (simp add: job_best_def job_todo_def)
qed

lemma set_job_todo: "set (job_todo n dn s) = {i. i < n \<and> jb_state (js_jobs s i) = JOB_READY \<and> \<not> bit dn i}"
  by (auto simp: job_todo_def)

section \<open>One tick\<close>

text \<open>Every slot runs at most once in the first phase, whatever the coroutines do, so the phase ends.\<close>

definition job_left :: "nat \<Rightarrow> 64 word \<Rightarrow> nat set" where
  "job_left n dn = {i. i < n \<and> \<not> bit dn i}"

lemma job_best_left: "0 \<le> job_best n dn s \<Longrightarrow> nat (job_best n dn s) \<in> job_left n dn"
proof -
  assume "0 \<le> job_best n dn s"
  then obtain i L where i: "job_todo n dn s = i # L" "job_best n dn s = int i" by (auto simp: job_best_todo split: list.splits)
  have "i \<in> set (job_todo n dn s)" unfolding i(1) by simp
  then show ?thesis using i(2) by (auto simp: set_job_todo job_left_def)
qed

lemma job_left_step: "n \<le> 64 \<Longrightarrow> i < n \<Longrightarrow> job_left n (dn OR push_bit i 1) = job_left n dn - {i}"
  by (auto simp: job_left_def bit_or_iff bit_push_bit_iff bit_1_iff bit_exp_iff)

lemma job_phase1_returns:
  assumes "n \<le> 64"
  shows "\<exists>k w'. job_phase1 stats run n dn cnt w = Some (cnt + int k, w') \<and> k \<le> card (job_left n dn)"
proof (induction "card (job_left n dn)" arbitrary: dn cnt w rule: less_induct)
  case less
  have fin: "finite (job_left n dn)" by (simp add: job_left_def)
  show ?case
  proof (cases "job_best n dn (fst w) < 0")
    case True
    then show ?thesis by (subst job_phase1.simps) (simp add: exI [of _ 0])
  next
    case False
    define i where "i = nat (job_best n dn (fst w))"
    have i: "i \<in> job_left n dn" using job_best_left False by (simp add: i_def)
    then have lt: "job_left n (dn OR push_bit i 1) = job_left n dn - {i}" using job_left_step [OF assms] by (simp add: job_left_def)
    have c: "card (job_left n (dn OR push_bit i 1)) = card (job_left n dn) - 1" "card (job_left n dn) > 0"
      using i fin unfolding lt by (auto simp: card_gt_0_iff)
    have step: "job_phase1 stats run n dn cnt w = job_phase1 stats run n (dn OR push_bit i 1) (cnt + 1) (job_exec stats run i w)"
      using False by (subst job_phase1.simps) (simp add: i_def)
    from less [of "dn OR push_bit i 1" "cnt + 1" "job_exec stats run i w"] c obtain k w' where
      "job_phase1 stats run n dn cnt w = Some (cnt + 1 + int k, w')" "k \<le> card (job_left n dn) - 1"
      unfolding step by auto
    then show ?thesis using c(2) by (intro exI [of _ "Suc k"] exI [of _ w']) auto
  qed
qed

text \<open>A coroutine that leaves the scheduler alone: it changes its own resume point and its environment. Which slots run is recorded.\<close>

type_synonym 'e body = "u32 \<Rightarrow> u32 \<Rightarrow> int \<Rightarrow> 'e \<Rightarrow> async_status_t \<times> int \<times> 'e"

definition logged :: "'e body \<Rightarrow> ('e \<times> nat list) async_fn_t" where
  "logged q fn ctx i w =
     (let (st, line, e) = q fn ctx (jb_co (js_jobs (fst w) i)) (fst (snd w))
      in (st, upd_job i (\<lambda>j. j\<lparr>jb_co := line\<rparr>) (fst w), e, snd (snd w) @ [i]))"

definition job_log :: "('e \<times> nat list) jworld \<Rightarrow> nat list" where
  "job_log w = snd (snd w)"

lemma exec_logged:
  "job_log (job_exec stats (logged q) i w) = job_log w @ [i]"
  "k \<noteq> i \<Longrightarrow> js_jobs (fst (job_exec stats (logged q) i w)) k = js_jobs (fst w) k"
  "jb_prio (js_jobs (fst (job_exec stats (logged q) i w)) k) = jb_prio (js_jobs (fst w) k)"
  "js_capacity (fst (job_exec stats (logged q) i w)) = js_capacity (fst w)"
  by (auto simp: job_exec_def logged_def job_log_def upd_job_def upd_stats_def Let_def split: async_status_t.split prod.split)

lemma job_key_exec: "job_key (fst (job_exec stats (logged q) i w)) = job_key (fst w)"
  by (rule ext) (simp add: job_key_def exec_logged(3))

lemma job_todo_step:
  assumes "n \<le> 64" "job_todo n dn (fst w) = i # L"
  shows "job_todo n (dn OR push_bit i 1) (fst (job_exec stats (logged q) i w)) = L"
proof -
  let ?s = "fst w" and ?s' = "fst (job_exec stats (logged q) i w)"
  have i: "i < n" using assms(2) set_job_todo [of n dn ?s] by auto
  have d: "distinct (i # L)" using assms(2) by (simp flip: assms(2) add: job_todo_def)
  have "filter (\<lambda>k. jb_state (js_jobs ?s' k) = JOB_READY \<and> \<not> bit (dn OR push_bit i 1) k) [0..<n] =
      filter (\<lambda>k. k \<noteq> i) (filter (\<lambda>k. jb_state (js_jobs ?s k) = JOB_READY \<and> \<not> bit dn k) [0..<n])"
    using i assms(1) unfolding filter_filter
    by (intro filter_cong refl) (auto simp: exec_logged(2) bit_or_iff bit_push_bit_iff bit_exp_iff)
  then have "job_todo n (dn OR push_bit i 1) ?s' = filter (\<lambda>k. k \<noteq> i) (job_todo n dn ?s)"
    by (simp only: job_todo_def job_key_exec filter_sort)
  moreover have "filter (\<lambda>k. k \<noteq> i) (i # L) = L" using d by (auto simp: filter_id_conv)
  ultimately show ?thesis by (simp only: assms(2))
qed

lemma job_phase1_order:
  assumes "n \<le> 64"
  shows "\<exists>w'. job_phase1 stats (logged q) n dn cnt w = Some (cnt + int (length (job_todo n dn (fst w))), w') \<and>
    job_log w' = job_log w @ job_todo n dn (fst w) \<and> (\<forall>k. k \<notin> set (job_todo n dn (fst w)) \<longrightarrow> js_jobs (fst w') k = js_jobs (fst w) k) \<and>
    js_capacity (fst w') = js_capacity (fst w)"
proof (induction "job_todo n dn (fst w)" arbitrary: dn cnt w)
  case Nil
  then have "job_best n dn (fst w) = -1" by (simp add: job_best_todo flip: Nil)
  then show ?case by (subst job_phase1.simps) (simp flip: Nil)
next
  case (Cons i L)
  let ?w = "job_exec stats (logged q) i w"
  have best: "job_best n dn (fst w) = int i" by (simp add: job_best_todo flip: Cons.hyps(2))
  have todo: "job_todo n (dn OR push_bit i 1) (fst ?w) = L" by (rule job_todo_step [OF assms Cons.hyps(2) [symmetric]])
  have step: "job_phase1 stats (logged q) n dn cnt w = job_phase1 stats (logged q) n (dn OR push_bit i 1) (cnt + 1) ?w"
    using best by (subst job_phase1.simps) simp
  from Cons.hyps(1) [of "dn OR push_bit i 1" ?w "cnt + 1"] obtain w' where w':
    "job_phase1 stats (logged q) n dn cnt w = Some (cnt + 1 + int (length L), w')" "job_log w' = job_log w @ [i] @ L"
    "\<forall>k. k \<notin> set L \<longrightarrow> js_jobs (fst w') k = js_jobs (fst ?w) k" "js_capacity (fst w') = js_capacity (fst w)"
    unfolding step todo by (auto simp: exec_logged)
  then show ?case by (auto simp: exec_logged(2) simp flip: Cons.hyps(2))
qed

lemma job_phase2_step_eq:
  "job_phase2_step stats run i (cnt, w) = (if jb_state (js_jobs (fst w) i) = JOB_BLOCKED then (cnt + 1, job_exec stats run i w) else (cnt, w))"
  by (simp add: job_phase2_step_def)

lemma job_phase2_order:
  fixes w :: "('e \<times> nat list) jworld"
  assumes "distinct xs"
  defines "bl \<equiv> filter (\<lambda>i. jb_state (js_jobs (fst w) i) = JOB_BLOCKED) xs"
  shows "\<exists>w'. fold (job_phase2_step stats (logged q)) xs (cnt, w) = (cnt + int (length bl), w') \<and> job_log w' = job_log w @ bl"
  using assms(1) unfolding bl_def
proof (induction xs arbitrary: cnt w)
  case (Cons x xs)
  show ?case
  proof (cases "jb_state (js_jobs (fst w) x) = JOB_BLOCKED")
    case True
    let ?w = "job_exec stats (logged q) x w"
    have eq: "filter (\<lambda>i. jb_state (js_jobs (fst ?w) i) = JOB_BLOCKED) xs = filter (\<lambda>i. jb_state (js_jobs (fst w) i) = JOB_BLOCKED) xs"
    proof (rule filter_cong [OF refl])
      fix k assume "k \<in> set xs"
      then have "k \<noteq> x" using Cons.prems by auto
      then show "(jb_state (js_jobs (fst ?w) k) = JOB_BLOCKED) = (jb_state (js_jobs (fst w) k) = JOB_BLOCKED)" by (simp add: exec_logged(2))
    qed
    from Cons.IH [of "cnt + 1" ?w, unfolded eq] Cons.prems show ?thesis using True
      by (auto simp: job_phase2_step_eq exec_logged(1))
  next
    case False
    from Cons.IH [of cnt w] Cons.prems show ?thesis using False by (auto simp: job_phase2_step_eq)
  qed
qed simp

lemma job_phase2_bound: "\<exists>k w'. fold (job_phase2_step stats run) xs (cnt, w) = (cnt + int k, w') \<and> k \<le> length xs"
proof (induction xs arbitrary: cnt w)
  case (Cons x xs)
  show ?case
  proof (cases "jb_state (js_jobs (fst w) x) = JOB_BLOCKED")
    case True
    from Cons.IH [of "cnt + 1" "job_exec stats run x w"] obtain k w' where
      "fold (job_phase2_step stats run) (x # xs) (cnt, w) = (cnt + 1 + int k, w')" "k \<le> length xs"
      using True by (auto simp: job_phase2_step_eq)
    then show ?thesis by (intro exI [of _ "Suc k"] exI [of _ w']) auto
  next
    case False
    from Cons.IH [of cnt w] show ?thesis using False by (fastforce simp: job_phase2_step_eq)
  qed
qed simp

lemma capacity_ticks: "js_capacity (upd_stats stats f s) = js_capacity s" "js_jobs (upd_stats stats f s) = js_jobs s"
  by (simp_all add: upd_stats_def)





end
