(* ===== verification/Vibe_Async.thy ===== *)
theory Vibe_Async
  imports Vibe_Jobs "HOL-Library.Monad_Syntax"
begin

text \<open>
  Coroutines (\<^verbatim>\<open>lib/async/async.h\<close>). The macros turn a function into a \<^verbatim>\<open>switch\<close> over the line number at which it last returned; a resumption jumps to that
  \<^verbatim>\<open>case\<close> label, which may stand inside loops and branches. A body is a statement over its context; entering a label in the middle of the body
  leaves the rest of every enclosing statement to do, which is the list of statements that \<open>case_label\<close> computes.
\<close>

section \<open>The macros\<close>

definition async_end :: "'c \<Rightarrow> async_status_t \<times> int \<times> 'c" where
  "async_end c = (ASYNC_DONE, - 1, c)"

definition async_return :: "'c \<Rightarrow> async_status_t \<times> int \<times> 'c" where
  "async_return c = (ASYNC_DONE, - 1, c)"

definition async_yield :: "int \<Rightarrow> 'c \<Rightarrow> async_status_t \<times> int \<times> 'c" where
  "async_yield l c = (ASYNC_RUNNING, l, c)"

text \<open>The macros that may fall through to the statement behind them: \<^term>\<open>Inr\<close>.\<close>

definition async_await :: "int \<Rightarrow> ('c \<Rightarrow> bool) \<Rightarrow> 'c \<Rightarrow> (async_status_t \<times> int \<times> 'c) + 'c" where
  "async_await l b c = (if \<not> b c then Inl (ASYNC_BLOCKED, l, c) else Inr c)"

definition async_await_coro :: "int \<Rightarrow> ('c \<Rightarrow> (async_status_t \<times> 'c) option) \<Rightarrow> 'c \<Rightarrow> ((async_status_t \<times> int \<times> 'c) + 'c) option" where
  "async_await_coro l child c = do { (st, c) \<leftarrow> child c; Some (if st \<noteq> ASYNC_DONE then Inl (ASYNC_RUNNING, l, c) else Inr c) }"

section \<open>Bodies\<close>

datatype 'c stmt =
    Act "'c \<Rightarrow> 'c"
  | Seq "'c stmt" "'c stmt"
  | Cond "'c \<Rightarrow> bool" "'c stmt" "'c stmt"
  | While "'c \<Rightarrow> bool" "'c stmt"
  | Yield int
  | Await int "'c \<Rightarrow> bool"
  | Await_Coro int "'c \<Rightarrow> (async_status_t \<times> 'c) option"
  | Return

text \<open>One call, from the statements that are left to do. A loop without a yield does not return.\<close>

partial_function (option) co_run :: "'c stmt list \<Rightarrow> 'c \<Rightarrow> (async_status_t \<times> int \<times> 'c) option" where
  "co_run k c =
     (case k of
        [] \<Rightarrow> Some (async_end c)
      | s # k \<Rightarrow>
          (case s of
             Act f \<Rightarrow> co_run k (f c)
           | Seq a b \<Rightarrow> co_run (a # b # k) c
           | Cond b s t \<Rightarrow> co_run ((if b c then s else t) # k) c
           | While b t \<Rightarrow> (if b c then co_run (t # While b t # k) c else co_run k c)
           | Yield l \<Rightarrow> Some (async_yield l c)
           | Await l b \<Rightarrow> (case async_await l b c of Inl r \<Rightarrow> Some r | Inr c \<Rightarrow> co_run k c)
           | Await_Coro l f \<Rightarrow> do { r \<leftarrow> async_await_coro l f c; case r of Inl r \<Rightarrow> Some r | Inr c \<Rightarrow> co_run k c }
           | Return \<Rightarrow> Some (async_return c)))"

text \<open>What is left to do from the \<^verbatim>\<open>case\<close> label of a line, with \<open>k\<close> behind the statement.\<close>

primrec case_label :: "int \<Rightarrow> 'c stmt \<Rightarrow> 'c stmt list \<Rightarrow> 'c stmt list option" where
  "case_label l (Act f) k = None"
| "case_label l (Seq a b) k = (case case_label l a (b # k) of Some r \<Rightarrow> Some r | None \<Rightarrow> case_label l b k)"
| "case_label l (Cond b s t) k = (case case_label l s k of Some r \<Rightarrow> Some r | None \<Rightarrow> case_label l t k)"
| "case_label l (While b s) k = case_label l s (While b s # k)"
| "case_label l (Yield n) k = (if l = n then Some k else None)"
| "case_label l (Await n b) k = (if l = n then Some (Await n b # k) else None)"
| "case_label l (Await_Coro n f) k = (if l = n then Some (Await_Coro n f # k) else None)"
| "case_label l Return k = None"

text \<open>\<^verbatim>\<open>ASYNC_BEGIN\<close>: the \<^verbatim>\<open>switch\<close>. A line without a label leaves it and reaches \<^verbatim>\<open>ASYNC_END\<close>.\<close>

definition async_begin :: "'c stmt \<Rightarrow> int \<Rightarrow> 'c \<Rightarrow> (async_status_t \<times> int \<times> 'c) option" where
  "async_begin body line c =
     (if line = 0 then co_run [body] c
      else case case_label line body [] of Some k \<Rightarrow> co_run k c | None \<Rightarrow> Some (async_end c))"

section \<open>Resumption\<close>

text \<open>The labels of a body; \<^verbatim>\<open>__LINE__\<close> is positive, and the compiler refuses two labels on one line.\<close>

primrec labels :: "'c stmt \<Rightarrow> int list" where
  "labels (Act f) = []"
| "labels (Seq a b) = labels a @ labels b"
| "labels (Cond b s t) = labels s @ labels t"
| "labels (While b s) = labels s"
| "labels (Yield n) = [n]"
| "labels (Await n b) = [n]"
| "labels (Await_Coro n f) = [n]"
| "labels Return = []"

definition body_ok :: "'c stmt \<Rightarrow> bool" where
  "body_ok body \<longleftrightarrow> distinct (labels body) \<and> (\<forall>l\<in>set (labels body). 0 < l)"

text \<open>
  The reference: a thread of its own, which keeps what it has left to do while it is suspended, and nothing when it has ended.
\<close>

partial_function (option) thread_run :: "'c stmt list \<Rightarrow> 'c \<Rightarrow> (async_status_t \<times> 'c stmt list option \<times> 'c) option" where
  "thread_run k c =
     (case k of
        [] \<Rightarrow> Some (ASYNC_DONE, None, c)
      | s # k \<Rightarrow>
          (case s of
             Act f \<Rightarrow> thread_run k (f c)
           | Seq a b \<Rightarrow> thread_run (a # b # k) c
           | Cond b s t \<Rightarrow> thread_run ((if b c then s else t) # k) c
           | While b t \<Rightarrow> (if b c then thread_run (t # While b t # k) c else thread_run k c)
           | Yield l \<Rightarrow> Some (ASYNC_RUNNING, Some k, c)
           | Await l b \<Rightarrow> (if b c then thread_run k c else Some (ASYNC_BLOCKED, Some (Await l b # k), c))
           | Await_Coro l f \<Rightarrow>
               do { (st, c) \<leftarrow> f c; if st = ASYNC_DONE then thread_run k c else Some (ASYNC_RUNNING, Some (Await_Coro l f # k), c) }
           | Return \<Rightarrow> Some (ASYNC_DONE, None, c)))"

text \<open>
  A sequence of resumptions: before each one the rest of the system changes the context. The statuses and contexts that the coroutine returns; a call that does not return ends
  the sequence.
\<close>

primrec coroutine_trace :: "'c stmt \<Rightarrow> int \<Rightarrow> 'c \<Rightarrow> ('c \<Rightarrow> 'c) list \<Rightarrow> (async_status_t \<times> 'c) option list" where
  "coroutine_trace body line c [] = []"
| "coroutine_trace body line c (e # es) =
     (case async_begin body line (e c) of
        None \<Rightarrow> [None]
      | Some (st, line, c) \<Rightarrow> Some (st, c) # coroutine_trace body line c es)"

primrec thread_trace :: "'c stmt list option \<Rightarrow> 'c \<Rightarrow> ('c \<Rightarrow> 'c) list \<Rightarrow> (async_status_t \<times> 'c) option list" where
  "thread_trace k c [] = []"
| "thread_trace k c (e # es) =
     (case (case k of Some k \<Rightarrow> thread_run k (e c) | None \<Rightarrow> Some (ASYNC_DONE, None, e c)) of
        None \<Rightarrow> [None]
      | Some (st, k, c) \<Rightarrow> Some (st, c) # thread_trace k c es)"

text \<open>The labels still to come denote, in the whole body, what is left to do.\<close>

primrec located :: "'c stmt \<Rightarrow> 'c stmt list \<Rightarrow> bool" where
  "located body [] \<longleftrightarrow> True"
| "located body (s # k) \<longleftrightarrow> distinct (labels s) \<and> set (labels s) \<subseteq> set (labels body) \<and>
     (\<forall>l\<in>set (labels s). case_label l body [] = case_label l s k) \<and> located body k"

lemma case_label_none: "l \<notin> set (labels s) \<Longrightarrow> case_label l s k = None"
  by (induction s arbitrary: k) auto

lemma case_label_some: "l \<in> set (labels s) \<Longrightarrow> \<exists>r. case_label l s k = Some r"
proof (induction s arbitrary: k)
  case (Seq a b)
  show ?case
  proof (cases "l \<in> set (labels a)")
    case True
    then obtain r where "case_label l a (b # k) = Some r" using Seq.IH(1) by blast
    then show ?thesis by simp
  next
    case False
    then show ?thesis using Seq.IH(2) Seq.prems by (simp add: case_label_none)
  qed
next
  case (Cond b s t)
  show ?case
  proof (cases "l \<in> set (labels s)")
    case True
    then obtain r where "case_label l s k = Some r" using Cond.IH(1) by blast
    then show ?thesis by simp
  next
    case False
    then show ?thesis using Cond.IH(2) Cond.prems by (simp add: case_label_none)
  qed
qed auto

lemma located_seq: "located body (Seq a b # k) \<Longrightarrow> located body (a # b # k)"
proof -
  assume lo: "located body (Seq a b # k)"
  have "case_label l (Seq a b) k = case_label l a (b # k)" if "l \<in> set (labels a)" for l
    using case_label_some [OF that, of "b # k"] by auto
  moreover have "case_label l (Seq a b) k = case_label l b k" if "l \<in> set (labels b)" for l
  proof -
    have "l \<notin> set (labels a)" using lo that by auto
    then show ?thesis by (simp add: case_label_none)
  qed
  ultimately show ?thesis using lo by auto
qed

lemma located_cond: "located body (Cond b s t # k) \<Longrightarrow> located body ((if q then s else t) # k)"
proof -
  assume lo: "located body (Cond b s t # k)"
  have "case_label l (Cond b s t) k = case_label l s k" if "l \<in> set (labels s)" for l
    using case_label_some [OF that, of k] by auto
  moreover have "case_label l (Cond b s t) k = case_label l t k" if "l \<in> set (labels t)" for l
  proof -
    have "l \<notin> set (labels s)" using lo that by auto
    then show ?thesis by (simp add: case_label_none)
  qed
  ultimately show ?thesis using lo by auto
qed

lemma located_while: "located body (While b s # k) \<Longrightarrow> located body (s # While b s # k)"
  by auto

lemma co_run_simps:
  "co_run [] c = Some (async_end c)" "co_run (Act f # k) c = co_run k (f c)" "co_run (Seq s t # k) c = co_run (s # t # k) c"
  "co_run (Cond b s t # k) c = co_run ((if b c then s else t) # k) c"
  "co_run (While b t # k) c = (if b c then co_run (t # While b t # k) c else co_run k c)" "co_run (Yield l # k) c = Some (async_yield l c)"
  "co_run (Await l b # k) c = (if b c then co_run k c else Some (ASYNC_BLOCKED, l, c))"
  "co_run (Await_Coro l g # k) c = do { (st, c) \<leftarrow> g c; if st = ASYNC_DONE then co_run k c else Some (ASYNC_RUNNING, l, c) }"
  "co_run (Return # k) c = Some (async_return c)"
  by (subst co_run.simps; simp add: async_await_def async_await_coro_def case_prod_beta split: Option.bind_split)+

text \<open>The line number that a suspended coroutine leaves denotes what the thread has left to do.\<close>

definition resumes_at :: "'c stmt \<Rightarrow> int \<Rightarrow> 'c stmt list option \<Rightarrow> bool" where
  "resumes_at body l k \<longleftrightarrow>
     (case k of None \<Rightarrow> l = - 1 | Some k \<Rightarrow> l \<in> set (labels body) \<and> case_label l body [] = Some k \<and> located body k)"

lemma thread_run_coroutine:
  assumes "thread_run k c = Some r"
  shows "located body k \<longrightarrow> (\<exists>l. co_run k c = Some (fst r, l, snd (snd r)) \<and> resumes_at body l (fst (snd r)))"
proof (rule thread_run.raw_induct [OF _ assms, of "\<lambda>k c r. located body k \<longrightarrow> (\<exists>l. co_run k c = Some (fst r, l, snd (snd r)) \<and> resumes_at body l (fst (snd r)))"])
  fix run :: "'a stmt list \<Rightarrow> 'a \<Rightarrow> (async_status_t \<times> 'a stmt list option \<times> 'a) option" and k c r
  assume ih: "\<And>k c r. run k c = Some r \<Longrightarrow> located body k \<longrightarrow> (\<exists>l. co_run k c = Some (fst r, l, snd (snd r)) \<and> resumes_at body l (fst (snd r)))"
    and eq: "(case k of [] \<Rightarrow> Some (ASYNC_DONE, None, c)
      | s # k \<Rightarrow>
          (case s of
             Act f \<Rightarrow> run k (f c)
           | Seq a b \<Rightarrow> run (a # b # k) c
           | Cond b s t \<Rightarrow> run ((if b c then s else t) # k) c
           | While b t \<Rightarrow> (if b c then run (t # While b t # k) c else run k c)
           | Yield l \<Rightarrow> Some (ASYNC_RUNNING, Some k, c)
           | Await l b \<Rightarrow> (if b c then run k c else Some (ASYNC_BLOCKED, Some (Await l b # k), c))
           | Await_Coro l f \<Rightarrow>
               do { (st, c) \<leftarrow> f c; if st = ASYNC_DONE then run k c else Some (ASYNC_RUNNING, Some (Await_Coro l f # k), c) }
           | Return \<Rightarrow> Some (ASYNC_DONE, None, c))) = Some r"
  show "located body k \<longrightarrow> (\<exists>l. co_run k c = Some (fst r, l, snd (snd r)) \<and> resumes_at body l (fst (snd r)))"
  proof
    assume lo: "located body k"
    show "\<exists>l. co_run k c = Some (fst r, l, snd (snd r)) \<and> resumes_at body l (fst (snd r))"
    proof (cases k)
      case Nil
      then show ?thesis using eq by (auto simp: co_run_simps async_end_def resumes_at_def)
    next
      case (Cons s k')
      note eq = eq [unfolded Cons list.case] and lo = lo [unfolded Cons]
      show ?thesis
      proof (cases s)
        case (Seq a b)
        have "located body (a # b # k')" using lo located_seq unfolding Seq by blast
        moreover have "run (a # b # k') c = Some r" using eq by (simp add: Seq)
        ultimately show ?thesis using ih [of "a # b # k'" c r] unfolding Cons Seq co_run_simps by blast
      next
        case (Cond b t u)
        have "located body ((if b c then t else u) # k')" using lo located_cond unfolding Cond by blast
        moreover have "run ((if b c then t else u) # k') c = Some r" using eq by (simp add: Cond)
        ultimately show ?thesis using ih [of "(if b c then t else u) # k'" c r] unfolding Cons Cond co_run_simps by blast
      next
        case (While b t)
        have "located body (t # While b t # k')" "located body k'" using lo located_while [of body b t k'] unfolding While by auto
        moreover have "if b c then run (t # While b t # k') c = Some r else run k' c = Some r" using eq by (simp add: While split: if_splits)
        ultimately show ?thesis using ih [of "t # While b t # k'" c r] ih [of k' c r] unfolding Cons While co_run_simps by (cases "b c") simp_all
      next
        case (Await_Coro l f)
        then show ?thesis using eq lo ih [of k' _ r]
          by (auto simp: Cons co_run_simps resumes_at_def split: Option.bind_splits if_splits)
      qed (use eq lo ih [of k' _ r] in \<open>auto simp: Cons co_run_simps async_yield_def async_return_def resumes_at_def split: if_splits\<close>)
    qed
  qed
qed

lemma coroutine_run_thread:
  assumes "co_run k c = Some r"
  shows "thread_run k c \<noteq> None"
proof (rule co_run.raw_induct [OF _ assms, of "\<lambda>k c r. thread_run k c \<noteq> None"])
  fix run :: "'a stmt list \<Rightarrow> 'a \<Rightarrow> (async_status_t \<times> int \<times> 'a) option" and k c r
  assume ih: "\<And>k c r. run k c = Some r \<Longrightarrow> thread_run k c \<noteq> None"
    and eq: "(case k of [] \<Rightarrow> Some (async_end c)
      | s # k \<Rightarrow>
          (case s of
             Act f \<Rightarrow> run k (f c)
           | Seq a b \<Rightarrow> run (a # b # k) c
           | Cond b s t \<Rightarrow> run ((if b c then s else t) # k) c
           | While b t \<Rightarrow> (if b c then run (t # While b t # k) c else run k c)
           | Yield l \<Rightarrow> Some (async_yield l c)
           | Await l b \<Rightarrow> (case async_await l b c of Inl r \<Rightarrow> Some r | Inr c \<Rightarrow> run k c)
           | Await_Coro l f \<Rightarrow> do { r \<leftarrow> async_await_coro l f c; case r of Inl r \<Rightarrow> Some r | Inr c \<Rightarrow> run k c }
           | Return \<Rightarrow> Some (async_return c))) = Some r"
  have ih': "\<exists>st k' c'. thread_run k c = Some (st, k', c')" if "run k c = Some r" for k c using ih [OF that] by auto
  show "thread_run k c \<noteq> None"
    by (subst thread_run.simps) (use eq in \<open>auto simp: async_await_def async_await_coro_def dest: ih' split: list.splits stmt.splits if_splits Option.bind_splits\<close>)
qed

lemma co_run_thread:
  assumes "located body k"
  shows "(co_run k c = None \<and> thread_run k c = None) \<or>
    (\<exists>st l k' c'. co_run k c = Some (st, l, c') \<and> thread_run k c = Some (st, k', c') \<and> resumes_at body l k')"
proof (cases "thread_run k c")
  case None
  then show ?thesis using coroutine_run_thread [of k c] by (cases "co_run k c") auto
next
  case (Some r)
  then show ?thesis using thread_run_coroutine [OF Some, of body] assms by (cases r) auto
qed

text \<open>
  C32: A coroutine written with the macros behaves as a thread of its own that is suspended at its yields and awaits: for every body and every sequence of resumptions, whatever the rest
  of the system does to the context in between, the line number alone makes it return the same statuses and contexts as the thread that keeps all it has left to do. This includes labels inside
  loops and branches, children, early returns, and calls after the end, which report \<^verbatim>\<open>ASYNC_DONE\<close> and do nothing.
\<close>

theorem coroutine_is_thread:
  assumes "body_ok body"
  shows "coroutine_trace body async_init c es = thread_trace (Some [body]) c es"
proof -
  have step: "(async_begin body l c = None \<and> (case k of Some k \<Rightarrow> thread_run k c | None \<Rightarrow> Some (ASYNC_DONE, None, c)) = None) \<or>
    (\<exists>st l' k' c'. async_begin body l c = Some (st, l', c') \<and> (case k of Some k \<Rightarrow> thread_run k c | None \<Rightarrow> Some (ASYNC_DONE, None, c)) = Some (st, k', c') \<and> resumes_at body l' k')"
    if at: "resumes_at body l k \<or> l = 0 \<and> k = Some [body]" for l k and c :: 'a
  proof (cases k)
    case None
    have "case_label (- 1) body [] = None" using assms by (intro case_label_none) (auto simp: body_ok_def)
    then show ?thesis using at None by (auto simp: resumes_at_def async_begin_def async_end_def)
  next
    case (Some k')
    have "located body k' \<and> async_begin body l c = co_run k' c"
    proof (cases "l = 0 \<and> k = Some [body]")
      case True
      then show ?thesis using assms Some by (auto simp: async_begin_def body_ok_def)
    next
      case False
      then have "resumes_at body l k" using at by blast
      then show ?thesis using assms Some by (auto simp: resumes_at_def async_begin_def body_ok_def)
    qed
    then show ?thesis using co_run_thread [of body k' c] by (auto simp: Some)
  qed
  have "coroutine_trace body l c es = thread_trace k c es" if "resumes_at body l k \<or> l = 0 \<and> k = Some [body]" for l k
    using that
  proof (induction es arbitrary: l k c)
    case (Cons e es)
    from step [OF Cons.prems, of "e c"] show ?case using Cons.IH by auto
  qed simp
  then show ?thesis by (simp add: async_init_def)
qed

text \<open>A loop that counts to two, with a yield after each round, and waits for a flag.\<close>

definition demo_body :: "(nat \<times> bool) stmt" where
  "demo_body = Seq (While (\<lambda>c. fst c < 2) (Seq (Act (\<lambda>c. (fst c + 1, snd c))) (Yield 11))) (Await 13 snd)"

theorem coroutine_is_thread_witness:
  "coroutine_trace demo_body async_init (0, False) [id, id, id, \<lambda>c. (fst c, True), id] =
     [Some (ASYNC_RUNNING, (1, False)), Some (ASYNC_RUNNING, (2, False)), Some (ASYNC_BLOCKED, (2, False)), Some (ASYNC_DONE, (2, True)), Some (ASYNC_DONE, (2, True))]"
proof -
  have ok: "body_ok demo_body" by (simp add: body_ok_def demo_body_def)
  show ?thesis unfolding coroutine_is_thread [OF ok] by (simp add: demo_body_def thread_run.simps)
qed

end
