(* ===== verification/Vibe_Shell.thy ===== *)
theory Vibe_Shell
  imports Vibe_Printk
begin

text \<open>
  The serial shell (\<^verbatim>\<open>subsys/shell\<close>): the line editor over a UART and the dispatch of a completed line to a registered command. The
  line is split in place: \<^verbatim>\<open>argv\<close> holds offsets into the line buffer, whose blanks become terminators. The UART driver, the console
  hook and the command handlers act on a state \<open>'d\<close> that the shell does not look into.
\<close>

section \<open>The shell\<close>

text \<open>The operations of the UART device, and the console hook of the kernel's printf.\<close>

record 'd console =
  uart_write :: "string \<Rightarrow> 'd \<Rightarrow> 'd"
  uart_getc :: "'d \<Rightarrow> char option \<times> 'd"
  console_putc :: "char \<Rightarrow> 'd \<Rightarrow> 'd"

record 'd vibe_shell_cmd_t =
  sc_name :: string
  sc_help :: string
  sc_handler :: "string list \<Rightarrow> 'd \<Rightarrow> int \<times> 'd"

record shell_config =
  CONFIG_SHELL_BUF_SIZE :: nat
  CONFIG_SHELL_MAX_ARGS :: nat
  CONFIG_SHELL_PROMPT_STR :: string

text \<open>\<^verbatim>\<open>g_shell_uart\<close> (absent while \<^verbatim>\<open>NULL\<close>), \<^verbatim>\<open>g_line_buf\<close> and \<^verbatim>\<open>g_line_len\<close>.\<close>

record 'd shell =
  g_shell_uart :: "'d console option"
  g_line_buf :: "nat \<Rightarrow> char"
  g_line_len :: nat

definition NUL :: char where "NUL = CHR 0x00"

definition crlf :: string where "crlf = [CHR 0x0D, CHR 0x0A]"

definition vibe_shell_print :: "'d console option \<Rightarrow> string \<Rightarrow> 'd \<Rightarrow> 'd" where
  "vibe_shell_print u str d = (case u of None \<Rightarrow> d | Some c \<Rightarrow> uart_write c str d)"

definition cmd_help :: "'d console option \<Rightarrow> 'd vibe_shell_cmd_t list \<Rightarrow> string list \<Rightarrow> 'd \<Rightarrow> int \<times> 'd" where
  "cmd_help u cmds argv d =
     (let d = vibe_shell_print u (''VibeRTOS Shell '' @ [CHR 0xE2, CHR 0x80, CHR 0x94] @ '' available commands:'' @ crlf) d
      in (0, fold (\<lambda>cmd d.
               vibe_shell_print u crlf (vibe_shell_print u (sc_help cmd)
                 (vibe_shell_print u [CHR 0x09, CHR 0xE2, CHR 0x80, CHR 0x94, CHR '' ''] (vibe_shell_print u (sc_name cmd) (vibe_shell_print u ''  '' d))))) cmds d))"

definition is_blank :: "char \<Rightarrow> bool" where
  "is_blank c \<longleftrightarrow> c = CHR '' '' \<or> c = CHR 0x09"

partial_function (option) tok_skip :: "(nat \<Rightarrow> char) \<Rightarrow> nat \<Rightarrow> nat option" where
  "tok_skip buf p = (if is_blank (buf p) then tok_skip buf (p + 1) else Some p)"

partial_function (option) tok_scan :: "(nat \<Rightarrow> char) \<Rightarrow> nat \<Rightarrow> nat option" where
  "tok_scan buf p = (if buf p \<noteq> NUL \<and> \<not> is_blank (buf p) then tok_scan buf (p + 1) else Some p)"

partial_function (option) shell_split :: "nat \<Rightarrow> (nat \<Rightarrow> char) \<Rightarrow> nat \<Rightarrow> nat list \<Rightarrow> ((nat \<Rightarrow> char) \<times> nat list) option" where
  "shell_split max_args buf p argv =
     (if buf p \<noteq> NUL \<and> length argv < max_args - 1 then do {
        p \<leftarrow> tok_skip buf p;
        if buf p = NUL then Some (buf, argv)
        else do {
          q \<leftarrow> tok_scan buf p;
          if buf q \<noteq> NUL then shell_split max_args (buf(q := NUL)) (q + 1) (argv @ [p])
          else shell_split max_args buf q (argv @ [p])
        }
      } else Some (buf, argv))"

text \<open>The C string at an address.\<close>

partial_function (option) cstring :: "(nat \<Rightarrow> char) \<Rightarrow> nat \<Rightarrow> string option" where
  "cstring buf p = (if buf p = NUL then Some [] else do { s \<leftarrow> cstring buf (p + 1); Some (buf p # s) })"

definition ret_fmt :: string where
  "ret_fmt = ''command '' @ [CHR 0x27] @ ''%s'' @ [CHR 0x27] @ '' returned %d'' @ crlf"

definition shell_dispatch ::
    "shell_config \<Rightarrow> 'd console \<Rightarrow> 'd vibe_shell_cmd_t list \<Rightarrow> (nat \<Rightarrow> char) \<Rightarrow> 'd \<Rightarrow> ((nat \<Rightarrow> char) \<times> 'd) option" where
  "shell_dispatch cfg u cmds buf d =
     do {
       (buf, argv) \<leftarrow> shell_split (CONFIG_SHELL_MAX_ARGS cfg) buf 0 [];
       if argv = [] then Some (buf, d)
       else do {
         args \<leftarrow> those (map (cstring buf) argv);
         (case find (\<lambda>c. sc_name c = hd args) cmds of
            Some c \<Rightarrow>
              (let (ret, d) = sc_handler c args d in
               if ret \<noteq> 0
               then map_option (Pair buf)
                 (vibe_printk (console_putc u) ret_fmt [VA_Str (Some (hd args)), VA_Word (word_of_int ret)] d)
               else Some (buf, d))
          | None \<Rightarrow>
              Some (buf, vibe_shell_print (Some u) ([CHR 0x27] @ ''. Type '' @ [CHR 0x27] @ ''help'' @ [CHR 0x27] @ '' for available commands.'' @ crlf)
                (vibe_shell_print (Some u) (hd args) (vibe_shell_print (Some u) (''Unknown command: '' @ [CHR 0x27]) d))))
       }
     }"

definition vibe_shell_init :: "shell_config \<Rightarrow> 'd console option \<Rightarrow> 'd shell \<Rightarrow> 'd \<Rightarrow> vibe_err_t \<times> 'd shell \<times> 'd" where
  "vibe_shell_init cfg u sh d =
     (let sh = sh\<lparr>g_shell_uart := u, g_line_len := 0, g_line_buf := \<lambda>i. if i < CONFIG_SHELL_BUF_SIZE cfg then NUL else g_line_buf sh i\<rparr>;
          d = vibe_shell_print u crlf d;
          d = vibe_shell_print u (''VibeRTOS v'' @ ''0.1.0'' @ crlf) d;
          d = vibe_shell_print u (CONFIG_SHELL_PROMPT_STR cfg) d
      in (VIBE_OK, sh, d))"

text \<open>What \<^verbatim>\<open>vibe_shell_process\<close> does with one character.\<close>

definition shell_char ::
    "shell_config \<Rightarrow> 'd console \<Rightarrow> 'd vibe_shell_cmd_t list \<Rightarrow> char \<Rightarrow> 'd shell \<times> 'd \<Rightarrow> ('d shell \<times> 'd) option" where
  "shell_char cfg u cmds c w =
     (let (sh, d) = w in
      if c = CHR 0x0D \<or> c = CHR 0x0A then
        (let d = vibe_shell_print (Some u) crlf d in
         do {
           (sh, d) \<leftarrow>
             (if g_line_len sh > 0
              then map_option (\<lambda>(buf, d). (sh\<lparr>g_line_buf := buf, g_line_len := 0\<rparr>, d))
                (shell_dispatch cfg u cmds ((g_line_buf sh)(g_line_len sh := NUL)) d)
              else Some (sh, d));
           Some (sh, vibe_shell_print (Some u) (CONFIG_SHELL_PROMPT_STR cfg) d)
         })
      else if c = CHR 0x08 \<or> c = CHR 0x7F then
        (if g_line_len sh > 0
         then Some (sh\<lparr>g_line_len := g_line_len sh - 1\<rparr>, vibe_shell_print (Some u) [CHR 0x08, CHR '' '', CHR 0x08] d)
         else Some (sh, d))
      else if of_char c \<ge> (0x20 :: nat) \<and> g_line_len sh < CONFIG_SHELL_BUF_SIZE cfg - 1 then
        Some (sh\<lparr>g_line_buf := (g_line_buf sh)(g_line_len sh := c), g_line_len := g_line_len sh + 1\<rparr>, uart_write u [c] d)
      else Some (sh, d))"

partial_function (option) shell_loop ::
    "shell_config \<Rightarrow> 'd console \<Rightarrow> 'd vibe_shell_cmd_t list \<Rightarrow> 'd shell \<times> 'd \<Rightarrow> ('d shell \<times> 'd) option" where
  "shell_loop cfg u cmds w =
     (case uart_getc u (snd w) of
        (None, d) \<Rightarrow> Some (fst w, d)
      | (Some c, d) \<Rightarrow> do { w \<leftarrow> shell_char cfg u cmds c (fst w, d); shell_loop cfg u cmds w })"

definition vibe_shell_process ::
    "shell_config \<Rightarrow> 'd vibe_shell_cmd_t list \<Rightarrow> 'd shell \<times> 'd \<Rightarrow> ('d shell \<times> 'd) option" where
  "vibe_shell_process cfg cmds w =
     (case g_shell_uart (fst w) of None \<Rightarrow> Some w | Some u \<Rightarrow> shell_loop cfg u cmds w)"

section \<open>Splitting a line\<close>

text \<open>The words of a line: the longest runs without blanks.\<close>

function words :: "string \<Rightarrow> string list" where
  "words s =
     (let t = dropWhile is_blank s in
      if t = [] then [] else takeWhile (\<lambda>c. \<not> is_blank c) t # words (dropWhile (\<lambda>c. \<not> is_blank c) t))"
  by pat_completeness auto
termination
proof (relation "measure length", goal_cases)
  case (2 s t)
  obtain c r where t: "t = c # r" using 2(2) by (cases t) blast+
  then have "\<not> is_blank c" using 2 hd_dropWhile [of is_blank s] by simp
  then have "length (dropWhile (\<lambda>c. \<not> is_blank c) t) < length t" using length_dropWhile_le [of "\<lambda>c. \<not> is_blank c" r] by (simp add: t)
  then show ?case using length_dropWhile_le [of is_blank s] 2(1) by simp
qed simp

declare words.simps [simp del]

text \<open>The string \<open>s\<close> stands at \<open>p\<close>, terminated.\<close>

definition cstr_at :: "(nat \<Rightarrow> char) \<Rightarrow> nat \<Rightarrow> string \<Rightarrow> bool" where
  "cstr_at buf p s \<longleftrightarrow> (\<forall>i<length s. buf (p + i) = s ! i) \<and> NUL \<notin> set s \<and> buf (p + length s) = NUL"

lemma cstr_at_Nil [simp]: "cstr_at buf p [] \<longleftrightarrow> buf p = NUL"
  by (simp add: cstr_at_def)

lemma cstr_at_Cons: "cstr_at buf p (c # s) \<longleftrightarrow> buf p = c \<and> c \<noteq> NUL \<and> cstr_at buf (Suc p) s"
  by (auto simp: cstr_at_def nth_Cons split: nat.splits)

lemma NUL_not_blank [simp]: "\<not> is_blank NUL"
  by (simp add: is_blank_def NUL_def)

lemma tok_skip_spec:
  assumes "cstr_at buf p s"
  shows "tok_skip buf p = Some (p + length (takeWhile is_blank s)) \<and> cstr_at buf (p + length (takeWhile is_blank s)) (dropWhile is_blank s)"
  using assms
proof (induction s arbitrary: p)
  case Nil
  then show ?case by (subst tok_skip.simps) simp
next
  case (Cons c s)
  then have c: "buf p = c" "c \<noteq> NUL" "cstr_at buf (Suc p) s" by (simp_all add: cstr_at_Cons)
  show ?case using Cons.IH [OF c(3)] c Cons.prems by (cases "is_blank c") (simp_all add: tok_skip.simps [of buf p])
qed

lemma tok_scan_spec:
  assumes "cstr_at buf p s"
  shows "tok_scan buf p = Some (p + length (takeWhile (\<lambda>c. \<not> is_blank c) s)) \<and> cstr_at buf (p + length (takeWhile (\<lambda>c. \<not> is_blank c) s)) (dropWhile (\<lambda>c. \<not> is_blank c) s)"
  using assms
proof (induction s arbitrary: p)
  case Nil
  then show ?case by (subst tok_scan.simps) simp
next
  case (Cons c s)
  then have c: "buf p = c" "c \<noteq> NUL" "cstr_at buf (Suc p) s" by (simp_all add: cstr_at_Cons)
  show ?case using Cons.IH [OF c(3)] c Cons.prems by (cases "is_blank c") (simp_all add: tok_scan.simps [of buf p])
qed

lemma cstring_cstr_at: "cstr_at buf p s \<Longrightarrow> cstring buf p = Some s"
  by (induction s arbitrary: p) (auto simp: cstr_at_Cons cstring.simps [of buf])

lemma words_blank: "is_blank c \<Longrightarrow> words (c # s) = words s"
  by (simp add: words.simps [of "c # s"] words.simps [of s])

lemma words_Nil [simp]: "words [] = []"
  by (simp add: words.simps)

lemma cstr_at_cong: "cstr_at buf p s \<Longrightarrow> (\<And>i. p \<le> i \<Longrightarrow> i \<le> p + length s \<Longrightarrow> buf' i = buf i) \<Longrightarrow> cstr_at buf' p s"
  by (simp add: cstr_at_def)

text \<open>Cutting the string at a character leaves the part before it.\<close>

lemma cstr_at_cut:
  assumes "cstr_at buf p (s @ t)"
  shows "cstr_at (buf(p + length s := NUL)) p s"
  using assms by (auto simp: cstr_at_def nth_append)

lemma shell_split_words:
  assumes "cstr_at buf p s"
  shows "\<exists>buf' argv'. shell_split max_args buf p argv = Some (buf', argv @ argv') \<and>
    list_all2 (cstr_at buf') argv' (take (max_args - 1 - length argv) (words s)) \<and> (\<forall>i<p. buf' i = buf i)"
  using assms
proof (induction "length s" arbitrary: s buf p argv rule: less_induct)
  case less
  have p0: "buf p = NUL \<longleftrightarrow> s = []" using less.prems by (cases s) (auto simp: cstr_at_Cons)
  show ?case
  proof (cases "s \<noteq> [] \<and> length argv < max_args - 1")
    case False
    then have "shell_split max_args buf p argv = Some (buf, argv)" using p0 by (subst shell_split.simps) auto
    moreover have "take (max_args - 1 - length argv) (words s) = []" using False by auto
    ultimately show ?thesis by (intro exI [of _ buf] exI [of _ "[]"]) simp
  next
    case True
    define t where "t = dropWhile is_blank s"
    define a where "a = p + length (takeWhile is_blank s)"
    have sk: "tok_skip buf p = Some a" "cstr_at buf a t" using tok_skip_spec [OF less.prems] by (simp_all add: a_def t_def)
    show ?thesis
    proof (cases "t = []")
      case nil: True
      then have "shell_split max_args buf p argv = Some (buf, argv)" using True p0 sk by (subst shell_split.simps) simp
      moreover have "words s = []" using nil by (simp add: words.simps t_def)
      ultimately show ?thesis by (intro exI [of _ buf] exI [of _ "[]"]) simp
    next
      case ne: False
      define w where "w = takeWhile (\<lambda>c. \<not> is_blank c) t"
      define r where "r = dropWhile (\<lambda>c. \<not> is_blank c) t"
      have sc: "tok_scan buf a = Some (a + length w)" "cstr_at buf (a + length w) r" using tok_scan_spec [OF sk(2)] by (simp_all add: w_def r_def)
      have tw: "t = w @ r" by (simp add: w_def r_def)
      have a0: "buf a \<noteq> NUL" using ne sk(2) by (cases t) (auto simp: cstr_at_Cons)
      have ws: "words s = w # words r" using ne by (simp add: words.simps [of s] t_def [symmetric] w_def r_def Let_def)
      have ap: "p \<le> a" by (simp add: a_def)
      have "Suc (length argv) < max_args" using True by arith
      then have n: "max_args - 1 - length argv = Suc (max_args - 1 - length (argv @ [a]))" by (simp add: Suc_diff_Suc)
      show ?thesis
      proof (cases r)
        case Nil
        have "shell_split max_args buf p argv = shell_split max_args buf (a + length w) (argv @ [a])"
          using True p0 sk(1) a0 sc Nil by (subst shell_split.simps) simp
        also have "\<dots> = Some (buf, argv @ [a])" using sc(2) Nil by (subst shell_split.simps) simp
        finally have "shell_split max_args buf p argv = Some (buf, argv @ [a])" .
        moreover have "cstr_at buf a w" using sk(2) tw Nil by simp
        ultimately show ?thesis unfolding ws n Nil by (intro exI [of _ buf] exI [of _ "[a]"]) simp
      next
        case (Cons c r')
        let ?b = "buf(a + length w := NUL)"
        have c: "is_blank c" using hd_dropWhile [of "\<lambda>c. \<not> is_blank c" t, folded r_def] Cons by simp
        have bq: "buf (a + length w) \<noteq> NUL" and r': "cstr_at buf (Suc (a + length w)) r'" using sc(2) by (simp_all add: Cons cstr_at_Cons)
        have r2: "cstr_at ?b (Suc (a + length w)) r'" using r' by (rule cstr_at_cong) simp
        have lt: "length r' < length s" using tw Cons length_dropWhile_le [of is_blank s] by (simp add: t_def [symmetric])
        from less.hyps [OF lt r2, of "argv @ [a]"] obtain buf' argv' where
          IH: "shell_split max_args ?b (Suc (a + length w)) (argv @ [a]) = Some (buf', (argv @ [a]) @ argv')"
            "list_all2 (cstr_at buf') argv' (take (max_args - 1 - length (argv @ [a])) (words r'))" "\<forall>i<Suc (a + length w). buf' i = ?b i" by blast
        have "shell_split max_args buf p argv = Some (buf', argv @ (a # argv'))"
          using True p0 sk(1) a0 sc(1) bq IH(1) by (subst shell_split.simps) simp
        moreover have "cstr_at ?b a w" using sk(2) cstr_at_cut [of buf a w r] tw by simp
        then have "cstr_at buf' a w" by (rule cstr_at_cong) (use IH(3) in simp)
        moreover have "words s = w # words r'" unfolding ws Cons using c by (simp add: words_blank)
        moreover have "\<forall>i<p. buf' i = buf i" using IH(3) ap by simp
        ultimately show ?thesis using IH(2) unfolding n by (intro exI [of _ buf'] exI [of _ "a # argv'"]) simp
      qed
    qed
  qed
qed

section \<open>Running a line\<close>

definition unknown_cmd :: "string \<Rightarrow> 'd console \<Rightarrow> 'd \<Rightarrow> 'd" where
  "unknown_cmd name u d =
     fold (uart_write u) [''Unknown command: '' @ [CHR 0x27], name, [CHR 0x27] @ ''. Type '' @ [CHR 0x27] @ ''help'' @ [CHR 0x27] @ '' for available commands.'' @ crlf] d"

text \<open>What a completed line does: its words, at most \<^verbatim>\<open>CONFIG_SHELL_MAX_ARGS - 1\<close> of them, go to the first command of that name.\<close>

definition run_line :: "shell_config \<Rightarrow> 'd console \<Rightarrow> 'd vibe_shell_cmd_t list \<Rightarrow> string \<Rightarrow> 'd \<Rightarrow> 'd" where
  "run_line cfg u cmds line d =
     (let args = take (CONFIG_SHELL_MAX_ARGS cfg - 1) (words line) in
      if args = [] then d
      else
        (case find (\<lambda>c. sc_name c = hd args) cmds of
           Some c \<Rightarrow>
             (let (ret, d) = sc_handler c args d in
              if ret \<noteq> 0 then fold (console_putc u) (the (fmt_out ret_fmt [VA_Str (Some (hd args)), VA_Word (word_of_int ret)])) d else d)
         | None \<Rightarrow> unknown_cmd (hd args) u d))"

lemma ret_fmt_out: "\<exists>out. fmt_out ret_fmt [VA_Str (Some n), VA_Word v] = Some out"
  by (simp add: ret_fmt_def fmt_out_def fmt_conv_def crlf_def)

lemma args_cstrings: "list_all2 (cstr_at buf) argv ws \<Longrightarrow> those (map (cstring buf) argv) = Some ws"
  by (induction argv ws rule: list_all2_induct) (auto simp: cstring_cstr_at)

lemma shell_dispatch_runs:
  assumes "cstr_at buf 0 line"
  shows "\<exists>buf'. shell_dispatch cfg u cmds buf d = Some (buf', run_line cfg u cmds line d)"
proof -
  let ?args = "take (CONFIG_SHELL_MAX_ARGS cfg - 1) (words line)"
  from shell_split_words [OF assms, of "CONFIG_SHELL_MAX_ARGS cfg" "[]"] obtain buf' argv where
    s: "shell_split (CONFIG_SHELL_MAX_ARGS cfg) buf 0 [] = Some (buf', argv)" "list_all2 (cstr_at buf') argv ?args" by auto
  have e: "argv = [] \<longleftrightarrow> ?args = []" using s(2) by (auto dest: list_all2_lengthD)
  have r: "vibe_printk (console_putc u) ret_fmt [VA_Str (Some n), VA_Word v] d =
      Some (fold (console_putc u) (the (fmt_out ret_fmt [VA_Str (Some n), VA_Word v])) d)" for n v d
    using ret_fmt_out [of n v] by (auto simp: vibe_printk_def vibe_vprintk_def fmt_core_fold)
  show ?thesis
  proof (cases "argv = []")
    case True
    then show ?thesis using s e by (simp add: shell_dispatch_def run_line_def)
  next
    case False
    have "shell_dispatch cfg u cmds buf d = Some (buf', run_line cfg u cmds line d)"
      using False e args_cstrings [OF s(2)] r
      by (simp add: shell_dispatch_def run_line_def s(1) Let_def unknown_cmd_def vibe_shell_print_def case_prod_beta split: option.split)
    then show ?thesis by blast
  qed
qed

text \<open>
  C36: The dispatcher splits a line into its words. For every terminated line in the buffer the in-place splitter returns, and the strings at the \<^verbatim>\<open>argv\<close>
  offsets it leaves behind are the words of the line, in order, cut off after \<^verbatim>\<open>CONFIG_SHELL_MAX_ARGS - 1\<close> of them.\<close>

theorem shell_split_is_words:
  assumes "cstr_at buf 0 line"
  shows "\<exists>buf' argv. shell_split max_args buf 0 [] = Some (buf', argv) \<and> map (cstring buf') argv = map Some (take (max_args - 1) (words line))"
proof -
  from shell_split_words [OF assms, of max_args "[]"] obtain buf' argv where
    s: "shell_split max_args buf 0 [] = Some (buf', argv)" "list_all2 (cstr_at buf') argv (take (max_args - 1) (words line))" by auto
  have "map (cstring buf') argv = map Some (take (max_args - 1) (words line))"
    using s(2) by (induction rule: list_all2_induct) (auto simp: cstring_cstr_at)
  then show ?thesis using s(1) by blast
qed

theorem shell_split_is_words_witness:
  "\<exists>buf' argv. shell_split 16 (\<lambda>i. (''  led on'' @ [NUL]) ! i) 0 [] = Some (buf', argv) \<and> map (cstring buf') argv = [Some ''led'', Some ''on'']"
proof -
  have "cstr_at (\<lambda>i. (''  led on'' @ [NUL]) ! i) 0 ''  led on''" by (simp add: cstr_at_Cons NUL_def)
  from shell_split_is_words [OF this, of 16] show ?thesis by (simp add: words.simps is_blank_def)
qed

section \<open>Editing\<close>

definition shell_line :: "'d shell \<Rightarrow> string" where
  "shell_line sh = map (g_line_buf sh) [0..<g_line_len sh]"

definition line_ok :: "shell_config \<Rightarrow> 'd shell \<Rightarrow> bool" where
  "line_ok cfg sh \<longleftrightarrow> g_line_len sh < CONFIG_SHELL_BUF_SIZE cfg \<and> NUL \<notin> set (shell_line sh)"

text \<open>The line editor on the line itself.\<close>

definition edit :: "shell_config \<Rightarrow> 'd console \<Rightarrow> 'd vibe_shell_cmd_t list \<Rightarrow> char \<Rightarrow> string \<times> 'd \<Rightarrow> string \<times> 'd" where
  "edit cfg u cmds c w =
     (let (line, d) = w in
      if c = CHR 0x0D \<or> c = CHR 0x0A then
        (let d = uart_write u crlf d; d = (if line \<noteq> [] then run_line cfg u cmds line d else d)
         in ([], uart_write u (CONFIG_SHELL_PROMPT_STR cfg) d))
      else if c = CHR 0x08 \<or> c = CHR 0x7F then
        (if line \<noteq> [] then (butlast line, uart_write u [CHR 0x08, CHR '' '', CHR 0x08] d) else w)
      else if of_char c \<ge> (0x20 :: nat) \<and> length line < CONFIG_SHELL_BUF_SIZE cfg - 1 then (line @ [c], uart_write u [c] d)
      else w)"

text \<open>
  C37: One character of input refines the line editor on strings: a printable character is appended while it fits, backspace and delete drop the last
  one, and a line end runs the line, once, if there is one, and starts an empty line. The buffer index stays below \<^verbatim>\<open>CONFIG_SHELL_BUF_SIZE\<close> throughout.\<close>

theorem shell_char_refines:
  assumes "line_ok cfg sh"
  shows "\<exists>sh' d'. shell_char cfg u cmds c (sh, d) = Some (sh', d') \<and> line_ok cfg sh' \<and> (shell_line sh', d') = edit cfg u cmds c (shell_line sh, d)"
proof -
  let ?n = "g_line_len sh" and ?b = "g_line_buf sh"
  have ok: "?n < CONFIG_SHELL_BUF_SIZE cfg" "NUL \<notin> set (shell_line sh)" using assms by (simp_all add: line_ok_def)
  have len: "shell_line sh = [] \<longleftrightarrow> ?n = 0" by (simp add: shell_line_def)
  consider "c = CHR 0x0D \<or> c = CHR 0x0A" | "c = CHR 0x08 \<or> c = CHR 0x7F" |
    "of_char c \<ge> (0x20 :: nat)" "c \<noteq> CHR 0x7F" "?n < CONFIG_SHELL_BUF_SIZE cfg - 1" |
    "\<not> (c = CHR 0x0D \<or> c = CHR 0x0A)" "\<not> (c = CHR 0x08 \<or> c = CHR 0x7F)" "\<not> (of_char c \<ge> (0x20 :: nat) \<and> ?n < CONFIG_SHELL_BUF_SIZE cfg - 1)"
    by fastforce
  then show ?thesis
  proof cases
    case 1
    have cs: "cstr_at (?b(?n := NUL)) 0 (shell_line sh)" using ok(2) by (auto simp: cstr_at_def shell_line_def)
    from shell_dispatch_runs [OF cs, of cfg u cmds] obtain buf' where
      "shell_dispatch cfg u cmds (?b(?n := NUL)) (uart_write u crlf d) = Some (buf', run_line cfg u cmds (shell_line sh) (uart_write u crlf d))" by blast
    then show ?thesis using 1 len ok(1)
      by (auto simp: shell_char_def edit_def vibe_shell_print_def Let_def line_ok_def shell_line_def)
  next
    case 2
    have "map ?b [0..<?n - 1] = butlast (shell_line sh)" by (cases ?n) (simp_all add: shell_line_def)
    moreover have "set (butlast (shell_line sh)) \<subseteq> set (shell_line sh)" by (auto dest: in_set_butlastD)
    ultimately show ?thesis using 2 len ok
      by (auto simp: shell_char_def edit_def vibe_shell_print_def line_ok_def shell_line_def)
  next
    case 3
    have ne: "c \<noteq> CHR 0x0D" "c \<noteq> CHR 0x0A" "c \<noteq> CHR 0x08" "c \<noteq> NUL" using 3(1) by (auto simp: NUL_def)
    have "map (?b(?n := c)) [0..<?n + 1] = shell_line sh @ [c]" by (simp add: shell_line_def)
    then show ?thesis using 3 ne ok by (auto simp: shell_char_def edit_def line_ok_def shell_line_def Let_def)
  next
    case 4
    then show ?thesis using assms by (auto simp: shell_char_def edit_def shell_line_def)
  qed
qed

theorem shell_char_refines_witness:
  "\<exists>sh' d'. shell_char \<lparr>CONFIG_SHELL_BUF_SIZE = 8, CONFIG_SHELL_MAX_ARGS = 4, CONFIG_SHELL_PROMPT_STR = ''> ''\<rparr>
     \<lparr>uart_write = \<lambda>s d. d @ s, uart_getc = Pair None, console_putc = \<lambda>c d. d @ [c]\<rparr> [] (CHR ''x'')
     (\<lparr>g_shell_uart = None, g_line_buf = \<lambda>_. NUL, g_line_len = 0\<rparr>, []) = Some (sh', d') \<and> (shell_line sh', d') = (''x'', ''x'')"
  using shell_char_refines [of "\<lparr>CONFIG_SHELL_BUF_SIZE = 8, CONFIG_SHELL_MAX_ARGS = 4, CONFIG_SHELL_PROMPT_STR = ''> ''\<rparr>"
     "\<lparr>g_shell_uart = None, g_line_buf = \<lambda>_. NUL, g_line_len = 0\<rparr>" "\<lparr>uart_write = \<lambda>s d. d @ s, uart_getc = Pair None, console_putc = \<lambda>c d. d @ [c]\<rparr>"
     "[]" "CHR ''x''" "[]"]
  by (simp add: line_ok_def shell_line_def edit_def) (elim exE conjE, intro exI conjI)

end
