(* ===== verification/Vibe_Shell_Cmds.thy ===== *)
theory Vibe_Shell_Cmds
  imports Vibe_Shell Vibe_Port Vibe_Heap_Api
begin

text \<open>
  The built-in commands of the shell (\<^verbatim>\<open>subsys/shell/shell.c\<close>) other than \<^verbatim>\<open>help\<close>, over the kernel state, the default heap and the console, and what they report.
\<close>

section \<open>Commands\<close>

text \<open>The buffer of \<^verbatim>\<open>vibe_shell_printf\<close> is not used: the output goes to the console hook.\<close>

definition vibe_shell_printf :: "(char \<Rightarrow> 'd \<Rightarrow> 'd) \<Rightarrow> string \<Rightarrow> va list \<Rightarrow> 'd \<Rightarrow> 'd option" where
  "vibe_shell_printf putc fmt args d = vibe_vprintk putc fmt args d"

definition cmd_thread_list :: "'d console option \<Rightarrow> kstate \<Rightarrow> string list \<Rightarrow> 'd \<Rightarrow> int \<times> 'd" where
  "cmd_thread_list u s argv d =
     (let d = vibe_shell_print u (''Thread list:'' @ crlf) d;
          self = vibe_thread_self s
      in (0, if self \<noteq> None
             then vibe_shell_print u crlf (vibe_shell_print u (vibe_thread_get_name self s) (vibe_shell_print u ''  [current] '' d))
             else d))"

text \<open>\<^verbatim>\<open>heap\<close> is absent without \<^verbatim>\<open>CONFIG_HEAP_MEM\<close>; \<^verbatim>\<open>enabled\<close> is \<^verbatim>\<open>CONFIG_HEAP_STATS\<close>.\<close>

definition cmd_mem_stats ::
    "'d console option \<Rightarrow> (char \<Rightarrow> 'd \<Rightarrow> 'd) \<Rightarrow> bool \<Rightarrow> string list \<Rightarrow> tlsf option \<times> kstate \<times> 'd \<Rightarrow> (int \<times> tlsf option \<times> kstate \<times> 'd) option" where
  "cmd_mem_stats u putc enabled argv w =
     (let (heap, s, d) = w;
          d = vibe_shell_print u (''Memory stats:'' @ crlf) d
      in case heap of
           None \<Rightarrow> Some (0, None, s, vibe_shell_print u (''  heap: disabled'' @ crlf) d)
         | Some h \<Rightarrow> do {
             (hs, h, s) \<leftarrow> tlsf_heap_stats enabled h s;
             d \<leftarrow> vibe_printk putc (''  heap: used=%u free=%u largest=%u allocs=%u'' @ crlf)
               [VA_Word (st_used hs), VA_Word (st_free hs), VA_Word (st_largest_free hs), VA_Word (st_alloc_count hs)] d;
             Some (0, Some h, s, d)
           })"

text \<open>\<^verbatim>\<open>vibe_reboot\<close> does not return: the result is the state in which its loop runs.\<close>

definition vibe_reboot :: "port_state \<Rightarrow> port_state" where
  "vibe_reboot p = arch_reboot p"

definition cmd_reboot :: "'d console option \<Rightarrow> string list \<Rightarrow> port_state \<times> 'd \<Rightarrow> port_state \<times> 'd" where
  "cmd_reboot u argv w = (let (p, d) = w; d = vibe_shell_print u (''Rebooting...'' @ crlf) d in (vibe_reboot p, d))"

definition cmd_uptime :: "(char \<Rightarrow> 'd \<Rightarrow> 'd) \<Rightarrow> kconfig \<Rightarrow> kstate \<Rightarrow> string list \<Rightarrow> 'd \<Rightarrow> (int \<times> 'd) option" where
  "cmd_uptime putc cfg s argv d =
     do { d \<leftarrow> vibe_printk putc (''Uptime: %lu ms'' @ crlf) [VA_Word (vibe_uptime_ms cfg s)] d; Some (0, d) }"

section \<open>Output\<close>

text \<open>The decimal digits that \<^verbatim>\<open>%u\<close> prints.\<close>

definition decimal :: "u32 \<Rightarrow> string" where
  "decimal v = fmt_putuint append_char v 10 []"

lemma decimal:
  "fmt_putuint append_char v 10 s = s @ decimal v" "num_of 10 (decimal v) = unat v"
proof -
  have d: "\<exists>ds. fmt_putuint append_char v 10 s = s @ ds \<and> num_of 10 ds = unat v" for s
    using putuint_num [of v 10 s] u32_less_bases(1) [of v] by auto
  show "num_of 10 (decimal v) = unat v" using d [of "[]"] by (auto simp: decimal_def)
  have puts: "fmt_puts append_char t s = s @ t" for t s by (induction t arbitrary: s) (simp_all add: append_char_def)
  show "fmt_putuint append_char v 10 s = s @ decimal v" by (simp add: decimal_def fmt_putuint_def puts append_char_def)
qed

text \<open>Literal text and numbers print as they stand.\<close>

lemma core_text: "CHR ''%'' \<notin> set t \<Longrightarrow> fmt_core append_char (t @ f) args s = fmt_core append_char f args (s @ t)"
  by (induction t arbitrary: s) (auto simp: append_char_def)

lemma core_number:
  "fmt_core append_char (CHR ''%'' # CHR ''u'' # f) (VA_Word v # args) s = fmt_core append_char f args (s @ decimal v)"
  "fmt_core append_char (CHR ''%'' # CHR ''l'' # CHR ''u'' # f) (VA_Word v # args) s = fmt_core append_char f args (s @ decimal v)"
  by (simp_all add: fmt_conv_def decimal(1))

lemma uptime_reports:
  "\<exists>ds. num_of 10 ds = unat (vibe_uptime_ms cfg s) \<and> cmd_uptime putc cfg s argv d = Some (0, fold putc (''Uptime: '' @ ds @ '' ms'' @ crlf) d)"
proof -
  let ?v = "vibe_uptime_ms cfg s"
  have "fmt_out (''Uptime: '' @ CHR ''%'' # CHR ''l'' # CHR ''u'' # '' ms'' @ crlf) [VA_Word ?v] = Some (''Uptime: '' @ decimal ?v @ '' ms'' @ crlf)"
    unfolding fmt_out_def by (subst core_text, simp, subst core_number(2), subst core_text, simp, simp add: crlf_def append_char_def)
  then show ?thesis using decimal(2) [of ?v] unfolding cmd_uptime_def vibe_printk_def vibe_vprintk_def fmt_core_fold by auto
qed

text \<open>The report of a well-formed heap: the payload bytes of the blocks without the free flag, of those with it, the largest of these, and how many the first are.\<close>

lemma mem_stats_reports:
  assumes "tlsf_rep h B"
  shows "\<exists>ds es fs gs. num_of 10 ds = sum_list (flagged False B) \<and> num_of 10 es = sum_list (flagged True B) \<and>
    num_of 10 fs = Max (set (0 # flagged True B)) \<and> num_of 10 gs = length (flagged False B) \<and>
    cmd_mem_stats None putc True argv (Some h, s, d) =
      Some (0, Some h, s, fold putc (''  heap: used='' @ ds @ '' free='' @ es @ '' largest='' @ fs @ '' allocs='' @ gs @ crlf) d)"
proof -
  from tlsf_stats [OF assms, of s] obtain out where o: "tlsf_heap_stats True h s = Some (out, h, s)" "unat (st_free out) = sum_list (flagged True B)"
    "unat (st_used out) = sum_list (flagged False B)" "unat (st_alloc_count out) = length (flagged False B)"
    "unat (st_largest_free out) = Max (set (0 # flagged True B))" by blast
  let ?a = "[VA_Word (st_used out), VA_Word (st_free out), VA_Word (st_largest_free out), VA_Word (st_alloc_count out)]"
  have "fmt_out (''  heap: used='' @ CHR ''%'' # CHR ''u'' # '' free='' @ CHR ''%'' # CHR ''u'' # '' largest='' @ CHR ''%'' # CHR ''u'' # '' allocs='' @ CHR ''%'' # CHR ''u'' # crlf) ?a =
    Some (''  heap: used='' @ decimal (st_used out) @ '' free='' @ decimal (st_free out) @ '' largest='' @ decimal (st_largest_free out) @ '' allocs='' @ decimal (st_alloc_count out) @ crlf)"
    unfolding fmt_out_def
    by (subst core_text, simp, subst core_number(1), subst core_text, simp, subst core_number(1), subst core_text, simp, subst core_number(1), subst core_text, simp, subst core_number(1))
      (simp add: crlf_def append_char_def)
  then have "cmd_mem_stats None putc True argv (Some h, s, d) = Some (0, Some h, s, fold putc (''  heap: used='' @ decimal (st_used out) @ '' free='' @ decimal (st_free out) @
      '' largest='' @ decimal (st_largest_free out) @ '' allocs='' @ decimal (st_alloc_count out) @ crlf) d)"
    by (simp add: cmd_mem_stats_def o(1) vibe_shell_print_def vibe_printk_def vibe_vprintk_def fmt_core_fold)
  then show ?thesis using o(2-5) decimal(2) by (intro exI conjI) simp_all
qed

lemma thread_list_names_current:
  "vibe_thread_self s = Some t \<Longrightarrow> cmd_thread_list (Some u) s argv d =
    (0, uart_write u crlf (uart_write u (vibe_thread_get_name (Some t) s) (uart_write u ''  [current] '' (uart_write u (''Thread list:'' @ crlf) d))))"
  by (simp add: cmd_thread_list_def vibe_shell_print_def)

end
