(* ===== verification/Vibe_Drivers.thy ===== *)
theory Vibe_Drivers
  imports Vibe_Shell_Cmds
begin

text \<open>
  The drivers with a state or a loop of their own (\<^verbatim>\<open>drivers/gpio/gpio.c\<close>, \<^verbatim>\<open>drivers/uart/uart.c\<close>), as the repository ships them: the register accesses are left to the port, so what remains is
  argument checking, the callback table and the buffer loops. And the board support of the emulated board (\<^verbatim>\<open>soc/arm/arm/mps2_an386/soc.c\<close>), whose console is complete.
\<close>

section \<open>GPIO\<close>

definition GPIO_MAX_PINS :: u32 where "GPIO_MAX_PINS = 32"

record gpio_pin_ctx_t =
  gp_cb :: u32
  gp_arg :: u32

type_synonym gpio_data_t = "nat \<Rightarrow> gpio_pin_ctx_t"

definition gpio_configure :: "(char \<Rightarrow> 'd \<Rightarrow> 'd) \<Rightarrow> u32 \<Rightarrow> u32 \<Rightarrow> u32 \<Rightarrow> 'd \<Rightarrow> (vibe_err_t \<times> 'd) option" where
  "gpio_configure putc pin dir pull d =
     (if pin \<ge> GPIO_MAX_PINS then Some (VIBE_EINVAL, d)
      else do {
        d \<leftarrow> vibe_printk putc (''[gpio] configure pin %u dir=%d pull=%d'' @ [CHR 0x0A]) [VA_Word pin, VA_Word dir, VA_Word pull] d;
        Some (VIBE_OK, d)
      })"

definition gpio_read :: "u32 \<Rightarrow> int" where
  "gpio_read pin = (if pin \<ge> GPIO_MAX_PINS then - 1 else 0)"

definition gpio_write :: "u32 \<Rightarrow> int \<Rightarrow> vibe_err_t" where
  "gpio_write pin val = (if pin \<ge> GPIO_MAX_PINS then VIBE_EINVAL else VIBE_OK)"

definition gpio_toggle :: "u32 \<Rightarrow> vibe_err_t" where
  "gpio_toggle pin = (if pin \<ge> GPIO_MAX_PINS then VIBE_EINVAL else VIBE_OK)"

text \<open>The interrupt mode is for the hardware, which the stub leaves to the port.\<close>

definition gpio_irq_configure :: "u32 \<Rightarrow> u32 \<Rightarrow> u32 \<Rightarrow> u32 \<Rightarrow> gpio_data_t \<Rightarrow> vibe_err_t \<times> gpio_data_t" where
  "gpio_irq_configure pin mode cb arg data =
     (if pin \<ge> GPIO_MAX_PINS then (VIBE_EINVAL, data) else (VIBE_OK, data(unat pin := \<lparr>gp_cb = cb, gp_arg = arg\<rparr>)))"

text \<open>A callback is stored for its pin and for no other, and never outside the table.\<close>

lemma gpio_irq_configure_exact:
  "gpio_irq_configure pin mode cb arg data = (e, data') \<Longrightarrow>
    (e = VIBE_OK \<longleftrightarrow> unat pin < 32) \<and> (\<forall>i. data' i = (if e = VIBE_OK \<and> i = unat pin then \<lparr>gp_cb = cb, gp_arg = arg\<rparr> else data i))"
  by (auto simp: gpio_irq_configure_def GPIO_MAX_PINS_def word_le_nat_alt split: if_splits)

section \<open>UART\<close>

text \<open>Transmission and reception of a byte are stubs: the first accepts and drops every byte, the second never has one.\<close>

definition uart_tx_byte :: "u8 \<Rightarrow> vibe_err_t" where
  "uart_tx_byte c = VIBE_OK"

definition uart_rx_byte :: "vibe_err_t \<times> u8 option" where
  "uart_rx_byte = (VIBE_EAGAIN, None)"

text \<open>The loop ignores what each transmission returns; the length comes back as an \<^verbatim>\<open>int\<close>.\<close>

definition uart_tx_buf :: "u8 list \<Rightarrow> u32 \<Rightarrow> int" where
  "uart_tx_buf buf len = (let _ = map uart_tx_byte (take (unat len) buf) in sint len)"

partial_function (option) uart_rx_loop :: "u32 \<Rightarrow> u32 \<Rightarrow> u8 list \<Rightarrow> (u32 \<times> u8 list) option" where
  "uart_rx_loop len n buf =
     (if n < len then
        (case uart_rx_byte of
           (VIBE_OK, c) \<Rightarrow> uart_rx_loop len (n + 1) (case c of Some c \<Rightarrow> buf[unat n := c] | None \<Rightarrow> buf)
         | _ \<Rightarrow> Some (n, buf))
      else Some (n, buf))"

definition uart_rx_buf :: "u32 \<Rightarrow> u8 list \<Rightarrow> (int \<times> u8 list) option" where
  "uart_rx_buf len buf = do { (n, buf) \<leftarrow> uart_rx_loop len 0 buf; Some (sint n, buf) }"

definition uart_configure :: "(char \<Rightarrow> 'd \<Rightarrow> 'd) \<Rightarrow> u32 \<Rightarrow> 'd \<Rightarrow> (vibe_err_t \<times> 'd) option" where
  "uart_configure putc baud d =
     do { d \<leftarrow> vibe_printk putc (''[uart] configure baud=%u'' @ [CHR 0x0A]) [VA_Word baud] d; Some (VIBE_OK, d) }"

definition uart_init :: "(char \<Rightarrow> 'd \<Rightarrow> 'd) \<Rightarrow> 'd \<Rightarrow> (vibe_err_t \<times> 'd) option" where
  "uart_init putc d = uart_configure putc 115200 d"

text \<open>The UART as the shell sees it.\<close>

definition uart0_console :: "(char \<Rightarrow> 'd \<Rightarrow> 'd) \<Rightarrow> 'd console" where
  "uart0_console putc = 
     \<lparr>uart_write = \<lambda>s d. (let _ = uart_tx_buf (map of_char s) (of_nat (length s)) in d),
      uart_getc = \<lambda>d. (case uart_rx_byte of (VIBE_OK, c) \<Rightarrow> (map_option (\<lambda>b. char_of (unat b)) c, d) | _ \<Rightarrow> (None, d)),
      console_putc = putc\<rparr>"

lemma uart_rx_nothing: "uart_rx_buf len buf = Some (0, buf)"
  by (simp add: uart_rx_buf_def uart_rx_loop.simps uart_rx_byte_def)

text \<open>Over the driver as shipped the shell is silent: a round reads no character and changes nothing.\<close>

lemma shell_idle_on_stub:
  "g_shell_uart sh = Some (uart0_console putc) \<Longrightarrow> vibe_shell_process cfg cmds (sh, d) = Some (sh, d)"
  by (simp add: vibe_shell_process_def shell_loop.simps uart0_console_def uart_rx_byte_def)

section \<open>The emulated board\<close>

definition MPS2_SYSCLK_HZ :: u32 where "MPS2_SYSCLK_HZ = 25000000"

definition CMSDK_UART_STATE_TXFULL :: u32 where "CMSDK_UART_STATE_TXFULL = 1"

text \<open>The console UART: the bytes written to \<^verbatim>\<open>DATA\<close>, in order, and the rest of the hardware, which answers reads of \<^verbatim>\<open>STATE\<close>.\<close>

record 'h cmsdk_uart_t =
  cu_data :: "u8 list"
  cu_ctrl :: u32
  cu_bauddiv :: u32
  cu_hw :: 'h

definition uart0_init :: "'h cmsdk_uart_t \<Rightarrow> 'h cmsdk_uart_t" where
  "uart0_init u = u\<lparr>cu_bauddiv := MPS2_SYSCLK_HZ div 115200, cu_ctrl := BIT 0 OR BIT 1\<rparr>"

partial_function (option) tx_wait :: "('h \<Rightarrow> u32 \<times> 'h) \<Rightarrow> 'h cmsdk_uart_t \<Rightarrow> 'h cmsdk_uart_t option" where
  "tx_wait read_state u =
     (let (st, hw) = read_state (cu_hw u); u = u\<lparr>cu_hw := hw\<rparr>
      in if st AND CMSDK_UART_STATE_TXFULL \<noteq> 0 then tx_wait read_state u else Some u)"

definition vibe_console_putc :: "('h \<Rightarrow> u32 \<times> 'h) \<Rightarrow> char \<Rightarrow> 'h cmsdk_uart_t \<Rightarrow> 'h cmsdk_uart_t option" where
  "vibe_console_putc read_state c u = do { u \<leftarrow> tx_wait read_state u; Some (u\<lparr>cu_data := cu_data u @ [of_char c]\<rparr>) }"

definition SystemInit :: "port_state \<times> 'h cmsdk_uart_t \<Rightarrow> port_state \<times> 'h cmsdk_uart_t" where
  "SystemInit w = (let (p, u) = w in (arch_set_core_clock MPS2_SYSCLK_HZ p, uart0_init u))"

text \<open>The operation and the reason that \<^verbatim>\<open>vibe_emu_exit\<close> passes to the debugger.\<close>

definition emu_exit_call :: "int \<Rightarrow> u32 \<times> u32" where
  "emu_exit_call code = (0x18, if code = 0 then 0x20026 else 0x20024)"

text \<open>Hardware that makes room: in every state, some number of reads from now \<^verbatim>\<open>STATE\<close> says so.\<close>

definition drains :: "('h \<Rightarrow> u32 \<times> 'h) \<Rightarrow> bool" where
  "drains read_state \<longleftrightarrow> (\<forall>hw. \<exists>n. fst (read_state (((snd \<circ> read_state) ^^ n) hw)) AND CMSDK_UART_STATE_TXFULL = 0)"

lemma tx_wait_returns:
  assumes "fst (read_state (((snd \<circ> read_state) ^^ n) (cu_hw u))) AND CMSDK_UART_STATE_TXFULL = 0"
  shows "\<exists>hw. tx_wait read_state u = Some (u\<lparr>cu_hw := hw\<rparr>)"
  using assms
proof (induction n arbitrary: u)
  case 0
  then show ?case by (subst tx_wait.simps) (auto simp: case_prod_beta)
next
  case (Suc n)
  show ?case
  proof (cases "fst (read_state (cu_hw u)) AND CMSDK_UART_STATE_TXFULL = 0")
    case True
    then show ?thesis by (subst tx_wait.simps) (auto simp: case_prod_beta)
  next
    case False
    have "fst (read_state (((snd \<circ> read_state) ^^ n) (cu_hw (u\<lparr>cu_hw := snd (read_state (cu_hw u))\<rparr>)))) AND CMSDK_UART_STATE_TXFULL = 0"
      using Suc.prems by (simp add: funpow_Suc_right comp_def del: funpow.simps)
    from Suc.IH [OF this] False show ?thesis by (subst tx_wait.simps) (auto simp: case_prod_beta)
  qed
qed

primrec console_puts :: "('h \<Rightarrow> u32 \<times> 'h) \<Rightarrow> string \<Rightarrow> 'h cmsdk_uart_t \<Rightarrow> 'h cmsdk_uart_t option" where
  "console_puts read_state [] u = Some u"
| "console_puts read_state (c # cs) u = do { u \<leftarrow> vibe_console_putc read_state c u; console_puts read_state cs u }"

text \<open>On such hardware everything printed reaches the data register, in order and without a gap.\<close>

lemma console_in_order:
  assumes "drains read_state"
  shows "\<exists>u'. console_puts read_state cs u = Some u' \<and> cu_data u' = cu_data u @ map of_char cs"
proof (induction cs arbitrary: u)
  case (Cons c cs)
  obtain n where "fst (read_state (((snd \<circ> read_state) ^^ n) (cu_hw u))) AND CMSDK_UART_STATE_TXFULL = 0" using assms by (auto simp: drains_def)
  from tx_wait_returns [of read_state n u, OF this] obtain hw where w: "tx_wait read_state u = Some (u\<lparr>cu_hw := hw\<rparr>)" by blast
  from Cons.IH [of "u\<lparr>cu_hw := hw, cu_data := cu_data u @ [of_char c]\<rparr>"] show ?case by (auto simp: vibe_console_putc_def w)
qed simp

text \<open>The divider is in the range the UART needs, and the tick of 1 kHz is exact.\<close>

lemma SystemInit_clock:
  "unat (cu_bauddiv (snd (SystemInit w))) = 217" "\<exists>p. arch_systick_init 1000 (fst (SystemInit w)) = Some p \<and> SYSTICK_LOAD p = 24999"
  by (simp_all add: SystemInit_def uart0_init_def MPS2_SYSCLK_HZ_def unat_div arch_systick_init_def arch_set_core_clock_def case_prod_beta Let_def)

end
