(* ===== verification/Vibe_Coredump.thy ===== *)
theory Vibe_Coredump
  imports Vibe_Printk
begin

text \<open>
  The crash record (\<^verbatim>\<open>subsys/coredump\<close>, \<^verbatim>\<open>include/vibe/coredump.h\<close>): its checksum and validation, the capture that the
  fault entries and the assertion and stack-overflow paths run, and the report. The record lies in memory that survives a reset, so its
  contents before a capture are arbitrary; a capture is the sequence of its stores to the record, each of which the power may cut off.
  A character array is the list of its characters. A function that only prints is the list of its \<^verbatim>\<open>vibe_printk\<close> calls. The address of a TCB is an
  argument (\<open>addr_of\<close>).
\<close>

section \<open>The record\<close>

definition VIBE_COREDUMP_MAGIC :: u32 where "VIBE_COREDUMP_MAGIC = 0xDEADC0DE"

definition VIBE_COREDUMP_VERSION :: u32 where "VIBE_COREDUMP_VERSION = 1"

definition VIBE_COREDUMP_REASON_HARD_FAULT :: u32 where "VIBE_COREDUMP_REASON_HARD_FAULT = 1"

definition VIBE_COREDUMP_REASON_MEM_FAULT :: u32 where "VIBE_COREDUMP_REASON_MEM_FAULT = 2"

definition VIBE_COREDUMP_REASON_BUS_FAULT :: u32 where "VIBE_COREDUMP_REASON_BUS_FAULT = 4"

definition VIBE_COREDUMP_REASON_USAGE_FAULT :: u32 where "VIBE_COREDUMP_REASON_USAGE_FAULT = 8"

definition VIBE_COREDUMP_REASON_STACK_OVERFLOW :: u32 where "VIBE_COREDUMP_REASON_STACK_OVERFLOW = 16"

definition VIBE_COREDUMP_REASON_ASSERT :: u32 where "VIBE_COREDUMP_REASON_ASSERT = 32"

definition VIBE_COREDUMP_REASON_WATCHDOG :: u32 where "VIBE_COREDUMP_REASON_WATCHDOG = 64"

record vibe_coredump_regs_t =
  rg_r0 :: u32
  rg_r1 :: u32
  rg_r2 :: u32
  rg_r3 :: u32
  rg_r12 :: u32
  rg_lr :: u32
  rg_pc :: u32
  rg_xpsr :: u32
  rg_r4 :: u32
  rg_r5 :: u32
  rg_r6 :: u32
  rg_r7 :: u32
  rg_r8 :: u32
  rg_r9 :: u32
  rg_r10 :: u32
  rg_r11 :: u32
  rg_psp :: u32
  rg_msp :: u32
  rg_primask :: u32
  rg_control :: u32

record vibe_coredump_fault_regs_t =
  fr_cfsr :: u32
  fr_hfsr :: u32
  fr_dfsr :: u32
  fr_mmfar :: u32
  fr_bfar :: u32
  fr_afsr :: u32

record vibe_coredump_stack_t =
  st_sp :: u32
  st_captured :: u32
  st_data :: "u8 list"

record vibe_coredump_assert_t =
  as_file :: string
  as_line :: u32
  as_expr :: string

record vibe_coredump_t =
  cd_magic :: u32
  cd_version :: u32
  cd_reason :: u32
  cd_timestamp :: u32
  cd_thread_name :: string
  cd_thread_id :: u32
  cd_regs :: vibe_coredump_regs_t
  cd_fault_regs :: vibe_coredump_fault_regs_t
  cd_stack :: vibe_coredump_stack_t
  cd_assert_info :: vibe_coredump_assert_t
  cd_crc32 :: u32

section \<open>The checksum\<close>

definition crc_bit :: "u32 \<Rightarrow> u32" where
  "crc_bit crc = drop_bit 1 crc XOR (0xEDB88320 AND - (crc AND 1))"

definition crc_byte :: "u8 \<Rightarrow> u32 \<Rightarrow> u32" where
  "crc_byte b crc = (crc_bit ^^ 8) (crc XOR ucast b)"

definition crc32_update :: "u32 \<Rightarrow> u8 list \<Rightarrow> u32" where
  "crc32_update crc data = NOT (fold crc_byte data (NOT crc))"

text \<open>
  The bytes of the record in memory: little-endian words, no padding (\<^verbatim>\<open>CONFIG_COREDUMP_STACK_SIZE\<close> is a multiple of 4).
\<close>

definition le32 :: "u32 \<Rightarrow> u8 list" where
  "le32 w = [ucast w, ucast (drop_bit 8 w), ucast (drop_bit 16 w), ucast (drop_bit 24 w)]"

definition char_bytes :: "string \<Rightarrow> u8 list" where
  "char_bytes s = map (\<lambda>c. of_nat (of_char c)) s"

definition regs_bytes :: "vibe_coredump_regs_t \<Rightarrow> u8 list" where
  "regs_bytes r = concat (map le32
     [rg_r0 r, rg_r1 r, rg_r2 r, rg_r3 r, rg_r12 r, rg_lr r, rg_pc r, rg_xpsr r, rg_r4 r, rg_r5 r, rg_r6 r, rg_r7 r,
      rg_r8 r, rg_r9 r, rg_r10 r, rg_r11 r, rg_psp r, rg_msp r, rg_primask r, rg_control r])"

definition fault_bytes :: "vibe_coredump_fault_regs_t \<Rightarrow> u8 list" where
  "fault_bytes f = concat (map le32 [fr_cfsr f, fr_hfsr f, fr_dfsr f, fr_mmfar f, fr_bfar f, fr_afsr f])"

definition coredump_bytes :: "vibe_coredump_t \<Rightarrow> u8 list" where
  "coredump_bytes cd =
     le32 (cd_magic cd) @ le32 (cd_version cd) @ le32 (cd_reason cd) @ le32 (cd_timestamp cd) @
     char_bytes (cd_thread_name cd) @ le32 (cd_thread_id cd) @ regs_bytes (cd_regs cd) @ fault_bytes (cd_fault_regs cd) @
     le32 (st_sp (cd_stack cd)) @ le32 (st_captured (cd_stack cd)) @ st_data (cd_stack cd) @
     char_bytes (as_file (cd_assert_info cd)) @ le32 (as_line (cd_assert_info cd)) @ char_bytes (as_expr (cd_assert_info cd))"

definition coredump_crc :: "vibe_coredump_t \<Rightarrow> u32" where
  "coredump_crc cd = crc32_update 0 (coredump_bytes cd)"

definition vibe_coredump_is_valid :: "vibe_coredump_t \<Rightarrow> bool" where
  "vibe_coredump_is_valid cd \<longleftrightarrow>
     (if cd_magic cd \<noteq> VIBE_COREDUMP_MAGIC then False
      else if cd_version cd \<noteq> VIBE_COREDUMP_VERSION then False
      else cd_crc32 cd = coredump_crc cd)"

definition vibe_coredump_clear :: "vibe_coredump_t \<Rightarrow> vibe_coredump_t" where
  "vibe_coredump_clear cd = cd\<lparr>cd_magic := 0, cd_crc32 := 0\<rparr>"

definition vibe_coredump_get :: "vibe_coredump_t \<Rightarrow> vibe_coredump_t option" where
  "vibe_coredump_get cd = (if vibe_coredump_is_valid cd then Some cd else None)"

section \<open>Printing\<close>

type_synonym printk_call = "string \<times> va list"

primrec printks :: "(char \<Rightarrow> 'd \<Rightarrow> 'd) \<Rightarrow> printk_call list \<Rightarrow> 'd \<Rightarrow> 'd option" where
  "printks putc [] d = Some d"
| "printks putc (c # cs) d = do { d \<leftarrow> vibe_printk putc (fst c) (snd c) d; printks putc cs d }"

definition nl :: string where "nl = [CHR 0x0A]"

definition emdash :: string where "emdash = [CHR 0xE2, CHR 0x80, CHR 0x94]"

definition qt :: string where "qt = [CHR 0x27]"

text \<open>The C string in a character array.\<close>

definition c_str :: "string \<Rightarrow> string" where
  "c_str a = takeWhile (\<lambda>c. c \<noteq> CHR 0x00) a"

definition vibe_coredump_init :: "(char \<Rightarrow> 'd \<Rightarrow> 'd) \<Rightarrow> vibe_coredump_t \<Rightarrow> 'd \<Rightarrow> 'd option" where
  "vibe_coredump_init putc cd d =
     (if vibe_coredump_is_valid cd then
        printks putc
          [(nl @ ''[coredump] *** CRASH DETECTED from previous boot ***'' @ nl, []),
           (''[coredump]     reason=0x%08x  thread='' @ qt @ ''%s'' @ qt @ ''  tick=%u'' @ nl,
              [VA_Word (cd_reason cd), VA_Str (Some (c_str (cd_thread_name cd))), VA_Word (cd_timestamp cd)]),
           (''[coredump]     PC=0x%08x  LR=0x%08x'' @ nl, [VA_Word (rg_pc (cd_regs cd)), VA_Word (rg_lr (cd_regs cd))]),
           (''[coredump]     Run '' @ qt @ ''coredump'' @ qt @ '' shell command for full report.'' @ nl @ nl, [])] d
      else Some d)"

definition reason_str :: "u32 \<Rightarrow> string" where
  "reason_str reason =
     (if reason AND VIBE_COREDUMP_REASON_HARD_FAULT \<noteq> 0 then ''HardFault''
      else if reason AND VIBE_COREDUMP_REASON_MEM_FAULT \<noteq> 0 then ''MemManageFault''
      else if reason AND VIBE_COREDUMP_REASON_BUS_FAULT \<noteq> 0 then ''BusFault''
      else if reason AND VIBE_COREDUMP_REASON_USAGE_FAULT \<noteq> 0 then ''UsageFault''
      else if reason AND VIBE_COREDUMP_REASON_STACK_OVERFLOW \<noteq> 0 then ''StackOverflow''
      else if reason AND VIBE_COREDUMP_REASON_ASSERT \<noteq> 0 then ''AssertFailed''
      else if reason AND VIBE_COREDUMP_REASON_WATCHDOG \<noteq> 0 then ''Watchdog''
      else ''Unknown'')"

text \<open>One line per bit that is set.\<close>

definition bit_lines :: "u32 \<Rightarrow> (nat \<times> string) list \<Rightarrow> printk_call list" where
  "bit_lines w tab = map (\<lambda>e. (snd e, [])) (filter (\<lambda>e. w AND push_bit (fst e) 1 \<noteq> 0) tab)"

definition decode_cfsr :: "u32 \<Rightarrow> printk_call list" where
  "decode_cfsr cfsr =
     [(''  CFSR = 0x%08x'' @ nl, [VA_Word cfsr])] @
     (if cfsr AND 0xFF \<noteq> 0 then
        (''    [MMFSR]'' @ nl, []) # bit_lines cfsr
          [(0, ''      IACCVIOL  '' @ emdash @ '' instruction access violation'' @ nl),
           (1, ''      DACCVIOL  '' @ emdash @ '' data access violation'' @ nl),
           (3, ''      MUNSTKERR '' @ emdash @ '' fault on exception unstacking'' @ nl),
           (4, ''      MSTKERR   '' @ emdash @ '' fault on exception stacking'' @ nl),
           (5, ''      MLSPERR   '' @ emdash @ '' lazy FP state preserve fault'' @ nl),
           (7, ''      MMARVALID '' @ emdash @ '' MMFAR holds valid address'' @ nl)]
      else []) @
     (if cfsr AND 0xFF00 \<noteq> 0 then
        (''    [BFSR]'' @ nl, []) # bit_lines cfsr
          [(8, ''      IBUSERR    '' @ emdash @ '' instruction bus error'' @ nl),
           (9, ''      PRECISERR  '' @ emdash @ '' precise data bus error'' @ nl),
           (10, ''      IMPRECISERR'' @ emdash @ '' imprecise data bus error'' @ nl),
           (11, ''      UNSTKERR   '' @ emdash @ '' fault on exception unstacking'' @ nl),
           (12, ''      STKERR     '' @ emdash @ '' fault on exception stacking'' @ nl),
           (13, ''      LSPERR     '' @ emdash @ '' lazy FP state preserve fault'' @ nl),
           (15, ''      BFARVALID  '' @ emdash @ '' BFAR holds valid address'' @ nl)]
      else []) @
     (if cfsr AND 0xFFFF0000 \<noteq> 0 then
        (''    [UFSR]'' @ nl, []) # bit_lines cfsr
          [(16, ''      UNDEFINSTR '' @ emdash @ '' undefined instruction'' @ nl),
           (17, ''      INVSTATE   '' @ emdash @ '' invalid EPSR state (bad thumb bit?)'' @ nl),
           (18, ''      INVPC      '' @ emdash @ '' invalid PC load (bad EXC_RETURN?)'' @ nl),
           (19, ''      NOCP       '' @ emdash @ '' no coprocessor'' @ nl),
           (24, ''      UNALIGNED  '' @ emdash @ '' unaligned memory access'' @ nl),
           (25, ''      DIVBYZERO  '' @ emdash @ '' divide by zero'' @ nl)]
      else [])"

definition decode_hfsr :: "u32 \<Rightarrow> printk_call list" where
  "decode_hfsr hfsr =
     (''  HFSR = 0x%08x'' @ nl, [VA_Word hfsr]) # bit_lines hfsr
       [(1, ''    VECTTBL   '' @ emdash @ '' fault on vector table read'' @ nl),
        (30, ''    FORCED    '' @ emdash @ '' escalated from configurable fault'' @ nl),
        (31, ''    DEBUGEVT  '' @ emdash @ '' debug event (DFSR valid)'' @ nl)]"

text \<open>
  The hex dump, line by line: \<open>i\<close> is a 32-bit index that advances by 16. A byte that is not in the array cannot be read (\<^term>\<open>None\<close>), and the
  loop does not end when \<open>i\<close> wraps before it reaches \<open>n\<close>.
\<close>

definition stack_byte :: "vibe_coredump_stack_t \<Rightarrow> u32 \<Rightarrow> u8 option" where
  "stack_byte st k = (if unat k < length (st_data st) then Some (st_data st ! unat k) else None)"

definition hex_cell :: "vibe_coredump_stack_t \<Rightarrow> u32 \<Rightarrow> u32 \<Rightarrow> nat \<Rightarrow> printk_call list option" where
  "hex_cell st n i j =
     do {
       cell \<leftarrow> (if i + of_nat j < n
               then do { b \<leftarrow> stack_byte st (i + of_nat j); Some (''%02x '', [VA_Word (ucast b)]) }
               else Some (''   '', []));
       Some (cell # (if j = 7 then [('' '', [])] else []))
     }"

definition ascii_cell :: "vibe_coredump_stack_t \<Rightarrow> u32 \<Rightarrow> u32 \<Rightarrow> nat \<Rightarrow> printk_call list option" where
  "ascii_cell st n i j =
     (if i + of_nat j < n then
        do { c \<leftarrow> stack_byte st (i + of_nat j);
             Some [(''%c'', [VA_Word (if c \<ge> 0x20 \<and> c < 0x7F then ucast c else 46)])] }
      else Some [])"

primrec cells :: "(nat \<Rightarrow> printk_call list option) \<Rightarrow> nat list \<Rightarrow> printk_call list option" where
  "cells f [] = Some []"
| "cells f (j # js) = do { c \<leftarrow> f j; cs \<leftarrow> cells f js; Some (c @ cs) }"

partial_function (option) dump_lines :: "vibe_coredump_stack_t \<Rightarrow> u32 \<Rightarrow> u32 \<Rightarrow> printk_call list option" where
  "dump_lines st n i =
     (if i < n then do {
        hex \<leftarrow> cells (hex_cell st n i) [0..<16];
        asc \<leftarrow> cells (ascii_cell st n i) (takeWhile (\<lambda>j. i + of_nat j < n) [0..<16]);
        rest \<leftarrow> dump_lines st n (i + 16);
        Some ([(''  %08x: '', [VA_Word (st_sp st + i)])] @ hex @ [('' |'', [])] @ asc @ [(''|'' @ nl, [])] @ rest)
      } else Some [])"

definition dump_stack :: "vibe_coredump_stack_t \<Rightarrow> printk_call list option" where
  "dump_stack st =
     do { ls \<leftarrow> dump_lines st (st_captured st) 0;
          Some ((''  Stack at SP=0x%08x  (%u bytes captured)'' @ nl, [VA_Word (st_sp st), VA_Word (st_captured st)]) # ls) }"

definition rule_line :: string where
  "rule_line = replicate 40 (CHR ''='') @ nl"

definition report_header :: "vibe_coredump_t \<Rightarrow> printk_call list" where
  "report_header cd =
     [(nl, []), (rule_line, []), (''         VibeRTOS Crash Report          '' @ nl, []), (rule_line, []),
      (''Reason   : %s (0x%08x)'' @ nl, [VA_Str (Some (reason_str (cd_reason cd))), VA_Word (cd_reason cd)]),
      (''Timestamp: %u ticks'' @ nl, [VA_Word (cd_timestamp cd)]),
      (''Thread   : '' @ qt @ ''%s'' @ qt @ '' (id=%u)'' @ nl,
         [VA_Str (Some (c_str (cd_thread_name cd))), VA_Word (cd_thread_id cd)])] @
     (if cd_reason cd AND VIBE_COREDUMP_REASON_ASSERT \<noteq> 0 then
        [(''Assert   : %s:%u '' @ emdash @ '' %s'' @ nl,
          [VA_Str (Some (c_str (as_file (cd_assert_info cd)))), VA_Word (as_line (cd_assert_info cd)),
           VA_Str (Some (c_str (as_expr (cd_assert_info cd))))])]
      else [])"

definition report_regs :: "vibe_coredump_regs_t \<Rightarrow> printk_call list" where
  "report_regs r =
     [(nl @ ''--- CPU Registers ---'' @ nl, []),
      (''  PC  = 0x%08x   LR  = 0x%08x'' @ nl, [VA_Word (rg_pc r), VA_Word (rg_lr r)]),
      (''  SP  = 0x%08x   PSP = 0x%08x   MSP = 0x%08x'' @ nl, [VA_Word (rg_psp r), VA_Word (rg_psp r), VA_Word (rg_msp r)]),
      (''  xPSR= 0x%08x   PRIMASK=0x%x  CONTROL=0x%x'' @ nl, [VA_Word (rg_xpsr r), VA_Word (rg_primask r), VA_Word (rg_control r)]),
      (''  R0  = 0x%08x   R1  = 0x%08x'' @ nl, [VA_Word (rg_r0 r), VA_Word (rg_r1 r)]),
      (''  R2  = 0x%08x   R3  = 0x%08x'' @ nl, [VA_Word (rg_r2 r), VA_Word (rg_r3 r)]),
      (''  R4  = 0x%08x   R5  = 0x%08x'' @ nl, [VA_Word (rg_r4 r), VA_Word (rg_r5 r)]),
      (''  R6  = 0x%08x   R7  = 0x%08x'' @ nl, [VA_Word (rg_r6 r), VA_Word (rg_r7 r)]),
      (''  R8  = 0x%08x   R9  = 0x%08x'' @ nl, [VA_Word (rg_r8 r), VA_Word (rg_r9 r)]),
      (''  R10 = 0x%08x   R11 = 0x%08x   R12 = 0x%08x'' @ nl, [VA_Word (rg_r10 r), VA_Word (rg_r11 r), VA_Word (rg_r12 r)])]"

definition report_faults :: "vibe_coredump_fault_regs_t \<Rightarrow> printk_call list" where
  "report_faults f =
     [(nl @ ''--- Fault Status Registers ---'' @ nl, [])] @ decode_cfsr (fr_cfsr f) @ decode_hfsr (fr_hfsr f) @
     (if fr_cfsr f AND push_bit 7 1 \<noteq> 0
      then [(''  MMFAR = 0x%08x  (MemManage fault address)'' @ nl, [VA_Word (fr_mmfar f)])] else []) @
     (if fr_cfsr f AND push_bit 15 1 \<noteq> 0
      then [(''  BFAR  = 0x%08x  (BusFault address)'' @ nl, [VA_Word (fr_bfar f)])] else [])"

definition vibe_coredump_dump :: "(char \<Rightarrow> 'd \<Rightarrow> 'd) \<Rightarrow> vibe_coredump_t \<Rightarrow> 'd \<Rightarrow> 'd option" where
  "vibe_coredump_dump putc cd d =
     (if \<not> vibe_coredump_is_valid cd then printks putc [(''[coredump] No valid coredump found.'' @ nl, [])] d
      else do {
        snapshot \<leftarrow> dump_stack (cd_stack cd);
        printks putc (report_header cd @ report_regs (cd_regs cd) @ report_faults (cd_fault_regs cd) @
          [(nl @ ''--- Stack Snapshot ---'' @ nl, [])] @ snapshot @ [(rule_line @ nl, [])]) d
      })"

section \<open>Capture\<close>

text \<open>The fault status registers of the system control block, and the CPU's \<^verbatim>\<open>CONTROL\<close>.\<close>

record fault_state =
  SCB_CFSR :: u32
  SCB_HFSR :: u32
  SCB_DFSR :: u32
  SCB_MMFAR :: u32
  SCB_BFAR :: u32
  SCB_AFSR :: u32
  CONTROL :: u32

definition strncpy :: "string \<Rightarrow> string \<Rightarrow> nat \<Rightarrow> string" where
  "strncpy dst src n = take n src @ replicate (n - length src) (CHR 0x00) @ drop n dst"

definition byte_at :: "kstate \<Rightarrow> u32 \<Rightarrow> u8" where
  "byte_at s a = ucast (drop_bit (8 * unat (a AND 3)) (mem32 s (a AND NOT 3)))"

abbreviation upd_regs :: "(vibe_coredump_regs_t \<Rightarrow> vibe_coredump_regs_t) \<Rightarrow> vibe_coredump_t \<Rightarrow> vibe_coredump_t" where
  "upd_regs f cd \<equiv> cd\<lparr>cd_regs := f (cd_regs cd)\<rparr>"

abbreviation upd_faults :: "(vibe_coredump_fault_regs_t \<Rightarrow> vibe_coredump_fault_regs_t) \<Rightarrow> vibe_coredump_t \<Rightarrow> vibe_coredump_t" where
  "upd_faults f cd \<equiv> cd\<lparr>cd_fault_regs := f (cd_fault_regs cd)\<rparr>"

abbreviation upd_stack :: "(vibe_coredump_stack_t \<Rightarrow> vibe_coredump_stack_t) \<Rightarrow> vibe_coredump_t \<Rightarrow> vibe_coredump_t" where
  "upd_stack f cd \<equiv> cd\<lparr>cd_stack := f (cd_stack cd)\<rparr>"

abbreviation upd_assert :: "(vibe_coredump_assert_t \<Rightarrow> vibe_coredump_assert_t) \<Rightarrow> vibe_coredump_t \<Rightarrow> vibe_coredump_t" where
  "upd_assert f cd \<equiv> cd\<lparr>cd_assert_info := f (cd_assert_info cd)\<rparr>"

text \<open>The stores to the record, in program order. A \<^verbatim>\<open>NULL\<close> frame is the address 0.\<close>

definition thread_stores :: "(tid \<Rightarrow> u32) \<Rightarrow> kstate \<Rightarrow> (vibe_coredump_t \<Rightarrow> vibe_coredump_t) list" where
  "thread_stores addr_of s =
     (case vibe_thread_self s of
        Some t \<Rightarrow>
          if th_name (g_tcb s t) \<noteq> [] then
            [\<lambda>cd. cd\<lparr>cd_thread_name := strncpy (cd_thread_name cd) (th_name (g_tcb s t)) 31\<rparr>,
             \<lambda>cd. cd\<lparr>cd_thread_name := (cd_thread_name cd)[31 := CHR 0x00]\<rparr>,
             \<lambda>cd. cd\<lparr>cd_thread_id := addr_of t\<rparr>]
          else [\<lambda>cd. cd\<lparr>cd_thread_name := strncpy (cd_thread_name cd) ''<none>'' 31\<rparr>, \<lambda>cd. cd\<lparr>cd_thread_id := 0\<rparr>]
      | None \<Rightarrow> [\<lambda>cd. cd\<lparr>cd_thread_name := strncpy (cd_thread_name cd) ''<none>'' 31\<rparr>, \<lambda>cd. cd\<lparr>cd_thread_id := 0\<rparr>])"

definition frame_stores :: "u32 \<Rightarrow> kstate \<Rightarrow> (vibe_coredump_t \<Rightarrow> vibe_coredump_t) list" where
  "frame_stores exc s =
     (if exc \<noteq> 0 then
        [upd_regs (\<lambda>r. r\<lparr>rg_r0 := mem32 s exc\<rparr>), upd_regs (\<lambda>r. r\<lparr>rg_r1 := mem32 s (exc + 4)\<rparr>),
         upd_regs (\<lambda>r. r\<lparr>rg_r2 := mem32 s (exc + 8)\<rparr>), upd_regs (\<lambda>r. r\<lparr>rg_r3 := mem32 s (exc + 12)\<rparr>),
         upd_regs (\<lambda>r. r\<lparr>rg_r12 := mem32 s (exc + 16)\<rparr>), upd_regs (\<lambda>r. r\<lparr>rg_lr := mem32 s (exc + 20)\<rparr>),
         upd_regs (\<lambda>r. r\<lparr>rg_pc := mem32 s (exc + 24)\<rparr>), upd_regs (\<lambda>r. r\<lparr>rg_xpsr := mem32 s (exc + 28)\<rparr>)]
      else [])"

definition capture_stores ::
    "nat \<Rightarrow> (tid \<Rightarrow> u32) \<Rightarrow> u32 \<Rightarrow> u32 \<Rightarrow> u32 \<Rightarrow> u32 \<Rightarrow> fault_state \<Rightarrow> kstate \<Rightarrow> (vibe_coredump_t \<Rightarrow> vibe_coredump_t) list" where
  "capture_stores stack_size addr_of exc psp msp reason scb s =
     (let sp = (if psp \<noteq> 0 then psp else msp) in
      [\<lambda>cd. cd\<lparr>cd_magic := 0\<rparr>, \<lambda>cd. cd\<lparr>cd_version := VIBE_COREDUMP_VERSION\<rparr>, \<lambda>cd. cd\<lparr>cd_reason := reason\<rparr>,
       \<lambda>cd. cd\<lparr>cd_timestamp := vibe_tick_get s\<rparr>] @
      thread_stores addr_of s @ frame_stores exc s @
      [upd_regs (\<lambda>r. r\<lparr>rg_psp := psp\<rparr>), upd_regs (\<lambda>r. r\<lparr>rg_msp := msp\<rparr>),
       upd_regs (\<lambda>r. r\<lparr>rg_primask := PRIMASK s\<rparr>), upd_regs (\<lambda>r. r\<lparr>rg_control := CONTROL scb\<rparr>),
       upd_faults (\<lambda>f. f\<lparr>fr_cfsr := SCB_CFSR scb\<rparr>), upd_faults (\<lambda>f. f\<lparr>fr_hfsr := SCB_HFSR scb\<rparr>),
       upd_faults (\<lambda>f. f\<lparr>fr_dfsr := SCB_DFSR scb\<rparr>), upd_faults (\<lambda>f. f\<lparr>fr_mmfar := SCB_MMFAR scb\<rparr>),
       upd_faults (\<lambda>f. f\<lparr>fr_bfar := SCB_BFAR scb\<rparr>), upd_faults (\<lambda>f. f\<lparr>fr_afsr := SCB_AFSR scb\<rparr>),
       upd_stack (\<lambda>st. st\<lparr>st_sp := sp\<rparr>), upd_stack (\<lambda>st. st\<lparr>st_captured := of_nat stack_size\<rparr>)] @
      map (\<lambda>i. upd_stack (\<lambda>st. st\<lparr>st_data := (st_data st)[i := byte_at s (sp + of_nat i)]\<rparr>)) [0..<stack_size] @
      [\<lambda>cd. cd\<lparr>cd_magic := VIBE_COREDUMP_MAGIC\<rparr>, \<lambda>cd. cd\<lparr>cd_crc32 := coredump_crc cd\<rparr>])"

text \<open>The record when the power fails after \<open>k\<close> stores.\<close>

definition cut_after :: "nat \<Rightarrow> (vibe_coredump_t \<Rightarrow> vibe_coredump_t) list \<Rightarrow> vibe_coredump_t \<Rightarrow> vibe_coredump_t" where
  "cut_after k stores cd = fold (\<lambda>f. f) (take k stores) cd"

definition run_stores :: "(vibe_coredump_t \<Rightarrow> vibe_coredump_t) list \<Rightarrow> vibe_coredump_t \<Rightarrow> vibe_coredump_t" where
  "run_stores stores cd = fold (\<lambda>f. f) stores cd"

text \<open>\<^verbatim>\<open>CFSR\<close> and \<^verbatim>\<open>HFSR\<close> are cleared by writing ones.\<close>

definition vibe_coredump_capture ::
    "nat \<Rightarrow> (tid \<Rightarrow> u32) \<Rightarrow> (char \<Rightarrow> 'd \<Rightarrow> 'd) \<Rightarrow> u32 \<Rightarrow> u32 \<Rightarrow> u32 \<Rightarrow> u32 \<Rightarrow> kstate \<Rightarrow>
     vibe_coredump_t \<times> fault_state \<times> 'd \<Rightarrow> (vibe_coredump_t \<times> fault_state \<times> 'd) option" where
  "vibe_coredump_capture stack_size addr_of putc exc psp msp reason s w =
     (let (cd, scb, d) = w;
          cd = run_stores (capture_stores stack_size addr_of exc psp msp reason scb s) cd;
          scb = scb\<lparr>SCB_CFSR := SCB_CFSR scb AND NOT (SCB_CFSR scb), SCB_HFSR := SCB_HFSR scb AND NOT (SCB_HFSR scb)\<rparr>
      in do { d \<leftarrow> vibe_coredump_dump putc cd d; Some (cd, scb, d) })"

definition vibe_coredump_capture_assert ::
    "nat \<Rightarrow> (tid \<Rightarrow> u32) \<Rightarrow> (char \<Rightarrow> 'd \<Rightarrow> 'd) \<Rightarrow> string option \<Rightarrow> u32 \<Rightarrow> string option \<Rightarrow> kstate \<Rightarrow>
     vibe_coredump_t \<times> fault_state \<times> 'd \<Rightarrow> (vibe_coredump_t \<times> fault_state \<times> 'd) option" where
  "vibe_coredump_capture_assert stack_size addr_of putc file line expr s w =
     (let (cd, scb, d) = w;
          cd = cd\<lparr>cd_magic := 0, cd_reason := VIBE_COREDUMP_REASON_ASSERT\<rparr>;
          cd = upd_assert (\<lambda>a. a\<lparr>as_file := strncpy (as_file a) (case file of Some f \<Rightarrow> f | None \<Rightarrow> ''?'') 63\<rparr>) cd;
          cd = upd_assert (\<lambda>a. a\<lparr>as_file := (as_file a)[63 := CHR 0x00]\<rparr>) cd;
          cd = upd_assert (\<lambda>a. a\<lparr>as_line := line\<rparr>) cd;
          cd = upd_assert (\<lambda>a. a\<lparr>as_expr := strncpy (as_expr a) (case expr of Some e \<Rightarrow> e | None \<Rightarrow> ''?'') 63\<rparr>) cd;
          cd = upd_assert (\<lambda>a. a\<lparr>as_expr := (as_expr a)[63 := CHR 0x00]\<rparr>) cd
      in vibe_coredump_capture stack_size addr_of putc 0 0 0 VIBE_COREDUMP_REASON_ASSERT s (cd, scb, d))"

definition vibe_coredump_capture_stack_overflow ::
    "nat \<Rightarrow> (tid \<Rightarrow> u32) \<Rightarrow> (char \<Rightarrow> 'd \<Rightarrow> 'd) \<Rightarrow> string option \<Rightarrow> kstate \<Rightarrow>
     vibe_coredump_t \<times> fault_state \<times> 'd \<Rightarrow> (vibe_coredump_t \<times> fault_state \<times> 'd) option" where
  "vibe_coredump_capture_stack_overflow stack_size addr_of putc thread_name s w =
     (let (cd, scb, d) = w;
          cd = cd\<lparr>cd_magic := 0\<rparr>;
          cd = (case thread_name of
                  None \<Rightarrow> cd
                | Some nm \<Rightarrow> cd\<lparr>cd_thread_name := (strncpy (cd_thread_name cd) nm 31)[31 := CHR 0x00]\<rparr>)
      in vibe_coredump_capture stack_size addr_of putc 0 0 0 VIBE_COREDUMP_REASON_STACK_OVERFLOW s (cd, scb, d))"

text \<open>The C part of a fault entry: it spins after the capture; the result is the state in which it does.\<close>

definition fault_entry_c ::
    "nat \<Rightarrow> (tid \<Rightarrow> u32) \<Rightarrow> (char \<Rightarrow> 'd \<Rightarrow> 'd) \<Rightarrow> u32 \<Rightarrow> u32 \<Rightarrow> u32 \<Rightarrow> u32 \<Rightarrow> kstate \<Rightarrow>
     vibe_coredump_t \<times> fault_state \<times> 'd \<Rightarrow> (vibe_coredump_t \<times> fault_state \<times> 'd) option" where
  "fault_entry_c stack_size addr_of putc exc psp msp reason s w =
     vibe_coredump_capture stack_size addr_of putc exc psp msp reason s w"

text \<open>The shell command.\<close>

definition cmd_coredump :: "(char \<Rightarrow> 'd \<Rightarrow> 'd) \<Rightarrow> string list \<Rightarrow> vibe_coredump_t \<times> 'd \<Rightarrow> (int \<times> vibe_coredump_t \<times> 'd) option" where
  "cmd_coredump putc argv w =
     (let (cd, d) = w in
      if length argv \<ge> 2 then
        (if argv ! 1 = ''clear'' then
           do { d \<leftarrow> printks putc [(''coredump: record cleared.'' @ nl, [])] d; Some (0, vibe_coredump_clear cd, d) }
         else if argv ! 1 = ''status'' then
           do {
             d \<leftarrow> (case vibe_coredump_get cd of
                     Some cd \<Rightarrow>
                       printks putc [(''coredump: valid (reason=0x%x, thread='' @ qt @ ''%s'' @ qt @ '')'' @ nl,
                         [VA_Word (cd_reason cd), VA_Str (Some (c_str (cd_thread_name cd)))])] d
                   | None \<Rightarrow> printks putc [(''coredump: no valid record.'' @ nl, [])] d);
             Some (0, cd, d)
           }
         else do { d \<leftarrow> printks putc [(''Usage: coredump [clear|status]'' @ nl, [])] d; Some (- 1, cd, d) })
      else if \<not> vibe_coredump_is_valid cd then
        do { d \<leftarrow> printks putc [(''coredump: no valid record.'' @ nl, [])] d; Some (0, cd, d) }
      else do { d \<leftarrow> vibe_coredump_dump putc cd d; Some (0, cd, d) })"

section \<open>The checksum detects a changed word\<close>

lemma xor_cancel [simp]: "a XOR x = b XOR x \<longleftrightarrow> a = b" "x XOR a = x XOR b \<longleftrightarrow> a = b" for a b x :: "'a::len word"
  by (auto simp: bit_eq_iff bit_xor_iff)

text \<open>One step of the shift register, and its steps as a linear map that loses nothing.\<close>

lemma crc_bit_alt: "crc_bit c = (if odd c then drop_bit 1 c XOR 0xEDB88320 else drop_bit 1 c)"
proof (cases "odd c")
  case True
  then have "c AND 1 = 1" by (simp add: and_one_eq odd_iff_mod_2_eq_one)
  then have "- (c AND 1) = - 1" by simp
  then show ?thesis using True by (simp add: crc_bit_def)
next
  case False
  then have "c AND 1 = 0" by (simp add: and_one_eq even_iff_mod_2_eq_zero)
  then show ?thesis using False by (simp add: crc_bit_def)
qed

lemma crc_bit_top: "bit (crc_bit c) 31 \<longleftrightarrow> odd c"
  by (auto simp: crc_bit_alt bit_xor_iff bit_drop_bit_eq dest: bit_imp_le_length)

lemma crc_bit_inj: "inj crc_bit"
proof (rule injI)
  fix a b assume eq: "crc_bit a = crc_bit b"
  then have par: "odd a \<longleftrightarrow> odd b" by (metis crc_bit_top)
  have "drop_bit 1 a = drop_bit 1 b"
  proof (cases "odd a")
    case True
    with eq par have "drop_bit 1 a XOR 0xEDB88320 = drop_bit 1 b XOR 0xEDB88320" by (simp add: crc_bit_alt)
    then show ?thesis by simp
  next
    case False
    with eq par show ?thesis by (simp add: crc_bit_alt)
  qed
  then have "a div 2 = b div 2" by (simp add: drop_bit_eq_div)
  moreover have "a mod 2 = b mod 2" using par by (cases "odd a") (simp_all add: odd_iff_mod_2_eq_one even_iff_mod_2_eq_zero)
  ultimately have "a div 2 * 2 + a mod 2 = b div 2 * 2 + b mod 2" by (simp only:)
  then show "a = b" by (simp only: div_mult_mod_eq)
qed

lemma crc_bit_linear: "crc_bit (a XOR b) = crc_bit a XOR crc_bit b"
  by (auto simp: crc_bit_alt even_xor_iff drop_bit_xor xor.assoc xor.commute xor.left_commute)

lemma crc_bits_linear: "(crc_bit ^^ n) (a XOR b) = (crc_bit ^^ n) a XOR (crc_bit ^^ n) b"
  by (induction n) (simp_all add: crc_bit_linear)

lemma crc_bits_inj: "(crc_bit ^^ n) a = (crc_bit ^^ n) b \<Longrightarrow> a = b"
  using inj_fn [OF crc_bit_inj, of n] by (simp add: inj_eq)

lemma crc_bits_shift:
  assumes "n \<le> 24"
  shows "(crc_bit ^^ n) (push_bit n (ucast (b :: u8))) = ucast b"
  using assms
proof (induction n)
  case (Suc n)
  have "crc_bit (push_bit (Suc n) (ucast b)) = push_bit n (ucast b)"
  proof -
    have "drop_bit 1 (push_bit (Suc n) (ucast b)) = (push_bit n (ucast b) :: u32)"
      using Suc.prems by (intro bit_word_eqI) (auto simp: bit_drop_bit_eq bit_push_bit_iff bit_ucast_iff simp del: push_bit_Suc dest: bit_imp_le_length)
    moreover have "even (push_bit (Suc n) (ucast b) :: u32)" by simp
    ultimately show ?thesis by (simp add: crc_bit_alt del: push_bit_Suc)
  qed
  then show ?case using Suc by (simp only: funpow_Suc_right comp_apply Suc_leD)
qed simp

definition word_of4 :: "u8 \<Rightarrow> u8 \<Rightarrow> u8 \<Rightarrow> u8 \<Rightarrow> u32" where
  "word_of4 a b c d = ucast a XOR (push_bit 8 (ucast b) XOR (push_bit 16 (ucast c) XOR push_bit 24 (ucast d)))"

lemma crc_four: "fold crc_byte [a, b, c, d] s = (crc_bit ^^ 32) (s XOR word_of4 a b c d)"
proof -
  note sh = crc_bits_shift [of 8 b] crc_bits_shift [of 16 c] crc_bits_shift [of 24 d]
  have "(crc_bit ^^ 32) (s XOR word_of4 a b c d) =
      (crc_bit ^^ 8) ((crc_bit ^^ 24) (s XOR (ucast a XOR (push_bit 8 (ucast b) XOR push_bit 16 (ucast c)))) XOR ucast d)"
    using sh(3) funpow_add [of 8 24 crc_bit] by (simp add: word_of4_def crc_bits_linear xor.assoc)
  also have "(crc_bit ^^ 24) (s XOR (ucast a XOR (push_bit 8 (ucast b) XOR push_bit 16 (ucast c)))) =
      (crc_bit ^^ 8) ((crc_bit ^^ 16) (s XOR (ucast a XOR push_bit 8 (ucast b))) XOR ucast c)"
    using sh(2) funpow_add [of 8 16 crc_bit] by (simp add: crc_bits_linear xor.assoc)
  also have "(crc_bit ^^ 16) (s XOR (ucast a XOR push_bit 8 (ucast b))) = (crc_bit ^^ 8) ((crc_bit ^^ 8) (s XOR ucast a) XOR ucast b)"
    using sh(1) funpow_add [of 8 8 crc_bit] by (simp add: crc_bits_linear xor.assoc)
  finally show ?thesis by (simp add: crc_byte_def)
qed

lemma word_of4_inj: "word_of4 a b c d = word_of4 a' b' c' d' \<Longrightarrow> a = a' \<and> b = b' \<and> c = c' \<and> d = d'"
proof -
  assume eq: "word_of4 a b c d = word_of4 a' b' c' d'"
  have bits: "bit (word_of4 a b c d) i = (if i < 8 then bit a i else if i < 16 then bit b (i - 8) else if i < 24 then bit c (i - 16) else i < 32 \<and> bit d (i - 24))" for a b c d i
    by (auto simp: word_of4_def bit_xor_iff bit_push_bit_iff bit_ucast_iff not_less dest: bit_imp_le_length)
  have e: "bit (word_of4 a b c d) i = bit (word_of4 a' b' c' d') i" for i using eq by simp
  have "a = a'"
  proof (rule bit_word_eqI)
    fix i assume "i < LENGTH(8)" then show "bit a i = bit a' i" using e [of i] by (simp add: bits)
  qed
  moreover have "b = b'"
  proof (rule bit_word_eqI)
    fix i assume "i < LENGTH(8)" then show "bit b i = bit b' i" using e [of "i + 8"] by (simp add: bits)
  qed
  moreover have "c = c'"
  proof (rule bit_word_eqI)
    fix i assume "i < LENGTH(8)" then show "bit c i = bit c' i" using e [of "i + 16"] by (simp add: bits)
  qed
  moreover have "d = d'"
  proof (rule bit_word_eqI)
    fix i assume "i < LENGTH(8)" then show "bit d i = bit d' i" using e [of "i + 24"] by (simp add: bits)
  qed
  ultimately show ?thesis by simp
qed

lemma crc_byte_inj: "crc_byte b s = crc_byte b s' \<Longrightarrow> s = s'"
  by (auto simp: crc_byte_def dest: crc_bits_inj)

lemma crc_fold_inj: "fold crc_byte data s = fold crc_byte data s' \<Longrightarrow> s = s'"
  by (induction data arbitrary: s s') (auto dest: crc_byte_inj)

lemma crc32_burst:
  assumes "length u = 4" "length v = 4" "u \<noteq> v"
  shows "crc32_update crc (xs @ u @ ys) \<noteq> crc32_update crc (xs @ v @ ys)"
proof
  assume eq: "crc32_update crc (xs @ u @ ys) = crc32_update crc (xs @ v @ ys)"
  let ?s = "fold crc_byte xs (NOT crc)"
  from eq have "fold crc_byte ys (fold crc_byte u ?s) = fold crc_byte ys (fold crc_byte v ?s)"
    by (simp add: crc32_update_def)
  then have f: "fold crc_byte u ?s = fold crc_byte v ?s" by (rule crc_fold_inj)
  from assms(1,2) obtain a b c d a' b' c' d' where uv: "u = [a, b, c, d]" "v = [a', b', c', d']"
    by (auto simp: length_Suc_conv numeral_eq_Suc)
  have "?s XOR word_of4 a b c d = ?s XOR word_of4 a' b' c' d'"
    using f unfolding uv crc_four by (rule crc_bits_inj)
  then have "word_of4 a b c d = word_of4 a' b' c' d'" by simp
  with assms(3) uv show False using word_of4_inj by blast
qed

lemma crc_byte_steps: "crc_byte b c = crc_bit (crc_bit (crc_bit (crc_bit (crc_bit (crc_bit (crc_bit (crc_bit (c XOR ucast b))))))))"
  by (simp add: crc_byte_def eval_nat_numeral)

text \<open>The check value of the IEEE 802.3 checksum.\<close>

lemma crc32_check: "crc32_update 0 (char_bytes ''123456789'') = 0xCBF43926"
proof -
  have n: "NOT (0 :: u32) = 0xFFFFFFFF" by simp
  show ?thesis unfolding crc32_update_def n by (simp add: char_bytes_def crc_byte_steps crc_bit_alt)
qed

section \<open>The report can be printed\<close>

definition printable :: "printk_call \<Rightarrow> bool" where
  "printable c \<longleftrightarrow> fmt_out (fst c) (snd c) \<noteq> None"

lemma printks_returns: "\<forall>c\<in>set cs. printable c \<Longrightarrow> \<exists>d'. printks putc cs d = Some d'"
  by (induction cs arbitrary: d) (auto simp: printable_def vibe_printk_def vibe_vprintk_def fmt_core_fold)

lemma printable_lists:
  "\<forall>c\<in>set xs. printable c \<Longrightarrow> \<forall>c\<in>set ys. printable c \<Longrightarrow> \<forall>c\<in>set (xs @ ys). printable c"
  "printable x \<Longrightarrow> \<forall>c\<in>set xs. printable c \<Longrightarrow> \<forall>c\<in>set (x # xs). printable c" "\<forall>c\<in>set []. printable c"
  by auto

lemma fmt_core_plain: "CHR ''%'' \<notin> set fmt \<Longrightarrow> fmt_core append_char fmt args s \<noteq> None"
  by (induction fmt arbitrary: s) auto

lemma printable_plain: "CHR ''%'' \<notin> set fmt \<Longrightarrow> printable (fmt, args)"
  using fmt_core_plain by (simp add: printable_def fmt_out_def)

lemma bit_lines_printable:
  "\<forall>e\<in>set tab. CHR ''%'' \<notin> set (snd e) \<Longrightarrow> c \<in> set (bit_lines w tab) \<Longrightarrow> printable c"
  by (auto simp: bit_lines_def intro: printable_plain)

lemma fmt_core_append_plain:
  "CHR ''%'' \<notin> set p \<Longrightarrow> fmt_core append_char (p @ q) args s = fmt_core append_char q args (s @ p)"
  by (induction p arbitrary: s) (auto simp: append_char_def)

lemmas fmt_eval = printable_def fmt_out_def fmt_conv_def nl_def qt_def emdash_def

lemma report_printable:
  "\<forall>c\<in>set (report_header cd). printable c" "\<forall>c\<in>set (report_regs r). printable c"
  by (auto simp: report_header_def report_regs_def rule_line_def fmt_eval numeral_eq_Suc)

lemma decode_printable: "\<forall>c\<in>set (decode_cfsr w). printable c" "\<forall>c\<in>set (decode_hfsr w). printable c"
proof -
  have hd: "printable (''  CFSR = 0x%08x'' @ nl, [VA_Word w])" "printable (''  HFSR = 0x%08x'' @ nl, [VA_Word w])"
      "printable (''    [MMFSR]'' @ nl, [])" "printable (''    [BFSR]'' @ nl, [])" "printable (''    [UFSR]'' @ nl, [])"
    by (simp_all add: fmt_eval)
  then show "\<forall>c\<in>set (decode_cfsr w). printable c" "\<forall>c\<in>set (decode_hfsr w). printable c"
    unfolding decode_cfsr_def decode_hfsr_def
    by (auto simp: nl_def emdash_def elim!: bit_lines_printable [rotated])
qed

lemma faults_printable: "\<forall>c\<in>set (report_faults f). printable c"
proof -
  have "printable (''  MMFAR = 0x%08x  (MemManage fault address)'' @ nl, [VA_Word w])"
      "printable (''  BFAR  = 0x%08x  (BusFault address)'' @ nl, [VA_Word w])"
      "printable (nl @ ''--- Fault Status Registers ---'' @ nl, [])" for w
    by (simp_all add: fmt_eval)
  then show ?thesis using decode_printable(1) [of "fr_cfsr f"] decode_printable(2) [of "fr_hfsr f"]
    unfolding report_faults_def set_append ball_Un by simp
qed

lemma cells_printable:
  assumes "\<And>j. j \<in> set js \<Longrightarrow> \<exists>cs. f j = Some cs \<and> (\<forall>c\<in>set cs. printable c)"
  shows "\<exists>cs. cells f js = Some cs \<and> (\<forall>c\<in>set cs. printable c)"
  using assms by (induction js) fastforce+

lemma cell_printable:
  assumes "unat n \<le> length (st_data st)"
  shows "\<exists>cs. hex_cell st n i j = Some cs \<and> (\<forall>c\<in>set cs. printable c)"
    "\<exists>cs. ascii_cell st n i j = Some cs \<and> (\<forall>c\<in>set cs. printable c)"
proof -
  have "i + of_nat j < n \<Longrightarrow> \<exists>b. stack_byte st (i + of_nat j) = Some b"
    using assms by (simp add: stack_byte_def word_less_nat_alt)
  then show "\<exists>cs. hex_cell st n i j = Some cs \<and> (\<forall>c\<in>set cs. printable c)"
    "\<exists>cs. ascii_cell st n i j = Some cs \<and> (\<forall>c\<in>set cs. printable c)"
    by (auto simp: hex_cell_def ascii_cell_def fmt_eval)
qed

lemma dump_lines_printable:
  assumes "unat n \<le> length (st_data st)" "unat n + 16 < 2 ^ 32" "unat i \<le> unat n + 15"
  shows "\<exists>cs. dump_lines st n i = Some cs \<and> (\<forall>c\<in>set cs. printable c)"
  using assms(3)
proof (induction "unat n + 16 - unat i" arbitrary: i rule: less_induct)
  case less
  show ?case
  proof (cases "i < n")
    case True
    then have i16: "unat (i + 16) = unat i + 16" using assms(2) by (intro unat_plus_u32 [of i 16, simplified]) (simp add: word_less_nat_alt)
    moreover have "unat i < unat n" using True by (simp add: word_less_nat_alt)
    ultimately have "unat n + 16 - unat (i + 16) < unat n + 16 - unat i" "unat (i + 16) \<le> unat n + 15" by linarith+
    from less.hyps [OF this] obtain rest where
      r: "dump_lines st n (i + 16) = Some rest" "\<forall>c\<in>set rest. printable c" by blast
    from cells_printable [of "[0..<16]" "hex_cell st n i"] cell_printable(1) [OF assms(1)] obtain hex where
      h: "cells (hex_cell st n i) [0..<16] = Some hex" "\<forall>c\<in>set hex. printable c" by blast
    from cells_printable [of "takeWhile (\<lambda>j. i + of_nat j < n) [0..<16]" "ascii_cell st n i"] cell_printable(2) [OF assms(1)] obtain asc where
      a: "cells (ascii_cell st n i) (takeWhile (\<lambda>j. i + of_nat j < n) [0..<16]) = Some asc" "\<forall>c\<in>set asc. printable c" by blast
    have l: "printable (''  %08x: '', [VA_Word (st_sp st + i)])" "printable ('' |'', [])" "printable (''|'' @ nl, [])"
      by (simp_all add: fmt_eval)
    show ?thesis
      using True h a r l by (subst dump_lines.simps) (auto simp del: upt_rec_numeral)
  qed (simp add: dump_lines.simps)
qed

lemma dump_returns:
  assumes "unat (st_captured (cd_stack cd)) \<le> length (st_data (cd_stack cd))" "unat (st_captured (cd_stack cd)) + 16 < 2 ^ 32"
  shows "\<exists>d'. vibe_coredump_dump putc cd d = Some d'"
proof -
  obtain ls where ls: "dump_lines (cd_stack cd) (st_captured (cd_stack cd)) 0 = Some ls" "\<forall>c\<in>set ls. printable c"
    using dump_lines_printable [OF assms, of 0] by auto
  have h: "printable (''  Stack at SP=0x%08x  (%u bytes captured)'' @ nl, [VA_Word a, VA_Word b])"
      "printable (nl @ ''--- Stack Snapshot ---'' @ nl, [])" "printable (rule_line @ nl, [])"
      "printable (''[coredump] No valid coredump found.'' @ nl, [])" for a b
    by (simp_all add: fmt_eval rule_line_def numeral_eq_Suc)
  note all = report_printable(1) [of cd] report_printable(2) [of "cd_regs cd"] faults_printable [of "cd_fault_regs cd"] h ls(2)
  let ?snap = "(''  Stack at SP=0x%08x  (%u bytes captured)'' @ nl, [VA_Word (st_sp (cd_stack cd)), VA_Word (st_captured (cd_stack cd))]) # ls"
  let ?calls = "report_header cd @ report_regs (cd_regs cd) @ report_faults (cd_fault_regs cd) @
    [(nl @ ''--- Stack Snapshot ---'' @ nl, [])] @ ?snap @ [(rule_line @ nl, [])]"
  have "\<forall>c\<in>set ?calls. printable c" 
    by (intro printable_lists all)
  from printks_returns [OF this, of putc d] obtain d1 where d1: "printks putc ?calls d = Some d1" ..
  have "\<forall>c\<in>set [(''[coredump] No valid coredump found.'' @ nl, [])]. printable c" by (intro printable_lists h)
  from printks_returns [OF this, of putc d] obtain d2 where
    d2: "printks putc [(''[coredump] No valid coredump found.'' @ nl, [])] d = Some d2" ..
  have s: "dump_stack (cd_stack cd) = Some ?snap" by (simp only: dump_stack_def ls(1) Option.bind.bind_lunit)
  show ?thesis
  proof (cases "vibe_coredump_is_valid cd")
    case True
    have "vibe_coredump_dump putc cd d = Some d1"
      by (simp only: vibe_coredump_dump_def s Option.bind.bind_lunit True not_True_eq_False if_False d1)
    then show ?thesis ..
  next
    case False
    have "vibe_coredump_dump putc cd d = Some d2" by (simp only: vibe_coredump_dump_def False not_False_eq_True if_True d2)
    then show ?thesis ..
  qed
qed


section \<open>The stores of a capture\<close>

text \<open>The stores between the invalidation and the seal leave the magic number alone.\<close>

definition keeps_magic :: "(vibe_coredump_t \<Rightarrow> vibe_coredump_t) \<Rightarrow> bool" where
  "keeps_magic f \<longleftrightarrow> (\<forall>cd. cd_magic (f cd) = cd_magic cd)"

lemma fold_keeps_magic: "\<forall>f\<in>set fs. keeps_magic f \<Longrightarrow> cd_magic (fold (\<lambda>f. f) fs cd) = cd_magic cd"
  by (induction fs arbitrary: cd) (auto simp: keeps_magic_def)

lemma capture_shape:
  obtains mid where "capture_stores n addr_of exc psp msp reason scb s =
      (\<lambda>cd. cd\<lparr>cd_magic := 0\<rparr>) # mid @ [\<lambda>cd. cd\<lparr>cd_magic := VIBE_COREDUMP_MAGIC\<rparr>, \<lambda>cd. cd\<lparr>cd_crc32 := coredump_crc cd\<rparr>]"
    "\<forall>f\<in>set mid. keeps_magic f"
proof -
  have "\<forall>f\<in>set (thread_stores addr_of s @ frame_stores exc s). keeps_magic f"
    by (auto simp: thread_stores_def frame_stores_def keeps_magic_def split: option.splits if_splits)
  then show thesis by (intro that) (auto simp: capture_stores_def Let_def keeps_magic_def)
qed

lemma data_stores:
  assumes "k \<le> length (st_data (cd_stack cd))"
  shows "fold (\<lambda>f. f) (map (\<lambda>i. upd_stack (\<lambda>st. st\<lparr>st_data := (st_data st)[i := g i]\<rparr>)) [0..<k]) cd =
    upd_stack (\<lambda>st. st\<lparr>st_data := map g [0..<k] @ drop k (st_data st)\<rparr>) cd"
  using assms
proof (induction k)
  case (Suc k)
  then have "(map g [0..<k] @ drop k (st_data (cd_stack cd)))[k := g k] = map g [0..<Suc k] @ drop (Suc k) (st_data (cd_stack cd))"
    by (simp add: list_update_append Cons_nth_drop_Suc [symmetric] del: Cons_nth_drop_Suc)
  with Suc show ?case by simp
qed simp

lemma thread_stores_frame:
  fixes cd addr_of s
  defines "cd' \<equiv> fold (\<lambda>f. f) (thread_stores addr_of s) cd"
  shows "cd_magic cd' = cd_magic cd" "cd_version cd' = cd_version cd" "cd_reason cd' = cd_reason cd" "cd_timestamp cd' = cd_timestamp cd"
    "cd_regs cd' = cd_regs cd" "cd_fault_regs cd' = cd_fault_regs cd" "cd_stack cd' = cd_stack cd"
  by (simp_all add: cd'_def thread_stores_def split: option.split)

lemma frame_stores_frame:
  fixes cd exc s
  defines "cd' \<equiv> fold (\<lambda>f. f) (frame_stores exc s) cd"
  shows "cd_magic cd' = cd_magic cd" "cd_version cd' = cd_version cd" "cd_reason cd' = cd_reason cd" "cd_timestamp cd' = cd_timestamp cd"
    "cd_thread_name cd' = cd_thread_name cd" "cd_fault_regs cd' = cd_fault_regs cd" "cd_stack cd' = cd_stack cd"
    "exc \<noteq> 0 \<Longrightarrow> rg_pc (cd_regs cd') = mem32 s (exc + 24) \<and> rg_lr (cd_regs cd') = mem32 s (exc + 20)"
  by (simp_all add: cd'_def frame_stores_def)

lemma crc_ignores_crc: "coredump_crc (cd\<lparr>cd_crc32 := c\<rparr>) = coredump_crc cd"
  by (simp add: coredump_crc_def coredump_bytes_def)

lemma run_capture:
  fixes cd :: vibe_coredump_t and n addr_of exc psp msp reason scb s
  defines "cd' \<equiv> run_stores (capture_stores n addr_of exc psp msp reason scb s) cd"
  assumes "length (st_data (cd_stack cd)) = n"
  shows "vibe_coredump_is_valid cd'" "cd_reason cd' = reason" "cd_timestamp cd' = vibe_tick_get s"
    "exc \<noteq> 0 \<Longrightarrow> rg_pc (cd_regs cd') = mem32 s (exc + 24) \<and> rg_lr (cd_regs cd') = mem32 s (exc + 20)"
    "st_captured (cd_stack cd') = of_nat n"
    "st_data (cd_stack cd') = map (\<lambda>i. byte_at s ((if psp \<noteq> 0 then psp else msp) + of_nat i)) [0..<n]"
  using assms(2)
  by (simp_all add: cd'_def run_stores_def capture_stores_def Let_def data_stores thread_stores_frame frame_stores_frame
      vibe_coredump_is_valid_def crc_ignores_crc)

section \<open>Properties\<close>


definition demo_cd :: vibe_coredump_t where
  "demo_cd = \<lparr>cd_magic = 0x11111111, cd_version = 7, cd_reason = 0, cd_timestamp = 0, cd_thread_name = replicate 32 (CHR ''a''), cd_thread_id = 0,
     cd_regs = \<lparr>rg_r0 = 0, rg_r1 = 0, rg_r2 = 0, rg_r3 = 0, rg_r12 = 0, rg_lr = 0, rg_pc = 0, rg_xpsr = 0, rg_r4 = 0, rg_r5 = 0, rg_r6 = 0,
       rg_r7 = 0, rg_r8 = 0, rg_r9 = 0, rg_r10 = 0, rg_r11 = 0, rg_psp = 0, rg_msp = 0, rg_primask = 0, rg_control = 0\<rparr>,
     cd_fault_regs = \<lparr>fr_cfsr = 0, fr_hfsr = 0, fr_dfsr = 0, fr_mmfar = 0, fr_bfar = 0, fr_afsr = 0\<rparr>,
     cd_stack = \<lparr>st_sp = 0, st_captured = 0, st_data = replicate 4 0\<rparr>,
     cd_assert_info = \<lparr>as_file = replicate 64 (CHR 0x00), as_line = 0, as_expr = replicate 64 (CHR 0x00)\<rparr>, cd_crc32 = 0\<rparr>"

definition demo_scb :: fault_state where
  "demo_scb = \<lparr>SCB_CFSR = 0x8200, SCB_HFSR = 0x40000000, SCB_DFSR = 0, SCB_MMFAR = 0, SCB_BFAR = 0x50000000, SCB_AFSR = 0, CONTROL = 2\<rparr>"

abbreviation demo_stores :: "kstate \<Rightarrow> (vibe_coredump_t \<Rightarrow> vibe_coredump_t) list" where
  "demo_stores s \<equiv> capture_stores 4 (\<lambda>t. 0x20000000) 0x20001000 0x20001000 0 VIBE_COREDUMP_REASON_BUS_FAULT demo_scb s"

lemma demo_cd_data: "length (st_data (cd_stack demo_cd)) = 4"
  by (simp add: demo_cd_def)

lemma demo_cd_valid: "vibe_coredump_is_valid (run_stores (demo_stores s) demo_cd)"
  by (rule run_capture(1) [OF demo_cd_data])


text \<open>
  C39: Corruption of the stored record is detected. When any four consecutive bytes of a valid record are altered, in whatever way, or the stored checksum is,
  the record is no longer valid.
\<close>

theorem corruption_detected:
  assumes "vibe_coredump_is_valid cd" "coredump_bytes cd = xs @ u @ ys" "coredump_bytes cd' = xs @ v @ ys"
    and "length u = 4" "length v = 4" "u \<noteq> v" "cd_crc32 cd' = cd_crc32 cd"
  shows "\<not> vibe_coredump_is_valid cd' \<and> (\<forall>c. c \<noteq> cd_crc32 cd \<longrightarrow> \<not> vibe_coredump_is_valid (cd\<lparr>cd_crc32 := c\<rparr>))"
proof -
  have "cd_crc32 cd = coredump_crc cd" using assms(1) by (auto simp: vibe_coredump_is_valid_def split: if_splits)
  moreover have "coredump_crc cd' \<noteq> coredump_crc cd"
    using crc32_burst [OF assms(4-6), of 0 xs ys] assms(2,3) by (simp add: coredump_crc_def)
  ultimately show ?thesis using assms(7) by (auto simp: vibe_coredump_is_valid_def crc_ignores_crc)
qed

theorem corruption_detected_witness:
  "\<forall>s. \<not> vibe_coredump_is_valid ((run_stores (demo_stores s) demo_cd)\<lparr>cd_version := 9\<rparr>)"
proof
  fix s
  let ?cd = "run_stores (demo_stores s) demo_cd"
  let ?ys = "drop 8 (coredump_bytes ?cd)"
  have v: "cd_version ?cd = 1" using demo_cd_valid [of s] by (auto simp: vibe_coredump_is_valid_def VIBE_COREDUMP_VERSION_def split: if_splits)
  have "coredump_bytes ?cd = le32 (cd_magic ?cd) @ le32 1 @ ?ys" by (simp add: coredump_bytes_def le32_def v)
  moreover have "coredump_bytes (?cd\<lparr>cd_version := 9\<rparr>) = le32 (cd_magic ?cd) @ le32 9 @ ?ys" by (simp add: coredump_bytes_def le32_def)
  ultimately show "\<not> vibe_coredump_is_valid (?cd\<lparr>cd_version := 9\<rparr>)"
    using corruption_detected [OF demo_cd_valid, of s "le32 (cd_magic ?cd)" "le32 1" ?ys "?cd\<lparr>cd_version := 9\<rparr>" "le32 9"]
    by (simp add: le32_def)
qed

text \<open>
  The notice at boot does not survive a stored crash. The format of \<^verbatim>\<open>vibe_coredump_init\<close> uses \<^verbatim>\<open>%08x\<close>, which the formatter does not know: it prints
  the two characters and consumes no argument, so the following \<^verbatim>\<open>%s\<close> takes the reason word as a string pointer. On a valid record the call never returns
  normally.
\<close>

theorem coredump_init_faults:
  assumes "vibe_coredump_is_valid cd"
  shows "vibe_coredump_init putc cd d = None"
proof -
  let ?f = "''[coredump]     reason=0x%08x  thread='' @ qt @ ''%s'' @ qt @ ''  tick=%u'' @ nl"
  have "fmt_out ?f [VA_Word a, VA_Str b, VA_Word c] = None" for a b c by (simp add: fmt_out_def fmt_conv_def qt_def nl_def)
  then show ?thesis using assms
    by (simp add: vibe_coredump_init_def vibe_printk_def vibe_vprintk_def fmt_core_fold bind_eq_None_conv)
qed

theorem coredump_init_faults_witness:
  "\<forall>s. vibe_coredump_is_valid (run_stores (demo_stores s) demo_cd) \<and>
     vibe_coredump_init append_char (run_stores (demo_stores s) demo_cd) [] = None"
  by (intro allI conjI demo_cd_valid coredump_init_faults)

end
