(* ===== verification/Spec2Isabelle.thy ===== *)
theory Spec2Isabelle
  imports Vibe_System Vibe_Mutex Vibe_Msgq Vibe_Pipe Vibe_Ring_Buffer Vibe_Event Vibe_Mem_Pool Vibe_Boot Vibe_Heap_Api Vibe_Async Vibe_Drivers Vibe_Coredump
begin

text \<open>
  \<^bold>\<open>A verification of VibeRTOS\<close>

  VibeRTOS is a preemptive real-time kernel for Cortex-M in C. This development models its kernel, its libraries and its
  subsystems as executable HOL definitions that follow the C functions statement by statement, and proves what makes each of them
  correct.

  \<^bold>\<open>The program and how its parts interact.\<close>
  Threads are scheduled by priority from 32 run queues, intrusive doubly linked lists with a bitmap of the queues in use
  (\<^verbatim>\<open>kernel/sched.c\<close>, \<^verbatim>\<open>kernel/thread.c\<close>). The system tick (\<^verbatim>\<open>kernel/init.c\<close>) advances timers (\<^verbatim>\<open>kernel/timer.c\<close>), wakes sleepers,
  rotates time slices and asks for a context switch, which the port (\<^verbatim>\<open>arch/arm/cortex_m\<close>) performs in PendSV. The synchronisation objects
  (semaphore, mutex, message queue, pipe, event flags, memory pool) all block and wake threads in the same way; work queues are threads that take work
  items counted by a semaphore. Beside the kernel stand three heaps, a byte ring, a cooperative job scheduler, formatted output, logging,
  the RTT console, a shell and the crash record. \<^verbatim>\<open>vibe_init\<close> brings all of this up.

  \<^bold>\<open>The theories\<close>, each with the sources it follows:
  \<^item> \<open>Vibe_Prelude\<close>: word types, the compiler builtins, ring indices, and the shared lemmas and theorem collections.
  \<^item> \<open>Vibe_List\<close> (\<^verbatim>\<open>include/vibe/sys/list.h\<close>): the list operations on link stores; \<open>dll\<close> relates a header and a store to a HOL list; the locale
    \<open>node_list\<close> is the contract.
  \<^item> \<open>Vibe_Kernel\<close>, \<open>Vibe_Sched\<close>, \<open>Vibe_Thread\<close>, \<open>Vibe_Wait\<close>, \<open>Vibe_Start\<close>: the kernel state as one record (\<open>kstate\<close>, with the static variables of the C files
    under their names), the scheduler, thread lifecycle, blocking and waking, and the start. \<open>live_inv\<close> and \<open>kernel_inv\<close> tie the pointers to
    one list per priority and a sorted list of sleepers.
  \<^item> \<open>Vibe_Timer\<close> (\<^verbatim>\<open>kernel/timer.c\<close>, the tick handler), \<open>Vibe_System\<close>: the kernel as a transition system, one step per API call or
    tick; its properties hold in every reachable state.
  \<^item> \<open>Vibe_Port\<close> (\<^verbatim>\<open>core/irq.c\<close>, \<^verbatim>\<open>core/mpu.c\<close>), \<open>Vibe_Boot\<close> (\<^verbatim>\<open>kernel/init.c\<close>, \<^verbatim>\<open>idle.c\<close>, \<^verbatim>\<open>trace.c\<close>, \<^verbatim>\<open>smp.c\<close>, \<^verbatim>\<open>device.h\<close>): device registers, the device
    walker, and the boot sequence composed of the other theories.
  \<^item> \<open>Vibe_Sem\<close>, \<open>Vibe_Mutex\<close>, \<open>Vibe_Msgq\<close>, \<open>Vibe_Pipe\<close>, \<open>Vibe_Event\<close>, \<open>Vibe_Workq\<close>, \<open>Vibe_Mem_Pool\<close>: the files of the same name under \<^verbatim>\<open>kernel/\<close>.
  \<^item> \<open>Vibe_Irq\<close> (\<^verbatim>\<open>kernel/spinlock.c\<close>), \<open>Vibe_Mem\<close>: locks, and byte-addressed memory for the allocators.
  \<^item> \<open>Vibe_Fifo\<close>: the locale \<open>bounded_fifo\<close>, the contract of a bounded queue with its client lemma over all sequences of operations; the message queue, the
    byte ring and the log ring interpret it.
  \<^item> \<open>Vibe_Heap\<close> (\<^verbatim>\<open>lib/heap\<close>, first fit and best fit over the locale \<open>fit_policy\<close>), \<open>Vibe_Ring_Buffer\<close>, \<open>Vibe_Jobs\<close>,
    \<open>Vibe_Async\<close> (\<^verbatim>\<open>lib/async/async.h\<close>): the libraries.
  \<^item> \<open>Vibe_Tlsf\<close> (\<^verbatim>\<open>lib/heap/heap_tlsf.c\<close>: the model, size classes, free lists and their bitmaps, the search), \<open>Vibe_Tlsf_Pool\<close> (the chain of headers, taking and splitting a
    block), \<open>Vibe_Tlsf_Free\<close> (merging), \<open>Vibe_Tlsf_Heap\<close> (the calls). \<open>tl_ok\<close> ties the headers in memory, the lists and the bitmaps to one list of blocks.
  \<^item> \<open>Vibe_Heap_Api\<close>: the locale \<open>heap_api\<close>, the contract of \<^verbatim>\<open>vibe/heap.h\<close>, with its client lemma over all programs of allocations, releases and writes; the three
    allocators interpret it.
  \<^item> \<open>Vibe_Printk\<close> (\<^verbatim>\<open>kernel/init.c\<close>, locale \<open>emitter\<close>), \<open>Vibe_Log\<close>, \<open>Vibe_Rtt\<close>, \<open>Vibe_Shell\<close>, \<open>Vibe_Shell_Cmds\<close> (the built-in commands), \<open>Vibe_Coredump\<close>: output and
    the subsystems.
  \<^item> \<open>Vibe_Drivers\<close>: the GPIO callback table, the UART driver as shipped under the shell, and the console of the emulated board
    (\<^verbatim>\<open>soc/arm/arm/mps2_an386/soc.c\<close>), which delivers every character in order on hardware that makes room.

  \<^bold>\<open>Conventions.\<close>
  A machine integer is a word of its width, so arithmetic wraps as in C. A pointer to a kernel object is an identifier, \<^verbatim>\<open>NULL\<close> is
  \<^term>\<open>None\<close>; where the code keeps data inside the memory it manages (heaps, pools, the event context, stacks) a pointer is an address and
  the memory is explicit, so overlaps have the effect they have in C. Kconfig options are arguments. An optional result is \<^term>\<open>None\<close> where the
  code does not return or its behaviour is undefined: a \<^verbatim>\<open>NULL\<close> dereference, an index out of bounds, an endless loop; a property
  that a call works states that the result is \<^term>\<open>Some\<close>. A call that may block is cut at its \<^verbatim>\<open>_vibe_sched_reschedule()\<close>: the first part
  ends in \<open>Suspended\<close> and the second part is what the thread runs when it is scheduled again. Code that is not part of the repository, or that
  the application supplies (timer callbacks, work handlers, driver init functions, the console hook, shell commands, the dynamic allocator), is an argument.
  Loops that may not end are partial functions into options; no property rests on a bound chosen for the model.

  \<^bold>\<open>What is shown.\<close>
  \<^item> Scheduling: in every reachable state the run queues hold exactly the runnable threads, the best of them runs after a reschedule, sleepers wake on the tick they asked for, and a new thread's
    stack is laid out as the context switch expects.
  \<^item> Boot: every device is initialised once and in order, and the system ends up with its invariants in the scheduler.
  \<^item> Synchronisation: each object refines its abstract counterpart (tokens and waiters, owner and depth, a queue of messages, a stream of bytes, sets of flags), and wakes the
    thread its documentation names.
  \<^item> Time: timers and delayed work fire on the tick they were set for, once or periodically.
  \<^item> Memory: the heaps and pools hand out disjoint blocks, keep the contents of the blocks in use, and take blocks back; over any of the three heaps a program's buffers
    behave as independent arrays.
  \<^item> Data structures and output: the byte ring, the RTT channels and the log ring are first-in first-out; numbers print so that they read back; buffers are never overrun; the
    shell's tokeniser splits like the obvious specification; a job run ends and follows the priorities; a coroutine
    behaves as a thread that keeps what it has left to do.
  \<^item> Crash record: an interrupted capture is never taken for a valid one, and a corrupted record is detected.

  Where the code does not do what it means to do, the theories prove what it does instead (among others \<open>mutex_lock_head_fault\<close>, \<open>mutex_boost_drops_queue\<close>,
  \<open>sem_take_locked_returns_ok\<close>, \<open>timer_self_restart_lost\<close>, \<open>event_wait_past_stack\<close>, \<open>mem_pool_init_overrun\<close>, \<open>heap_alloc_wraps\<close>, \<open>tlsf_remainder_not_merged\<close>, \<open>coredump_init_faults\<close>,
  \<open>level_none_enables_all\<close>).

  \<^bold>\<open>Not modelled.\<close>
  The assembly files (reset, the register save and restore of PendSV, the fault trampolines) are below the level of the C sources; the model ends
  where the port requests PendSV. The other drivers (SPI, I2C, ADC, flash, RTC, hardware timer, watchdog) and the
  RP2040 and RP2350 clock setup are stubs that answer \<^verbatim>\<open>VIBE_ENOSYS\<close> or print a warning until a port fills them in. The samples and the emulation application are clients of the
  interface. \<^verbatim>\<open>lib/heap/heap.c\<close> is a copy that the build does not compile.
  The interleaving of an
  interrupt with the middle of a critical section is excluded by the interrupt lock that the code takes there; interrupts between such sections are the
  steps of \<open>Vibe_System\<close>. A second core is not modelled: the port's multi-core functions are stubs.
\<close>

end
